(* ===== verification/Prelude.thy ===== *)
theory Prelude
  imports Main "HOL-Library.Word"
begin

text \<open>
  What every component shares: names for the C integer types, the outcome of a kernel
  call (a value, a panic, a fault, or a call that cannot go on before another thread
  acts), the state monad with outcomes in which the kernel code is written, loops over
  index lists, byte arrays with little-endian access, and the collections of rewrite
  rules the component proofs use.
\<close>

unbundle bit_operations_syntax

type_synonym u8 = "8 word"
type_synonym u16 = "16 word"
type_synonym u32 = "32 word"
type_synonym u64 = "64 word"

named_theorems kmonad \<open>unfolding rules of the kernel monad\<close>
named_theorems ksteps \<open>conditional equations that execute one kernel call\<close>

section \<open>Outcomes and the kernel monad\<close>

text \<open>
  \<open>Panic\<close> carries the message of the source's \<open>panic\<close>; \<open>Fault\<close> is a dereference of a
  null or dangling pointer (the kernel maps no page at address 0); \<open>Blocked\<close> is a call
  that spins or sleeps until another hart, process or device acts.
\<close>

datatype 'a outcome = Ok 'a | Panic string | Fault | Blocked

type_synonym ('s, 'a) K = "'s \<Rightarrow> ('a \<times> 's) outcome"

definition ret :: "'a \<Rightarrow> ('s, 'a) K" where
  "ret x = (\<lambda>s. Ok (x, s))"

definition bnd :: "('s, 'a) K \<Rightarrow> ('a \<Rightarrow> ('s, 'b) K) \<Rightarrow> ('s, 'b) K" where
  "bnd m f = (\<lambda>s. case m s of
       Ok r \<Rightarrow> f (fst r) (snd r)
     | Panic e \<Rightarrow> Panic e
     | Fault \<Rightarrow> Fault
     | Blocked \<Rightarrow> Blocked)"

definition gets :: "('s \<Rightarrow> 'a) \<Rightarrow> ('s, 'a) K" where
  "gets f = (\<lambda>s. Ok (f s, s))"

definition modify :: "('s \<Rightarrow> 's) \<Rightarrow> ('s, unit) K" where
  "modify f = (\<lambda>s. Ok ((), f s))"

definition panic :: "string \<Rightarrow> ('s, 'a) K" where
  "panic e = (\<lambda>s. Panic e)"

definition fault :: "('s, 'a) K" where
  "fault = (\<lambda>s. Fault)"

definition blocked :: "('s, 'a) K" where
  "blocked = (\<lambda>s. Blocked)"

definition whenK :: "bool \<Rightarrow> ('s, unit) K \<Rightarrow> ('s, unit) K" where
  "whenK c m = (if c then m else ret ())"

text \<open>
  \<open>forK\<close> runs a body for every index of a list; \<open>untilK\<close> is the loop with an early exit,
  whose body says \<open>Some\<close> to leave the loop with a value.
\<close>

primrec forK :: "('b \<Rightarrow> ('s, unit) K) \<Rightarrow> 'b list \<Rightarrow> ('s, unit) K" where
  "forK f [] = ret ()"
| "forK f (x # xs) = bnd (f x) (\<lambda>_. forK f xs)"

primrec untilK :: "('b \<Rightarrow> ('s, 'a option) K) \<Rightarrow> 'b list \<Rightarrow> ('s, 'a option) K" where
  "untilK f [] = ret None"
| "untilK f (x # xs) =
     bnd (f x) (\<lambda>r. case r of None \<Rightarrow> untilK f xs | Some y \<Rightarrow> ret (Some y))"

lemma ret_apply [simp, kmonad]: "ret x s = Ok (x, s)"
  by (simp add: ret_def)

lemma gets_apply [simp, kmonad]: "gets f s = Ok (f s, s)"
  by (simp add: gets_def)

lemma modify_apply [simp, kmonad]: "modify f s = Ok ((), f s)"
  by (simp add: modify_def)

lemma panic_apply [simp, kmonad]: "panic e s = Panic e"
  by (simp add: panic_def)

lemma fault_apply [simp, kmonad]: "fault s = Fault"
  by (simp add: fault_def)

lemma blocked_apply [simp, kmonad]: "blocked s = Blocked"
  by (simp add: blocked_def)

lemma bnd_apply [kmonad]:
  "bnd m f s = (case m s of Ok r \<Rightarrow> f (fst r) (snd r)
     | Panic e \<Rightarrow> Panic e | Fault \<Rightarrow> Fault | Blocked \<Rightarrow> Blocked)"
  by (simp add: bnd_def)

lemma bnd_Ok: "m s = Ok (x, s') \<Longrightarrow> bnd m f s = f x s'"
  by (simp add: bnd_def)

lemma bnd_ret_left [simp]: "bnd (ret x) f = f x"
  by (simp add: bnd_def fun_eq_iff)

lemma bnd_panic [simp]: "bnd (panic e) f = panic e"
  by (simp add: bnd_def panic_def fun_eq_iff)

lemma bnd_assoc: "bnd (bnd m f) g = bnd m (\<lambda>x. bnd (f x) g)"
  by (auto simp: bnd_def fun_eq_iff split: outcome.splits)

lemma whenK_True [simp]: "whenK True m = m" and whenK_False [simp]: "whenK False m = ret ()"
  by (simp_all add: whenK_def)

lemma bnd_OkE:
  assumes "bnd m f s = Ok (y, t)"
  obtains x s' where "m s = Ok (x, s')" and "f x s' = Ok (y, t)"
  using assms by (auto simp: bnd_def split: outcome.splits)

lemma forK_append: "forK f (xs @ ys) = bnd (forK f xs) (\<lambda>_. forK f ys)"
  by (induction xs) (simp_all add: bnd_assoc del: ret_apply)

text \<open>A loop whose body always succeeds computes the fold of its effects.\<close>

lemma forK_fold:
  assumes "\<And>x s. x \<in> set xs \<Longrightarrow> P s \<Longrightarrow> f x s = Ok ((), g x s) \<and> P (g x s)"
    and "P s"
  shows "forK f xs s = Ok ((), fold g xs s) \<and> P (fold g xs s)"
  using assms
proof (induction xs arbitrary: s)
  case Nil
  then show ?case by simp
next
  case (Cons x xs)
  then have "f x s = Ok ((), g x s)" and "P (g x s)" by auto
  moreover have "forK f xs (g x s) = Ok ((), fold g xs (g x s)) \<and> P (fold g xs (g x s))"
    by (rule Cons.IH) (use Cons.prems \<open>P (g x s)\<close> in auto)
  ultimately show ?case by (simp add: bnd_Ok)
qed

text \<open>Counting loops, by the state or by an invariant after each round.\<close>

lemma forK_upt:
  assumes "\<And>k. k < n \<Longrightarrow> f k (g k) = Ok ((), g (Suc k))"
  shows "forK f [0..<n] (g 0) = Ok ((), g n)"
  using assms by (induction n) (simp_all add: forK_append bnd_Ok)

lemma forK_inv:
  assumes "P 0 s" and "\<And>k t. k < n \<Longrightarrow> P k t \<Longrightarrow> \<exists>t'. f k t = Ok ((), t') \<and> P (Suc k) t'"
  shows "\<exists>t. forK f [0..<n] s = Ok ((), t) \<and> P n t"
  using assms(2)
proof (induction n)
  case 0
  with assms(1) show ?case by simp
next
  case (Suc n)
  then obtain t where "forK f [0..<n] s = Ok ((), t)" and "P n t" by fastforce
  moreover then obtain t' where "f n t = Ok ((), t')" and "P (Suc n) t'" using Suc.prems by blast
  ultimately show ?case by (auto simp: forK_append bnd_Ok)
qed

lemma untilK_inv:
  assumes "P a s"
    and "\<And>k t. a \<le> k \<Longrightarrow> k < n \<Longrightarrow> P k t \<Longrightarrow>
      (\<exists>t'. f k t = Ok (None, t') \<and> P (Suc k) t') \<or> (\<exists>y t'. f k t = Ok (Some y, t') \<and> Q y t')"
    and "a \<le> n"
  shows "(\<exists>t. untilK f [a..<n] s = Ok (None, t) \<and> P n t)
    \<or> (\<exists>y t. untilK f [a..<n] s = Ok (Some y, t) \<and> Q y t)"
  using assms
proof (induction "n - a" arbitrary: a s)
  case 0
  then show ?case by simp
next
  case (Suc d)
  then have "a < n" by simp
  then have list: "[a..<n] = a # [Suc a..<n]" by (simp add: upt_rec)
  from Suc.prems(2) [of a s] Suc.prems(1) \<open>a < n\<close> consider
      t' where "f a s = Ok (None, t')" "P (Suc a) t'"
    | y t' where "f a s = Ok (Some y, t')" "Q y t'" by blast
  then show ?case
  proof cases
    case 1
    have "(\<exists>t. untilK f [Suc a..<n] t' = Ok (None, t) \<and> P n t)
      \<or> (\<exists>y t. untilK f [Suc a..<n] t' = Ok (Some y, t) \<and> Q y t)"
      using Suc.hyps(2) \<open>a < n\<close> 1(2) by (intro Suc.hyps(1) Suc.prems(2)) auto
    with 1(1) show ?thesis by (simp add: list bnd_Ok)
  next
    case 2
    then show ?thesis by (simp add: list bnd_Ok)
  qed
qed

text \<open>A loop whose body keeps the state finds the first index with a result.\<close>

lemma untilK_pure:
  assumes "\<And>x. x \<in> set xs \<Longrightarrow> f x s = Ok (g x, s)"
  shows "untilK f xs s =
    Ok (case find (\<lambda>x. g x \<noteq> None) xs of None \<Rightarrow> None | Some x \<Rightarrow> g x, s)"
  using assms
  by (induction xs) (auto simp: bnd_Ok split: option.splits)

text \<open>\<open>runs r Q\<close>: the call returned, and its value and the state it left satisfy \<open>Q\<close>.\<close>

definition runs :: "('a \<times> 's) outcome \<Rightarrow> ('a \<Rightarrow> 's \<Rightarrow> bool) \<Rightarrow> bool" where
  "runs r Q \<longleftrightarrow> (\<exists>x s. r = Ok (x, s) \<and> Q x s)"

lemma runs_simps [simp]:
  "runs (Ok (x, s)) Q = Q x s" "\<not> runs (Panic e) Q" "\<not> runs Fault Q" "\<not> runs Blocked Q"
  by (simp_all add: runs_def)

lemma runs_bnd: "runs (bnd m f s) Q \<longleftrightarrow> runs (m s) (\<lambda>x s'. runs (f x s') Q)"
  by (cases "m s") (auto simp: bnd_apply runs_def)

lemma runs_gets [simp]: "runs (bnd (gets g) f s) Q = runs (f (g s) s) Q"
  by (simp add: runs_bnd)

lemma runs_modify [simp]: "runs (bnd (modify h) f s) Q = runs (f () (h s)) Q"
  by (simp add: runs_bnd)

lemma runs_mono: "runs r Q \<Longrightarrow> (\<And>x s. Q x s \<Longrightarrow> R x s) \<Longrightarrow> runs r R"
  by (auto simp: runs_def)

lemma runs_bndI:
  assumes "runs (m s) R" and "\<And>x s'. R x s' \<Longrightarrow> runs (f x s') Q"
  shows "runs (bnd m f s) Q"
  unfolding runs_bnd using assms by (rule runs_mono)

lemma runsE:
  assumes "runs r Q"
  obtains x s where "r = Ok (x, s)" and "Q x s"
  using assms by (auto simp: runs_def)

lemma runs_forK:
  assumes "P 0 s" and "\<And>k t. k < n \<Longrightarrow> P k t \<Longrightarrow> runs (f k t) (\<lambda>_. P (Suc k))"
  shows "runs (forK f [0..<n] s) (\<lambda>_. P n)"
  using assms forK_inv [of P s n f] by (fastforce simp: runs_def)

lemma runs_untilK:
  assumes "P a s"
    and "\<And>k t. a \<le> k \<Longrightarrow> k < n \<Longrightarrow> P k t \<Longrightarrow>
      runs (f k t) (\<lambda>r t'. case r of None \<Rightarrow> P (Suc k) t' | Some y \<Rightarrow> Q y t')"
    and "a \<le> n"
  shows "runs (untilK f [a..<n] s) (\<lambda>r t'. case r of None \<Rightarrow> P n t' | Some y \<Rightarrow> Q y t')"
proof -
  have "(\<exists>t'. f k t = Ok (None, t') \<and> P (Suc k) t') \<or> (\<exists>y t'. f k t = Ok (Some y, t') \<and> Q y t')"
    if "a \<le> k" "k < n" "P k t" for k t
    using assms(2) [OF that] by (auto simp: runs_def split: option.splits)
  then have "(\<exists>t. untilK f [a..<n] s = Ok (None, t) \<and> P n t)
    \<or> (\<exists>y t. untilK f [a..<n] s = Ok (Some y, t) \<and> Q y t)"
    using assms(1,3) by (intro untilK_inv [where P = P]) blast+
  then show ?thesis by (auto simp: runs_def)
qed

text \<open>\<open>keeps P m\<close>: a call that returns keeps \<open>P\<close>; it is used where the call may panic.\<close>

definition keeps :: "('s \<Rightarrow> bool) \<Rightarrow> ('s, 'a) K \<Rightarrow> bool" where
  "keeps P m \<longleftrightarrow> (\<forall>s x s'. P s \<longrightarrow> m s = Ok (x, s') \<longrightarrow> P s')"

lemma keepsD: "keeps P m \<Longrightarrow> P s \<Longrightarrow> m s = Ok (x, s') \<Longrightarrow> P s'"
  by (auto simp: keeps_def)

lemma keeps_ret [intro]: "keeps P (ret x)"
  by (simp add: keeps_def)

lemma keeps_gets [intro]: "keeps P (gets f)"
  by (simp add: keeps_def)

lemma keeps_panic [intro]: "keeps P (panic e)"
  by (simp add: keeps_def)

lemma keeps_fault [intro]: "keeps P fault"
  by (simp add: keeps_def)

lemma keeps_blocked [intro]: "keeps P blocked"
  by (simp add: keeps_def)

lemma keeps_modify [intro]: "(\<And>s. P s \<Longrightarrow> P (f s)) \<Longrightarrow> keeps P (modify f)"
  by (simp add: keeps_def)

lemma keeps_bnd [intro]: "keeps P m \<Longrightarrow> (\<And>x. keeps P (f x)) \<Longrightarrow> keeps P (bnd m f)"
  unfolding keeps_def by (metis bnd_OkE)

lemma keeps_whenK [intro]: "keeps P m \<Longrightarrow> keeps P (whenK c m)"
  by (auto simp: whenK_def)

lemma keeps_if [intro]: "keeps P m \<Longrightarrow> keeps P m' \<Longrightarrow> keeps P (if c then m else m')"
  by simp

lemma keeps_forK [intro]: "(\<And>x. keeps P (f x)) \<Longrightarrow> keeps P (forK f xs)"
  by (induction xs) auto

lemma keeps_untilK [intro]: "(\<And>x. keeps P (f x)) \<Longrightarrow> keeps P (untilK f xs)"
proof (induction xs)
  case Nil
  show ?case by (simp only: untilK.simps keeps_ret)
next
  case (Cons x xs)
  show ?case
    unfolding untilK.simps
  proof (rule keeps_bnd)
    show "keeps P (f x)" by (rule Cons.prems)
    show "keeps P (case r of None \<Rightarrow> untilK f xs | Some y \<Rightarrow> ret (Some y))" for r
      using Cons by (cases r) (simp_all only: option.case keeps_ret)
  qed
qed

section \<open>Byte arrays\<close>

text \<open>
  Physical memory and the data of a disk block are functions from byte offsets to bytes.
  \<open>rd\<close> reads a run of bytes, \<open>wr\<close> overwrites one.
\<close>

type_synonym bytes = "nat \<Rightarrow> u8"

definition rd :: "bytes \<Rightarrow> nat \<Rightarrow> nat \<Rightarrow> u8 list" where
  "rd m a n = map (\<lambda>i. m (a + i)) [0..<n]"

definition wr :: "bytes \<Rightarrow> nat \<Rightarrow> u8 list \<Rightarrow> bytes" where
  "wr m a bs = (\<lambda>i. if a \<le> i \<and> i < a + length bs then bs ! (i - a) else m i)"

lemma length_rd [simp]: "length (rd m a n) = n"
  by (simp add: rd_def)

lemma rd_nth [simp]: "i < n \<Longrightarrow> rd m a n ! i = m (a + i)"
  by (simp add: rd_def)

lemma rd_0 [simp]: "rd m a 0 = []"
  by (simp add: rd_def)

lemma wr_Nil [simp]: "wr m a [] = m"
  by (auto simp: wr_def fun_eq_iff)

lemma wr_other [simp]: "i < a \<or> a + length bs \<le> i \<Longrightarrow> wr m a bs i = m i"
  by (auto simp: wr_def)

lemma wr_inside: "a \<le> i \<Longrightarrow> i < a + length bs \<Longrightarrow> wr m a bs i = bs ! (i - a)"
  by (simp add: wr_def)

lemma rd_wr_same [simp]: "n = length bs \<Longrightarrow> rd (wr m a bs) a n = bs"
  by (auto simp: rd_def wr_def intro: nth_equalityI)

lemma rd_wr_inside:
  assumes "a \<le> b" and "b + n \<le> a + length bs"
  shows "rd (wr m a bs) b n = take n (drop (b - a) bs)"
  using assms by (auto simp: wr_def intro!: nth_equalityI)

lemma rd_wr_disjoint [simp]:
  "b + n \<le> a \<or> a + length bs \<le> b \<Longrightarrow> rd (wr m a bs) b n = rd m b n"
  by (auto simp: rd_def)

lemma rd_append: "rd m a (n + k) = rd m a n @ rd m (a + n) k"
  by (auto simp: nth_append intro!: nth_equalityI)

lemma take_rd: "k \<le> n \<Longrightarrow> take k (rd m a n) = rd m a k"
  by (auto intro!: nth_equalityI)

lemma drop_rd: "drop k (rd m a n) = rd m (a + k) (n - k)"
  by (auto intro!: nth_equalityI simp: add.assoc)

lemma wr_append: "wr (wr m a xs) (a + length xs) ys = wr m a (xs @ ys)"
  by (auto simp: wr_def fun_eq_iff nth_append)

lemma wr_Cons: "wr m a (x # xs) = wr (m(a := x)) (Suc a) xs"
  by (auto simp: wr_def fun_eq_iff nth_Cons')

lemma wr_snoc: "wr m a (xs @ [x]) = wr (m(a + length xs := x)) a xs"
  by (auto simp: wr_def fun_eq_iff nth_append)

lemma rd_snoc: "rd m a (Suc n) = rd m a n @ [m (a + n)]"
  by (simp add: rd_def)

lemma rd_upd_outside [simp]: "i < a \<or> a + n \<le> i \<Longrightarrow> rd (m(i := x)) a n = rd m a n"
  by (auto simp: rd_def)

lemma rd_Suc: "rd p i (Suc n) = p i # rd p (Suc i) n"
  using rd_append [of p i 1 n] by (simp add: rd_def)

lemma wr_wr_same [simp]: "length xs = length ys \<Longrightarrow> wr (wr m a xs) a ys = wr m a ys"
  by (auto simp: wr_def fun_eq_iff)

lemma wr_rd_same [simp]: "wr m a (rd m a n) = m"
  by (auto simp: wr_def fun_eq_iff)

section \<open>Little-endian words\<close>

lemma uint_eq_iff [simp]: "uint a = uint b \<longleftrightarrow> a = b"
  by (rule word_uint_eq_iff [symmetric])

lemma uint_pos_iff [simp]: "0 < uint a \<longleftrightarrow> a \<noteq> 0"
  using uint_eq_iff [of a 0] by (auto simp: less_le)

lemma uint_zero_iff [simp]: "uint a = 0 \<longleftrightarrow> a = 0"
  using uint_eq_iff [of a 0] by simp

definition le_bytes :: "nat \<Rightarrow> 'a::len word \<Rightarrow> u8 list" where
  "le_bytes n v = map (\<lambda>i. ucast (drop_bit (8 * i) v)) [0..<n]"

primrec of_le :: "u8 list \<Rightarrow> 'a::len word" where
  "of_le [] = 0"
| "of_le (b # bs) = ucast b OR push_bit 8 (of_le bs)"

lemma length_le_bytes [simp]: "length (le_bytes n v) = n"
  by (simp add: le_bytes_def)

lemma bit_of_le:
  "bit (of_le bs :: 'a::len word) i \<longleftrightarrow>
     i < LENGTH('a) \<and> i div 8 < length bs \<and> bit (bs ! (i div 8)) (i mod 8)"
proof (induction bs arbitrary: i)
  case Nil
  then show ?case by simp
next
  case (Cons b bs)
  show ?case
  proof (cases "i < 8")
    case True
    then show ?thesis by (auto simp: bit_simps)
  next
    case False
    then have "i div 8 = Suc ((i - 8) div 8)" and "(i - 8) mod 8 = i mod 8"
      by (simp_all add: le_div_geq le_mod_geq)
    moreover from False have "\<not> bit b i"
      by (auto dest: bit_imp_le_length)
    ultimately show ?thesis using False by (auto simp: bit_simps Cons.IH)
  qed
qed

lemma of_le_le_bytes [simp]:
  assumes "LENGTH('a::len) = 8 * n"
  shows "of_le (le_bytes n (v :: 'a word)) = v"
proof (rule bit_word_eqI)
  fix i assume "i < LENGTH('a)"
  with assms have "i div 8 < n" by auto
  moreover have "8 * (i div 8) + i mod 8 = i" by simp
  ultimately show "bit (of_le (le_bytes n v) :: 'a word) i = bit v i"
    using \<open>i < LENGTH('a)\<close>
    by (simp add: bit_of_le le_bytes_def bit_simps)
qed

definition ld16 :: "bytes \<Rightarrow> nat \<Rightarrow> u16" where "ld16 m a = of_le (rd m a 2)"
definition ld32 :: "bytes \<Rightarrow> nat \<Rightarrow> u32" where "ld32 m a = of_le (rd m a 4)"
definition ld64 :: "bytes \<Rightarrow> nat \<Rightarrow> u64" where "ld64 m a = of_le (rd m a 8)"

definition st16 :: "bytes \<Rightarrow> nat \<Rightarrow> u16 \<Rightarrow> bytes" where "st16 m a v = wr m a (le_bytes 2 v)"
definition st32 :: "bytes \<Rightarrow> nat \<Rightarrow> u32 \<Rightarrow> bytes" where "st32 m a v = wr m a (le_bytes 4 v)"
definition st64 :: "bytes \<Rightarrow> nat \<Rightarrow> u64 \<Rightarrow> bytes" where "st64 m a v = wr m a (le_bytes 8 v)"

lemma ld_st_same [simp]:
  "ld16 (st16 m a x) a = x" "ld32 (st32 m a y) a = y" "ld64 (st64 m a z) a = z"
  by (simp_all add: ld16_def ld32_def ld64_def st16_def st32_def st64_def)

lemma ld_wr_disjoint [simp]:
  "b + 2 \<le> a \<or> a + length bs \<le> b \<Longrightarrow> ld16 (wr m a bs) b = ld16 m b"
  "b + 4 \<le> a \<or> a + length bs \<le> b \<Longrightarrow> ld32 (wr m a bs) b = ld32 m b"
  "b + 8 \<le> a \<or> a + length bs \<le> b \<Longrightarrow> ld64 (wr m a bs) b = ld64 m b"
  by (simp_all add: ld16_def ld32_def ld64_def)

lemma ld32_st32_disjoint [simp]:
  "b + 4 \<le> a \<or> a + 4 \<le> b \<Longrightarrow> ld32 (st32 m a v) b = ld32 m b"
  by (simp add: st32_def)

lemma ld64_st64_disjoint [simp]:
  "b + 8 \<le> a \<or> a + 8 \<le> b \<Longrightarrow> ld64 (st64 m a v) b = ld64 m b"
  by (simp add: st64_def)

lemma rd_st64_disjoint [simp]:
  "b + n \<le> a \<or> a + 8 \<le> b \<Longrightarrow> rd (st64 m a v) b n = rd m b n"
  by (simp add: st64_def)

section \<open>Pieces of a list\<close>

text \<open>The pieces of a list between separators, empty ones included.\<close>

fun split_at :: "'a \<Rightarrow> 'a list \<Rightarrow> 'a list list" where
  "split_at c [] = [[]]"
| "split_at c (x # xs) = (if x = c then [] # split_at c xs
     else (case split_at c xs of [] \<Rightarrow> [[x]] | p # ps \<Rightarrow> (x # p) # ps))"

lemma split_at_ne: "split_at c xs \<noteq> []"
  by (induction xs) (auto split: list.splits)

lemma split_at_drop: "filter (\<lambda>x. x \<noteq> []) (split_at c (dropWhile (\<lambda>x. x = c) xs)) = filter (\<lambda>x. x \<noteq> []) (split_at c xs)"
  by (induction xs) auto

lemma split_at_take:
  "split_at c xs = takeWhile (\<lambda>x. x \<noteq> c) xs # (case dropWhile (\<lambda>x. x \<noteq> c) xs of [] \<Rightarrow> [] | y # ys \<Rightarrow> split_at c ys)"
  by (induction xs) (auto split: list.splits)

lemma split_at_append:
  "butlast (split_at c (xs @ ys)) = butlast (split_at c xs) @ butlast (split_at c (last (split_at c xs) @ ys))"
  "last (split_at c (xs @ ys)) = last (split_at c (last (split_at c xs) @ ys))"
  by (induction xs) (auto simp: split_at_ne split: list.splits)

lemma split_at_free: "c \<notin> set xs \<Longrightarrow> split_at c xs = [xs]"
  by (induction xs) auto

end
