(* ===== verification/CString.thy ===== *)
theory CString
  imports Prelude
begin

text \<open>
  The memory and string routines of \<open>kernel/string.c\<close>. \<open>memset\<close> and \<open>memmove\<close> work on
  one memory with byte addresses, so the overlap of source and destination is real; the
  routines on character pointers read an array through a view \<open>nat \<Rightarrow> u8\<close> that starts at
  the pointer. Every loop is the source's loop, and the lemmas give each routine its
  meaning as one expression over \<open>rd\<close>, \<open>wr\<close> and the abstract string \<open>cstr\<close>.
\<close>

section \<open>Memory\<close>

fun memset_loop :: "bytes \<Rightarrow> nat \<Rightarrow> u8 \<Rightarrow> nat \<Rightarrow> nat \<Rightarrow> bytes" where
  "memset_loop m dst c i 0 = m"
| "memset_loop m dst c i (Suc k) = memset_loop (m(dst + i := c)) dst c (Suc i) k"

definition memset :: "bytes \<Rightarrow> nat \<Rightarrow> int \<Rightarrow> nat \<Rightarrow> bytes" where
  "memset m dst c n = memset_loop m dst (word_of_int c) 0 n"

fun memcmp_loop :: "bytes \<Rightarrow> bytes \<Rightarrow> nat \<Rightarrow> nat \<Rightarrow> int" where
  "memcmp_loop s1 s2 i 0 = 0"
| "memcmp_loop s1 s2 i (Suc n) =
     (if s1 i \<noteq> s2 i then uint (s1 i) - uint (s2 i) else memcmp_loop s1 s2 (Suc i) n)"

definition memcmp :: "bytes \<Rightarrow> bytes \<Rightarrow> nat \<Rightarrow> int" where
  "memcmp v1 v2 n = memcmp_loop v1 v2 0 n"

fun copy_down :: "bytes \<Rightarrow> nat \<Rightarrow> nat \<Rightarrow> nat \<Rightarrow> bytes" where
  "copy_down m d s 0 = m"
| "copy_down m d s (Suc n) = copy_down (m(d - 1 := m (s - 1))) (d - 1) (s - 1) n"

fun copy_up :: "bytes \<Rightarrow> nat \<Rightarrow> nat \<Rightarrow> nat \<Rightarrow> bytes" where
  "copy_up m d s 0 = m"
| "copy_up m d s (Suc n) = copy_up (m(d := m s)) (Suc d) (Suc s) n"

definition memmove :: "bytes \<Rightarrow> nat \<Rightarrow> nat \<Rightarrow> nat \<Rightarrow> bytes" where
  "memmove m dst src n =
     (if n = 0 then m
      else if src < dst \<and> src + n > dst then copy_down m (dst + n) (src + n) n
      else copy_up m dst src n)"

definition memcpy :: "bytes \<Rightarrow> nat \<Rightarrow> nat \<Rightarrow> nat \<Rightarrow> bytes" where
  "memcpy m dst src n = memmove m dst src n"

section \<open>Strings\<close>

fun strncmp_loop :: "bytes \<Rightarrow> bytes \<Rightarrow> nat \<Rightarrow> nat \<Rightarrow> int" where
  "strncmp_loop p q i 0 = 0"
| "strncmp_loop p q i (Suc n) =
     (if p i \<noteq> 0 \<and> p i = q i then strncmp_loop p q (Suc i) n
      else uint (p i) - uint (q i))"

definition strncmp :: "bytes \<Rightarrow> bytes \<Rightarrow> nat \<Rightarrow> int" where
  "strncmp p q n = strncmp_loop p q 0 n"

fun zero_fill :: "bytes \<Rightarrow> nat \<Rightarrow> nat \<Rightarrow> bytes" where
  "zero_fill s i 0 = s"
| "zero_fill s i (Suc n) = zero_fill (s(i := 0)) (Suc i) n"

fun strncpy_loop :: "bytes \<Rightarrow> bytes \<Rightarrow> nat \<Rightarrow> nat \<Rightarrow> bytes" where
  "strncpy_loop s t i 0 = s"
| "strncpy_loop s t i (Suc n) =
     (if t i \<noteq> 0 then strncpy_loop (s(i := t i)) t (Suc i) n
      else zero_fill (s(i := t i)) (Suc i) n)"

definition strncpy :: "bytes \<Rightarrow> bytes \<Rightarrow> nat \<Rightarrow> bytes" where
  "strncpy s t n = strncpy_loop s t 0 n"

fun safestrcpy_loop :: "bytes \<Rightarrow> bytes \<Rightarrow> nat \<Rightarrow> nat \<Rightarrow> bytes" where
  "safestrcpy_loop s t i 0 = s(i := 0)"
| "safestrcpy_loop s t i (Suc n) =
     (if t i \<noteq> 0 then safestrcpy_loop (s(i := t i)) t (Suc i) n
      else (s(i := t i))(Suc i := 0))"

definition safestrcpy :: "bytes \<Rightarrow> bytes \<Rightarrow> int \<Rightarrow> bytes" where
  "safestrcpy s t n = (if n \<le> 0 then s else safestrcpy_loop s t 0 (nat n - 1))"

partial_function (option) strlen_from :: "bytes \<Rightarrow> nat \<Rightarrow> nat option" where
  "strlen_from s n = (if s n \<noteq> 0 then strlen_from s (Suc n) else Some n)"

definition strlen :: "bytes \<Rightarrow> nat option" where
  "strlen s = strlen_from s 0"

text \<open>The string a bounded character array holds: its bytes up to the first NUL.\<close>

definition cstr :: "nat \<Rightarrow> bytes \<Rightarrow> u8 list" where
  "cstr n p = takeWhile (\<lambda>c. c \<noteq> 0) (rd p 0 n)"

section \<open>What the memory routines compute\<close>

lemma memset_loop_eq: "memset_loop m dst c i k = wr m (dst + i) (replicate k c)"
  by (induction k arbitrary: m i) (simp_all add: wr_Cons)

lemma memset_eq: "memset m dst c n = wr m dst (replicate n (word_of_int c))"
  by (simp add: memset_def memset_loop_eq)

lemma memset_inside: "dst \<le> i \<Longrightarrow> i < dst + n \<Longrightarrow> memset m dst c n i = word_of_int c"
  by (simp add: memset_eq wr_inside)

lemma memset_outside: "i < dst \<or> dst + n \<le> i \<Longrightarrow> memset m dst c n i = m i"
  by (simp add: memset_eq)

lemma memcmp_loop_eq_0: "memcmp_loop a b i n = 0 \<longleftrightarrow> rd a i n = rd b i n"
  by (induction n arbitrary: i) (auto simp: rd_Suc)

lemma memcmp_eq_0: "memcmp a b n = 0 \<longleftrightarrow> rd a 0 n = rd b 0 n"
  by (simp add: memcmp_def memcmp_loop_eq_0)

lemma copy_up_eq: "d \<le> s \<or> s + n \<le> d \<Longrightarrow> copy_up m d s n = wr m d (rd m s n)"
proof (induction n arbitrary: m d s)
  case (Suc n)
  have "copy_up (m(d := m s)) (Suc d) (Suc s) n
      = wr (m(d := m s)) (Suc d) (rd (m(d := m s)) (Suc s) n)"
    by (rule Suc.IH) (use Suc.prems in auto)
  also have "rd (m(d := m s)) (Suc s) n = rd m (Suc s) n"
    using Suc.prems by (intro rd_upd_outside) auto
  finally show ?case by (simp add: rd_Suc wr_Cons del: fun_upd_apply)
qed simp

lemma copy_down_eq: "s \<le> d \<Longrightarrow> copy_down m (d + n) (s + n) n = wr m d (rd m s n)"
proof (induction n arbitrary: m)
  case (Suc n)
  have "copy_down (m(d + n := m (s + n))) (d + n) (s + n) n
      = wr (m(d + n := m (s + n))) d (rd (m(d + n := m (s + n))) s n)"
    by (rule Suc.IH) (rule Suc.prems)
  also have "\<dots> = wr m d (rd m s (Suc n))"
    using Suc.prems by (simp add: rd_snoc wr_snoc)
  finally show ?case by simp
qed simp

lemma memmove_eq: "memmove m dst src n = wr m dst (rd m src n)"
  by (auto simp: memmove_def copy_up_eq copy_down_eq)

section \<open>What the string routines compute\<close>

lemma strncmp_loop_eq_0:
  "strncmp_loop p q i n = 0 \<longleftrightarrow>
     takeWhile (\<lambda>c. c \<noteq> 0) (rd p i n) = takeWhile (\<lambda>c. c \<noteq> 0) (rd q i n)"
  by (induction n arbitrary: i) (auto simp: rd_Suc)

lemma strncmp_eq_0: "strncmp p q n = 0 \<longleftrightarrow> cstr n p = cstr n q"
  by (simp add: strncmp_def strncmp_loop_eq_0 cstr_def)

lemma strncmp_loop_less:
  "strncmp_loop p q i n < 0 \<longleftrightarrow>
     (takeWhile (\<lambda>c. c \<noteq> 0) (rd p i n), takeWhile (\<lambda>c. c \<noteq> 0) (rd q i n))
       \<in> lexord {(a, b). a < b}"
  by (induction n arbitrary: i) (auto simp: rd_Suc word_less_def)

lemma strncmp_less: "strncmp p q n < 0 \<longleftrightarrow> (cstr n p, cstr n q) \<in> lexord {(a, b). a < b}"
  by (simp add: strncmp_def strncmp_loop_less cstr_def)

lemma zero_fill_eq: "zero_fill s i n = wr s i (replicate n 0)"
  by (induction n arbitrary: s i) (simp_all add: wr_Cons)

lemma strncpy_loop_eq:
  "strncpy_loop s t i n =
     wr s i (takeWhile (\<lambda>c. c \<noteq> 0) (rd t i n)
             @ replicate (n - length (takeWhile (\<lambda>c. c \<noteq> 0) (rd t i n))) 0)"
  by (induction n arbitrary: s i) (simp_all add: rd_Suc zero_fill_eq wr_Cons)

lemma strncpy_eq:
  "strncpy s t n = wr s 0 (cstr n t @ replicate (n - length (cstr n t)) 0)"
  by (simp add: strncpy_def strncpy_loop_eq cstr_def)

lemma length_cstr: "length (cstr n t) \<le> n"
  unfolding cstr_def by (metis length_rd length_takeWhile_le)

lemma cstr_no_NUL: "0 \<notin> set (cstr n t)"
  unfolding cstr_def by (auto dest: set_takeWhileD)

lemma cstr_strncpy: "cstr n (strncpy s t n) = cstr n t"
proof -
  have "rd (strncpy s t n) 0 n = cstr n t @ replicate (n - length (cstr n t)) 0"
    using length_cstr [of n t] by (simp add: strncpy_eq)
  then show ?thesis
    using cstr_no_NUL [of n t]
    by (auto simp: cstr_def [of n "strncpy s t n"] takeWhile_append takeWhile_replicate)
qed

lemma strncpy_frame: "n \<le> i \<Longrightarrow> strncpy s t n i = s i"
  using length_cstr [of n t] by (simp add: strncpy_eq)

lemma safestrcpy_loop_prefix: "j < i \<Longrightarrow> safestrcpy_loop s t i n j = s j"
  by (induction n arbitrary: s i) auto

lemma safestrcpy_loop_spec:
  "takeWhile (\<lambda>c. c \<noteq> 0) (rd (safestrcpy_loop s t i n) i (Suc n))
     = takeWhile (\<lambda>c. c \<noteq> 0) (rd t i n)
   \<and> (\<exists>j. i \<le> j \<and> j \<le> i + n \<and> safestrcpy_loop s t i n j = 0)"
proof (induction n arbitrary: s i)
  case 0
  then show ?case by (auto simp: rd_Suc)
next
  case (Suc n)
  show ?case
  proof (cases "t i = 0")
    case True
    then show ?thesis
      by (auto simp: rd_Suc [of _ i] intro!: exI [of _ i])
  next
    case False
    obtain j where "Suc i \<le> j" "j \<le> Suc i + n"
        "safestrcpy_loop (s(i := t i)) t (Suc i) n j = 0"
      using Suc.IH [of "s(i := t i)" "Suc i"] by blast
    moreover have "safestrcpy_loop (s(i := t i)) t (Suc i) n i = t i"
      by (simp add: safestrcpy_loop_prefix)
    ultimately show ?thesis
      using False Suc.IH [of "s(i := t i)" "Suc i"]
      by (simp add: rd_Suc [of _ i] del: fun_upd_apply) (metis Suc_leD)
  qed
qed

lemma safestrcpy_terminated:
  assumes "0 < n"
  shows "\<exists>j < nat n. safestrcpy s t n j = 0"
proof -
  obtain j where "j \<le> nat n - 1" and "safestrcpy_loop s t 0 (nat n - 1) j = 0"
    using safestrcpy_loop_spec [of s t 0 "nat n - 1"] by auto
  with assms show ?thesis by (intro exI [of _ j]) (auto simp: safestrcpy_def)
qed

lemma safestrcpy_cstr:
  assumes "0 < n"
  shows "cstr (nat n) (safestrcpy s t n) = cstr (nat n - 1) t"
proof -
  from assms have "nat n = Suc (nat n - 1)" by simp
  with assms safestrcpy_loop_spec [of s t 0 "nat n - 1"] show ?thesis
    by (simp add: safestrcpy_def cstr_def)
qed

lemma strlen_from_eq:
  assumes "s (n + k) = 0" and "\<And>j. n \<le> j \<Longrightarrow> j < n + k \<Longrightarrow> s j \<noteq> 0"
  shows "strlen_from s n = Some (n + k)"
  using assms
proof (induction k arbitrary: n)
  case 0
  then show ?case by (simp add: strlen_from.simps)
next
  case (Suc k)
  have "strlen_from s (Suc n) = Some (Suc n + k)"
    by (rule Suc.IH) (use Suc.prems in auto)
  moreover have "s n \<noteq> 0" using Suc.prems(2) [of n] by simp
  ultimately show ?case by (simp add: strlen_from.simps [of s n])
qed

lemma strlen_eq: "s k = 0 \<Longrightarrow> (\<And>j. j < k \<Longrightarrow> s j \<noteq> 0) \<Longrightarrow> strlen s = Some k"
  using strlen_from_eq [of s 0 k] by (simp add: strlen_def)

lemma strlen_cstr:
  assumes "s j = 0" and "j < n"
  shows "strlen s = Some (length (cstr n s))"
proof -
  obtain k where k: "s k = 0" and before: "\<And>i. i < k \<Longrightarrow> s i \<noteq> 0" and "k \<le> j"
    using exists_least_iff [of "\<lambda>k. s k = 0"] assms(1) by (metis linorder_not_le)
  then have "rd s 0 n = rd s 0 k @ s k # rd s (Suc k) (n - Suc k)"
    using assms(2) rd_append [of s 0 k "n - k"] rd_Suc [of s k "n - Suc k"]
    by (simp add: Suc_diff_Suc)
  moreover have "takeWhile (\<lambda>c. c \<noteq> 0) (rd s 0 k) = rd s 0 k"
    using before by (auto simp: rd_def)
  ultimately have "length (cstr n s) = k"
    using k by (simp add: cstr_def takeWhile_append)
  then show ?thesis using strlen_eq [of s k] k before by simp
qed

section \<open>Properties\<close>

text \<open>C28: \<open>memmove\<close> copies the \<open>n\<close> bytes that were at the source, whichever way the two ranges
  overlap, and changes no byte outside the destination.\<close>

theorem memmove_correct:
  "rd (memmove m dst src n) dst n = rd m src n \<and>
   memmove m dst src n i = (if dst \<le> i \<and> i < dst + n then m (src + (i - dst)) else m i)"
  by (auto simp: memmove_eq wr_inside)

text \<open>C29: \<open>strncmp\<close> decides equality of the strings in two bounded arrays, and its sign is their
  lexicographic order by unsigned bytes.\<close>

theorem strncmp_order:
  "(strncmp p q n = 0 \<longleftrightarrow> cstr n p = cstr n q) \<and>
   (strncmp p q n < 0 \<longleftrightarrow> (cstr n p, cstr n q) \<in> lexord {(a, b). a < b})"
  by (simp add: strncmp_eq_0 strncmp_less)

text \<open>C30: \<open>strncpy\<close> fills exactly \<open>n\<close> bytes: the string, then NULs; the copy compares equal to the
  source under \<open>strncmp\<close> with the same bound.\<close>

theorem strncpy_pads:
  "rd (strncpy s t n) 0 n = cstr n t @ replicate (n - length (cstr n t)) 0 \<and>
   strncmp (strncpy s t n) t n = 0 \<and> rd (strncpy s t n) n k = rd s n k"
proof -
  have "length (cstr n t @ replicate (n - length (cstr n t)) 0) = n" using length_cstr [of n t] by simp
  then show ?thesis
    by (simp add: strncpy_eq rd_wr_same strncmp_eq_0 cstr_strncpy [unfolded strncpy_eq])
qed

text \<open>C31: \<open>safestrcpy\<close> always leaves a terminated string in the \<open>n\<close> bytes of the destination: the
  source string, cut to \<open>n - 1\<close> characters, of which \<open>strlen\<close> gives the length.\<close>

theorem safestrcpy_safe:
  assumes "0 < n"
  shows "cstr (nat n) (safestrcpy s t n) = cstr (nat n - 1) t \<and>
    strlen (safestrcpy s t n) = Some (length (cstr (nat n - 1) t))"
proof -
  obtain j where "j < nat n" and "safestrcpy s t n j = 0"
    using safestrcpy_terminated [OF assms] by blast
  then have "strlen (safestrcpy s t n) = Some (length (cstr (nat n) (safestrcpy s t n)))"
    by (intro strlen_cstr)
  then show ?thesis by (simp add: safestrcpy_cstr [OF assms])
qed

theorem safestrcpy_safe_witness:
  "cstr 3 (safestrcpy (\<lambda>_. 7) (\<lambda>_. 65) 3) = [65, 65] \<and>
   strlen (safestrcpy (\<lambda>_. 7) (\<lambda>_. 65) 3) = Some 2"
  using safestrcpy_safe [of 3 "\<lambda>_. 7" "\<lambda>_. 65"] by (simp add: cstr_def rd_def upt_rec)

end
