(* ===== verification/Spinlock.thy ===== *)
theory Spinlock
  imports CString
begin

text \<open>
  Spin locks and interrupt nesting: \<open>kernel/spinlock.c\<close>, the interrupt bit of
  \<open>kernel/riscv.h\<close> and the per-CPU record of \<open>kernel/proc.h\<close>. The calls are those of one
  hart: a lock that another hart holds makes \<open>acquire\<close> spin (\<open>Blocked\<close>). The second half
  is the machine in which several harts run \<open>acquire\<close> and \<open>release\<close> interleaved, one
  memory access at a time.
\<close>

section \<open>State\<close>

text \<open>\<open>struct cpu\<close> without the saved context; \<open>c_proc\<close> is an index into the process table.\<close>

record cpu =
  c_proc :: "nat option"
  noff :: int
  intena :: bool

record spinlock =
  locked :: bool
  lname :: string
  lcpu :: "nat option"

text \<open>The spin locks of the kernel, one constructor per \<open>struct spinlock\<close> variable.\<close>

datatype lockid =
    LKmem | LPid | LWait | LProc nat | LTicks | LBcache | LBuf nat | LInode nat
  | LPipe nat | LCons | LUart | LDisk | LPr

record cpu_st =
  hart :: nat
  cpus :: "nat \<Rightarrow> cpu"
  sstatus :: "nat \<Rightarrow> u64"
  locks :: "lockid \<Rightarrow> spinlock"

definition SSTATUS_SIE :: u64 where "SSTATUS_SIE = 2"

section \<open>Operations\<close>

definition intr_on :: "('a cpu_st_scheme, unit) K" where
  "intr_on = modify (\<lambda>s. s\<lparr>sstatus := (sstatus s)(hart s := sstatus s (hart s) OR SSTATUS_SIE)\<rparr>)"

definition intr_off :: "('a cpu_st_scheme, unit) K" where
  "intr_off = modify (\<lambda>s. s\<lparr>sstatus := (sstatus s)(hart s := sstatus s (hart s) AND NOT SSTATUS_SIE)\<rparr>)"

definition intr_get :: "('a cpu_st_scheme, bool) K" where
  "intr_get = gets (\<lambda>s. sstatus s (hart s) AND SSTATUS_SIE \<noteq> 0)"

definition mycpu :: "('a cpu_st_scheme, nat) K" where
  "mycpu = gets hart"

definition set_cpu :: "(cpu \<Rightarrow> cpu) \<Rightarrow> ('a cpu_st_scheme, unit) K" where
  "set_cpu f = modify (\<lambda>s. s\<lparr>cpus := (cpus s)(hart s := f (cpus s (hart s)))\<rparr>)"

definition get_cpu :: "('a cpu_st_scheme, cpu) K" where
  "get_cpu = gets (\<lambda>s. cpus s (hart s))"

definition push_off :: "('a cpu_st_scheme, unit) K" where
  "push_off =
     bnd intr_get (\<lambda>old.
     bnd intr_off (\<lambda>_.
     bnd get_cpu (\<lambda>c.
     bnd (whenK (noff c = 0) (set_cpu (\<lambda>c. c\<lparr>intena := old\<rparr>))) (\<lambda>_.
     set_cpu (\<lambda>c. c\<lparr>noff := noff c + 1\<rparr>)))))"

definition pop_off :: "('a cpu_st_scheme, unit) K" where
  "pop_off =
     bnd intr_get (\<lambda>on.
     if on then panic ''pop_off - interruptible''
     else bnd get_cpu (\<lambda>c.
       if noff c < 1 then panic ''pop_off''
       else bnd (set_cpu (\<lambda>c. c\<lparr>noff := noff c - 1\<rparr>)) (\<lambda>_.
         bnd get_cpu (\<lambda>c.
         whenK (noff c = 0 \<and> intena c) intr_on))))"

definition initlock :: "lockid \<Rightarrow> string \<Rightarrow> ('a cpu_st_scheme, unit) K" where
  "initlock l nm =
     modify (\<lambda>s. s\<lparr>locks := (locks s)(l := \<lparr>locked = False, lname = nm, lcpu = None\<rparr>)\<rparr>)"

definition holding :: "lockid \<Rightarrow> ('a cpu_st_scheme, bool) K" where
  "holding l =
     bnd mycpu (\<lambda>me. gets (\<lambda>s. locked (locks s l) \<and> lcpu (locks s l) = Some me))"

definition acquire :: "lockid \<Rightarrow> ('a cpu_st_scheme, unit) K" where
  "acquire l =
     bnd push_off (\<lambda>_.
     bnd (holding l) (\<lambda>h.
     if h then panic ''acquire''
     else bnd (gets (\<lambda>s. locked (locks s l))) (\<lambda>busy.
       if busy then blocked
       else bnd (modify (\<lambda>s. s\<lparr>locks := (locks s)(l := (locks s l)\<lparr>locked := True\<rparr>)\<rparr>)) (\<lambda>_.
         bnd mycpu (\<lambda>me.
         modify (\<lambda>s. s\<lparr>locks := (locks s)(l := (locks s l)\<lparr>lcpu := Some me\<rparr>)\<rparr>))))))"

definition release :: "lockid \<Rightarrow> ('a cpu_st_scheme, unit) K" where
  "release l =
     bnd (holding l) (\<lambda>h.
     if \<not> h then panic ''release''
     else bnd (modify (\<lambda>s. s\<lparr>locks := (locks s)(l := (locks s l)\<lparr>lcpu := None\<rparr>)\<rparr>)) (\<lambda>_.
       bnd (modify (\<lambda>s. s\<lparr>locks := (locks s)(l := (locks s l)\<lparr>locked := False\<rparr>)\<rparr>)) (\<lambda>_.
       pop_off)))"

section \<open>Matched sections restore the state\<close>

definition ints :: "'a cpu_st_scheme \<Rightarrow> bool" where
  "ints s \<longleftrightarrow> sstatus s (hart s) AND SSTATUS_SIE \<noteq> 0"

text \<open>
  \<open>cpu_ok\<close>: the nesting depth agrees with the interrupt bit, as it does after any matched
  use of \<open>push_off\<close> and \<open>pop_off\<close>.
\<close>

definition cpu_ok :: "'a cpu_st_scheme \<Rightarrow> bool" where
  "cpu_ok s \<longleftrightarrow>
     0 \<le> noff (cpus s (hart s))
     \<and> (noff (cpus s (hart s)) = 0 \<longrightarrow> intena (cpus s (hart s)) = ints s)
     \<and> (0 < noff (cpus s (hart s)) \<longrightarrow> \<not> ints s)"

definition lfree :: "lockid \<Rightarrow> 'a cpu_st_scheme \<Rightarrow> bool" where
  "lfree l s \<longleftrightarrow> \<not> locked (locks s l) \<and> lcpu (locks s l) = None"

text \<open>The state after \<open>push_off\<close>, and the state inside a critical section of lock \<open>l\<close>.\<close>

definition pushed :: "'a cpu_st_scheme \<Rightarrow> 'a cpu_st_scheme" where
  "pushed s = s\<lparr>sstatus := (sstatus s)(hart s := sstatus s (hart s) AND NOT SSTATUS_SIE),
     cpus := (cpus s)(hart s := (cpus s (hart s))\<lparr>
        intena := (if noff (cpus s (hart s)) = 0 then ints s else intena (cpus s (hart s))),
        noff := noff (cpus s (hart s)) + 1\<rparr>)\<rparr>"

definition acq :: "lockid \<Rightarrow> 'a cpu_st_scheme \<Rightarrow> 'a cpu_st_scheme" where
  "acq l s = (pushed s)\<lparr>locks := (locks s)(l := (locks s l)\<lparr>locked := True, lcpu := Some (hart s)\<rparr>)\<rparr>"

lemma bit_SIE [simp]: "bit SSTATUS_SIE i \<longleftrightarrow> i = 1"
proof -
  have "bit (2 ^ 1 :: u64) i \<longleftrightarrow> i = 1"
    by (simp only: bit_exp_iff) (auto simp: possible_bit_def)
  then show ?thesis by (simp add: SSTATUS_SIE_def)
qed

lemma SIE_clear [simp]: "(x AND NOT SSTATUS_SIE) AND SSTATUS_SIE = 0"
  by (rule bit_word_eqI) (simp add: bit_and_iff bit_not_iff)

lemma SIE_bit: "x AND SSTATUS_SIE = 0 \<longleftrightarrow> \<not> bit x 1"
proof
  assume "x AND SSTATUS_SIE = 0"
  then have "\<not> bit (x AND SSTATUS_SIE) 1" by (simp only: bit_0_eq bot_fun_def) simp
  then show "\<not> bit x 1" by (simp add: bit_and_iff)
next
  assume "\<not> bit x 1"
  then show "x AND SSTATUS_SIE = 0"
    by (intro bit_word_eqI) (auto simp: bit_and_iff)
qed

lemma SIE_restore: "bit x 1 \<Longrightarrow> x AND NOT SSTATUS_SIE OR SSTATUS_SIE = x"
  and SIE_keep: "\<not> bit x 1 \<Longrightarrow> x AND NOT SSTATUS_SIE = x"
  by (rule bit_word_eqI, auto simp: bit_and_iff bit_or_iff bit_not_iff)+

lemma push_off_eq [ksteps]: "push_off s = Ok ((), pushed s)"
  by (simp add: push_off_def intr_get_def intr_off_def get_cpu_def set_cpu_def whenK_def
      bnd_apply pushed_def ints_def)

lemma pop_off_pushed [ksteps]:
  assumes "cpu_ok s"
  shows "pop_off (pushed s) = Ok ((), s)"
proof -
  let ?h = "hart s"
  have "noff (cpus s ?h) \<ge> 0" using assms by (simp add: cpu_ok_def)
  moreover have "ints s \<longleftrightarrow> bit (sstatus s ?h) 1" by (simp add: ints_def SIE_bit)
  ultimately show ?thesis
    using assms
    by (auto simp: pop_off_def pushed_def intr_get_def get_cpu_def set_cpu_def intr_on_def
        bnd_apply whenK_def cpu_ok_def SIE_bit SIE_restore SIE_keep fun_upd_idem
        bit_and_iff bit_not_iff)
qed

lemma cpu_ok_pushed [simp]: "cpu_ok s \<Longrightarrow> cpu_ok (pushed s)"
  by (auto simp: cpu_ok_def pushed_def ints_def)

lemma acquire_eq [ksteps]:
  assumes "lfree l s"
  shows "acquire l s = Ok ((), acq l s)"
  using assms
  by (simp add: acquire_def bnd_apply push_off_eq holding_def mycpu_def lfree_def acq_def
      pushed_def)

lemma release_acq [ksteps]:
  assumes "cpu_ok s" and "lfree l s"
  shows "release l (acq l s) = Ok ((), s)"
proof -
  have "(pushed s)\<lparr>locks := (locks s)(l := (locks s l)\<lparr>lcpu := None, locked := False\<rparr>)\<rparr> = pushed s"
    using assms(2) by (simp add: pushed_def lfree_def fun_upd_idem)
  moreover have "hart (pushed s) = hart s" by (simp add: pushed_def)
  ultimately show ?thesis
    using pop_off_pushed [OF assms(1)]
    by (simp add: release_def holding_def mycpu_def bnd_apply acq_def)
qed

lemma cpu_ok_acq [simp]: "cpu_ok s \<Longrightarrow> cpu_ok (acq l s)"
  by (auto simp: cpu_ok_def acq_def pushed_def ints_def)

lemma lfree_acq [simp]: "lfree l' (acq l s) \<longleftrightarrow> l' \<noteq> l \<and> lfree l' s"
  by (auto simp: lfree_def acq_def pushed_def)

lemma acq_base [simp]:
  "hart (acq l s) = hart s" "c_proc (cpus (acq l s) h) = c_proc (cpus s h)"
  "hart (pushed s) = hart s" "c_proc (cpus (pushed s) h) = c_proc (cpus s h)"
  by (simp_all add: acq_def pushed_def)

text \<open>Misuse panics: taking a lock twice, or giving up one that is not held.\<close>

lemma acquire_twice: "acquire l (acq l s) = Panic ''acquire''"
  by (simp add: acquire_def bnd_apply push_off_eq holding_def mycpu_def acq_def pushed_def)

lemma release_not_held:
  "\<not> (locked (locks s l) \<and> lcpu (locks s l) = Some (hart s)) \<Longrightarrow> release l s = Panic ''release''"
  by (simp add: release_def bnd_apply holding_def mycpu_def)

lemma acquire_held_elsewhere:
  "locked (locks s l) \<Longrightarrow> lcpu (locks s l) \<noteq> Some (hart s) \<Longrightarrow> acquire l s = Blocked"
  by (simp add: acquire_def bnd_apply push_off_eq holding_def mycpu_def pushed_def)

text \<open>
  The depth of nesting: \<open>n\<close> calls of \<open>push_off\<close> and as many of \<open>pop_off\<close> leave the state,
  the interrupt bit included, as it was, and interrupts stay off in between.
\<close>

primrec push_n :: "nat \<Rightarrow> ('a cpu_st_scheme, unit) K" where
  "push_n 0 = ret ()"
| "push_n (Suc n) = bnd push_off (\<lambda>_. push_n n)"

primrec pop_n :: "nat \<Rightarrow> ('a cpu_st_scheme, unit) K" where
  "pop_n 0 = ret ()"
| "pop_n (Suc n) = bnd (pop_n n) (\<lambda>_. pop_off)"

lemma push_n_eq: "push_n n s = Ok ((), (pushed ^^ n) s)"
  by (induction n arbitrary: s) (simp_all add: bnd_apply push_off_eq funpow_swap1)

lemma cpu_ok_pushed_n: "cpu_ok s \<Longrightarrow> cpu_ok ((pushed ^^ n) s)"
  by (induction n) simp_all

lemma pop_n_pushed_n: "cpu_ok s \<Longrightarrow> pop_n n ((pushed ^^ n) s) = Ok ((), s)"
proof (induction n arbitrary: s)
  case (Suc n)
  have "pop_n n ((pushed ^^ n) (pushed s)) = Ok ((), pushed s)"
    by (rule Suc.IH) (simp add: Suc.prems)
  with Suc.prems show ?case by (simp add: bnd_apply pop_off_pushed funpow_swap1)
qed simp

lemma pushed_n_ints_off: "\<not> ints ((pushed ^^ Suc n) s)"
  by (simp add: ints_def pushed_def)

section \<open>Several harts and one lock\<close>

text \<open>
  Where a hart stands in \<open>acquire\<close> or \<open>release\<close>: before the \<open>holding\<close> check, at the atomic
  swap, before the store to \<open>lk->cpu\<close>, in its critical section, before the check of
  \<open>release\<close>, before the store of 0 to \<open>lk->cpu\<close>, before the store that unlocks; \<open>Dead\<close>
  after a panic. A step is one such access by one hart.
\<close>

datatype lpc = Idle | AcqCheck | AcqSwap | AcqSet | Crit | RelCheck | RelClear | RelUnlock | Dead

record lk_sys =
  sys_locked :: bool
  sys_cpu :: "nat option"
  sys_pc :: "nat \<Rightarrow> lpc"

definition lk_init :: lk_sys where
  "lk_init = \<lparr>sys_locked = False, sys_cpu = None, sys_pc = (\<lambda>_. Idle)\<rparr>"

inductive lk_step :: "lk_sys \<Rightarrow> nat \<Rightarrow> lk_sys \<Rightarrow> bool" where
  call: "sys_pc s h = Idle \<Longrightarrow>
     lk_step s h (s\<lparr>sys_pc := (sys_pc s)(h := AcqCheck)\<rparr>)"
| acq_panic: "sys_pc s h = AcqCheck \<Longrightarrow> sys_locked s \<Longrightarrow> sys_cpu s = Some h \<Longrightarrow>
     lk_step s h (s\<lparr>sys_pc := (sys_pc s)(h := Dead)\<rparr>)"
| acq_check: "sys_pc s h = AcqCheck \<Longrightarrow> \<not> (sys_locked s \<and> sys_cpu s = Some h) \<Longrightarrow>
     lk_step s h (s\<lparr>sys_pc := (sys_pc s)(h := AcqSwap)\<rparr>)"
| spin: "sys_pc s h = AcqSwap \<Longrightarrow> sys_locked s \<Longrightarrow> lk_step s h s"
| swap: "sys_pc s h = AcqSwap \<Longrightarrow> \<not> sys_locked s \<Longrightarrow>
     lk_step s h (s\<lparr>sys_locked := True, sys_pc := (sys_pc s)(h := AcqSet)\<rparr>)"
| set_owner: "sys_pc s h = AcqSet \<Longrightarrow>
     lk_step s h (s\<lparr>sys_cpu := Some h, sys_pc := (sys_pc s)(h := Crit)\<rparr>)"
| leave: "sys_pc s h = Crit \<Longrightarrow>
     lk_step s h (s\<lparr>sys_pc := (sys_pc s)(h := RelCheck)\<rparr>)"
| rel_panic: "sys_pc s h = RelCheck \<Longrightarrow> \<not> (sys_locked s \<and> sys_cpu s = Some h) \<Longrightarrow>
     lk_step s h (s\<lparr>sys_pc := (sys_pc s)(h := Dead)\<rparr>)"
| rel_check: "sys_pc s h = RelCheck \<Longrightarrow> sys_locked s \<Longrightarrow> sys_cpu s = Some h \<Longrightarrow>
     lk_step s h (s\<lparr>sys_pc := (sys_pc s)(h := RelClear)\<rparr>)"
| rel_clear: "sys_pc s h = RelClear \<Longrightarrow>
     lk_step s h (s\<lparr>sys_cpu := None, sys_pc := (sys_pc s)(h := RelUnlock)\<rparr>)"
| rel_unlock: "sys_pc s h = RelUnlock \<Longrightarrow>
     lk_step s h (s\<lparr>sys_locked := False, sys_pc := (sys_pc s)(h := Idle)\<rparr>)"

inductive lk_reach :: "lk_sys \<Rightarrow> bool" where
  start: "lk_reach lk_init"
| step: "lk_reach s \<Longrightarrow> lk_step s h t \<Longrightarrow> lk_reach t"

definition owns :: "lpc \<Rightarrow> bool" where
  "owns p \<longleftrightarrow> p \<in> {AcqSet, Crit, RelCheck, RelClear, RelUnlock}"

definition marked :: "lpc \<Rightarrow> bool" where
  "marked p \<longleftrightarrow> p \<in> {Crit, RelCheck, RelClear}"

definition lk_inv :: "lk_sys \<Rightarrow> bool" where
  "lk_inv s \<longleftrightarrow>
     (sys_locked s \<longleftrightarrow> (\<exists>h. owns (sys_pc s h)))
     \<and> (\<forall>h h'. owns (sys_pc s h) \<longrightarrow> owns (sys_pc s h') \<longrightarrow> h = h')
     \<and> (\<forall>h. sys_cpu s = Some h \<longleftrightarrow> marked (sys_pc s h))
     \<and> (\<forall>h. sys_pc s h \<noteq> Dead)"

lemmas owner_simps = owns_def marked_def

lemma lk_inv_init: "lk_inv lk_init"
  by (simp add: lk_inv_def lk_init_def owner_simps)

lemma marked_owns: "marked p \<Longrightarrow> owns p"
  by (auto simp: owner_simps)

lemma lk_inv_move:
  assumes "lk_inv s" and "owns p = owns (sys_pc s h)" and "marked p = marked (sys_pc s h)"
    and "p \<noteq> Dead"
  shows "lk_inv (s\<lparr>sys_pc := (sys_pc s)(h := p)\<rparr>)"
  using assms unfolding lk_inv_def by (auto split: if_splits)

lemma lk_inv_others:
  assumes "lk_inv s" and "owns (sys_pc s h) \<or> \<not> sys_locked s" and "g \<noteq> h"
  shows "\<not> owns (sys_pc s g) \<and> sys_pc s g \<noteq> Dead"
  using assms unfolding lk_inv_def by metis

lemma lk_inv_owner:
  assumes others: "\<And>g. g \<noteq> h \<Longrightarrow> \<not> owns (sys_pc t g) \<and> sys_pc t g \<noteq> Dead"
    and h: "sys_pc t h \<noteq> Dead" "sys_locked t = owns (sys_pc t h)"
      "sys_cpu t = (if marked (sys_pc t h) then Some h else None)"
  shows "lk_inv t"
proof -
  have own: "owns (sys_pc t g) \<longleftrightarrow> g = h \<and> owns (sys_pc t h)" for g
    using others by (cases "g = h") auto
  have mark: "marked (sys_pc t g) \<longleftrightarrow> g = h \<and> marked (sys_pc t h)" for g
    using others marked_owns by (cases "g = h") auto
  show ?thesis
    unfolding lk_inv_def
  proof (intro conjI allI impI)
    show "sys_locked t \<longleftrightarrow> (\<exists>h. owns (sys_pc t h))" using h(2) own by blast
    show "g = g'" if "owns (sys_pc t g)" and "owns (sys_pc t g')" for g g'
      using that own [of g] own [of g'] by simp
    show "sys_cpu t = Some g \<longleftrightarrow> marked (sys_pc t g)" for g
      using h(3) mark [of g] by (auto split: if_splits)
    show "sys_pc t g \<noteq> Dead" for g using others h(1) by (cases "g = h") auto
  qed
qed

lemma lk_step_inv: "lk_step s h t \<Longrightarrow> lk_inv s \<Longrightarrow> lk_inv t"
proof (induction rule: lk_step.induct)
  case (acq_panic s h)
  then have "marked (sys_pc s h)" unfolding lk_inv_def by metis
  with acq_panic show ?case by (simp add: owner_simps)
next
  case (rel_panic s h)
  then have "marked (sys_pc s h)" and "owns (sys_pc s h)" by (simp_all add: owner_simps)
  with rel_panic have "sys_locked s" and "sys_cpu s = Some h"
    unfolding lk_inv_def by metis+
  with rel_panic show ?case by simp
next
  case (swap s h)
  then have "sys_cpu s = None"
    unfolding lk_inv_def by (metis marked_owns not_None_eq)
  with swap lk_inv_others [OF swap.prems, of h] show ?case
    by (intro lk_inv_owner [of h]) (simp_all add: owner_simps)
next
  case (set_owner s h)
  then have "owns (sys_pc s h)" and "sys_locked s"
    unfolding lk_inv_def by (auto simp: owner_simps)
  with set_owner lk_inv_others [OF set_owner.prems, of h] show ?case
    by (intro lk_inv_owner [of h]) (simp_all add: owner_simps)
next
  case (rel_clear s h)
  then have "owns (sys_pc s h)" and "sys_locked s"
    unfolding lk_inv_def by (auto simp: owner_simps)
  with rel_clear lk_inv_others [OF rel_clear.prems, of h] show ?case
    by (intro lk_inv_owner [of h]) (simp_all add: owner_simps)
next
  case (rel_unlock s h)
  then have h: "owns (sys_pc s h)" and "\<not> marked (sys_pc s h)" by (simp_all add: owner_simps)
  have "sys_cpu s = None"
  proof (rule ccontr)
    assume "sys_cpu s \<noteq> None"
    then obtain g where "sys_cpu s = Some g" by blast
    with rel_unlock.prems have "marked (sys_pc s g)" unfolding lk_inv_def by metis
    with \<open>\<not> marked (sys_pc s h)\<close> lk_inv_others [OF rel_unlock.prems, of h g] h show False
      using marked_owns by metis
  qed
  with rel_unlock h lk_inv_others [OF rel_unlock.prems, of h] show ?case
    by (intro lk_inv_owner [of h]) (simp_all add: owner_simps)
qed (simp_all add: lk_inv_move owner_simps)

lemma lk_reach_inv: "lk_reach s \<Longrightarrow> lk_inv s"
  by (induction rule: lk_reach.induct) (auto intro: lk_inv_init lk_step_inv)

lemma lk_move_exists:
  assumes "sys_pc s h \<noteq> Dead" and "\<not> (sys_pc s h = AcqSwap \<and> sys_locked s)"
  shows "\<exists>t. lk_step s h t \<and> sys_pc t h \<noteq> sys_pc s h"
proof (cases "sys_pc s h")
  case Idle
  from lk_step.call [OF this] Idle show ?thesis by (intro exI conjI) auto
next
  case AcqCheck
  from lk_step.acq_panic [OF this] lk_step.acq_check [OF this] AcqCheck show ?thesis
    by (cases "sys_locked s \<and> sys_cpu s = Some h") (intro exI conjI, auto)+
next
  case AcqSwap
  with assms(2) have "\<not> sys_locked s" by simp
  from lk_step.swap [OF AcqSwap this] AcqSwap show ?thesis by (intro exI conjI) auto
next
  case AcqSet
  from lk_step.set_owner [OF this] AcqSet show ?thesis by (intro exI conjI) auto
next
  case Crit
  from lk_step.leave [OF this] Crit show ?thesis by (intro exI conjI) auto
next
  case RelCheck
  from lk_step.rel_panic [OF this] lk_step.rel_check [OF this] RelCheck show ?thesis
    by (cases "sys_locked s \<and> sys_cpu s = Some h") (intro exI conjI, auto)+
next
  case RelClear
  from lk_step.rel_clear [OF this] RelClear show ?thesis by (intro exI conjI) auto
next
  case RelUnlock
  from lk_step.rel_unlock [OF this] RelUnlock show ?thesis by (intro exI conjI) auto
qed (use assms in simp)

text \<open>No deadlock on the lock: from every reachable state some hart moves on.\<close>

lemma lk_progress:
  assumes "lk_reach s"
  shows "\<exists>h t. lk_step s h t \<and> sys_pc t h \<noteq> sys_pc s h"
proof -
  have inv: "lk_inv s" using assms by (rule lk_reach_inv)
  then have nd: "\<And>h. sys_pc s h \<noteq> Dead" by (simp add: lk_inv_def)
  obtain h where "\<not> (sys_pc s h = AcqSwap \<and> sys_locked s)"
  proof (cases "sys_locked s")
    case True
    with inv obtain g where "owns (sys_pc s g)" by (auto simp: lk_inv_def)
    then have "sys_pc s g \<noteq> AcqSwap" by (auto simp: owner_simps)
    then show ?thesis using that by blast
  qed (use that in blast)
  with nd show ?thesis using lk_move_exists by blast
qed

section \<open>Properties\<close>

text \<open>C22: In every interleaving of harts that take and give up a spin lock, at most one hart is in
  its critical section, no hart panics, and the owner field names the hart in the section.\<close>

theorem spinlock_mutex:
  assumes "lk_reach s"
  shows "(sys_pc s h = Crit \<and> sys_pc s h' = Crit \<longrightarrow> h = h') \<and> sys_pc s h \<noteq> Dead \<and>
    (sys_pc s h = Crit \<longrightarrow> sys_locked s \<and> sys_cpu s = Some h)"
proof -
  have i: "lk_inv s" using assms by (rule lk_reach_inv)
  have "owns Crit" and "marked Crit" by (simp_all add: owner_simps)
  with i have "sys_pc s h = Crit \<Longrightarrow> sys_pc s h' = Crit \<Longrightarrow> h = h'"
    and "sys_pc s h \<noteq> Dead" and "sys_pc s h = Crit \<Longrightarrow> sys_locked s \<and> sys_cpu s = Some h"
    unfolding lk_inv_def by metis+
  then show ?thesis by blast
qed

theorem spinlock_mutex_witness:
  "\<exists>s. lk_reach s \<and> sys_pc s 0 = Crit \<and> sys_locked s \<and> sys_cpu s = Some 0"
proof -
  let ?a = "lk_init\<lparr>sys_pc := (sys_pc lk_init)(0 := AcqCheck)\<rparr>"
  let ?b = "?a\<lparr>sys_pc := (sys_pc ?a)(0 := AcqSwap)\<rparr>"
  let ?c = "?b\<lparr>sys_locked := True, sys_pc := (sys_pc ?b)(0 := AcqSet)\<rparr>"
  let ?d = "?c\<lparr>sys_cpu := Some 0, sys_pc := (sys_pc ?c)(0 := Crit)\<rparr>"
  have "lk_reach ?a" by (rule lk_reach.step [OF lk_reach.start lk_step.call]) (simp add: lk_init_def)
  then have "lk_reach ?b" by (rule lk_reach.step [OF _ lk_step.acq_check]) (simp_all add: lk_init_def)
  then have "lk_reach ?c" by (rule lk_reach.step [OF _ lk_step.swap]) (simp_all add: lk_init_def)
  then have d: "lk_reach ?d" by (rule lk_reach.step [OF _ lk_step.set_owner]) simp
  then show ?thesis using spinlock_mutex [OF d, of 0 0] by (intro exI [of _ ?d]) simp
qed




definition cpu_st0 :: cpu_st where
  "cpu_st0 = \<lparr>hart = 0, cpus = (\<lambda>_. \<lparr>c_proc = None, noff = 0, intena = True\<rparr>), sstatus = (\<lambda>_. 2),
     locks = (\<lambda>_. \<lparr>locked = False, lname = ''l'', lcpu = None\<rparr>)\<rparr>"


end
