(* ===== verification/Kalloc.thy ===== *)
theory Kalloc
  imports Spinlock
begin

text \<open>
  The physical page allocator, \<open>kernel/kalloc.c\<close>. The free list is a linked list threaded
  through the first word of each free page of the byte memory, as in the source; \<open>fl_rep\<close>
  abstracts it to the list of free pages. The locale \<open>page_alloc\<close> is the contract the rest
  of the kernel relies on; it is interpreted on \<open>kalloc\<close> and \<open>kfree\<close>.
\<close>

section \<open>State and operations\<close>

text \<open>\<open>kernel_end\<close> is the linker symbol \<open>end\<close>, the first address after the kernel.\<close>

record kmem_st = cpu_st +
  pmem :: bytes
  freelist :: u64
  kernel_end :: u64

definition PGSIZE :: nat where "PGSIZE = 4096"
definition KERNBASE :: u64 where "KERNBASE = 0x80000000"
definition PHYSTOP :: u64 where "PHYSTOP = KERNBASE + 128 * 1024 * 1024"

definition PGROUNDUP :: "u64 \<Rightarrow> u64" where
  "PGROUNDUP sz = (sz + 4096 - 1) AND NOT (4096 - 1)"

definition PGROUNDDOWN :: "u64 \<Rightarrow> u64" where
  "PGROUNDDOWN a = a AND NOT (4096 - 1)"

definition kfree :: "u64 \<Rightarrow> ('a kmem_st_scheme, unit) K" where
  "kfree pa =
     bnd (gets kernel_end) (\<lambda>e.
     if pa mod 4096 \<noteq> 0 \<or> pa < e \<or> pa \<ge> PHYSTOP then panic ''kfree''
     else bnd (modify (\<lambda>s. s\<lparr>pmem := memset (pmem s) (unat pa) 1 PGSIZE\<rparr>)) (\<lambda>_.
       bnd (acquire LKmem) (\<lambda>_.
       bnd (modify (\<lambda>s. s\<lparr>pmem := st64 (pmem s) (unat pa) (freelist s)\<rparr>)) (\<lambda>_.
       bnd (modify (\<lambda>s. s\<lparr>freelist := pa\<rparr>)) (\<lambda>_.
       release LKmem)))))"

definition kalloc :: "('a kmem_st_scheme, u64) K" where
  "kalloc =
     bnd (acquire LKmem) (\<lambda>_.
     bnd (gets freelist) (\<lambda>r.
     bnd (whenK (r \<noteq> 0) (modify (\<lambda>s. s\<lparr>freelist := ld64 (pmem s) (unat r)\<rparr>))) (\<lambda>_.
     bnd (release LKmem) (\<lambda>_.
     bnd (whenK (r \<noteq> 0) (modify (\<lambda>s. s\<lparr>pmem := memset (pmem s) (unat r) 5 PGSIZE\<rparr>))) (\<lambda>_.
     ret r)))))"

text \<open>The loop of \<open>freerange\<close> visits every page that lies between its two arguments.\<close>

definition freerange :: "u64 \<Rightarrow> u64 \<Rightarrow> ('a kmem_st_scheme, unit) K" where
  "freerange pa_start pa_end =
     forK (\<lambda>i. kfree (PGROUNDUP pa_start + of_nat (i * PGSIZE)))
       [0..<(unat pa_end - unat (PGROUNDUP pa_start)) div PGSIZE]"

definition kinit :: "('a kmem_st_scheme, unit) K" where
  "kinit =
     bnd (initlock LKmem ''kmem'') (\<lambda>_.
     bnd (gets kernel_end) (\<lambda>e.
     freerange e PHYSTOP))"

section \<open>The list of free pages\<close>

primrec fl_rep :: "bytes \<Rightarrow> u64 \<Rightarrow> u64 list \<Rightarrow> bool" where
  "fl_rep m p [] \<longleftrightarrow> p = 0"
| "fl_rep m p (q # qs) \<longleftrightarrow> p = q \<and> q \<noteq> 0 \<and> fl_rep m (ld64 m (unat q)) qs"

definition page_ok :: "u64 \<Rightarrow> u64 \<Rightarrow> bool" where
  "page_ok e p \<longleftrightarrow> p mod 4096 = 0 \<and> e \<le> p \<and> p < PHYSTOP"

definition kinv :: "'a kmem_st_scheme \<Rightarrow> u64 list \<Rightarrow> bool" where
  "kinv s ps \<longleftrightarrow>
     fl_rep (pmem s) (freelist s) ps \<and> distinct ps \<and> 0 < kernel_end s
     \<and> (\<forall>p \<in> set ps. page_ok (kernel_end s) p)"

lemma acq_kmem [simp]:
  "pmem (acq l s) = pmem s" "freelist (acq l s) = freelist s"
  "kernel_end (acq l s) = kernel_end s"
  "(acq l s)\<lparr>pmem := m\<rparr> = acq l (s\<lparr>pmem := m\<rparr>)"
  "(acq l s)\<lparr>freelist := p\<rparr> = acq l (s\<lparr>freelist := p\<rparr>)"
  by (simp_all add: acq_def pushed_def ints_def)

lemma cpu_ok_kmem [simp]:
  "cpu_ok (s\<lparr>pmem := m\<rparr>) = cpu_ok s" "cpu_ok (s\<lparr>freelist := p\<rparr>) = cpu_ok s"
  "lfree l (s\<lparr>pmem := m\<rparr>) = lfree l s" "lfree l (s\<lparr>freelist := p\<rparr>) = lfree l s"
  by (simp_all add: cpu_ok_def lfree_def ints_def)

lemma page_aligned: "p mod 4096 = 0 \<longleftrightarrow> unat (p :: u64) mod PGSIZE = 0"
proof -
  have "unat (p mod 4096) = unat p mod PGSIZE" by (simp add: unat_mod PGSIZE_def)
  then show ?thesis by (metis unat_0 unat_eq_zero)
qed

lemma page_disjoint:
  assumes "p mod 4096 = 0" and "q mod 4096 = 0" and "p \<noteq> (q :: u64)"
  shows "unat p + PGSIZE \<le> unat q \<or> unat q + PGSIZE \<le> unat p"
proof -
  obtain i j where "unat p = PGSIZE * i" and "unat q = PGSIZE * j"
    using assms(1,2) by (auto simp: page_aligned mod_eq_0_iff_dvd elim!: dvdE)
  moreover from assms(3) have "unat p \<noteq> unat q" by (simp add: word_unat_eq_iff)
  ultimately have "i < j \<or> j < i" by auto
  then have "Suc i \<le> j \<or> Suc j \<le> i" by auto
  then have "PGSIZE * Suc i \<le> PGSIZE * j \<or> PGSIZE * Suc j \<le> PGSIZE * i"
    using mult_le_mono2 by blast
  then show ?thesis using \<open>unat p = PGSIZE * i\<close> \<open>unat q = PGSIZE * j\<close> by auto
qed

text \<open>Writes inside a page that is not on the list leave the list alone.\<close>

lemma fl_rep_wr:
  assumes "fl_rep m p ps" and "\<forall>x \<in> set ps. x mod 4096 = 0 \<and> x \<noteq> q" and "q mod 4096 = 0"
    and "unat q \<le> a" and "a + length bs \<le> unat q + PGSIZE"
  shows "fl_rep (wr m a bs) p ps"
  using assms
proof (induction ps arbitrary: p)
  case (Cons x xs)
  then have "x mod 4096 = 0" and "x \<noteq> q" by auto
  with Cons.prems(3) have "unat x + PGSIZE \<le> unat q \<or> unat q + PGSIZE \<le> unat x"
    by (intro page_disjoint) auto
  with Cons.prems(4,5) have "ld64 (wr m a bs) (unat x) = ld64 m (unat x)"
    by (intro ld_wr_disjoint) (auto simp: PGSIZE_def)
  with Cons show ?case by auto
qed simp

section \<open>What the operations do\<close>

lemma kfree_eq [ksteps]:
  assumes "cpu_ok s" and "lfree LKmem s" and "page_ok (kernel_end s) pa"
  shows "kfree pa s = Ok ((), s\<lparr>pmem := st64 (memset (pmem s) (unat pa) 1 PGSIZE) (unat pa) (freelist s),
     freelist := pa\<rparr>)"
proof -
  have "\<not> (pa mod 4096 \<noteq> 0 \<or> pa < kernel_end s \<or> pa \<ge> PHYSTOP)"
    using assms(3) by (auto simp: page_ok_def)
  then show ?thesis
    using assms(1,2) by (simp add: kfree_def bnd_apply acquire_eq release_acq)
qed

lemma kfree_panics [ksteps]:
  assumes "\<not> page_ok (kernel_end s) pa"
  shows "kfree pa s = Panic ''kfree''"
proof -
  have "pa mod 4096 \<noteq> 0 \<or> pa < kernel_end s \<or> pa \<ge> PHYSTOP"
    using assms by (simp only: page_ok_def de_Morgan_conj not_le not_less)
  then show ?thesis by (simp only: kfree_def bnd_apply gets_apply outcome.case fst_conv snd_conv
      if_True panic_apply)
qed

lemma kalloc_eq [ksteps]:
  assumes "cpu_ok s" and "lfree LKmem s"
  shows "kalloc s = Ok (freelist s, if freelist s = 0 then s
     else s\<lparr>freelist := ld64 (pmem s) (unat (freelist s)),
            pmem := memset (pmem s) (unat (freelist s)) 5 PGSIZE\<rparr>)"
  using assms by (simp add: kalloc_def bnd_apply acquire_eq release_acq whenK_def)

lemma kfree_inv:
  assumes "kinv s ps" and "cpu_ok s" and "lfree LKmem s" and "page_ok (kernel_end s) pa"
    and "pa \<notin> set ps"
  shows "\<exists>s'. kfree pa s = Ok ((), s') \<and> kinv s' (pa # ps)"
proof -
  let ?m = "memset (pmem s) (unat pa) 1 PGSIZE"
  let ?m' = "st64 ?m (unat pa) (freelist s)"
  have pa: "pa mod 4096 = 0" and "0 < kernel_end s" and "kernel_end s \<le> pa"
    and others: "\<forall>x \<in> set ps. x mod 4096 = 0 \<and> x \<noteq> pa"
    using assms by (auto simp: kinv_def page_ok_def)
  have "fl_rep (pmem s) (freelist s) ps" using assms(1) by (simp add: kinv_def)
  then have "fl_rep ?m (freelist s) ps"
    unfolding memset_eq by (rule fl_rep_wr [OF _ others pa]) (simp_all add: PGSIZE_def)
  then have "fl_rep ?m' (freelist s) ps"
    unfolding st64_def by (rule fl_rep_wr [OF _ others pa]) (simp_all add: PGSIZE_def)
  moreover have "pa \<noteq> 0" using \<open>0 < kernel_end s\<close> \<open>kernel_end s \<le> pa\<close> by auto
  ultimately show ?thesis
    using assms by (auto simp: kfree_eq kinv_def)
qed

lemma kalloc_inv:
  assumes "kinv s (p # ps)" and "cpu_ok s" and "lfree LKmem s"
  shows "\<exists>s'. kalloc s = Ok (p, s') \<and> kinv s' ps \<and> rd (pmem s') (unat p) PGSIZE = replicate PGSIZE 5"
proof -
  let ?m = "memset (pmem s) (unat p) 5 PGSIZE"
  have p: "freelist s = p" "p \<noteq> 0" "p mod 4096 = 0"
    and others: "\<forall>x \<in> set ps. x mod 4096 = 0 \<and> x \<noteq> p"
    using assms(1) by (auto simp: kinv_def page_ok_def)
  have "fl_rep (pmem s) (ld64 (pmem s) (unat p)) ps" using assms(1) by (simp add: kinv_def)
  then have "fl_rep ?m (ld64 (pmem s) (unat p)) ps"
    unfolding memset_eq by (rule fl_rep_wr [OF _ others p(3)]) (simp_all add: PGSIZE_def)
  then show ?thesis
    using assms p by (simp add: kalloc_eq kinv_def memset_eq)
qed

lemma kalloc_empty: "kinv s [] \<Longrightarrow> cpu_ok s \<Longrightarrow> lfree LKmem s \<Longrightarrow> kalloc s = Ok (0, s)"
  by (simp add: kalloc_eq kinv_def)

section \<open>Rounding to pages\<close>

lemma PGROUNDDOWN_eq: "PGROUNDDOWN a = push_bit 12 (drop_bit 12 a)"
proof -
  have "(4096 - 1 :: u64) = mask 12" by (simp add: mask_eq_exp_minus_1)
  then have "PGROUNDDOWN a = a AND NOT (mask 12)" by (simp only: PGROUNDDOWN_def)
  also have "\<dots> = push_bit 12 (drop_bit 12 a)"
    by (intro bit_word_eqI) (auto simp del: mask_numeral simp: bit_and_iff bit_not_iff
        bit_mask_iff bit_push_bit_iff bit_drop_bit_eq)
  finally show ?thesis .
qed

lemma unat_PGROUNDDOWN: "unat (PGROUNDDOWN a) = PGSIZE * (unat a div PGSIZE)"
proof -
  have "unat (drop_bit 12 a) = unat a div PGSIZE"
    by (simp add: drop_bit_eq_div unat_div PGSIZE_def)
  moreover have "unat a < 2 ^ 64" using unsigned_less [of a, where 'a = nat] by simp
  then have "PGSIZE * (unat a div PGSIZE) < 2 ^ 64"
    by (rule le_less_trans [OF times_div_less_eq_dividend])
  ultimately show ?thesis
    by (simp add: PGROUNDDOWN_eq push_bit_eq_mult unat_word_ariths PGSIZE_def)
qed

lemma PGROUNDUP_DOWN: "PGROUNDUP a = PGROUNDDOWN (a + 4095)"
  by (simp add: PGROUNDUP_def PGROUNDDOWN_def add.commute)

lemma unat_PGROUNDUP:
  assumes "unat a + 4095 < 2 ^ 64"
  shows "unat (PGROUNDUP a) = PGSIZE * ((unat a + 4095) div PGSIZE)"
proof -
  have "unat (a + 4095) = unat a + 4095" using assms by (simp add: unat_word_ariths)
  then show ?thesis by (simp add: PGROUNDUP_DOWN unat_PGROUNDDOWN)
qed

lemma PGROUNDUP_aligned: "PGROUNDUP a mod 4096 = 0" and PGROUNDDOWN_aligned: "PGROUNDDOWN a mod 4096 = 0"
  by (simp_all only: page_aligned PGROUNDUP_DOWN unat_PGROUNDDOWN mod_mult_self1_is_0)

lemma PGROUNDUP_ge:
  assumes "unat a + 4095 < 2 ^ 64"
  shows "unat a \<le> unat (PGROUNDUP a)" and "unat (PGROUNDUP a) < unat a + PGSIZE"
  using assms by (auto simp: unat_PGROUNDUP PGSIZE_def)

section \<open>Filling the free list\<close>

lemma unat_PHYSTOP: "unat PHYSTOP = 0x88000000"
  by (simp add: PHYSTOP_def KERNBASE_def)

definition range_pages :: "u64 \<Rightarrow> nat \<Rightarrow> u64 list" where
  "range_pages a n = rev (map (\<lambda>i. a + of_nat (i * PGSIZE)) [0..<n])"

lemma unat_range_page:
  assumes "unat a + n * PGSIZE \<le> unat PHYSTOP" and "i < n"
  shows "unat (a + of_nat (i * PGSIZE) :: u64) = unat a + i * PGSIZE"
proof -
  have "i * PGSIZE \<le> n * PGSIZE" using assms(2) by simp
  with assms(1) have "unat a + i * PGSIZE \<le> 0x88000000" by (simp only: unat_PHYSTOP)
  then show ?thesis
    by (simp add: unat_word_ariths unat_of_nat PGSIZE_def)
qed

lemma range_page_ok:
  assumes "unat a + n * PGSIZE \<le> unat PHYSTOP" and "i < n" and "a mod 4096 = 0" and "e \<le> a"
  shows "page_ok e (a + of_nat (i * PGSIZE))"
proof -
  have u: "unat (a + of_nat (i * PGSIZE)) = unat a + i * PGSIZE"
    using assms(1,2) by (rule unat_range_page)
  have "unat a mod PGSIZE = 0" using assms(3) by (simp only: page_aligned)
  then have "(a + of_nat (i * PGSIZE)) mod 4096 = 0"
    by (simp only: page_aligned u) (simp add: mod_add_left_eq [symmetric])
  moreover have "Suc i * PGSIZE \<le> n * PGSIZE" using assms(2) by (intro mult_le_mono1) simp
  then have "unat a + i * PGSIZE < unat PHYSTOP" using assms(1) by (simp add: PGSIZE_def)
  moreover have "unat e \<le> unat a" using assms(4) by (simp add: word_le_nat_alt)
  ultimately show ?thesis
    unfolding page_ok_def word_le_nat_alt word_less_nat_alt u by simp
qed

lemma freerange_steps:
  assumes "kinv s []" and "cpu_ok s" and "lfree LKmem s"
    and "unat a + n * PGSIZE \<le> unat PHYSTOP" and "a mod 4096 = 0" and "kernel_end s \<le> a"
  shows "\<exists>s'. forK (\<lambda>i. kfree (a + of_nat (i * PGSIZE))) [0..<n] s = Ok ((), s')
     \<and> kinv s' (range_pages a n) \<and> cpu_ok s' \<and> lfree LKmem s' \<and> kernel_end s' = kernel_end s"
  using assms(4)
proof (induction n)
  case 0
  show ?case using assms(1-3) by (simp add: range_pages_def)
next
  case (Suc n)
  from Suc.prems have le: "unat a + n * PGSIZE \<le> unat PHYSTOP" by simp
  then obtain t where t: "forK (\<lambda>i. kfree (a + of_nat (i * PGSIZE))) [0..<n] s = Ok ((), t)"
      "kinv t (range_pages a n)" "cpu_ok t" "lfree LKmem t" "kernel_end t = kernel_end s"
    using Suc.IH by blast
  let ?p = "a + of_nat (n * PGSIZE)"
  have ok: "page_ok (kernel_end t) ?p"
    using t(5) range_page_ok [OF Suc.prems _ assms(5,6)] by simp
  have "?p \<notin> set (range_pages a n)"
  proof
    assume "?p \<in> set (range_pages a n)"
    then obtain i where "i < n" and "?p = a + of_nat (i * PGSIZE)"
      by (auto simp: range_pages_def)
    then have "unat a + n * PGSIZE = unat a + i * PGSIZE"
      using unat_range_page [OF Suc.prems] by (metis less_Suc_eq)
    with \<open>i < n\<close> show False by (simp add: PGSIZE_def)
  qed
  then obtain u where "kfree ?p t = Ok ((), u)" and "kinv u (?p # range_pages a n)"
    using kfree_inv [OF t(2,3,4) ok] by blast
  moreover have "cpu_ok u" and "lfree LKmem u" and "kernel_end u = kernel_end t"
    using calculation(1) t(3,4) ok by (auto simp: kfree_eq)
  ultimately show ?case
    using t by (simp add: forK_append bnd_apply range_pages_def)
qed

section \<open>The contract of the allocator\<close>

text \<open>
  \<open>pages s ps\<close>: the allocator is usable and \<open>ps\<close> are its free pages, most recently freed
  first. \<open>ok s p\<close>: \<open>p\<close> is the address of a page the allocator manages.
\<close>

locale page_alloc =
  fixes alloc :: "('s, u64) K"
    and free :: "u64 \<Rightarrow> ('s, unit) K"
    and pages :: "'s \<Rightarrow> u64 list \<Rightarrow> bool"
    and ok :: "'s \<Rightarrow> u64 \<Rightarrow> bool"
  assumes pages_distinct: "pages s ps \<Longrightarrow> distinct ps"
    and pages_ok: "pages s ps \<Longrightarrow> p \<in> set ps \<Longrightarrow> ok s p \<and> p \<noteq> 0"
    and alloc_Nil: "pages s [] \<Longrightarrow> alloc s = Ok (0, s)"
    and alloc_Cons: "pages s (p # ps) \<Longrightarrow> \<exists>s'. alloc s = Ok (p, s') \<and> pages s' ps \<and> ok s' = ok s"
    and free_push: "pages s ps \<Longrightarrow> ok s p \<Longrightarrow> p \<notin> set ps \<Longrightarrow>
      \<exists>s'. free p s = Ok ((), s') \<and> pages s' (p # ps) \<and> ok s' = ok s"
begin

primrec alloc_n :: "nat \<Rightarrow> ('s, u64 list) K" where
  "alloc_n 0 = ret []"
| "alloc_n (Suc n) = bnd alloc (\<lambda>p. bnd (alloc_n n) (\<lambda>ps. ret (p # ps)))"

lemma alloc_n_takes:
  "pages s (ps @ qs) \<Longrightarrow> \<exists>s'. alloc_n (length ps) s = Ok (ps, s') \<and> pages s' qs"
proof (induction ps arbitrary: s)
  case Nil
  then show ?case by auto
next
  case (Cons p ps)
  then obtain t where "alloc s = Ok (p, t)" and "pages t (ps @ qs)"
    using alloc_Cons by fastforce
  moreover then obtain u where "alloc_n (length ps) t = Ok (ps, u)" and "pages u qs"
    using Cons.IH by blast
  ultimately show ?case by (auto simp: bnd_apply)
qed

lemma alloc_n_distinct:
  assumes "pages s ps" and "n \<le> length ps"
  shows "\<exists>qs s'. alloc_n n s = Ok (qs, s') \<and> distinct qs \<and> (\<forall>p \<in> set qs. ok s p \<and> p \<noteq> 0)
     \<and> pages s' (drop n ps)"
proof -
  have "pages s (take n ps @ drop n ps)" using assms(1) by simp
  then obtain s' where "alloc_n n s = Ok (take n ps, s')" and "pages s' (drop n ps)"
    using alloc_n_takes [of s "take n ps" "drop n ps"] assms(2) by (auto simp: min_absorb2)
  moreover have "distinct (take n ps)" using pages_distinct [OF assms(1)] by simp
  moreover have "\<forall>p \<in> set (take n ps). ok s p \<and> p \<noteq> 0"
    using pages_ok [OF assms(1)] by (meson in_set_takeD)
  ultimately show ?thesis by blast
qed

lemma free_then_alloc:
  assumes "pages s ps" and "ok s p" and "p \<notin> set ps"
  shows "\<exists>s'. bnd (free p) (\<lambda>_. alloc) s = Ok (p, s') \<and> pages s' ps"
  using free_push [OF assms] by (auto simp: bnd_apply dest: alloc_Cons)

end

definition kpages :: "'a kmem_st_scheme \<Rightarrow> u64 list \<Rightarrow> bool" where
  "kpages s ps \<longleftrightarrow> kinv s ps \<and> cpu_ok s \<and> lfree LKmem s"

definition kpage :: "'a kmem_st_scheme \<Rightarrow> u64 \<Rightarrow> bool" where
  "kpage s p \<longleftrightarrow> page_ok (kernel_end s) p"

interpretation km: page_alloc kalloc kfree kpages kpage
proof unfold_locales
  fix s :: "'a kmem_st_scheme" and ps p
  show "distinct ps" if "kpages s ps"
    using that by (simp add: kpages_def kinv_def)
  show "kpage s p \<and> p \<noteq> 0" if "kpages s ps" and "p \<in> set ps"
    using that by (auto simp: kpages_def kpage_def kinv_def page_ok_def)
  show "kalloc s = Ok (0, s)" if "kpages s []"
    using that kalloc_empty by (auto simp: kpages_def)
  show "\<exists>s'. kalloc s = Ok (p, s') \<and> kpages s' ps \<and> kpage s' = kpage s" if a: "kpages s (p # ps)"
  proof -
    obtain s' where s': "kalloc s = Ok (p, s')" "kinv s' ps"
      using a kalloc_inv [of s p ps] by (auto simp: kpages_def)
    moreover from s'(1) a have "cpu_ok s' \<and> lfree LKmem s' \<and> kernel_end s' = kernel_end s"
      by (auto simp: kalloc_eq kpages_def split: if_splits)
    ultimately show ?thesis by (auto simp: kpages_def kpage_def fun_eq_iff)
  qed
  show "\<exists>s'. kfree p s = Ok ((), s') \<and> kpages s' (p # ps) \<and> kpage s' = kpage s"
    if a: "kpages s ps" "kpage s p" "p \<notin> set ps"
  proof -
    obtain s' where s': "kfree p s = Ok ((), s')" "kinv s' (p # ps)"
      using a kfree_inv [of s ps p] by (auto simp: kpages_def kpage_def)
    moreover from s'(1) a have "cpu_ok s' \<and> lfree LKmem s' \<and> kernel_end s' = kernel_end s"
      by (auto simp: kfree_eq kpages_def kpage_def)
    ultimately show ?thesis by (auto simp: kpages_def kpage_def fun_eq_iff)
  qed
qed

lemma kinit_steps:
  assumes "cpu_ok s" and "0 < kernel_end s" and "kernel_end s \<le> PHYSTOP" and "freelist s = 0"
  shows "\<exists>s'. kinit s = Ok ((), s') \<and> kpages s' (range_pages (PGROUNDUP (kernel_end s))
    ((unat PHYSTOP - unat (PGROUNDUP (kernel_end s))) div PGSIZE)) \<and> kernel_end s' = kernel_end s"
proof -
  let ?a = "PGROUNDUP (kernel_end s)" and ?s = "s\<lparr>locks := (locks s)(LKmem :=
    \<lparr>locked = False, lname = ''kmem'', lcpu = None\<rparr>)\<rparr>"
  let ?n = "(unat PHYSTOP - unat ?a) div PGSIZE"
  have e: "unat (kernel_end s) \<le> 0x88000000" using assms(3) unat_PHYSTOP by (simp add: word_le_nat_alt)
  then have ge: "unat (kernel_end s) \<le> unat ?a" by (intro PGROUNDUP_ge(1)) simp
  have "(unat (kernel_end s) + 4095) div PGSIZE \<le> (0x88000000 + 4095) div PGSIZE"
    by (rule div_le_mono) (use e in simp)
  then have "PGSIZE * ((unat (kernel_end s) + 4095) div PGSIZE) \<le> 0x88000000" by (simp add: PGSIZE_def)
  then have "unat ?a \<le> unat PHYSTOP"
    using e unfolding unat_PHYSTOP by (subst unat_PGROUNDUP) simp_all
  moreover have "?n * PGSIZE \<le> unat PHYSTOP - unat ?a" by (rule div_times_less_eq_dividend)
  ultimately have "unat ?a + ?n * PGSIZE \<le> unat PHYSTOP" by linarith
  moreover have "kinv ?s []" "cpu_ok ?s" "lfree LKmem ?s"
    using assms by (simp_all add: kinv_def cpu_ok_def ints_def lfree_def)
  moreover have "kernel_end ?s \<le> ?a" using ge by (simp add: word_le_nat_alt)
  ultimately obtain s' where "forK (\<lambda>i. kfree (?a + of_nat (i * PGSIZE))) [0..<?n] ?s = Ok ((), s')"
      "kinv s' (range_pages ?a ?n)" "cpu_ok s'" "lfree LKmem s'" "kernel_end s' = kernel_end s"
    using freerange_steps [of ?s ?a ?n] PGROUNDUP_aligned [of "kernel_end s"] by auto
  then show ?thesis
    by (simp add: kinit_def bnd_apply initlock_def freerange_def kpages_def del: of_nat_mult)
qed

section \<open>Properties\<close>

text \<open>C23: As long as the list has \<open>n\<close> free pages, \<open>n\<close> calls of \<open>kalloc\<close> return \<open>n\<close> different pages
  inside the managed range, none of them null, and leave the rest of the list.\<close>

theorem kalloc_distinct:
  assumes "kpages s ps" and "n \<le> length ps"
  shows "\<exists>qs s'. km.alloc_n n s = Ok (qs, s') \<and> distinct qs \<and> (\<forall>p \<in> set qs. kpage s p \<and> p \<noteq> 0) \<and>
    kpages s' (drop n ps)"
  using km.alloc_n_distinct [OF assms] .

definition kmem_st0 :: kmem_st where
  "kmem_st0 = cpu_st.extend cpu_st0 (kmem_st.fields
     (st64 (st64 (\<lambda>_. 0) 0x80100000 0x80101000) 0x80101000 0) 0x80100000 0x80100000)"

lemma kpages_st0: "kpages kmem_st0 [0x80100000, 0x80101000]"
proof -
  have "cpu_ok kmem_st0" "lfree LKmem kmem_st0"
    by (simp_all add: cpu_ok_def lfree_def ints_def kmem_st0_def cpu_st0_def cpu_st.defs
        kmem_st.defs SSTATUS_SIE_def)
  moreover have "pmem kmem_st0 = st64 (st64 (\<lambda>_. 0) 0x80100000 0x80101000) 0x80101000 0"
    "freelist kmem_st0 = 0x80100000" "kernel_end kmem_st0 = 0x80100000"
    by (simp_all add: kmem_st0_def cpu_st0_def cpu_st.defs kmem_st.defs)
  ultimately show ?thesis
    by (simp add: kpages_def kinv_def page_ok_def PHYSTOP_def KERNBASE_def)
qed

theorem kalloc_distinct_witness:
  "\<exists>qs s'. km.alloc_n 2 kmem_st0 = Ok (qs, s') \<and> distinct qs \<and> kpages s' []"
  using kalloc_distinct [OF kpages_st0, of 2] by auto

text \<open>C24: A page given to \<open>kfree\<close> is the next one \<open>kalloc\<close> returns, and the list is then as it
  was; an address that is unaligned, below the end of the kernel or above the end of memory makes
  \<open>kfree\<close> panic.\<close>

theorem kfree_kalloc:
  "(kpages s ps \<longrightarrow> kpage s p \<longrightarrow> p \<notin> set ps \<longrightarrow>
     (\<exists>s'. bnd (kfree p) (\<lambda>_. kalloc) s = Ok (p, s') \<and> kpages s' ps)) \<and>
   (\<not> kpage s p \<longrightarrow> kfree p s = Panic ''kfree'')"
  using km.free_then_alloc [of s ps p] kfree_panics [of s p] by (auto simp: kpage_def)

theorem kfree_kalloc_witness:
  "(\<exists>s'. bnd (kfree 0x80102000) (\<lambda>_. kalloc) kmem_st0 = Ok (0x80102000, s') \<and>
      kpages s' [0x80100000, 0x80101000]) \<and> kfree 0x80102001 kmem_st0 = Panic ''kfree''"
proof -
  have e: "kernel_end kmem_st0 = 0x80100000"
    by (simp add: kmem_st0_def cpu_st0_def cpu_st.defs kmem_st.defs)
  have "kpage kmem_st0 0x80102000" "\<not> kpage kmem_st0 0x80102001"
    by (simp_all add: kpage_def page_ok_def e PHYSTOP_def KERNBASE_def)
  then show ?thesis
    using kfree_kalloc [of kmem_st0 "[0x80100000, 0x80101000]" "0x80102000"]
      kfree_kalloc [of kmem_st0 "[]" "0x80102001"] kpages_st0 by simp
qed

text \<open>C25: \<open>kinit\<close> returns and hands the allocator every whole page between the end of the kernel
  and the end of memory, each once.\<close>

theorem kinit_fills:
  assumes "cpu_ok s" and "0 < kernel_end s" and "kernel_end s \<le> PHYSTOP" and "freelist s = 0"
  shows "\<exists>s'. kinit s = Ok ((), s') \<and> kpages s' (range_pages (PGROUNDUP (kernel_end s))
    ((unat PHYSTOP - unat (PGROUNDUP (kernel_end s))) div PGSIZE))"
  using kinit_steps [OF assms] by blast

theorem kinit_fills_witness:
  "\<exists>s'. kinit (kmem_st0\<lparr>freelist := 0, kernel_end := 0x80100000\<rparr>) = Ok ((), s') \<and> kpages s'
     (range_pages (PGROUNDUP 0x80100000) ((unat PHYSTOP - unat (PGROUNDUP 0x80100000)) div PGSIZE))"
  by (rule kinit_fills [of "kmem_st0\<lparr>freelist := 0, kernel_end := 0x80100000\<rparr>", simplified])
     (simp_all add: cpu_ok_def ints_def kmem_st0_def cpu_st0_def cpu_st.defs kmem_st.defs
       SSTATUS_SIE_def PHYSTOP_def KERNBASE_def)

end
