(* ===== verification/Vm.thy ===== *)
theory Vm
  imports Kalloc
begin

text \<open>
  Page tables and user memory: \<open>kernel/vm.c\<close> with the Sv39 macros of \<open>kernel/riscv.h\<close>.
  Page tables live in the physical memory of the allocator, three levels of 512 entries
  of eight bytes. A pointer to a page-table entry is its address, 0 for the null pointer.
  The kernel side of \<open>copyout\<close> and \<open>copyin\<close> is a list of bytes: the bytes at \<open>src\<close>, and the
  bytes that have been stored from \<open>dst\<close> on.
\<close>

section \<open>Sv39 constants\<close>

definition PTE_V :: u64 where "PTE_V = 1"
definition PTE_R :: u64 where "PTE_R = 2"
definition PTE_W :: u64 where "PTE_W = 4"
definition PTE_X :: u64 where "PTE_X = 8"
definition PTE_U :: u64 where "PTE_U = 16"

definition PA2PTE :: "u64 \<Rightarrow> u64" where "PA2PTE pa = push_bit 10 (drop_bit 12 pa)"
definition PTE2PA :: "u64 \<Rightarrow> u64" where "PTE2PA pte = push_bit 12 (drop_bit 10 pte)"
definition PTE_FLAGS :: "u64 \<Rightarrow> u64" where "PTE_FLAGS pte = pte AND 0x3FF"

definition PX :: "nat \<Rightarrow> u64 \<Rightarrow> u64" where
  "PX level va = drop_bit (12 + 9 * level) va AND 0x1FF"

definition MAXVA :: u64 where "MAXVA = push_bit (9 + 9 + 9 + 12 - 1) 1"
definition TRAMPOLINE :: u64 where "TRAMPOLINE = MAXVA - 4096"
definition TRAPFRAME :: u64 where "TRAPFRAME = TRAMPOLINE - 4096"

definition KSTACK :: "nat \<Rightarrow> u64" where
  "KSTACK p = TRAMPOLINE - (of_nat p + 1) * 2 * 4096"

section \<open>Walking and mapping\<close>

definition ldpte :: "u64 \<Rightarrow> ('a kmem_st_scheme, u64) K" where
  "ldpte a = gets (\<lambda>s. ld64 (pmem s) (unat a))"

definition stpte :: "u64 \<Rightarrow> u64 \<Rightarrow> ('a kmem_st_scheme, unit) K" where
  "stpte a v = modify (\<lambda>s. s\<lparr>pmem := st64 (pmem s) (unat a) v\<rparr>)"

definition zero_page :: "u64 \<Rightarrow> ('a kmem_st_scheme, unit) K" where
  "zero_page p = modify (\<lambda>s. s\<lparr>pmem := memset (pmem s) (unat p) 0 PGSIZE\<rparr>)"

fun walk_from :: "nat \<Rightarrow> u64 \<Rightarrow> u64 \<Rightarrow> bool \<Rightarrow> ('a kmem_st_scheme, u64) K" where
  "walk_from 0 pagetable va alloc = ret (pagetable + 8 * PX 0 va)"
| "walk_from (Suc l) pagetable va alloc =
     bnd (ldpte (pagetable + 8 * PX (Suc l) va)) (\<lambda>e.
     if e AND PTE_V \<noteq> 0 then walk_from l (PTE2PA e) va alloc
     else if \<not> alloc then ret 0
     else bnd kalloc (\<lambda>p.
       if p = 0 then ret 0
       else bnd (zero_page p) (\<lambda>_.
         bnd (stpte (pagetable + 8 * PX (Suc l) va) (PA2PTE p OR PTE_V)) (\<lambda>_.
         walk_from l p va alloc))))"

definition walk :: "u64 \<Rightarrow> u64 \<Rightarrow> bool \<Rightarrow> ('a kmem_st_scheme, u64) K" where
  "walk pagetable va alloc =
     (if va \<ge> MAXVA then panic ''walk'' else walk_from 2 pagetable va alloc)"

definition walkaddr :: "u64 \<Rightarrow> u64 \<Rightarrow> ('a kmem_st_scheme, u64) K" where
  "walkaddr pagetable va =
     (if va \<ge> MAXVA then ret 0
      else bnd (walk pagetable va False) (\<lambda>pte.
        if pte = 0 then ret 0
        else bnd (ldpte pte) (\<lambda>e.
          if e AND PTE_V = 0 then ret 0
          else if e AND PTE_U = 0 then ret 0
          else ret (PTE2PA e))))"

text \<open>One round of the loop of \<open>mappages\<close>; \<open>Some\<close> leaves the function.\<close>

definition map_page :: "u64 \<Rightarrow> u64 \<Rightarrow> u64 \<Rightarrow> u64 \<Rightarrow> ('a kmem_st_scheme, int option) K" where
  "map_page pagetable a pa perm =
     bnd (walk pagetable a True) (\<lambda>pte.
     if pte = 0 then ret (Some (-1))
     else bnd (ldpte pte) (\<lambda>e.
       if e AND PTE_V \<noteq> 0 then panic ''mappages: remap''
       else bnd (stpte pte (PA2PTE pa OR perm OR PTE_V)) (\<lambda>_. ret None)))"

text \<open>The loop stops when \<open>a\<close> reaches \<open>last\<close>, which is \<open>(last - a) / PGSIZE\<close> rounds later.\<close>

definition mappages :: "u64 \<Rightarrow> u64 \<Rightarrow> u64 \<Rightarrow> u64 \<Rightarrow> u64 \<Rightarrow> ('a kmem_st_scheme, int) K" where
  "mappages pagetable va sz pa perm =
     (if sz = 0 then panic ''mappages: size''
      else let a = PGROUNDDOWN va; last = PGROUNDDOWN (va + sz - 1)
        in bnd (untilK (\<lambda>i. map_page pagetable (a + of_nat (i * PGSIZE)) (pa + of_nat (i * PGSIZE)) perm)
                  [0..<Suc (unat (last - a) div PGSIZE)])
             (\<lambda>r. case r of None \<Rightarrow> ret 0 | Some x \<Rightarrow> ret x))"

definition kvmmap :: "u64 \<Rightarrow> u64 \<Rightarrow> u64 \<Rightarrow> u64 \<Rightarrow> u64 \<Rightarrow> ('a kmem_st_scheme, unit) K" where
  "kvmmap kpgtbl va pa sz perm =
     bnd (mappages kpgtbl va sz pa perm) (\<lambda>r. if r \<noteq> 0 then panic ''kvmmap'' else ret ())"

text \<open>The number of rounds of \<open>for (a = lo; a < hi; a += PGSIZE)\<close>.\<close>

definition page_rounds :: "u64 \<Rightarrow> u64 \<Rightarrow> nat" where
  "page_rounds lo hi = (unat hi - unat lo + (PGSIZE - 1)) div PGSIZE"

definition unmap_page :: "u64 \<Rightarrow> u64 \<Rightarrow> bool \<Rightarrow> ('a kmem_st_scheme, unit) K" where
  "unmap_page pagetable a do_free =
     bnd (walk pagetable a False) (\<lambda>pte.
     if pte = 0 then panic ''uvmunmap: walk''
     else bnd (ldpte pte) (\<lambda>e.
       if e AND PTE_V = 0 then panic ''uvmunmap: not mapped''
       else if PTE_FLAGS e = PTE_V then panic ''uvmunmap: not a leaf''
       else bnd (whenK do_free (kfree (PTE2PA e))) (\<lambda>_. stpte pte 0)))"

definition uvmunmap :: "u64 \<Rightarrow> u64 \<Rightarrow> u64 \<Rightarrow> bool \<Rightarrow> ('a kmem_st_scheme, unit) K" where
  "uvmunmap pagetable va npages do_free =
     (if va mod 4096 \<noteq> 0 then panic ''uvmunmap: not aligned''
      else forK (\<lambda>i. unmap_page pagetable (va + of_nat (i * PGSIZE)) do_free)
             [0..<page_rounds va (va + npages * 4096)])"

definition uvmcreate :: "('a kmem_st_scheme, u64) K" where
  "uvmcreate =
     bnd kalloc (\<lambda>pagetable.
     if pagetable = 0 then ret 0
     else bnd (zero_page pagetable) (\<lambda>_. ret pagetable))"

definition uvmfirst :: "u64 \<Rightarrow> u8 list \<Rightarrow> ('a kmem_st_scheme, unit) K" where
  "uvmfirst pagetable src =
     (if length src \<ge> PGSIZE then panic ''uvmfirst: more than a page''
      else bnd kalloc (\<lambda>mem.
        if mem = 0 then fault
        else bnd (zero_page mem) (\<lambda>_.
          bnd (mappages pagetable 0 4096 mem (PTE_W OR PTE_R OR PTE_X OR PTE_U)) (\<lambda>_.
          modify (\<lambda>s. s\<lparr>pmem := wr (pmem s) (unat mem) src\<rparr>)))))"

text \<open>The number of pages is an \<open>int\<close> in the source: cut to 32 bits and sign-extended again.\<close>

definition uvmdealloc :: "u64 \<Rightarrow> u64 \<Rightarrow> u64 \<Rightarrow> ('a kmem_st_scheme, u64) K" where
  "uvmdealloc pagetable oldsz newsz =
     (if newsz \<ge> oldsz then ret oldsz
      else bnd (if PGROUNDUP newsz < PGROUNDUP oldsz
                then let npages = ucast ((PGROUNDUP oldsz - PGROUNDUP newsz) div 4096) :: u32
                  in uvmunmap pagetable (PGROUNDUP newsz) (scast npages) True
                else ret ())
             (\<lambda>_. ret newsz))"

text \<open>One round of the loop of \<open>uvmalloc\<close>, whose first page is at \<open>start\<close>.\<close>

definition grow_page :: "u64 \<Rightarrow> u64 \<Rightarrow> u64 \<Rightarrow> u64 \<Rightarrow> ('a kmem_st_scheme, u64 option) K" where
  "grow_page pagetable start xperm a =
     bnd kalloc (\<lambda>mem.
     if mem = 0
     then bnd (uvmdealloc pagetable a start) (\<lambda>_. ret (Some 0))
     else bnd (zero_page mem) (\<lambda>_.
       bnd (mappages pagetable a 4096 mem (PTE_R OR PTE_U OR xperm)) (\<lambda>r.
       if r \<noteq> 0
       then bnd (kfree mem) (\<lambda>_.
         bnd (uvmdealloc pagetable a start) (\<lambda>_. ret (Some 0)))
       else ret None)))"

definition uvmalloc :: "u64 \<Rightarrow> u64 \<Rightarrow> u64 \<Rightarrow> u64 \<Rightarrow> ('a kmem_st_scheme, u64) K" where
  "uvmalloc pagetable oldsz newsz xperm =
     (if newsz < oldsz then ret oldsz
      else let start = PGROUNDUP oldsz
        in bnd (untilK (\<lambda>i. grow_page pagetable start xperm (start + of_nat (i * PGSIZE)))
                [0..<page_rounds start newsz])
             (\<lambda>r. case r of None \<Rightarrow> ret newsz | Some x \<Rightarrow> ret x))"

text \<open>
  \<open>freewalk\<close> recurses into every entry that points to a lower-level table. The fuel is the
  depth of the recursion; three is what a Sv39 table needs. \<open>free_entry\<close> is one round of the
  loop, given the recursive call.
\<close>

definition free_entry :: "(u64 \<Rightarrow> ('a kmem_st_scheme, unit) K) \<Rightarrow> u64 \<Rightarrow> nat \<Rightarrow> ('a kmem_st_scheme, unit) K" where
  "free_entry walk_child pagetable i =
     bnd (ldpte (pagetable + 8 * of_nat i)) (\<lambda>pte.
     if pte AND PTE_V \<noteq> 0 \<and> pte AND (PTE_R OR PTE_W OR PTE_X) = 0
     then bnd (walk_child (PTE2PA pte)) (\<lambda>_. stpte (pagetable + 8 * of_nat i) 0)
     else if pte AND PTE_V \<noteq> 0 then panic ''freewalk: leaf''
     else ret ())"

primrec freewalk :: "nat \<Rightarrow> u64 \<Rightarrow> ('a kmem_st_scheme, unit) K" where
  "freewalk 0 pagetable = fault"
| "freewalk (Suc d) pagetable =
     bnd (forK (free_entry (freewalk d) pagetable) [0..<512]) (\<lambda>_. kfree pagetable)"

definition uvmfree :: "u64 \<Rightarrow> u64 \<Rightarrow> ('a kmem_st_scheme, unit) K" where
  "uvmfree pagetable sz =
     bnd (whenK (sz > 0) (uvmunmap pagetable 0 (PGROUNDUP sz div 4096) True)) (\<lambda>_.
     freewalk 3 pagetable)"

text \<open>One round of the loop of \<open>uvmcopy\<close>; \<open>Some i\<close> is the jump to \<open>err\<close>.\<close>

definition copy_page :: "u64 \<Rightarrow> u64 \<Rightarrow> u64 \<Rightarrow> ('a kmem_st_scheme, u64 option) K" where
  "copy_page old new i =
     bnd (walk old i False) (\<lambda>pte.
     if pte = 0 then panic ''uvmcopy: pte should exist''
     else bnd (ldpte pte) (\<lambda>e.
       if e AND PTE_V = 0 then panic ''uvmcopy: page not present''
       else bnd kalloc (\<lambda>mem.
         if mem = 0 then ret (Some i)
         else bnd (modify (\<lambda>s. s\<lparr>pmem := memmove (pmem s) (unat mem) (unat (PTE2PA e)) PGSIZE\<rparr>)) (\<lambda>_.
           bnd (mappages new i 4096 mem (PTE_FLAGS e)) (\<lambda>r.
           if r \<noteq> 0 then bnd (kfree mem) (\<lambda>_. ret (Some i))
           else ret None)))))"

definition uvmcopy :: "u64 \<Rightarrow> u64 \<Rightarrow> u64 \<Rightarrow> ('a kmem_st_scheme, int) K" where
  "uvmcopy old new sz =
     bnd (untilK (\<lambda>k. copy_page old new (of_nat (k * PGSIZE))) [0..<page_rounds 0 sz])
     (\<lambda>r. case r of
        None \<Rightarrow> ret 0
      | Some i \<Rightarrow> bnd (uvmunmap new 0 (i div 4096) True) (\<lambda>_. ret (-1)))"

definition uvmclear :: "u64 \<Rightarrow> u64 \<Rightarrow> ('a kmem_st_scheme, unit) K" where
  "uvmclear pagetable va =
     bnd (walk pagetable va False) (\<lambda>pte.
     if pte = 0 then panic ''uvmclear''
     else bnd (ldpte pte) (\<lambda>e. stpte pte (e AND NOT PTE_U)))"

section \<open>Copying to and from user space\<close>

text \<open>The bytes of one round: up to the end of the page of \<open>va\<close>, at most \<open>len\<close>.\<close>

definition chunk :: "u64 \<Rightarrow> nat \<Rightarrow> nat" where
  "chunk va len = min (PGSIZE - unat (va - PGROUNDDOWN va)) len"

lemma chunk_pos: "0 < len \<Longrightarrow> 0 < chunk va len"
proof -
  have "unat va = unat (PGROUNDDOWN va) + unat va mod PGSIZE"
    by (simp add: unat_PGROUNDDOWN)
  then have "unat (va - PGROUNDDOWN va) = unat va mod PGSIZE"
    by (metis add_diff_cancel_left' le_add1 unat_sub word_le_nat_alt)
  then have "unat (va - PGROUNDDOWN va) < PGSIZE" by (simp add: PGSIZE_def)
  then show "0 < len \<Longrightarrow> 0 < chunk va len" by (simp add: chunk_def)
qed

function copyout :: "u64 \<Rightarrow> u64 \<Rightarrow> u8 list \<Rightarrow> ('a kmem_st_scheme, int) K" where
  "copyout pagetable dstva src =
     (if src = [] then ret 0
      else let va0 = PGROUNDDOWN dstva; n = chunk dstva (length src)
        in bnd (walkaddr pagetable va0) (\<lambda>pa0.
           if pa0 = 0 then ret (-1)
           else bnd (modify (\<lambda>s. s\<lparr>pmem := wr (pmem s) (unat (pa0 + (dstva - va0))) (take n src)\<rparr>)) (\<lambda>_.
             copyout pagetable (va0 + 4096) (drop n src))))"
  by pat_completeness auto
termination
  by (relation "measure (\<lambda>(pt, va, src). length src)") (auto simp: chunk_pos)

function copyin :: "u64 \<Rightarrow> u64 \<Rightarrow> nat \<Rightarrow> ('a kmem_st_scheme, int \<times> u8 list) K" where
  "copyin pagetable srcva len =
     (if len = 0 then ret (0, [])
      else let va0 = PGROUNDDOWN srcva; n = chunk srcva len
        in bnd (walkaddr pagetable va0) (\<lambda>pa0.
           if pa0 = 0 then ret (-1, [])
           else bnd (gets (\<lambda>s. rd (pmem s) (unat (pa0 + (srcva - va0))) n)) (\<lambda>bs.
             bnd (copyin pagetable (va0 + 4096) (len - n)) (\<lambda>r.
             ret (fst r, bs @ snd r)))))"
  by pat_completeness auto
termination
  by (relation "measure (\<lambda>(pt, va, len). len)") (auto simp: chunk_pos)

text \<open>
  The result of \<open>copyinstr\<close> with the bytes stored at \<open>dst\<close>: up to and including the NUL, or
  \<open>max\<close> bytes.
\<close>

function copyinstr :: "u64 \<Rightarrow> u64 \<Rightarrow> nat \<Rightarrow> ('a kmem_st_scheme, int \<times> u8 list) K" where
  "copyinstr pagetable srcva mx =
     (if mx = 0 then ret (-1, [])
      else let va0 = PGROUNDDOWN srcva; n = chunk srcva mx
        in bnd (walkaddr pagetable va0) (\<lambda>pa0.
           if pa0 = 0 then ret (-1, [])
           else bnd (gets (\<lambda>s. rd (pmem s) (unat (pa0 + (srcva - va0))) n)) (\<lambda>bs.
             if 0 \<in> set bs then ret (0, takeWhile (\<lambda>c. c \<noteq> 0) bs @ [0])
             else bnd (copyinstr pagetable (va0 + 4096) (mx - n)) (\<lambda>r.
               ret (fst r, bs @ snd r)))))"
  by pat_completeness auto
termination
  by (relation "measure (\<lambda>(pt, va, mx). mx)") (auto simp: chunk_pos)

declare copyout.simps [simp del] copyin.simps [simp del] copyinstr.simps [simp del]

section \<open>Reading a page table\<close>

text \<open>The walk without allocation, as a function of the memory.\<close>

fun pte_addr :: "bytes \<Rightarrow> nat \<Rightarrow> u64 \<Rightarrow> u64 \<Rightarrow> u64" where
  "pte_addr m 0 pt va = pt + 8 * PX 0 va"
| "pte_addr m (Suc l) pt va =
     (let e = ld64 m (unat (pt + 8 * PX (Suc l) va))
      in if e AND PTE_V \<noteq> 0 then pte_addr m l (PTE2PA e) va else 0)"

definition uaddr :: "bytes \<Rightarrow> u64 \<Rightarrow> u64 \<Rightarrow> u64" where
  "uaddr m pt va =
     (if va \<ge> MAXVA then 0
      else let pte = pte_addr m 2 pt va; e = ld64 m (unat pte)
        in if pte = 0 \<or> e AND PTE_V = 0 \<or> e AND PTE_U = 0 then 0 else PTE2PA e)"

lemma walk_from_ro: "walk_from l pt va False s = Ok (pte_addr (pmem s) l pt va, s)"
  by (induction l arbitrary: pt) (simp_all add: ldpte_def bnd_apply Let_def)

lemma walk_ro [ksteps]:
  "walk pt va False s = (if va \<ge> MAXVA then Panic ''walk'' else Ok (pte_addr (pmem s) 2 pt va, s))"
  by (simp add: walk_def walk_from_ro)

lemma walkaddr_eq [ksteps]: "walkaddr pt va s = Ok (uaddr (pmem s) pt va, s)"
  by (simp add: walkaddr_def walk_ro uaddr_def ldpte_def bnd_apply Let_def)

lemma copyout_induct [case_names step]:
  assumes "\<And>va bs. (bs \<noteq> [] \<Longrightarrow> P (PGROUNDDOWN va + 4096) (drop (chunk va (length bs)) bs)) \<Longrightarrow> P va bs"
  shows "P va bs"
  by (induction "length bs" arbitrary: va bs rule: less_induct) (rule assms, simp add: chunk_pos)

lemma copyin_induct [case_names step]:
  assumes "\<And>va n. (n \<noteq> 0 \<Longrightarrow> P (PGROUNDDOWN va + 4096) (n - chunk va n)) \<Longrightarrow> P va n"
  shows "P va n"
  by (induction n arbitrary: va rule: less_induct) (rule assms, simp add: chunk_pos)

lemma copyout_frame:
  "\<exists>r m. copyout pt va bs s = Ok (r, s\<lparr>pmem := m\<rparr>) \<and> (r = 0 \<or> r = -1)"
proof (induction va bs arbitrary: s rule: copyout_induct)
  case (step va bs)
  show ?case
  proof (cases "bs = [] \<or> uaddr (pmem s) pt (PGROUNDDOWN va) = 0")
    case True
    then show ?thesis
      by (subst copyout.simps) (auto simp: bnd_apply walkaddr_eq Let_def intro: exI [of _ "pmem s"])
  next
    case False
    let ?n = "chunk va (length bs)"
    let ?a = "uaddr (pmem s) pt (PGROUNDDOWN va) + (va - PGROUNDDOWN va)"
    let ?t = "s\<lparr>pmem := wr (pmem s) (unat ?a) (take ?n bs)\<rparr>"
    obtain r m where "copyout pt (PGROUNDDOWN va + 4096) (drop ?n bs) ?t = Ok (r, ?t\<lparr>pmem := m\<rparr>)"
      and "r = 0 \<or> r = -1"
      using False step.IH [of ?t] by blast
    with False show ?thesis
      by (subst copyout.simps) (auto simp: bnd_apply walkaddr_eq Let_def)
  qed
qed

lemma copyin_pure:
  "\<exists>r bs. copyin pt va n s = Ok ((r, bs), s) \<and> (r = 0 \<and> length bs = n \<or> r = -1 \<and> length bs < n)"
proof (induction va n arbitrary: s rule: copyin_induct)
  case (step va n)
  show ?case
  proof (cases "n = 0 \<or> uaddr (pmem s) pt (PGROUNDDOWN va) = 0")
    case True
    then show ?thesis
      by (subst copyin.simps) (auto simp: bnd_apply walkaddr_eq Let_def)
  next
    case False
    let ?k = "chunk va n"
    obtain r bs where "copyin pt (PGROUNDDOWN va + 4096) (n - ?k) s = Ok ((r, bs), s)"
      and "r = 0 \<and> length bs = n - ?k \<or> r = -1 \<and> length bs < n - ?k"
      using False step.IH [of s] by blast
    moreover have "?k \<le> n" by (simp add: chunk_def)
    ultimately show ?thesis
      using False by (subst copyin.simps) (auto simp: bnd_apply walkaddr_eq Let_def)
  qed
qed

text \<open>The bytes one round of \<open>copyinstr\<close> looks at, and the three ways a round ends.\<close>

definition upage :: "bytes \<Rightarrow> u64 \<Rightarrow> u64 \<Rightarrow> nat \<Rightarrow> u8 list" where
  "upage m pt va n =
     rd m (unat (uaddr m pt (PGROUNDDOWN va) + (va - PGROUNDDOWN va))) (chunk va n)"

lemma copyinstr_stop:
  "n = 0 \<or> uaddr (pmem s) pt (PGROUNDDOWN va) = 0 \<Longrightarrow> copyinstr pt va n s = Ok ((-1, []), s)"
  by (subst copyinstr.simps) (auto simp: bnd_apply walkaddr_eq Let_def)

lemma copyinstr_found:
  "n \<noteq> 0 \<Longrightarrow> uaddr (pmem s) pt (PGROUNDDOWN va) \<noteq> 0 \<Longrightarrow> 0 \<in> set (upage (pmem s) pt va n) \<Longrightarrow>
   copyinstr pt va n s = Ok ((0, takeWhile (\<lambda>c. c \<noteq> 0) (upage (pmem s) pt va n) @ [0]), s)"
  by (subst copyinstr.simps) (simp add: bnd_apply walkaddr_eq Let_def upage_def)

lemma copyinstr_next:
  "n \<noteq> 0 \<Longrightarrow> uaddr (pmem s) pt (PGROUNDDOWN va) \<noteq> 0 \<Longrightarrow> 0 \<notin> set (upage (pmem s) pt va n) \<Longrightarrow>
   copyinstr pt (PGROUNDDOWN va + 4096) (n - chunk va n) s = Ok ((r, bs), s) \<Longrightarrow>
   copyinstr pt va n s = Ok ((r, upage (pmem s) pt va n @ bs), s)"
  by (subst copyinstr.simps) (simp add: bnd_apply walkaddr_eq Let_def upage_def)

lemma length_upage: "length (upage m pt va n) \<le> n"
  by (simp add: upage_def chunk_def)

lemma takeWhile_shorter: "x \<in> set xs \<Longrightarrow> \<not> P x \<Longrightarrow> length (takeWhile P xs) < length xs"
  by (metis length_takeWhile_le nat_less_le set_takeWhileD takeWhile_eq_all_conv
      takeWhile_eq_take take_all_iff)

lemma copyinstr_pure:
  "\<exists>r bs. copyinstr pt va n s = Ok ((r, bs), s) \<and>
     (r = 0 \<and> (\<exists>cs. bs = cs @ [0] \<and> 0 \<notin> set cs \<and> length cs < n) \<or> r = -1 \<and> 0 \<notin> set bs)"
proof (induction va n rule: copyin_induct)
  case (step va n)
  let ?bs = "upage (pmem s) pt va n"
  consider "n = 0 \<or> uaddr (pmem s) pt (PGROUNDDOWN va) = 0"
    | "n \<noteq> 0" "uaddr (pmem s) pt (PGROUNDDOWN va) \<noteq> 0" "0 \<in> set ?bs"
    | "n \<noteq> 0" "uaddr (pmem s) pt (PGROUNDDOWN va) \<noteq> 0" "0 \<notin> set ?bs" by blast
  then show ?case
  proof cases
    case 1
    then show ?thesis by (simp add: copyinstr_stop)
  next
    case 2
    then have "length (takeWhile (\<lambda>c. c \<noteq> 0) ?bs) < n"
      using takeWhile_shorter [of 0 ?bs "\<lambda>c. c \<noteq> 0"] length_upage [of "pmem s" pt va n] by simp
    moreover have "0 \<notin> set (takeWhile (\<lambda>c. c \<noteq> 0) ?bs)" by (auto dest: set_takeWhileD)
    ultimately show ?thesis using copyinstr_found [OF 2] by blast
  next
    case 3
    then obtain r bs where r: "copyinstr pt (PGROUNDDOWN va + 4096) (n - chunk va n) s = Ok ((r, bs), s)"
      "r = 0 \<and> (\<exists>cs. bs = cs @ [0] \<and> 0 \<notin> set cs \<and> length cs < n - chunk va n) \<or> r = -1 \<and> 0 \<notin> set bs"
      using step.IH by blast
    have "length ?bs = chunk va n" by (simp add: upage_def)
    with r(2) 3(3) have "r = 0 \<and> (\<exists>cs. ?bs @ bs = cs @ [0] \<and> 0 \<notin> set cs \<and> length cs < n) \<or> r = -1 \<and> 0 \<notin> set (?bs @ bs)"
      by (auto intro!: exI [of _ "?bs @ _"])
    then show ?thesis using copyinstr_next [OF 3 r(1)] by blast
  qed
qed

end
