(* ===== verification/Proc.thy ===== *)
theory Proc
  imports Vm
begin

text \<open>
  The process table and the scheduling primitives: \<open>kernel/proc.c\<close> without \<open>fork\<close>, \<open>exit\<close>,
  \<open>userinit\<close> and \<open>forkret\<close>, which need the file system. A pointer to a \<open>struct proc\<close> is an
  index into the table. The model follows one kernel thread: \<open>swtch\<close> gives the hart away,
  so a call that reaches it is \<open>Blocked\<close>. \<open>kctx\<close> is what holds when kernel code runs in a
  process that holds no spin lock; under it \<open>myproc\<close>, \<open>wakeup\<close> and the locked accesses to
  the table are equations.
\<close>

section \<open>State\<close>

datatype procstate = UNUSED | USED | SLEEPING | RUNNABLE | RUNNING | ZOMBIE

text \<open>The addresses processes sleep on, one constructor per kind of \<open>chan\<close> argument.\<close>

datatype chanid =
    ChTicks | ChProc nat | ChSleep lockid | ChDesc | ChDisk nat | ChCons | ChUart
  | ChRead nat | ChWrite nat

record proc =
  p_state :: procstate
  p_chan :: "chanid option"
  p_killed :: bool
  p_xstate :: u32
  p_pid :: u32
  p_parent :: "nat option"
  p_kstack :: u64
  p_sz :: u64
  p_pagetable :: u64
  p_trapframe :: u64
  p_context :: "u64 list"
  p_ofile :: "nat \<Rightarrow> nat option"
  p_cwd :: "nat option"
  p_name :: bytes

text \<open>\<open>trampoline\<close> and \<open>forkret_pc\<close> are addresses of code.\<close>

record proc_st = kmem_st +
  procs :: "nat \<Rightarrow> proc"
  nextpid :: u32
  initproc :: "nat option"
  ticks :: u32
  trampoline :: u64
  forkret_pc :: u64

definition NPROC :: nat where "NPROC = 64"
definition NOFILE :: nat where "NOFILE = 16"

definition get_proc :: "nat \<Rightarrow> ('a proc_st_scheme, proc) K" where
  "get_proc i = gets (\<lambda>s. procs s i)"

definition set_proc :: "nat \<Rightarrow> (proc \<Rightarrow> proc) \<Rightarrow> ('a proc_st_scheme, unit) K" where
  "set_proc i f = modify (\<lambda>s. s\<lparr>procs := (procs s)(i := f (procs s i))\<rparr>)"

section \<open>Setting up\<close>

definition proc_mapstacks :: "u64 \<Rightarrow> ('a proc_st_scheme, unit) K" where
  "proc_mapstacks kpgtbl =
     forK (\<lambda>i. bnd kalloc (\<lambda>pa.
       if pa = 0 then panic ''kalloc''
       else kvmmap kpgtbl (KSTACK i) pa 4096 (PTE_R OR PTE_W))) [0..<NPROC]"

definition procinit :: "('a proc_st_scheme, unit) K" where
  "procinit =
     bnd (initlock LPid ''nextpid'') (\<lambda>_.
     bnd (initlock LWait ''wait_lock'') (\<lambda>_.
     forK (\<lambda>i. bnd (initlock (LProc i) ''proc'') (\<lambda>_.
       set_proc i (\<lambda>p. p\<lparr>p_state := UNUSED, p_kstack := KSTACK i\<rparr>))) [0..<NPROC]))"

definition cpuid :: "('a proc_st_scheme, nat) K" where
  "cpuid = gets hart"

definition myproc :: "('a proc_st_scheme, nat option) K" where
  "myproc =
     bnd push_off (\<lambda>_.
     bnd get_cpu (\<lambda>c.
     bnd pop_off (\<lambda>_.
     ret (c_proc c))))"

text \<open>\<open>myproc()->field\<close>: a null process pointer is a fault.\<close>

definition curproc :: "('a proc_st_scheme, nat) K" where
  "curproc = bnd myproc (\<lambda>p. case p of None \<Rightarrow> fault | Some i \<Rightarrow> ret i)"

definition allocpid :: "('a proc_st_scheme, u32) K" where
  "allocpid =
     bnd (acquire LPid) (\<lambda>_.
     bnd (gets nextpid) (\<lambda>pid.
     bnd (modify (\<lambda>s. s\<lparr>nextpid := nextpid s + 1\<rparr>)) (\<lambda>_.
     bnd (release LPid) (\<lambda>_.
     ret pid))))"

section \<open>Allocating and freeing a process\<close>

definition proc_pagetable :: "nat \<Rightarrow> ('a proc_st_scheme, u64) K" where
  "proc_pagetable i =
     bnd uvmcreate (\<lambda>pagetable.
     if pagetable = 0 then ret 0
     else bnd (gets trampoline) (\<lambda>tr.
       bnd (mappages pagetable TRAMPOLINE 4096 tr (PTE_R OR PTE_X)) (\<lambda>r.
       if r < 0 then bnd (uvmfree pagetable 0) (\<lambda>_. ret 0)
       else bnd (get_proc i) (\<lambda>p.
         bnd (mappages pagetable TRAPFRAME 4096 (p_trapframe p) (PTE_R OR PTE_W)) (\<lambda>r.
         if r < 0
         then bnd (uvmunmap pagetable TRAMPOLINE 1 False) (\<lambda>_.
           bnd (uvmfree pagetable 0) (\<lambda>_. ret 0))
         else ret pagetable)))))"

definition proc_freepagetable :: "u64 \<Rightarrow> u64 \<Rightarrow> ('a proc_st_scheme, unit) K" where
  "proc_freepagetable pagetable sz =
     bnd (uvmunmap pagetable TRAMPOLINE 1 False) (\<lambda>_.
     bnd (uvmunmap pagetable TRAPFRAME 1 False) (\<lambda>_.
     uvmfree pagetable sz))"

definition freeproc :: "nat \<Rightarrow> ('a proc_st_scheme, unit) K" where
  "freeproc i =
     bnd (get_proc i) (\<lambda>p.
     bnd (whenK (p_trapframe p \<noteq> 0) (kfree (p_trapframe p))) (\<lambda>_.
     bnd (set_proc i (\<lambda>p. p\<lparr>p_trapframe := 0\<rparr>)) (\<lambda>_.
     bnd (whenK (p_pagetable p \<noteq> 0) (proc_freepagetable (p_pagetable p) (p_sz p))) (\<lambda>_.
     set_proc i (\<lambda>p. p\<lparr>p_pagetable := 0, p_sz := 0, p_pid := 0, p_parent := None,
       p_name := (p_name p)(0 := 0), p_chan := None, p_killed := False, p_xstate := 0,
       p_state := UNUSED\<rparr>)))))"

definition allocproc :: "('a proc_st_scheme, nat option) K" where
  "allocproc =
     bnd (untilK (\<lambda>i.
       bnd (acquire (LProc i)) (\<lambda>_.
       bnd (get_proc i) (\<lambda>p.
       if p_state p = UNUSED then ret (Some i)
       else bnd (release (LProc i)) (\<lambda>_. ret None)))) [0..<NPROC]) (\<lambda>found.
     case found of
       None \<Rightarrow> ret None
     | Some i \<Rightarrow>
         bnd allocpid (\<lambda>pid.
         bnd (set_proc i (\<lambda>p. p\<lparr>p_pid := pid\<rparr>)) (\<lambda>_.
         bnd (set_proc i (\<lambda>p. p\<lparr>p_state := USED\<rparr>)) (\<lambda>_.
         bnd kalloc (\<lambda>tf.
         bnd (set_proc i (\<lambda>p. p\<lparr>p_trapframe := tf\<rparr>)) (\<lambda>_.
         if tf = 0
         then bnd (freeproc i) (\<lambda>_. bnd (release (LProc i)) (\<lambda>_. ret None))
         else bnd (proc_pagetable i) (\<lambda>pt.
           bnd (set_proc i (\<lambda>p. p\<lparr>p_pagetable := pt\<rparr>)) (\<lambda>_.
           if pt = 0
           then bnd (freeproc i) (\<lambda>_. bnd (release (LProc i)) (\<lambda>_. ret None))
           else bnd (gets forkret_pc) (\<lambda>ra.
             bnd (set_proc i (\<lambda>p. p\<lparr>p_context := ra # (p_kstack p + 4096) # replicate 12 0\<rparr>)) (\<lambda>_.
             ret (Some i)))))))))))"

definition growproc :: "int \<Rightarrow> ('a proc_st_scheme, int) K" where
  "growproc n =
     bnd curproc (\<lambda>i.
     bnd (get_proc i) (\<lambda>p.
     if n > 0
     then bnd (uvmalloc (p_pagetable p) (p_sz p) (p_sz p + of_int n) PTE_W) (\<lambda>sz.
       if sz = 0 then ret (-1)
       else bnd (set_proc i (\<lambda>p. p\<lparr>p_sz := sz\<rparr>)) (\<lambda>_. ret 0))
     else if n < 0
     then bnd (uvmdealloc (p_pagetable p) (p_sz p) (p_sz p + of_int n)) (\<lambda>sz.
       bnd (set_proc i (\<lambda>p. p\<lparr>p_sz := sz\<rparr>)) (\<lambda>_. ret 0))
     else bnd (set_proc i (\<lambda>p'. p'\<lparr>p_sz := p_sz p\<rparr>)) (\<lambda>_. ret 0)))"

section \<open>Sleeping and waking\<close>

text \<open>
  \<open>sched\<close> makes its checks and gives the hart to the scheduler; from the caller's side the
  call cannot go on before some other thread runs.
\<close>

definition sched :: "('a proc_st_scheme, unit) K" where
  "sched =
     bnd curproc (\<lambda>i.
     bnd (holding (LProc i)) (\<lambda>h.
     if \<not> h then panic ''sched p->lock''
     else bnd get_cpu (\<lambda>c.
       if noff c \<noteq> 1 then panic ''sched locks''
       else bnd (get_proc i) (\<lambda>p.
         if p_state p = RUNNING then panic ''sched running''
         else bnd intr_get (\<lambda>on.
           if on then panic ''sched interruptible'' else blocked)))))"

definition yield :: "('a proc_st_scheme, unit) K" where
  "yield =
     bnd curproc (\<lambda>i.
     bnd (acquire (LProc i)) (\<lambda>_.
     bnd (set_proc i (\<lambda>p. p\<lparr>p_state := RUNNABLE\<rparr>)) (\<lambda>_.
     bnd sched (\<lambda>_.
     release (LProc i)))))"

definition sleep :: "chanid \<Rightarrow> lockid \<Rightarrow> ('a proc_st_scheme, unit) K" where
  "sleep ch lk =
     bnd curproc (\<lambda>i.
     bnd (acquire (LProc i)) (\<lambda>_.
     bnd (release lk) (\<lambda>_.
     bnd (set_proc i (\<lambda>p. p\<lparr>p_chan := Some ch, p_state := SLEEPING\<rparr>)) (\<lambda>_.
     bnd sched (\<lambda>_.
     bnd (set_proc i (\<lambda>p. p\<lparr>p_chan := None\<rparr>)) (\<lambda>_.
     bnd (release (LProc i)) (\<lambda>_.
     acquire lk)))))))"

definition wake_proc :: "chanid \<Rightarrow> proc \<Rightarrow> proc" where
  "wake_proc ch p = (if p_state p = SLEEPING \<and> p_chan p = Some ch then p\<lparr>p_state := RUNNABLE\<rparr> else p)"

definition wakeup_one :: "chanid \<Rightarrow> nat \<Rightarrow> ('a proc_st_scheme, unit) K" where
  "wakeup_one ch i =
     bnd myproc (\<lambda>me.
     whenK (me \<noteq> Some i)
       (bnd (acquire (LProc i)) (\<lambda>_.
        bnd (set_proc i (wake_proc ch)) (\<lambda>_.
        release (LProc i)))))"

definition wakeup :: "chanid \<Rightarrow> ('a proc_st_scheme, unit) K" where
  "wakeup ch = forK (wakeup_one ch) [0..<NPROC]"

definition kill_one :: "u32 \<Rightarrow> nat \<Rightarrow> ('a proc_st_scheme, int option) K" where
  "kill_one pid i =
     bnd (acquire (LProc i)) (\<lambda>_.
     bnd (get_proc i) (\<lambda>p.
     if p_pid p = pid
     then bnd (set_proc i (\<lambda>p. p\<lparr>p_killed := True\<rparr>)) (\<lambda>_.
       bnd (whenK (p_state p = SLEEPING) (set_proc i (\<lambda>p. p\<lparr>p_state := RUNNABLE\<rparr>))) (\<lambda>_.
       bnd (release (LProc i)) (\<lambda>_. ret (Some 0))))
     else bnd (release (LProc i)) (\<lambda>_. ret None)))"

definition kill :: "u32 \<Rightarrow> ('a proc_st_scheme, int) K" where
  "kill pid =
     bnd (untilK (kill_one pid) [0..<NPROC]) (\<lambda>r.
     case r of None \<Rightarrow> ret (-1) | Some x \<Rightarrow> ret x)"

definition setkilled :: "nat \<Rightarrow> ('a proc_st_scheme, unit) K" where
  "setkilled i =
     bnd (acquire (LProc i)) (\<lambda>_.
     bnd (set_proc i (\<lambda>p. p\<lparr>p_killed := True\<rparr>)) (\<lambda>_.
     release (LProc i)))"

definition killed :: "nat \<Rightarrow> ('a proc_st_scheme, bool) K" where
  "killed i =
     bnd (acquire (LProc i)) (\<lambda>_.
     bnd (get_proc i) (\<lambda>p.
     bnd (release (LProc i)) (\<lambda>_.
     ret (p_killed p))))"

definition reparent :: "nat \<Rightarrow> ('a proc_st_scheme, unit) K" where
  "reparent i =
     forK (\<lambda>j. bnd (get_proc j) (\<lambda>pp.
       whenK (p_parent pp = Some i)
         (bnd (gets initproc) (\<lambda>ini.
          bnd (set_proc j (\<lambda>p. p\<lparr>p_parent := ini\<rparr>)) (\<lambda>_.
          case ini of None \<Rightarrow> ret () | Some k \<Rightarrow> wakeup (ChProc k)))))) [0..<NPROC]"

text \<open>
  One scan of the table by \<open>wait\<close>: the first zombie child is reaped; otherwise the result says
  whether there are children. After the scan the caller returns or sleeps, so the outer loop
  of the source makes at most one round before the hart is given away.
\<close>

definition wait_scan :: "nat \<Rightarrow> u64 \<Rightarrow> ('a proc_st_scheme, int option) K" where
  "wait_scan i addr =
     untilK (\<lambda>j. bnd (get_proc j) (\<lambda>pp.
       if p_parent pp \<noteq> Some i then ret None
       else bnd (acquire (LProc j)) (\<lambda>_.
         bnd (get_proc j) (\<lambda>pp.
         if p_state pp \<noteq> ZOMBIE then bnd (release (LProc j)) (\<lambda>_. ret None)
         else bnd (get_proc i) (\<lambda>p.
           bnd (if addr \<noteq> 0 then copyout (p_pagetable p) addr (le_bytes 4 (p_xstate pp)) else ret 0) (\<lambda>r.
           if r < 0
           then bnd (release (LProc j)) (\<lambda>_. bnd (release LWait) (\<lambda>_. ret (Some (-1))))
           else bnd (freeproc j) (\<lambda>_.
             bnd (release (LProc j)) (\<lambda>_.
             bnd (release LWait) (\<lambda>_. ret (Some (sint (p_pid pp)))))))))))) [0..<NPROC]"

definition wait :: "u64 \<Rightarrow> ('a proc_st_scheme, int) K" where
  "wait addr =
     bnd curproc (\<lambda>i.
     bnd (acquire LWait) (\<lambda>_.
     bnd (wait_scan i addr) (\<lambda>r.
     case r of
       Some x \<Rightarrow> ret x
     | None \<Rightarrow>
         bnd (gets (\<lambda>s. \<exists>j < NPROC. p_parent (procs s j) = Some i)) (\<lambda>havekids.
         bnd (if havekids then killed i else ret True) (\<lambda>stop.
         if stop then bnd (release LWait) (\<lambda>_. ret (-1))
         else bnd (sleep (ChProc i) LWait) (\<lambda>_. ret (-1)))))))"

text \<open>
  The choice the scheduler makes in its turn for process \<open>i\<close>: whether the process is runnable;
  then it is marked running on this hart, with its lock held across the switch.
\<close>

definition sched_pick :: "nat \<Rightarrow> ('a proc_st_scheme, bool) K" where
  "sched_pick i =
     bnd (acquire (LProc i)) (\<lambda>_.
     bnd (get_proc i) (\<lambda>p.
     if p_state p = RUNNABLE
     then bnd (set_proc i (\<lambda>p. p\<lparr>p_state := RUNNING\<rparr>)) (\<lambda>_.
       bnd (set_cpu (\<lambda>c. c\<lparr>c_proc := Some i\<rparr>)) (\<lambda>_. ret True))
     else bnd (release (LProc i)) (\<lambda>_. ret False)))"

section \<open>Copying between kernel and either space\<close>

text \<open>
  The destination of a copy: a user address, a physical address, or a local variable of the
  caller (then the bytes are the caller's to take). The sources likewise.
\<close>

datatype dst = UDst u64 | PDst u64 | KVar
datatype src = USrc u64 | KSrc "u8 list"

definition dst_add :: "dst \<Rightarrow> nat \<Rightarrow> dst" where
  "dst_add d m = (case d of UDst a \<Rightarrow> UDst (a + of_nat m) | PDst a \<Rightarrow> PDst (a + of_nat m) | KVar \<Rightarrow> KVar)"

definition src_add :: "src \<Rightarrow> nat \<Rightarrow> src" where
  "src_add x m = (case x of USrc a \<Rightarrow> USrc (a + of_nat m) | KSrc bs \<Rightarrow> KSrc (drop m bs))"

definition either_copyout :: "dst \<Rightarrow> u8 list \<Rightarrow> ('a proc_st_scheme, int) K" where
  "either_copyout d bs =
     bnd myproc (\<lambda>me.
     case d of
       UDst va \<Rightarrow> (case me of None \<Rightarrow> fault
         | Some i \<Rightarrow> bnd (get_proc i) (\<lambda>p. copyout (p_pagetable p) va bs))
     | PDst pa \<Rightarrow> bnd (modify (\<lambda>s. s\<lparr>pmem := wr (pmem s) (unat pa) bs\<rparr>)) (\<lambda>_. ret 0)
     | KVar \<Rightarrow> ret 0)"

definition either_copyin :: "src \<Rightarrow> nat \<Rightarrow> ('a proc_st_scheme, int \<times> u8 list) K" where
  "either_copyin x len =
     bnd myproc (\<lambda>me.
     case x of
       USrc va \<Rightarrow> (case me of None \<Rightarrow> fault
         | Some i \<Rightarrow> bnd (get_proc i) (\<lambda>p. copyin (p_pagetable p) va len))
     | KSrc bs \<Rightarrow> ret (0, take len bs))"

section \<open>Running in a process that holds no lock\<close>

definition kctx :: "'a proc_st_scheme \<Rightarrow> bool" where
  "kctx s \<longleftrightarrow> cpu_ok s \<and> (\<forall>l. lfree l s) \<and> noff (cpus s (hart s)) = 0
     \<and> c_proc (cpus s (hart s)) \<noteq> None"

definition me :: "'a proc_st_scheme \<Rightarrow> nat" where
  "me s = the (c_proc (cpus s (hart s)))"

lemma acq_proc [simp]:
  "procs (acq l s) = procs s" "nextpid (acq l s) = nextpid s" "initproc (acq l s) = initproc s"
  "(acq l s)\<lparr>procs := x\<rparr> = acq l (s\<lparr>procs := x\<rparr>)"
  "(acq l s)\<lparr>nextpid := y\<rparr> = acq l (s\<lparr>nextpid := y\<rparr>)"
  by (simp_all add: acq_def pushed_def ints_def)

lemma cpu_ok_proc [simp]:
  "cpu_ok (s\<lparr>procs := x\<rparr>) = cpu_ok s" "lfree l (s\<lparr>procs := x\<rparr>) = lfree l s"
  "cpu_ok (s\<lparr>nextpid := y\<rparr>) = cpu_ok s" "lfree l (s\<lparr>nextpid := y\<rparr>) = lfree l s"
  by (simp_all add: cpu_ok_def lfree_def ints_def)

lemma kctx_base:
  assumes "hart t = hart s" and "cpus t = cpus s" and "sstatus t = sstatus s" and "locks t = locks s"
  shows "cpu_ok t = cpu_ok s" and "lfree l t = lfree l s" and "kctx t = kctx s" and "me t = me s"
  by (simp_all add: assms kctx_def cpu_ok_def lfree_def ints_def me_def)

lemma kctx_upd [simp]:
  "kctx (s\<lparr>procs := x\<rparr>) = kctx s" "kctx (s\<lparr>pmem := m\<rparr>) = kctx s"
  "kctx (s\<lparr>freelist := p\<rparr>) = kctx s" "kctx (s\<lparr>nextpid := y\<rparr>) = kctx s"
  "me (s\<lparr>procs := x\<rparr>) = me s" "me (s\<lparr>pmem := m\<rparr>) = me s"
  "me (s\<lparr>freelist := p\<rparr>) = me s" "me (s\<lparr>nextpid := y\<rparr>) = me s"
  by (simp_all add: kctx_def me_def)

lemma kctxD [simp]:
  "kctx s \<Longrightarrow> cpu_ok s" "kctx s \<Longrightarrow> lfree l s" "kctx s \<Longrightarrow> noff (cpus s (hart s)) = 0"
  by (simp_all add: kctx_def)

lemma kctx_cproc [simp]: "kctx s \<Longrightarrow> c_proc (cpus s (hart s)) = Some (me s)"
  unfolding kctx_def me_def by (metis option.collapse)

lemma myproc_eq [ksteps]: "cpu_ok s \<Longrightarrow> myproc s = Ok (c_proc (cpus s (hart s)), s)"
  by (simp add: myproc_def bnd_apply push_off_eq pop_off_pushed get_cpu_def)

lemma curproc_eq [ksteps]: "kctx s \<Longrightarrow> curproc s = Ok (me s, s)"
  by (simp add: curproc_def bnd_apply myproc_eq)

lemma me_acq [simp]: "me (acq l s) = me s"
  by (simp add: me_def)

lemma myproc_acq [ksteps]: "kctx s \<Longrightarrow> myproc (acq l s) = Ok (Some (me s), acq l s)"
  by (simp add: myproc_eq)

lemma curproc_acq [ksteps]: "kctx s \<Longrightarrow> curproc (acq l s) = Ok (me s, acq l s)"
  by (simp add: curproc_def bnd_apply myproc_acq)

lemma allocpid_eq: "kctx s \<Longrightarrow> allocpid s = Ok (nextpid s, s\<lparr>nextpid := nextpid s + 1\<rparr>)"
  by (simp add: allocpid_def bnd_apply acquire_eq release_acq)

lemma killed_eq: "kctx s \<Longrightarrow> killed i s = Ok (p_killed (procs s i), s)"
  by (simp add: killed_def get_proc_def bnd_apply acquire_eq release_acq)

lemma setkilled_eq:
  "kctx s \<Longrightarrow> setkilled i s = Ok ((), s\<lparr>procs := (procs s)(i := (procs s i)\<lparr>p_killed := True\<rparr>)\<rparr>)"
  by (simp add: setkilled_def set_proc_def bnd_apply acquire_eq release_acq)

text \<open>
  What \<open>wakeup\<close> leaves in the table. It is called with a lock \<open>l\<close> of the condition held, which
  is not a process lock, or with none.
\<close>

definition woken :: "chanid \<Rightarrow> nat \<Rightarrow> (nat \<Rightarrow> proc) \<Rightarrow> nat \<Rightarrow> proc" where
  "woken ch m ps = (\<lambda>i. if i < NPROC \<and> i \<noteq> m then wake_proc ch (ps i) else ps i)"

lemma wakeup_one_eq:
  assumes "cpu_ok s" and "\<And>i. lfree (LProc i) s" and "c_proc (cpus s (hart s)) = Some m"
  shows "wakeup_one ch i s =
    Ok ((), if i = m then s else s\<lparr>procs := (procs s)(i := wake_proc ch (procs s i))\<rparr>)"
  using assms
  by (simp add: wakeup_one_def bnd_apply myproc_eq whenK_def acquire_eq release_acq set_proc_def)

lemma wakeup_gen:
  assumes "cpu_ok s" and "\<And>i. lfree (LProc i) s" and "c_proc (cpus s (hart s)) = Some m"
  shows "wakeup ch s = Ok ((), s\<lparr>procs := woken ch m (procs s)\<rparr>)"
proof -
  define u where "u k = s\<lparr>procs := (\<lambda>i. if i < k \<and> i \<noteq> m then wake_proc ch (procs s i) else procs s i)\<rparr>" for k
  have "wakeup_one ch k (u k) = Ok ((), u (Suc k))" for k
  proof -
    have "wakeup_one ch k (u k) =
        Ok ((), if k = m then u k else (u k)\<lparr>procs := (procs (u k))(k := wake_proc ch (procs (u k) k))\<rparr>)"
      by (rule wakeup_one_eq) (use assms in \<open>simp_all add: u_def\<close>)
    also have "(if k = m then u k else (u k)\<lparr>procs := (procs (u k))(k := wake_proc ch (procs (u k) k))\<rparr>)
        = u (Suc k)"
      unfolding u_def by (auto simp: fun_eq_iff less_Suc_eq intro!: arg_cong [where f = "\<lambda>x. s\<lparr>procs := x\<rparr>"])
    finally show ?thesis .
  qed
  then have "forK (wakeup_one ch) [0..<NPROC] (u 0) = Ok ((), u NPROC)" by (rule forK_upt)
  moreover have "u 0 = s" by (simp add: u_def)
  ultimately show ?thesis by (simp add: wakeup_def woken_def u_def)
qed

lemma wakeup_eq [ksteps]:
  "kctx s \<Longrightarrow> wakeup ch s = Ok ((), s\<lparr>procs := woken ch (me s) (procs s)\<rparr>)"
  by (rule wakeup_gen) simp_all

lemma wakeup_acq [ksteps]:
  "kctx s \<Longrightarrow> (\<And>i. LProc i \<noteq> l) \<Longrightarrow>
   wakeup ch (acq l s) = Ok ((), acq l (s\<lparr>procs := woken ch (me s) (procs s)\<rparr>))"
  by (subst wakeup_gen [where m = "me s"]) simp_all

lemma woken_none:
  assumes "\<And>i. i < NPROC \<Longrightarrow> \<not> (p_state (ps i) = SLEEPING \<and> p_chan (ps i) = Some ch)"
  shows "woken ch m ps = ps"
  using assms by (auto simp: woken_def wake_proc_def fun_eq_iff)

text \<open>\<open>kill\<close> marks the first process with the number, and makes it runnable if it sleeps.\<close>

definition kill_proc :: "proc \<Rightarrow> proc" where
  "kill_proc p = (if p_state p = SLEEPING then p\<lparr>p_killed := True, p_state := RUNNABLE\<rparr>
     else p\<lparr>p_killed := True\<rparr>)"

lemma kill_one_eq:
  "kctx s \<Longrightarrow> kill_one pid i s =
    (if p_pid (procs s i) = pid then Ok (Some 0, s\<lparr>procs := (procs s)(i := kill_proc (procs s i))\<rparr>)
     else Ok (None, s))"
  by (simp add: kill_one_def bnd_apply acquire_eq release_acq get_proc_def set_proc_def whenK_def
      kill_proc_def)

lemma kill_scan:
  assumes "kctx s"
  shows "untilK (kill_one pid) xs s =
    (case find (\<lambda>i. p_pid (procs s i) = pid) xs of
       None \<Rightarrow> Ok (None, s)
     | Some i \<Rightarrow> Ok (Some 0, s\<lparr>procs := (procs s)(i := kill_proc (procs s i))\<rparr>))"
  using assms by (induction xs) (simp_all add: bnd_apply kill_one_eq)

lemma kill_eq:
  assumes "kctx s"
  shows "kill pid s =
    (case find (\<lambda>i. p_pid (procs s i) = pid) [0..<NPROC] of
       None \<Rightarrow> Ok (-1, s)
     | Some i \<Rightarrow> Ok (0, s\<lparr>procs := (procs s)(i := kill_proc (procs s i))\<rparr>))"
  by (simp add: kill_def bnd_apply kill_scan [OF assms] split: option.split)

lemma either_copyout_KVar [ksteps]: "kctx s \<Longrightarrow> either_copyout KVar bs s = Ok (0, s)"
  by (simp add: either_copyout_def bnd_apply myproc_eq)

lemma either_copyin_KSrc [ksteps]:
  "kctx s \<Longrightarrow> either_copyin (KSrc bs) n s = Ok ((0, take n bs), s)"
  by (simp add: either_copyin_def bnd_apply myproc_eq)

lemma either_copyout_UDst [ksteps]:
  "kctx s \<Longrightarrow> either_copyout (UDst va) bs s = copyout (p_pagetable (procs s (me s))) va bs s"
  by (simp add: either_copyout_def bnd_apply myproc_eq get_proc_def)

lemma either_copyin_USrc [ksteps]:
  "kctx s \<Longrightarrow> either_copyin (USrc va) n s = copyin (p_pagetable (procs s (me s))) va n s"
  by (simp add: either_copyin_def bnd_apply myproc_eq get_proc_def)

text \<open>A process that goes to sleep on a held lock gives the hart away; none of the checks of
  \<open>sched\<close> fails.\<close>

lemma sched_blocks:
  assumes "kctx s" and "p_state (procs s (me s)) \<noteq> RUNNING"
  shows "sched (acq (LProc (me s)) s) = Blocked"
proof -
  let ?t = "acq (LProc (me s)) s"
  have "locked (locks ?t (LProc (me s)))" and "lcpu (locks ?t (LProc (me s))) = Some (hart s)"
    and "noff (cpus ?t (hart s)) = 1" and "\<not> (sstatus ?t (hart s) AND SSTATUS_SIE \<noteq> 0)"
    using assms(1) by (simp_all add: acq_def pushed_def)
  with assms show ?thesis
    by (simp add: sched_def bnd_apply curproc_acq holding_def mycpu_def get_cpu_def get_proc_def
        intr_get_def)
qed

lemma release_acq2:
  assumes "cpu_ok s" and "lfree l s" and "lfree l' s" and "l \<noteq> l'"
  shows "release l (acq l' (acq l s)) = Ok ((), acq l' s)"
proof -
  let ?n = "noff (cpus s (hart s))"
  let ?t = "acq l' (acq l s)"
  have "\<not> (sstatus ?t (hart s) AND SSTATUS_SIE \<noteq> 0)" and "noff (cpus ?t (hart s)) = ?n + 2"
    and "0 \<le> ?n"
    using assms(1) by (simp_all add: acq_def pushed_def cpu_ok_def)
  moreover have "noff (cpus (acq l' s) (hart s)) \<noteq> 0"
    using assms(1) by (simp add: acq_def pushed_def cpu_ok_def)
  moreover have "locked (locks ?t l)" and "lcpu (locks ?t l) = Some (hart s)"
    using assms by (simp_all add: acq_def pushed_def)
  moreover have "?t\<lparr>locks := (locks ?t)(l := (locks ?t l)\<lparr>lcpu := None, locked := False\<rparr>),
      cpus := (cpus ?t)(hart s := (cpus ?t (hart s))\<lparr>noff := 1 + ?n\<rparr>)\<rparr> = acq l' s"
    using assms by (auto simp: acq_def pushed_def ints_def lfree_def fun_eq_iff cpu_ok_def)
  ultimately show ?thesis
    by (simp add: release_def bnd_apply holding_def mycpu_def pop_off_def intr_get_def get_cpu_def
        set_cpu_def whenK_def)
qed

lemma sleep_blocks:
  assumes "kctx s" and "\<And>i. LProc i \<noteq> l"
  shows "sleep ch l (acq l s) = Blocked"
proof -
  let ?i = "me s"
  let ?u = "s\<lparr>procs := (procs s)(?i := (procs s ?i)\<lparr>p_chan := Some ch, p_state := SLEEPING\<rparr>)\<rparr>"
  have "lfree (LProc ?i) (acq l s)" using assms by simp
  moreover have "release l (acq (LProc ?i) (acq l s)) = Ok ((), acq (LProc ?i) s)"
    using assms by (intro release_acq2) (auto dest: sym)
  moreover have "sched (acq (LProc (me ?u)) ?u) = Blocked"
    using assms(1) by (intro sched_blocks) simp_all
  ultimately show ?thesis
    using assms(1) by (simp add: sleep_def bnd_apply curproc_acq acquire_eq set_proc_def)
qed

end
