(* ===== verification/Sleeplock.thy ===== *)
theory Sleeplock
  imports Proc
begin

text \<open>
  Sleep locks, \<open>kernel/sleeplock.c\<close>. A sleep lock is named by its inner spin lock; the
  channel its waiters sleep on is the lock itself. A call that has to wait is \<open>Blocked\<close>.
\<close>

record sleeplock =
  sl_locked :: bool
  sl_name :: string
  sl_pid :: u32

record sl_st = proc_st +
  slocks :: "lockid \<Rightarrow> sleeplock"

definition set_sl :: "lockid \<Rightarrow> (sleeplock \<Rightarrow> sleeplock) \<Rightarrow> ('a sl_st_scheme, unit) K" where
  "set_sl l f = modify (\<lambda>s. s\<lparr>slocks := (slocks s)(l := f (slocks s l))\<rparr>)"

definition initsleeplock :: "lockid \<Rightarrow> string \<Rightarrow> ('a sl_st_scheme, unit) K" where
  "initsleeplock l nm =
     bnd (initlock l ''sleep lock'') (\<lambda>_.
     set_sl l (\<lambda>k. k\<lparr>sl_name := nm, sl_locked := False, sl_pid := 0\<rparr>))"

text \<open>\<open>sleep\<close> gives the hart away, so the waiting loop makes one round in a call.\<close>

definition acquiresleep :: "lockid \<Rightarrow> ('a sl_st_scheme, unit) K" where
  "acquiresleep l =
     bnd (acquire l) (\<lambda>_.
     bnd (gets (\<lambda>s. sl_locked (slocks s l))) (\<lambda>busy.
     bnd (whenK busy (sleep (ChSleep l) l)) (\<lambda>_.
     bnd (set_sl l (\<lambda>k. k\<lparr>sl_locked := True\<rparr>)) (\<lambda>_.
     bnd curproc (\<lambda>i.
     bnd (get_proc i) (\<lambda>p.
     bnd (set_sl l (\<lambda>k. k\<lparr>sl_pid := p_pid p\<rparr>)) (\<lambda>_.
     release l)))))))"

definition releasesleep :: "lockid \<Rightarrow> ('a sl_st_scheme, unit) K" where
  "releasesleep l =
     bnd (acquire l) (\<lambda>_.
     bnd (set_sl l (\<lambda>k. k\<lparr>sl_locked := False\<rparr>)) (\<lambda>_.
     bnd (set_sl l (\<lambda>k. k\<lparr>sl_pid := 0\<rparr>)) (\<lambda>_.
     bnd (wakeup (ChSleep l)) (\<lambda>_.
     release l))))"

definition holdingsleep :: "lockid \<Rightarrow> ('a sl_st_scheme, bool) K" where
  "holdingsleep l =
     bnd (acquire l) (\<lambda>_.
     bnd (gets (\<lambda>s. sl_locked (slocks s l))) (\<lambda>b.
     bnd (if b then bnd curproc (\<lambda>i. bnd (get_proc i) (\<lambda>p. gets (\<lambda>s. sl_pid (slocks s l) = p_pid p)))
          else ret False) (\<lambda>r.
     bnd (release l) (\<lambda>_.
     ret r))))"

section \<open>The calls as equations\<close>

definition mypid :: "'a proc_st_scheme \<Rightarrow> u32" where
  "mypid s = p_pid (procs s (me s))"

text \<open>\<open>quiet\<close>: no other process waits for a sleep lock.\<close>

definition quiet :: "'a proc_st_scheme \<Rightarrow> bool" where
  "quiet s \<longleftrightarrow> (\<forall>i < NPROC. \<forall>l. \<not> (p_state (procs s i) = SLEEPING \<and> p_chan (procs s i) = Some (ChSleep l)))"

definition is_sleeplock :: "lockid \<Rightarrow> bool" where
  "is_sleeplock l \<longleftrightarrow> (case l of LBuf i \<Rightarrow> True | LInode i \<Rightarrow> True | _ \<Rightarrow> False)"

lemma is_sleeplock_simps [simp]: "is_sleeplock (LBuf i)" "is_sleeplock (LInode i)"
  by (simp_all add: is_sleeplock_def)

lemma is_sleeplock_LProc: "is_sleeplock l \<Longrightarrow> LProc i \<noteq> l"
  by (auto simp: is_sleeplock_def)

lemma acq_sl [simp]:
  "slocks (acq l s) = slocks s" "(acq l s)\<lparr>slocks := x\<rparr> = acq l (s\<lparr>slocks := x\<rparr>)"
  by (simp_all add: acq_def pushed_def ints_def)

lemma quiet_base: "procs t = procs s \<Longrightarrow> quiet t = quiet s"
  by (simp add: quiet_def)

lemma mypid_base: "procs t = procs s \<Longrightarrow> me t = me s \<Longrightarrow> mypid t = mypid s"
  by (simp add: mypid_def)

lemma kctx_sl [simp]:
  "cpu_ok (s\<lparr>slocks := x\<rparr>) = cpu_ok s" "lfree l (s\<lparr>slocks := x\<rparr>) = lfree l s"
  "kctx (s\<lparr>slocks := x\<rparr>) = kctx s" "me (s\<lparr>slocks := x\<rparr>) = me s"
  "quiet (s\<lparr>slocks := x\<rparr>) = quiet s"
  by (rule kctx_base quiet_base; simp)+

lemma mypid_sl [simp]: "mypid (s\<lparr>slocks := x\<rparr>) = mypid s"
  by (simp add: mypid_def)

lemma quiet_upd [simp]:
  "quiet (s\<lparr>pmem := m\<rparr>) = quiet s" "quiet (s\<lparr>freelist := p\<rparr>) = quiet s"
  "mypid (s\<lparr>pmem := m\<rparr>) = mypid s" "mypid (s\<lparr>freelist := p\<rparr>) = mypid s"
  by (simp_all add: quiet_def mypid_def)

lemma acquiresleep_eq [ksteps]:
  assumes "kctx s" and "is_sleeplock l" and "\<not> sl_locked (slocks s l)"
  shows "acquiresleep l s =
    Ok ((), s\<lparr>slocks := (slocks s)(l := (slocks s l)\<lparr>sl_locked := True, sl_pid := mypid s\<rparr>)\<rparr>)"
  using assms
  by (simp add: acquiresleep_def bnd_apply acquire_eq release_acq set_sl_def curproc_acq
      get_proc_def mypid_def)

lemma acquiresleep_waits [ksteps]:
  assumes "kctx s" and "is_sleeplock l" and "sl_locked (slocks s l)"
  shows "acquiresleep l s = Blocked"
  using assms by (simp add: acquiresleep_def bnd_apply acquire_eq sleep_blocks is_sleeplock_LProc)

lemma releasesleep_eq [ksteps]:
  assumes "kctx s" and "quiet s" and "is_sleeplock l"
  shows "releasesleep l s =
    Ok ((), s\<lparr>slocks := (slocks s)(l := (slocks s l)\<lparr>sl_locked := False, sl_pid := 0\<rparr>)\<rparr>)"
proof -
  have "woken (ChSleep l) (me s) (procs s) = procs s"
    by (rule woken_none) (use assms(2) in \<open>auto simp: quiet_def\<close>)
  with assms show ?thesis
    by (simp add: releasesleep_def bnd_apply acquire_eq release_acq set_sl_def wakeup_acq
        is_sleeplock_LProc)
qed

lemma holdingsleep_eq [ksteps]:
  assumes "kctx s" and "is_sleeplock l"
  shows "holdingsleep l s = Ok (sl_locked (slocks s l) \<and> sl_pid (slocks s l) = mypid s, s)"
  using assms
  by (simp add: holdingsleep_def bnd_apply acquire_eq release_acq curproc_acq get_proc_def
      mypid_def)

end
