(* ===== verification/Bio.thy ===== *)
theory Bio
  imports Sleeplock
begin

text \<open>
  The buffer cache, \<open>kernel/fs/xv6fs/bio.c\<close>. A pointer to a \<open>struct buf\<close> is an index; the
  list head \<open>bcache.head\<close> is the index \<open>NBUF\<close>. The \<open>prev\<close>/\<open>next\<close> list is kept as the source
  keeps it. \<open>disk_transfer\<close> is what the disk has done when \<open>virtio_disk_rw\<close> returns; there is
  one disk, and its blocks are indexed by \<open>blockno\<close> only.

  \<open>cache H X L\<close> is the invariant with its abstract view: \<open>L\<close> are the contents of the blocks
  as \<open>bread\<close> shows them, \<open>H\<close> the blocks the running process holds with the buffers they are
  in, \<open>X\<close> those of them whose changes are not on the disk yet. The locale \<open>block_store\<close> is the
  contract the file system relies on.
\<close>

section \<open>State and operations\<close>

record buf =
  b_valid :: bool
  b_disk :: bool
  b_dev :: u32
  b_blockno :: u32
  b_refcnt :: u32
  b_prev :: nat
  b_next :: nat
  b_data :: bytes

record bio_st = sl_st +
  bufs :: "nat \<Rightarrow> buf"
  disk :: "u32 \<Rightarrow> bytes"

definition NBUF :: nat where "NBUF = 30"
definition BSIZE :: nat where "BSIZE = 1024"

definition get_buf :: "nat \<Rightarrow> ('a bio_st_scheme, buf) K" where
  "get_buf i = gets (\<lambda>s. bufs s i)"

definition set_buf :: "nat \<Rightarrow> (buf \<Rightarrow> buf) \<Rightarrow> ('a bio_st_scheme, unit) K" where
  "set_buf i f = modify (\<lambda>s. s\<lparr>bufs := (bufs s)(i := f (bufs s i))\<rparr>)"

definition disk_transfer :: "nat \<Rightarrow> bool \<Rightarrow> ('a bio_st_scheme, unit) K" where
  "disk_transfer i write =
     bnd (get_buf i) (\<lambda>b.
     if write then modify (\<lambda>s. s\<lparr>disk := (disk s)(b_blockno b := b_data b)\<rparr>)
     else bnd (gets (\<lambda>s. disk s (b_blockno b))) (\<lambda>d. set_buf i (\<lambda>b. b\<lparr>b_data := d\<rparr>)))"

definition binit_one :: "nat \<Rightarrow> ('a bio_st_scheme, unit) K" where
  "binit_one i =
     bnd (get_buf NBUF) (\<lambda>h.
     bnd (set_buf i (\<lambda>b. b\<lparr>b_next := b_next h\<rparr>)) (\<lambda>_.
     bnd (set_buf i (\<lambda>b. b\<lparr>b_prev := NBUF\<rparr>)) (\<lambda>_.
     bnd (initsleeplock (LBuf i) ''buffer'') (\<lambda>_.
     bnd (get_buf NBUF) (\<lambda>h.
     bnd (set_buf (b_next h) (\<lambda>b. b\<lparr>b_prev := i\<rparr>)) (\<lambda>_.
     set_buf NBUF (\<lambda>b. b\<lparr>b_next := i\<rparr>)))))))"

definition binit :: "('a bio_st_scheme, unit) K" where
  "binit =
     bnd (initlock LBcache ''bcache'') (\<lambda>_.
     bnd (set_buf NBUF (\<lambda>b. b\<lparr>b_prev := NBUF\<rparr>)) (\<lambda>_.
     bnd (set_buf NBUF (\<lambda>b. b\<lparr>b_next := NBUF\<rparr>)) (\<lambda>_.
     forK binit_one [0..<NBUF])))"

text \<open>
  A search along \<open>next\<close> or \<open>prev\<close> up to the head. The fuel bounds the search; the list has
  \<open>NBUF\<close> elements, so \<open>Suc NBUF\<close> rounds reach the head, and only a broken list uses it up.
\<close>

fun scan :: "(buf \<Rightarrow> nat) \<Rightarrow> (buf \<Rightarrow> bool) \<Rightarrow> (nat \<Rightarrow> buf) \<Rightarrow> nat \<Rightarrow> nat \<Rightarrow> nat option option" where
  "scan dir P B 0 b = None"
| "scan dir P B (Suc k) b =
     (if b = NBUF then Some None
      else if P (B b) then Some (Some b)
      else scan dir P B k (dir (B b)))"

definition bget :: "u32 \<Rightarrow> u32 \<Rightarrow> ('a bio_st_scheme, nat) K" where
  "bget dev blkno =
     bnd (acquire LBcache) (\<lambda>_.
     bnd (gets (\<lambda>s. scan b_next (\<lambda>b. b_dev b = dev \<and> b_blockno b = blkno) (bufs s) (Suc NBUF)
            (b_next (bufs s NBUF)))) (\<lambda>hit.
     case hit of
       None \<Rightarrow> blocked
     | Some (Some i) \<Rightarrow>
         bnd (set_buf i (\<lambda>b. b\<lparr>b_refcnt := b_refcnt b + 1\<rparr>)) (\<lambda>_.
         bnd (release LBcache) (\<lambda>_.
         bnd (acquiresleep (LBuf i)) (\<lambda>_.
         ret i)))
     | Some None \<Rightarrow>
         bnd (gets (\<lambda>s. scan b_prev (\<lambda>b. b_refcnt b = 0) (bufs s) (Suc NBUF)
                (b_prev (bufs s NBUF)))) (\<lambda>victim.
         case victim of
           None \<Rightarrow> blocked
         | Some None \<Rightarrow> panic ''bget: no buffers''
         | Some (Some i) \<Rightarrow>
             bnd (set_buf i (\<lambda>b. b\<lparr>b_dev := dev, b_blockno := blkno, b_valid := False,
                                  b_refcnt := 1\<rparr>)) (\<lambda>_.
             bnd (release LBcache) (\<lambda>_.
             bnd (acquiresleep (LBuf i)) (\<lambda>_.
             ret i))))))"

definition bread :: "u32 \<Rightarrow> u32 \<Rightarrow> ('a bio_st_scheme, nat) K" where
  "bread dev blkno =
     bnd (bget dev blkno) (\<lambda>i.
     bnd (get_buf i) (\<lambda>b.
     bnd (whenK (\<not> b_valid b)
            (bnd (disk_transfer i False) (\<lambda>_. set_buf i (\<lambda>b. b\<lparr>b_valid := True\<rparr>)))) (\<lambda>_.
     ret i)))"

definition bwrite :: "nat \<Rightarrow> ('a bio_st_scheme, unit) K" where
  "bwrite i =
     bnd (holdingsleep (LBuf i)) (\<lambda>h.
     if \<not> h then panic ''bwrite'' else disk_transfer i True)"

text \<open>The list surgery of \<open>brelse\<close>, one assignment of the source at a time.\<close>

definition to_front :: "nat \<Rightarrow> ('a bio_st_scheme, unit) K" where
  "to_front i =
     bnd (get_buf i) (\<lambda>b.
     bnd (set_buf (b_next b) (\<lambda>x. x\<lparr>b_prev := b_prev b\<rparr>)) (\<lambda>_.
     bnd (get_buf i) (\<lambda>b.
     bnd (set_buf (b_prev b) (\<lambda>x. x\<lparr>b_next := b_next b\<rparr>)) (\<lambda>_.
     bnd (get_buf NBUF) (\<lambda>h.
     bnd (set_buf i (\<lambda>x. x\<lparr>b_next := b_next h\<rparr>)) (\<lambda>_.
     bnd (set_buf i (\<lambda>x. x\<lparr>b_prev := NBUF\<rparr>)) (\<lambda>_.
     bnd (get_buf NBUF) (\<lambda>h.
     bnd (set_buf (b_next h) (\<lambda>x. x\<lparr>b_prev := i\<rparr>)) (\<lambda>_.
     set_buf NBUF (\<lambda>x. x\<lparr>b_next := i\<rparr>))))))))))"

definition brelse :: "nat \<Rightarrow> ('a bio_st_scheme, unit) K" where
  "brelse i =
     bnd (holdingsleep (LBuf i)) (\<lambda>h.
     if \<not> h then panic ''brelse''
     else bnd (releasesleep (LBuf i)) (\<lambda>_.
       bnd (acquire LBcache) (\<lambda>_.
       bnd (set_buf i (\<lambda>b. b\<lparr>b_refcnt := b_refcnt b - 1\<rparr>)) (\<lambda>_.
       bnd (get_buf i) (\<lambda>b.
       bnd (whenK (b_refcnt b = 0) (to_front i)) (\<lambda>_.
       release LBcache))))))"

definition bpin :: "nat \<Rightarrow> ('a bio_st_scheme, unit) K" where
  "bpin i =
     bnd (acquire LBcache) (\<lambda>_.
     bnd (set_buf i (\<lambda>b. b\<lparr>b_refcnt := b_refcnt b + 1\<rparr>)) (\<lambda>_.
     release LBcache))"

definition bunpin :: "nat \<Rightarrow> ('a bio_st_scheme, unit) K" where
  "bunpin i =
     bnd (acquire LBcache) (\<lambda>_.
     bnd (set_buf i (\<lambda>b. b\<lparr>b_refcnt := b_refcnt b - 1\<rparr>)) (\<lambda>_.
     release LBcache))"

section \<open>The list of buffers\<close>

fun linked :: "(nat \<Rightarrow> buf) \<Rightarrow> nat list \<Rightarrow> bool" where
  "linked B (u # v # r) \<longleftrightarrow> b_next (B u) = v \<and> b_prev (B v) = u \<and> linked B (v # r)"
| "linked B _ \<longleftrightarrow> True"

text \<open>\<open>lru B xs\<close>: the list holds every buffer once, \<open>xs\<close> from the most recently used on.\<close>

definition lru :: "(nat \<Rightarrow> buf) \<Rightarrow> nat list \<Rightarrow> bool" where
  "lru B xs \<longleftrightarrow> linked B (NBUF # xs @ [NBUF]) \<and> distinct xs \<and> set xs = {..<NBUF}"

lemma linked_append: "linked B (xs @ u # ys) \<longleftrightarrow> linked B (xs @ [u]) \<and> linked B (u # ys)"
  by (induction B xs rule: linked.induct) (cases ys; auto)+

lemma linked_frame:
  assumes "linked B ps"
    and "\<And>u. u \<in> set (butlast ps) \<Longrightarrow> b_next (C u) = b_next (B u)"
    and "\<And>v. v \<in> set (tl ps) \<Longrightarrow> b_prev (C v) = b_prev (B v)"
  shows "linked C ps"
  using assms by (induction B ps rule: linked.induct) auto

lemma scan_next:
  "linked B (x # xs @ [NBUF]) \<Longrightarrow> NBUF \<notin> set xs \<Longrightarrow> length xs < k \<Longrightarrow>
   scan b_next P B k (b_next (B x)) = Some (find (\<lambda>i. P (B i)) xs)"
proof (induction xs arbitrary: x k)
  case Nil
  then show ?case by (cases k) auto
next
  case (Cons y ys)
  then obtain j where "k = Suc j" by (cases k) auto
  with Cons show ?case by auto
qed

lemma scan_prev:
  "linked B (NBUF # xs @ [x]) \<Longrightarrow> NBUF \<notin> set xs \<Longrightarrow> length xs < k \<Longrightarrow>
   scan b_prev P B k (b_prev (B x)) = Some (find (\<lambda>i. P (B i)) (rev xs))"
proof (induction xs arbitrary: x k rule: rev_induct)
  case Nil
  then show ?case by (cases k) auto
next
  case (snoc y ys)
  then obtain j where "k = Suc j" by (cases k) auto
  moreover have "linked B (NBUF # ys @ [y])" and "b_prev (B x) = y"
    using snoc.prems(1) linked_append [of B "NBUF # ys" y "[x]"] by auto
  ultimately show ?case using snoc by auto
qed

lemma lru_length: "lru B xs \<Longrightarrow> length xs = NBUF"
  unfolding lru_def by (metis card_lessThan distinct_card)

lemma lru_head: "lru B xs \<Longrightarrow> NBUF \<notin> set xs"
  by (simp add: lru_def)

lemma scan_lru_next:
  "lru B xs \<Longrightarrow> scan b_next P B (Suc NBUF) (b_next (B NBUF)) = Some (find (\<lambda>i. P (B i)) xs)"
  using lru_length lru_head by (intro scan_next) (auto simp: lru_def)

lemma scan_lru_prev:
  "lru B xs \<Longrightarrow> scan b_prev P B (Suc NBUF) (b_prev (B NBUF)) = Some (find (\<lambda>i. P (B i)) (rev xs))"
  using lru_length lru_head by (intro scan_prev) (auto simp: lru_def)

lemma lru_same_links:
  "lru B xs \<Longrightarrow> (\<And>i. b_next (C i) = b_next (B i) \<and> b_prev (C i) = b_prev (B i)) \<Longrightarrow> lru C xs"
  unfolding lru_def using linked_frame [of B "NBUF # xs @ [NBUF]" C] by blast

text \<open>The effect of the surgery: taking a buffer out of the list, and putting it first.\<close>

definition unlink_buf :: "nat \<Rightarrow> (nat \<Rightarrow> buf) \<Rightarrow> nat \<Rightarrow> buf" where
  "unlink_buf i B =
     (let n = b_next (B i); p = b_prev (B i); C = B(n := (B n)\<lparr>b_prev := p\<rparr>)
      in C(p := (C p)\<lparr>b_next := n\<rparr>))"

definition link_front :: "nat \<Rightarrow> (nat \<Rightarrow> buf) \<Rightarrow> nat \<Rightarrow> buf" where
  "link_front i B =
     (let h = b_next (B NBUF); C = B(i := (B i)\<lparr>b_next := h, b_prev := NBUF\<rparr>);
          D = C(h := (C h)\<lparr>b_prev := i\<rparr>)
      in D(NBUF := (D NBUF)\<lparr>b_next := i\<rparr>))"

lemma to_front_eq:
  assumes "i < NBUF" and "b_next (bufs s i) \<noteq> i" and "b_prev (bufs s i) \<noteq> i"
  shows "to_front i s = Ok ((), s\<lparr>bufs := link_front i (unlink_buf i (bufs s))\<rparr>)"
  using assms
  by (simp add: to_front_def bnd_apply get_buf_def set_buf_def unlink_buf_def link_front_def Let_def)

lemma link_fields [simp]:
  "b_valid (unlink_buf i B j) = b_valid (B j)" "b_dev (unlink_buf i B j) = b_dev (B j)"
  "b_blockno (unlink_buf i B j) = b_blockno (B j)" "b_refcnt (unlink_buf i B j) = b_refcnt (B j)"
  "b_data (unlink_buf i B j) = b_data (B j)"
  "b_valid (link_front i B j) = b_valid (B j)" "b_dev (link_front i B j) = b_dev (B j)"
  "b_blockno (link_front i B j) = b_blockno (B j)" "b_refcnt (link_front i B j) = b_refcnt (B j)"
  "b_data (link_front i B j) = b_data (B j)"
  by (simp_all add: unlink_buf_def link_front_def Let_def)

lemma linked_unlink:
  assumes "linked B (NBUF # ys @ i # zs @ [NBUF])" and "distinct (ys @ i # zs)"
    and "NBUF \<notin> set (ys @ i # zs)"
  shows "linked (unlink_buf i B) (NBUF # ys @ zs @ [NBUF])"
proof -
  obtain as p where ap: "NBUF # ys = as @ [p]" by (metis append_butlast_last_id list.discI)
  obtain n bs where nb: "zs @ [NBUF] = n # bs" by (cases zs) auto
  have "as @ p # i # n # bs = NBUF # ys @ i # zs @ [NBUF]" using ap nb by simp
  then have "linked B (as @ p # i # n # bs)" using assms(1) by simp
  then have l: "linked B (as @ [p])" "linked B (n # bs)" "b_next (B i) = n" "b_prev (B i) = p"
    using linked_append [of B as p "i # n # bs"] by auto
  have d: "distinct (as @ [p])" and pz: "p \<notin> set zs" and nz: "n \<notin> set ys" "n \<notin> set bs"
    using assms(2,3) ap nb by (cases as; cases zs; auto simp: distinct_append)+
  have tl: "set (tl (as @ [p])) \<subseteq> set ys" using ap by (cases as) auto
  have bl: "set (butlast (n # bs)) \<subseteq> set zs" using nb by (metis butlast_snoc subset_refl)
  have next': "b_next (unlink_buf i B u) = (if u = p then n else b_next (B u))"
    and prev': "b_prev (unlink_buf i B u) = (if u = n then p else b_prev (B u))" for u
    using l(3,4) by (auto simp: unlink_buf_def Let_def)
  have "linked (unlink_buf i B) (as @ [p])"
    by (rule linked_frame [OF l(1)]) (use d nz tl next' prev' in auto)
  moreover have "linked (unlink_buf i B) (n # bs)"
    by (rule linked_frame [OF l(2)]) (use pz nz bl next' prev' in auto)
  ultimately have "linked (unlink_buf i B) (as @ p # n # bs)"
    using linked_append [of _ as p "n # bs"] by (simp add: next' prev')
  moreover have "as @ p # n # bs = NBUF # ys @ zs @ [NBUF]" using ap nb by simp
  ultimately show ?thesis by simp
qed

lemma linked_front:
  assumes "linked B (NBUF # xs @ [NBUF])" and "i \<notin> set xs" and "i \<noteq> NBUF" and "NBUF \<notin> set xs"
    and "distinct xs"
  shows "linked (link_front i B) (NBUF # i # xs @ [NBUF])"
proof -
  obtain h hs where h: "xs @ [NBUF] = h # hs" by (cases xs) auto
  then have l: "linked B (h # hs)" "b_next (B NBUF) = h" using assms(1) by auto
  have "h \<notin> set hs" and "h \<noteq> i" and "i \<notin> set hs" and "set (butlast (h # hs)) \<subseteq> set xs"
    using assms h by (cases xs; auto)+
  have next': "b_next (link_front i B u) = (if u = NBUF then i else if u = i then h else b_next (B u))"
    and prev': "b_prev (link_front i B u) = (if u = h then i else if u = i then NBUF else b_prev (B u))" for u
    using l(2) \<open>h \<noteq> i\<close> assms(3) by (auto simp: link_front_def Let_def)
  have "linked (link_front i B) (h # hs)"
    using \<open>set (butlast (h # hs)) \<subseteq> set xs\<close> \<open>h \<notin> set hs\<close> \<open>i \<notin> set hs\<close> assms(2,4)
    by (intro linked_frame [OF l(1)]) (auto simp: next' prev' simp del: butlast.simps)
  with h assms(3) \<open>h \<noteq> i\<close> show ?thesis by (auto simp: next' prev')
qed

lemma linked_not_self:
  assumes "linked B (NBUF # ys @ i # zs @ [NBUF])" and "distinct (ys @ i # zs)"
    and "NBUF \<notin> set (ys @ i # zs)"
  shows "b_next (B i) \<noteq> i" and "b_prev (B i) \<noteq> i"
proof -
  obtain as p where ap: "NBUF # ys = as @ [p]" by (metis append_butlast_last_id list.discI)
  obtain n bs where nb: "zs @ [NBUF] = n # bs" by (cases zs) auto
  have "as @ p # i # n # bs = NBUF # ys @ i # zs @ [NBUF]" using ap nb by simp
  then have "b_next (B i) = n" "b_prev (B i) = p"
    using assms(1) linked_append [of B as p "i # n # bs"] by auto
  moreover have "n \<in> set (zs @ [NBUF])" and "p \<in> set (NBUF # ys)" unfolding ap nb by auto
  ultimately show "b_next (B i) \<noteq> i" and "b_prev (B i) \<noteq> i" using assms(2,3) by auto
qed

lemma lru_to_front:
  assumes "lru (bufs s) xs" and "i < NBUF"
  shows "to_front i s = Ok ((), s\<lparr>bufs := link_front i (unlink_buf i (bufs s))\<rparr>)"
    and "lru (link_front i (unlink_buf i (bufs s))) (i # remove1 i xs)"
proof -
  obtain ys zs where xs: "xs = ys @ i # zs"
    using assms by (metis lessThan_iff lru_def split_list)
  have l: "linked (bufs s) (NBUF # ys @ i # zs @ [NBUF])" and d: "distinct (ys @ i # zs)"
    and h: "NBUF \<notin> set (ys @ i # zs)"
    using assms(1) xs by (auto simp: lru_def)
  show "to_front i s = Ok ((), s\<lparr>bufs := link_front i (unlink_buf i (bufs s))\<rparr>)"
    using linked_not_self [OF l d h] assms(2) by (simp add: to_front_eq)
  have "linked (link_front i (unlink_buf i (bufs s))) (NBUF # i # (ys @ zs) @ [NBUF])"
    using linked_unlink [OF l d h] d h assms(2) by (intro linked_front) auto
  moreover have "remove1 i xs = ys @ zs" using d xs by (simp add: remove1_append)
  ultimately show "lru (link_front i (unlink_buf i (bufs s))) (i # remove1 i xs)"
    using assms(1) xs by (auto simp: lru_def)
qed

section \<open>The cache invariant\<close>

text \<open>
  The reference count and the lock of a buffer say whether the process holds its block; a
  valid buffer of the disk shows the block's contents; no block is in two buffers.
\<close>

definition buf_ok :: "(u32 \<Rightarrow> nat option) \<Rightarrow> (u32 \<Rightarrow> bytes) \<Rightarrow> u32 \<Rightarrow> nat \<Rightarrow> buf \<Rightarrow> sleeplock \<Rightarrow> bool" where
  "buf_ok H L pid i b k \<longleftrightarrow>
     b_refcnt b = (if H (b_blockno b) = Some i then 1 else 0)
     \<and> sl_locked k = (H (b_blockno b) = Some i)
     \<and> sl_pid k = (if H (b_blockno b) = Some i then pid else 0)
     \<and> (b_dev b = 1 \<and> b_valid b \<longrightarrow> b_data b = L (b_blockno b))"

definition held_ok :: "(nat \<Rightarrow> buf) \<Rightarrow> u32 \<Rightarrow> nat \<Rightarrow> bool" where
  "held_ok B n i \<longleftrightarrow> i < NBUF \<and> b_dev (B i) = 1 \<and> b_blockno (B i) = n \<and> b_valid (B i)"

definition cache :: "(u32 \<Rightarrow> nat option) \<Rightarrow> u32 set \<Rightarrow> (u32 \<Rightarrow> bytes) \<Rightarrow> 'a bio_st_scheme \<Rightarrow> bool" where
  "cache H X L s \<longleftrightarrow>
     (\<exists>xs. lru (bufs s) xs)
     \<and> (\<forall>i < NBUF. buf_ok H L (mypid s) i (bufs s i) (slocks s (LBuf i)))
     \<and> (\<forall>i < NBUF. \<forall>j < NBUF. b_dev (bufs s i) = 1 \<longrightarrow> b_dev (bufs s j) = 1 \<longrightarrow>
          b_blockno (bufs s i) = b_blockno (bufs s j) \<longrightarrow> i = j)
     \<and> (\<forall>n i. H n = Some i \<longrightarrow> held_ok (bufs s) n i)
     \<and> (\<forall>n. n \<notin> X \<longrightarrow> disk s n = L n)
     \<and> X \<subseteq> dom H"

lemma cacheD:
  assumes "cache H X L s"
  shows cache_lru: "\<exists>xs. lru (bufs s) xs"
    and cache_buf: "i < NBUF \<Longrightarrow> buf_ok H L (mypid s) i (bufs s i) (slocks s (LBuf i))"
    and cache_unique: "i < NBUF \<Longrightarrow> j < NBUF \<Longrightarrow> b_dev (bufs s i) = 1 \<Longrightarrow> b_dev (bufs s j) = 1 \<Longrightarrow>
          b_blockno (bufs s i) = b_blockno (bufs s j) \<Longrightarrow> i = j"
    and cache_held: "H n = Some i \<Longrightarrow> held_ok (bufs s) n i"
    and cache_disk: "n \<notin> X \<Longrightarrow> disk s n = L n"
    and cache_dirty: "X \<subseteq> dom H"
  using assms unfolding cache_def by blast+

lemma acq_bio [simp]:
  "bufs (acq l s) = bufs s" "disk (acq l s) = disk s"
  "(acq l s)\<lparr>bufs := x\<rparr> = acq l (s\<lparr>bufs := x\<rparr>)"
  "(acq l s)\<lparr>disk := y\<rparr> = acq l (s\<lparr>disk := y\<rparr>)"
  by (simp_all add: acq_def pushed_def ints_def)

lemma kctx_bio [simp]:
  "cpu_ok (s\<lparr>bufs := x\<rparr>) = cpu_ok s" "lfree l (s\<lparr>bufs := x\<rparr>) = lfree l s"
  "kctx (s\<lparr>bufs := x\<rparr>) = kctx s" "me (s\<lparr>bufs := x\<rparr>) = me s" "quiet (s\<lparr>bufs := x\<rparr>) = quiet s"
  "cpu_ok (s\<lparr>disk := y\<rparr>) = cpu_ok s" "lfree l (s\<lparr>disk := y\<rparr>) = lfree l s"
  "kctx (s\<lparr>disk := y\<rparr>) = kctx s" "me (s\<lparr>disk := y\<rparr>) = me s" "quiet (s\<lparr>disk := y\<rparr>) = quiet s"
  by (rule kctx_base quiet_base; simp)+

lemma mypid_bio [simp]: "mypid (s\<lparr>bufs := x\<rparr>) = mypid s" "mypid (s\<lparr>disk := y\<rparr>) = mypid s"
  by (simp_all add: mypid_def)

lemma held_inj: "cache H X L s \<Longrightarrow> H n = Some i \<Longrightarrow> H m = Some i \<Longrightarrow> n = m"
  using cache_held unfolding held_ok_def by metis

lemma held_card:
  assumes "cache H X L s"
  shows "finite (dom H)" and "card (dom H) = card (ran H)" and "ran H \<subseteq> {..<NBUF}"
proof -
  have inj: "inj_on (the \<circ> H) (dom H)"
    using held_inj [OF assms] by (auto simp: inj_on_def)
  have img: "(the \<circ> H) ` dom H = ran H" by (force simp: ran_def)
  show sub: "ran H \<subseteq> {..<NBUF}" using cache_held [OF assms] by (auto simp: ran_def held_ok_def)
  then have "finite ((the \<circ> H) ` dom H)" unfolding img by (rule finite_subset) simp
  then show "finite (dom H)" using inj by (rule finite_imageD)
  show "card (dom H) = card (ran H)" using card_image [OF inj] img by simp
qed

text \<open>When not every buffer is held, one has reference count 0.\<close>

lemma free_buffer:
  assumes c: "cache H X L s" and "card (dom H) < NBUF"
  obtains i where "i < NBUF" and "b_refcnt (bufs s i) = 0"
proof -
  have "card (ran H) < card {..<NBUF}" using assms(2) held_card(2) [OF c] by simp
  then obtain i where "i < NBUF" and "i \<notin> ran H"
    using held_card(3) [OF c] by (metis lessThan_iff less_irrefl subsetI subset_antisym)
  then have "H (b_blockno (bufs s i)) \<noteq> Some i" by (auto simp: ran_def)
  with cache_buf [OF c \<open>i < NBUF\<close>] have "b_refcnt (bufs s i) = 0" by (simp add: buf_ok_def)
  with \<open>i < NBUF\<close> show ?thesis using that by blast
qed

lemma find_SomeD: "find P xs = Some x \<Longrightarrow> x \<in> set xs \<and> P x"
  by (metis find_Some_iff nth_mem)

section \<open>What the calls do to the cache\<close>

lemma bget_hit:
  assumes "kctx s" and "lru (bufs s) xs"
    and "find (\<lambda>i. b_dev (bufs s i) = dev \<and> b_blockno (bufs s i) = n) xs = Some i"
    and "\<not> sl_locked (slocks s (LBuf i))"
  shows "bget dev n s = Ok (i, s\<lparr>bufs := (bufs s)(i := (bufs s i)\<lparr>b_refcnt := b_refcnt (bufs s i) + 1\<rparr>),
     slocks := (slocks s)(LBuf i := (slocks s (LBuf i))\<lparr>sl_locked := True, sl_pid := mypid s\<rparr>)\<rparr>)"
  using assms
  by (simp add: bget_def bnd_apply acquire_eq release_acq set_buf_def scan_lru_next acquiresleep_eq
      del: scan.simps)

lemma bget_miss:
  assumes "kctx s" and "lru (bufs s) xs"
    and "find (\<lambda>i. b_dev (bufs s i) = dev \<and> b_blockno (bufs s i) = n) xs = None"
    and "find (\<lambda>i. b_refcnt (bufs s i) = 0) (rev xs) = Some i"
    and "\<not> sl_locked (slocks s (LBuf i))"
  shows "bget dev n s = Ok (i, s\<lparr>bufs := (bufs s)(i := (bufs s i)\<lparr>b_dev := dev, b_blockno := n,
       b_valid := False, b_refcnt := 1\<rparr>),
     slocks := (slocks s)(LBuf i := (slocks s (LBuf i))\<lparr>sl_locked := True, sl_pid := mypid s\<rparr>)\<rparr>)"
  using assms
  by (simp add: bget_def bnd_apply acquire_eq release_acq set_buf_def scan_lru_next scan_lru_prev
      acquiresleep_eq del: scan.simps)

lemma bget_full:
  assumes "kctx s" and "lru (bufs s) xs"
    and "find (\<lambda>i. b_dev (bufs s i) = dev \<and> b_blockno (bufs s i) = n) xs = None"
    and "find (\<lambda>i. b_refcnt (bufs s i) = 0) (rev xs) = None"
  shows "bget dev n s = Panic ''bget: no buffers''"
  using assms
  by (simp add: bget_def bnd_apply acquire_eq scan_lru_next scan_lru_prev del: scan.simps)

text \<open>A buffer that is taken for block \<open>n\<close>, and the cache after it.\<close>

definition takes :: "u32 \<Rightarrow> bytes \<Rightarrow> buf \<Rightarrow> buf \<Rightarrow> bool" where
  "takes n d b b' \<longleftrightarrow> b_dev b' = 1 \<and> b_blockno b' = n \<and> b_valid b' \<and> b_refcnt b' = 1 \<and> b_data b' = d
     \<and> b_next b' = b_next b \<and> b_prev b' = b_prev b"

lemma cache_take:
  assumes c: "cache H X L s" and i: "i < NBUF" "H n = None" "H (b_blockno (bufs s i)) \<noteq> Some i"
    and b': "takes n (L n) (bufs s i) b'"
    and other: "\<And>j. j < NBUF \<Longrightarrow> b_dev (bufs s j) = 1 \<Longrightarrow> b_blockno (bufs s j) = n \<Longrightarrow> j = i"
  shows "cache (H(n \<mapsto> i)) X L (s\<lparr>bufs := (bufs s)(i := b'),
     slocks := (slocks s)(LBuf i := (slocks s (LBuf i))\<lparr>sl_locked := True, sl_pid := mypid s\<rparr>)\<rparr>)"
    (is "cache ?H X L ?t")
proof -
  have ih: "H m \<noteq> Some i" for m
    using cache_held [OF c, of m i] i(3) by (auto simp: held_ok_def)
  have "\<exists>xs. lru (bufs ?t) xs"
    using cache_lru [OF c] lru_same_links [of "bufs s" _ "bufs ?t"] b' by (fastforce simp: takes_def)
  moreover have "buf_ok ?H L (mypid ?t) j (bufs ?t j) (slocks ?t (LBuf j))" if "j < NBUF" for j
  proof (cases "j = i")
    case True
    with b' show ?thesis by (simp add: buf_ok_def takes_def)
  next
    case False
    then have "?H (b_blockno (bufs s j)) = Some j \<longleftrightarrow> H (b_blockno (bufs s j)) = Some j"
      using i(2) by auto
    with False cache_buf [OF c that] show ?thesis by (simp add: buf_ok_def)
  qed
  moreover have "j = k" if jk: "j < NBUF" "k < NBUF" "b_dev (bufs ?t j) = 1" "b_dev (bufs ?t k) = 1"
      "b_blockno (bufs ?t j) = b_blockno (bufs ?t k)" for j k
  proof -
    have new: "b_blockno b' = n" using b' by (simp add: takes_def)
    consider "j = i" "k = i" | "j = i" "k \<noteq> i" | "j \<noteq> i" "k = i" | "j \<noteq> i" "k \<noteq> i" by blast
    then show ?thesis
    proof cases
      case 2
      with jk new have "b_dev (bufs s k) = 1" "b_blockno (bufs s k) = n" by auto
      with other [OF jk(2)] 2 show ?thesis by simp
    next
      case 3
      with jk new have "b_dev (bufs s j) = 1" "b_blockno (bufs s j) = n" by auto
      with other [OF jk(1)] 3 show ?thesis by simp
    next
      case 4
      with jk have "b_dev (bufs s j) = 1" "b_dev (bufs s k) = 1"
        "b_blockno (bufs s j) = b_blockno (bufs s k)" by simp_all
      then show ?thesis by (rule cache_unique [OF c jk(1,2)])
    qed simp
  qed
  moreover have "held_ok (bufs ?t) m j" if "?H m = Some j" for m j
    using that cache_held [OF c, of m j] i(1) b' ih [of m]
    by (auto simp: held_ok_def takes_def split: if_splits)
  moreover have "disk ?t m = L m" if "m \<notin> X" for m using cache_disk [OF c that] by simp
  moreover have "X \<subseteq> dom ?H" using cache_dirty [OF c] by auto
  ultimately show ?thesis unfolding cache_def by blast
qed

lemma bread_finish:
  assumes "bget 1 n s = Ok (i, s\<lparr>bufs := (bufs s)(i := b0), slocks := S\<rparr>)"
    and "b_blockno b0 = n" and "b_dev b0 = 1" and "b_refcnt b0 = 1"
    and "b_next b0 = b_next b" and "b_prev b0 = b_prev b"
    and "b_valid b0 \<longrightarrow> b_data b0 = d" and "disk s n = d"
  shows "\<exists>b'. bread 1 n s = Ok (i, s\<lparr>bufs := (bufs s)(i := b'), slocks := S\<rparr>) \<and> takes n d b b'"
proof (cases "b_valid b0")
  case True
  with assms show ?thesis
    by (intro exI [of _ b0]) (simp add: bread_def bnd_apply get_buf_def whenK_def takes_def)
next
  case False
  with assms show ?thesis
    by (intro exI [of _ "b0\<lparr>b_data := d, b_valid := True\<rparr>"])
       (simp add: bread_def bnd_apply get_buf_def set_buf_def disk_transfer_def whenK_def takes_def)
qed

lemma bread_spec:
  assumes c: "cache H X L s" and k: "kctx s" and n: "H n = None" and room: "card (dom H) < NBUF"
  shows "\<exists>i B S. bread 1 n s = Ok (i, s\<lparr>bufs := B, slocks := S\<rparr>)
    \<and> cache (H(n \<mapsto> i)) X L (s\<lparr>bufs := B, slocks := S\<rparr>)
    \<and> (\<forall>l. (\<forall>j. l \<noteq> LBuf j) \<longrightarrow> S l = slocks s l)"
proof -
  obtain xs where xs: "lru (bufs s) xs" using cache_lru [OF c] by blast
  then have set: "set xs = {..<NBUF}" by (simp add: lru_def)
  let ?P = "\<lambda>i. b_dev (bufs s i) = 1 \<and> b_blockno (bufs s i) = n"
  let ?S = "\<lambda>i. (slocks s)(LBuf i := (slocks s (LBuf i))\<lparr>sl_locked := True, sl_pid := mypid s\<rparr>)"
  have n': "disk s n = L n" using n cache_dirty [OF c] by (intro cache_disk [OF c]) auto
  have idle: "\<not> sl_locked (slocks s (LBuf i))" "H (b_blockno (bufs s i)) \<noteq> Some i"
    if "i < NBUF" "b_refcnt (bufs s i) = 0" for i
    using cache_buf [OF c that(1)] that(2) by (auto simp: buf_ok_def split: if_splits)
  have "\<exists>i b'. i < NBUF \<and> bread 1 n s = Ok (i, s\<lparr>bufs := (bufs s)(i := b'), slocks := ?S i\<rparr>)
     \<and> takes n (L n) (bufs s i) b' \<and> H (b_blockno (bufs s i)) \<noteq> Some i
     \<and> (\<forall>j < NBUF. ?P j \<longrightarrow> j = i)"
  proof (cases "find ?P xs")
    case (Some i)
    then have i: "i < NBUF" "?P i" using find_SomeD set by fastforce+
    have free: "b_refcnt (bufs s i) = 0" using cache_buf [OF c i(1)] i(2) n by (simp add: buf_ok_def)
    have "b_valid (bufs s i) \<longrightarrow> b_data (bufs s i) = L n"
      using cache_buf [OF c i(1)] i(2) by (simp add: buf_ok_def)
    then obtain b' where "bread 1 n s = Ok (i, s\<lparr>bufs := (bufs s)(i := b'), slocks := ?S i\<rparr>)"
      and "takes n (L n) (bufs s i) b'"
      using bread_finish [OF bget_hit [OF k xs Some idle(1) [OF i(1) free]], of "bufs s i" "L n"]
        i(2) free n' by auto
    moreover have "\<forall>j < NBUF. ?P j \<longrightarrow> j = i" using cache_unique [OF c] i by metis
    ultimately show ?thesis using i(1) idle(2) [OF i(1) free] by blast
  next
    case None
    obtain j where "j < NBUF" "b_refcnt (bufs s j) = 0" using free_buffer [OF c room] by blast
    then have "find (\<lambda>i. b_refcnt (bufs s i) = 0) (rev xs) \<noteq> None"
      using set by (auto simp: find_None_iff)
    then obtain i where v: "find (\<lambda>i. b_refcnt (bufs s i) = 0) (rev xs) = Some i" by blast
    then have i: "i < NBUF" "b_refcnt (bufs s i) = 0" using find_SomeD [OF v] set by auto
    obtain b' where "bread 1 n s = Ok (i, s\<lparr>bufs := (bufs s)(i := b'), slocks := ?S i\<rparr>)"
      and "takes n (L n) (bufs s i) b'"
      using bread_finish [OF bget_miss [OF k xs None v idle(1) [OF i]], of "bufs s i" "L n"] n'
      by auto
    moreover have "\<forall>j < NBUF. \<not> ?P j" using None set by (auto simp: find_None_iff)
    ultimately show ?thesis using i(1) idle(2) [OF i] by blast
  qed
  then obtain i b' where r: "i < NBUF" "bread 1 n s = Ok (i, s\<lparr>bufs := (bufs s)(i := b'), slocks := ?S i\<rparr>)"
    "takes n (L n) (bufs s i) b'" "H (b_blockno (bufs s i)) \<noteq> Some i"
    and u: "\<forall>j < NBUF. ?P j \<longrightarrow> j = i" by blast
  have "cache (H(n \<mapsto> i)) X L (s\<lparr>bufs := (bufs s)(i := b'), slocks := ?S i\<rparr>)"
    by (rule cache_take [OF c r(1) n r(4,3)]) (use u in blast)
  moreover have "\<forall>l. (\<forall>j. l \<noteq> LBuf j) \<longrightarrow> ?S i l = slocks s l" by simp
  ultimately show ?thesis using r(2) by blast
qed

lemma cache_data: "cache H X L s \<Longrightarrow> H n = Some i \<Longrightarrow> b_data (bufs s i) = L n"
  using cache_buf [of H X L s i] cache_held [of H X L s n i] by (simp add: buf_ok_def held_ok_def)

lemma cache_put:
  assumes c: "cache H X L s" and n: "H n = Some i"
  shows "cache H (insert n X) (L(n := d)) (s\<lparr>bufs := (bufs s)(i := (bufs s i)\<lparr>b_data := d\<rparr>)\<rparr>)"
    (is "cache H ?X ?L ?t")
proof -
  have hi: "i < NBUF" "b_dev (bufs s i) = 1" "b_blockno (bufs s i) = n"
    using cache_held [OF c n] by (simp_all add: held_ok_def)
  obtain xs where "lru (bufs s) xs" using cache_lru [OF c] by blast
  then have "lru (bufs ?t) xs" by (rule lru_same_links) simp
  moreover have "buf_ok H ?L (mypid ?t) j (bufs ?t j) (slocks ?t (LBuf j))" if j: "j < NBUF" for j
  proof (cases "j = i")
    case True
    with cache_buf [OF c hi(1)] hi(3) show ?thesis by (simp add: buf_ok_def)
  next
    case False
    then have "b_dev (bufs s j) = 1 \<longrightarrow> b_blockno (bufs s j) \<noteq> n"
      using cache_unique [OF c j hi(1)] hi(2,3) by auto
    with False cache_buf [OF c j] show ?thesis by (auto simp: buf_ok_def)
  qed
  moreover have "b_dev (bufs ?t j) = b_dev (bufs s j) \<and> b_blockno (bufs ?t j) = b_blockno (bufs s j)" for j
    by simp
  then have "\<forall>j < NBUF. \<forall>k < NBUF. b_dev (bufs ?t j) = 1 \<longrightarrow> b_dev (bufs ?t k) = 1 \<longrightarrow>
      b_blockno (bufs ?t j) = b_blockno (bufs ?t k) \<longrightarrow> j = k"
    using cache_unique [OF c] by metis
  moreover have "held_ok (bufs ?t) m j" if "H m = Some j" for m j
    using cache_held [OF c that] by (auto simp: held_ok_def)
  moreover have "\<forall>m. m \<notin> ?X \<longrightarrow> disk ?t m = ?L m" using cache_disk [OF c] by simp
  moreover have "?X \<subseteq> dom H" using cache_dirty [OF c] n by auto
  ultimately show ?thesis unfolding cache_def by blast
qed

lemma bwrite_spec:
  assumes c: "cache H X L s" and k: "kctx s" and n: "H n = Some i"
  shows "bwrite i s = Ok ((), s\<lparr>disk := (disk s)(n := L n)\<rparr>)"
    and "cache H (X - {n}) L (s\<lparr>disk := (disk s)(n := L n)\<rparr>)"
proof -
  have hi: "i < NBUF" "b_blockno (bufs s i) = n" using cache_held [OF c n] by (simp_all add: held_ok_def)
  with cache_buf [OF c hi(1)] n
  have "sl_locked (slocks s (LBuf i))" "sl_pid (slocks s (LBuf i)) = mypid s" by (simp_all add: buf_ok_def)
  with k hi cache_data [OF c n] show "bwrite i s = Ok ((), s\<lparr>disk := (disk s)(n := L n)\<rparr>)"
    by (simp add: bwrite_def bnd_apply holdingsleep_eq disk_transfer_def get_buf_def)
  show "cache H (X - {n}) L (s\<lparr>disk := (disk s)(n := L n)\<rparr>)"
    using c by (auto simp: cache_def)
qed

lemma cache_give:
  assumes c: "cache H X L s" and n: "H n = Some i" and clean: "n \<notin> X"
    and B: "lru B xs" "\<And>j. b_dev (B j) = b_dev (bufs s j)" "\<And>j. b_blockno (B j) = b_blockno (bufs s j)"
      "\<And>j. b_valid (B j) = b_valid (bufs s j)" "\<And>j. b_data (B j) = b_data (bufs s j)"
      "\<And>j. b_refcnt (B j) = (if j = i then 0 else b_refcnt (bufs s j))"
  shows "cache (H(n := None)) X L (s\<lparr>bufs := B,
     slocks := (slocks s)(LBuf i := (slocks s (LBuf i))\<lparr>sl_locked := False, sl_pid := 0\<rparr>)\<rparr>)"
    (is "cache ?H X L ?t")
proof -
  have hi: "i < NBUF" "b_blockno (bufs s i) = n" using cache_held [OF c n] by (simp_all add: held_ok_def)
  have "buf_ok ?H L (mypid ?t) j (bufs ?t j) (slocks ?t (LBuf j))" if j: "j < NBUF" for j
  proof (cases "j = i")
    case True
    with cache_buf [OF c hi(1)] hi(2) B(2-6) show ?thesis by (simp add: buf_ok_def)
  next
    case False
    then have "?H (b_blockno (bufs s j)) = Some j \<longleftrightarrow> H (b_blockno (bufs s j)) = Some j"
      using n by auto
    with False cache_buf [OF c j] B(2-6) show ?thesis by (simp add: buf_ok_def)
  qed
  moreover have "\<forall>j < NBUF. \<forall>k < NBUF. b_dev (bufs ?t j) = 1 \<longrightarrow> b_dev (bufs ?t k) = 1 \<longrightarrow>
      b_blockno (bufs ?t j) = b_blockno (bufs ?t k) \<longrightarrow> j = k"
    using cache_unique [OF c] B(2,3) by simp
  moreover have "held_ok (bufs ?t) m j" if "?H m = Some j" for m j
    using that cache_held [OF c, of m j] B(2-4) by (auto simp: held_ok_def split: if_splits)
  moreover have "\<forall>m. m \<notin> X \<longrightarrow> disk ?t m = L m" using cache_disk [OF c] by simp
  moreover have "X \<subseteq> dom ?H" using cache_dirty [OF c] clean by auto
  ultimately show ?thesis using B(1) unfolding cache_def by auto
qed

text \<open>The last release of a buffer makes it the most recently used one.\<close>

lemma brelse_front:
  assumes k: "kctx s" "quiet s" and xs: "lru (bufs s) xs" and i: "i < NBUF" "b_refcnt (bufs s i) = 1"
    and held: "sl_locked (slocks s (LBuf i))" "sl_pid (slocks s (LBuf i)) = mypid s"
  shows "brelse i s = Ok ((), s\<lparr>bufs := link_front i (unlink_buf i ((bufs s)(i := (bufs s i)\<lparr>b_refcnt := 0\<rparr>))),
      slocks := (slocks s)(LBuf i := (slocks s (LBuf i))\<lparr>sl_locked := False, sl_pid := 0\<rparr>)\<rparr>)"
    and "lru (link_front i (unlink_buf i ((bufs s)(i := (bufs s i)\<lparr>b_refcnt := 0\<rparr>)))) (i # remove1 i xs)"
proof -
  let ?S = "(slocks s)(LBuf i := (slocks s (LBuf i))\<lparr>sl_locked := False, sl_pid := 0\<rparr>)"
  let ?t = "s\<lparr>slocks := ?S, bufs := (bufs s)(i := (bufs s i)\<lparr>b_refcnt := 0\<rparr>)\<rparr>"
  have "lru (bufs (acq LBcache ?t)) xs" by simp (rule lru_same_links [OF xs], simp)
  note fr = lru_to_front [OF this i(1)]
  let ?B = "link_front i (unlink_buf i ((bufs s)(i := (bufs s i)\<lparr>b_refcnt := 0\<rparr>)))"
  show "brelse i s = Ok ((), s\<lparr>bufs := ?B, slocks := ?S\<rparr>)"
    using k held i fr(1)
    by (simp add: brelse_def bnd_apply holdingsleep_eq releasesleep_eq acquire_eq release_acq
        set_buf_def get_buf_def whenK_def)
  show "lru ?B (i # remove1 i xs)" using fr(2) by simp
qed

lemma brelse_spec:
  assumes c: "cache H X L s" and k: "kctx s" "quiet s" and n: "H n = Some i" and clean: "n \<notin> X"
  shows "\<exists>B S. brelse i s = Ok ((), s\<lparr>bufs := B, slocks := S\<rparr>)
    \<and> cache (H(n := None)) X L (s\<lparr>bufs := B, slocks := S\<rparr>)
    \<and> (\<forall>l. (\<forall>j. l \<noteq> LBuf j) \<longrightarrow> S l = slocks s l)"
proof -
  have hi: "i < NBUF" "b_blockno (bufs s i) = n" using cache_held [OF c n] by (simp_all add: held_ok_def)
  have held: "b_refcnt (bufs s i) = 1" "sl_locked (slocks s (LBuf i))" "sl_pid (slocks s (LBuf i)) = mypid s"
    using cache_buf [OF c hi(1)] hi(2) n by (simp_all add: buf_ok_def)
  obtain xs where xs: "lru (bufs s) xs" using cache_lru [OF c] by blast
  note fr = brelse_front [OF k xs hi(1) held]
  let ?S = "(slocks s)(LBuf i := (slocks s (LBuf i))\<lparr>sl_locked := False, sl_pid := 0\<rparr>)"
  let ?B = "link_front i (unlink_buf i ((bufs s)(i := (bufs s i)\<lparr>b_refcnt := 0\<rparr>)))"
  have "cache (H(n := None)) X L (s\<lparr>bufs := ?B, slocks := ?S\<rparr>)"
    using fr(2) by (intro cache_give [OF c n clean]) simp_all
  moreover have "\<forall>l. (\<forall>j. l \<noteq> LBuf j) \<longrightarrow> ?S l = slocks s l" by simp
  ultimately show ?thesis using fr(1) by blast
qed

section \<open>Starting up\<close>

lemma binit_one_eq:
  assumes "i < NBUF" and "b_next (bufs s NBUF) \<noteq> i"
  shows "binit_one i s = Ok ((), s\<lparr>bufs := link_front i (bufs s),
     locks := (locks s)(LBuf i := \<lparr>locked = False, lname = ''sleep lock'', lcpu = None\<rparr>),
     slocks := (slocks s)(LBuf i := (slocks s (LBuf i))\<lparr>sl_name := ''buffer'', sl_locked := False, sl_pid := 0\<rparr>)\<rparr>)"
  using assms
  by (simp add: binit_one_def bnd_apply get_buf_def set_buf_def initsleeplock_def initlock_def
      set_sl_def link_front_def Let_def)

definition blank :: "buf \<Rightarrow> bool" where
  "blank b \<longleftrightarrow> b_dev b = 0 \<and> b_refcnt b = 0"

lemma binit_loop:
  assumes "linked (bufs s) [NBUF, NBUF]" and "\<And>i. blank (bufs s i)" and "k \<le> NBUF"
  shows "\<exists>t. forK binit_one [0..<k] s = Ok ((), t) \<and> linked (bufs t) (NBUF # rev [0..<k] @ [NBUF])
    \<and> (\<forall>i. blank (bufs t i)) \<and> (\<forall>i < k. \<not> sl_locked (slocks t (LBuf i)) \<and> sl_pid (slocks t (LBuf i)) = 0)
    \<and> disk t = disk s"
  using assms(3)
proof (induction k)
  case 0
  show ?case using assms(1,2) by simp
next
  case (Suc k)
  then obtain t where t: "forK binit_one [0..<k] s = Ok ((), t)"
      "linked (bufs t) (NBUF # rev [0..<k] @ [NBUF])" "\<And>i. blank (bufs t i)"
      "\<forall>i < k. \<not> sl_locked (slocks t (LBuf i)) \<and> sl_pid (slocks t (LBuf i)) = 0" "disk t = disk s"
    by auto
  have "b_next (bufs t NBUF) \<in> set (rev [0..<k] @ [NBUF])"
    using t(2) by (cases "rev [0..<k] @ [NBUF]") auto
  then have "b_next (bufs t NBUF) \<noteq> k" using Suc.prems by auto
  then have step: "binit_one k t = Ok ((), t\<lparr>bufs := link_front k (bufs t),
     locks := (locks t)(LBuf k := \<lparr>locked = False, lname = ''sleep lock'', lcpu = None\<rparr>),
     slocks := (slocks t)(LBuf k := (slocks t (LBuf k))\<lparr>sl_name := ''buffer'', sl_locked := False, sl_pid := 0\<rparr>)\<rparr>)"
    using Suc.prems by (intro binit_one_eq) auto
  have "linked (link_front k (bufs t)) (NBUF # k # rev [0..<k] @ [NBUF])"
    using Suc.prems by (intro linked_front t(2)) auto
  with t step show ?case
    by (auto simp: forK_append bnd_apply blank_def less_Suc_eq)
qed

lemma binit_spec:
  assumes "\<And>i. blank (bufs s i)"
  shows "\<exists>t. binit s = Ok ((), t) \<and> cache (\<lambda>_. None) {} (disk s) t \<and> lru (bufs t) (rev [0..<NBUF])"
proof -
  let ?u = "s\<lparr>locks := (locks s)(LBcache := \<lparr>locked = False, lname = ''bcache'', lcpu = None\<rparr>),
    bufs := (bufs s)(NBUF := (bufs s NBUF)\<lparr>b_prev := NBUF, b_next := NBUF\<rparr>)\<rparr>"
  have "linked (bufs ?u) [NBUF, NBUF]" and "\<And>i. blank (bufs ?u i)"
    using assms by (auto simp: blank_def)
  then obtain t where t: "forK binit_one [0..<NBUF] ?u = Ok ((), t)"
      "linked (bufs t) (NBUF # rev [0..<NBUF] @ [NBUF])" "\<forall>i. blank (bufs t i)"
      "\<forall>i < NBUF. \<not> sl_locked (slocks t (LBuf i)) \<and> sl_pid (slocks t (LBuf i)) = 0" "disk t = disk s"
    using binit_loop [of ?u NBUF] by auto
  have "binit s = Ok ((), t)" using t(1) by (simp add: binit_def bnd_apply initlock_def set_buf_def)
  moreover have l: "lru (bufs t) (rev [0..<NBUF])" using t(2) by (auto simp: lru_def)
  moreover have "cache (\<lambda>_. None) {} (disk s) t"
    using t(3-5) l by (auto simp: cache_def buf_ok_def blank_def)
  ultimately show ?thesis by blast
qed

section \<open>The contract of the block store\<close>

text \<open>
  \<open>view H X L s\<close>: blocks \<open>H\<close> are held, in the handles given, the contents are \<open>L\<close>, and the
  changes to the held blocks \<open>X\<close> are not written yet. The rules of the client come in a form
  that executes the first call of a sequence.
\<close>

locale block_store =
  fixes view :: "(u32 \<Rightarrow> nat option) \<Rightarrow> u32 set \<Rightarrow> (u32 \<Rightarrow> bytes) \<Rightarrow> 's \<Rightarrow> bool"
    and getb :: "u32 \<Rightarrow> ('s, nat) K"
    and putb :: "nat \<Rightarrow> ('s, unit) K"
    and relb :: "nat \<Rightarrow> ('s, unit) K"
    and content :: "'s \<Rightarrow> nat \<Rightarrow> bytes"
    and store :: "nat \<Rightarrow> (bytes \<Rightarrow> bytes) \<Rightarrow> ('s, unit) K"
  assumes get_ok: "view H X L s \<Longrightarrow> H n = None \<Longrightarrow> card (dom H) < NBUF \<Longrightarrow>
      \<exists>i s'. getb n s = Ok (i, s') \<and> view (H(n \<mapsto> i)) X L s'"
    and content_ok: "view H X L s \<Longrightarrow> H n = Some i \<Longrightarrow> content s i = L n"
    and store_ok: "view H X L s \<Longrightarrow> H n = Some i \<Longrightarrow>
      \<exists>s'. store i f s = Ok ((), s') \<and> view H (insert n X) (L(n := f (L n))) s'"
    and put_ok: "view H X L s \<Longrightarrow> H n = Some i \<Longrightarrow>
      \<exists>s'. putb i s = Ok ((), s') \<and> view H (X - {n}) L s'"
    and rel_ok: "view H X L s \<Longrightarrow> H n = Some i \<Longrightarrow> n \<notin> X \<Longrightarrow>
      \<exists>s'. relb i s = Ok ((), s') \<and> view (H(n := None)) X L s'"
    and held_finite: "view H X L s \<Longrightarrow> finite (dom H)"
begin

lemma get_rule:
  assumes "view H X L s" and "H n = None" and "card (dom H) < NBUF"
    and "\<And>i s'. view (H(n \<mapsto> i)) X L s' \<Longrightarrow> runs (f i s') Q"
  shows "runs (bnd (getb n) f s) Q"
  using get_ok [OF assms(1-3)] assms(4) by (auto simp: bnd_Ok)

lemma store_rule:
  assumes "view H X L s" and "H n = Some i"
    and "\<And>s'. view H (insert n X) (L(n := g (L n))) s' \<Longrightarrow> runs (f () s') Q"
  shows "runs (bnd (store i g) f s) Q"
  using store_ok [OF assms(1,2), of g] assms(3) by (auto simp: bnd_Ok)

lemma put_rule:
  assumes "view H X L s" and "H n = Some i" and "\<And>s'. view H (X - {n}) L s' \<Longrightarrow> runs (f () s') Q"
  shows "runs (bnd (putb i) f s) Q"
  using put_ok [OF assms(1,2)] assms(3) by (auto simp: bnd_Ok)

lemma rel_rule:
  assumes "view H X L s" and "H n = Some i" and "n \<notin> X"
    and "\<And>s'. view (H(n := None)) X L s' \<Longrightarrow> runs (f () s') Q"
  shows "runs (bnd (relb i) f s) Q"
  using rel_ok [OF assms(1-3)] assms(4) by (auto simp: bnd_Ok)

lemma rel_last:
  assumes "view H X L s" and "H n = Some i" and "n \<notin> X"
    and "\<And>s'. view (H(n := None)) X L s' \<Longrightarrow> Q () s'"
  shows "runs (relb i s) Q"
  using rel_ok [OF assms(1-3)] assms(4) by (auto simp: runs_def)

lemma content_rule:
  assumes "view H X L s" and "H n = Some i" and "runs (f (g (L n)) s) Q"
  shows "runs (bnd (gets (\<lambda>s. g (content s i))) f s) Q"
  using assms(3) content_ok [OF assms(1,2)] by simp

text \<open>A block that was taken and is given back.\<close>

lemma given_back: "H n = None \<Longrightarrow> H(n := None) = H"
  by (simp add: fun_upd_idem)

text \<open>Read-modify-write of one block, and a look at one.\<close>

definition modify_block :: "u32 \<Rightarrow> (bytes \<Rightarrow> bytes) \<Rightarrow> ('s, unit) K" where
  "modify_block n g =
     bnd (getb n) (\<lambda>i. bnd (store i g) (\<lambda>_. bnd (putb i) (\<lambda>_. relb i)))"

definition peek_block :: "u32 \<Rightarrow> (bytes \<Rightarrow> 'b) \<Rightarrow> ('s, 'b) K" where
  "peek_block n g =
     bnd (getb n) (\<lambda>i. bnd (gets (\<lambda>s. g (content s i))) (\<lambda>x. bnd (relb i) (\<lambda>_. ret x)))"

lemma modify_block_ok:
  assumes "view H X L s" and "H n = None" and "card (dom H) < NBUF" and "n \<notin> X"
  shows "runs (modify_block n g s) (\<lambda>_. view H X (L(n := g (L n))))"
  unfolding modify_block_def
  apply (rule get_rule [OF assms(1-3)])
  apply (rule store_rule [where n = n], assumption, simp)
  apply (rule put_rule [where n = n], assumption, simp)
  apply (rule rel_last [where n = n], assumption)
  using assms by (simp_all add: given_back)

lemma peek_block_ok:
  assumes "view H X L s" and "H n = None" and "card (dom H) < NBUF" and "n \<notin> X"
  shows "runs (peek_block n g s) (\<lambda>x s'. x = g (L n) \<and> view H X L s')"
  unfolding peek_block_def
  apply (rule get_rule [OF assms(1-3)])
  apply (rule content_rule [where n = n], assumption, simp)
  apply (rule rel_rule [where n = n], assumption)
  using assms by (simp_all add: given_back)

text \<open>What was written last is what is read, through any updates of other blocks.\<close>

lemma modify_then_peek:
  assumes "view H X L s" and "H n = None" and "card (dom H) < NBUF" and "n \<notin> X"
    and "H m = None" and "m \<notin> X"
  shows "runs (bnd (modify_block n g) (\<lambda>_. peek_block m (\<lambda>d. d)) s)
    (\<lambda>d s'. d = (if m = n then g (L n) else L m) \<and> view H X (L(n := g (L n))) s')"
  apply (rule runs_bndI)
   apply (rule modify_block_ok [OF assms(1-4)])
  apply (rule runs_mono)
   apply (erule peek_block_ok [OF _ assms(5,3,6)])
  by auto

end

text \<open>
  The buffer cache provides it. \<open>rest s0 s\<close>: the states differ in the cache and the disk
  only.
\<close>

definition upd_data :: "nat \<Rightarrow> (bytes \<Rightarrow> bytes) \<Rightarrow> ('a bio_st_scheme, unit) K" where
  "upd_data i f = set_buf i (\<lambda>b. b\<lparr>b_data := f (b_data b)\<rparr>)"

definition rest :: "'a bio_st_scheme \<Rightarrow> 'a bio_st_scheme \<Rightarrow> bool" where
  "rest s0 s \<longleftrightarrow> (\<exists>B S D. s = s0\<lparr>bufs := B, slocks := S, disk := D\<rparr>
     \<and> (\<forall>l. (\<forall>j. l \<noteq> LBuf j) \<longrightarrow> S l = slocks s0 l))"

definition bview :: "'a bio_st_scheme \<Rightarrow> (u32 \<Rightarrow> nat option) \<Rightarrow> u32 set \<Rightarrow> (u32 \<Rightarrow> bytes) \<Rightarrow>
    'a bio_st_scheme \<Rightarrow> bool" where
  "bview s0 H X L s \<longleftrightarrow> kctx s0 \<and> quiet s0 \<and> rest s0 s \<and> cache H X L s"

lemma restE:
  assumes "rest s0 s"
  obtains B S D where "s = s0\<lparr>bufs := B, slocks := S, disk := D\<rparr>"
    and "\<And>l. (\<And>j. l \<noteq> LBuf j) \<Longrightarrow> S l = slocks s0 l"
  using assms unfolding rest_def by blast

lemma rest_eq: "rest s0 s \<Longrightarrow> s = s0\<lparr>bufs := bufs s, slocks := slocks s, disk := disk s\<rparr>"
  by (erule restE) simp

lemma rest_slocks: "rest s0 s \<Longrightarrow> (\<And>j. l \<noteq> LBuf j) \<Longrightarrow> slocks s l = slocks s0 l"
  by (erule restE) simp

lemma restI:
  assumes "t = t0\<lparr>bufs := B, slocks := S, disk := D\<rparr>" and "\<And>l. (\<And>j. l \<noteq> LBuf j) \<Longrightarrow> S l = slocks t0 l"
  shows "rest t0 t"
  unfolding rest_def using assms by blast

lemma rest_refl [simp]: "rest s s"
  by (rule restI [where B = "bufs s" and S = "slocks s" and D = "disk s"]) simp_all

lemma rest_cache:
  assumes "rest s0 s" and "\<And>l. (\<And>j. l \<noteq> LBuf j) \<Longrightarrow> S l = slocks s l"
  shows "rest s0 (s\<lparr>bufs := B, slocks := S\<rparr>)"
  using assms(1)
proof (rule restE)
  fix B' S' D
  assume s: "s = s0\<lparr>bufs := B', slocks := S', disk := D\<rparr>" and "\<And>l. (\<And>j. l \<noteq> LBuf j) \<Longrightarrow> S' l = slocks s0 l"
  with assms(2) have "\<forall>l. (\<forall>j. l \<noteq> LBuf j) \<longrightarrow> S l = slocks s0 l" by simp
  moreover have "s\<lparr>bufs := B, slocks := S\<rparr> = s0\<lparr>bufs := B, slocks := S, disk := D\<rparr>" using s by simp
  ultimately show ?thesis unfolding rest_def by blast
qed

lemma rest_bufs: "rest s0 s \<Longrightarrow> rest s0 (s\<lparr>bufs := B\<rparr>)"
  using rest_cache [of s0 s "slocks s" B] by simp

lemma rest_disk:
  assumes "rest s0 s"
  shows "rest s0 (s\<lparr>disk := D\<rparr>)"
  using assms
proof (rule restE)
  fix B S D'
  assume s: "s = s0\<lparr>bufs := B, slocks := S, disk := D'\<rparr>" and "\<And>l. (\<And>j. l \<noteq> LBuf j) \<Longrightarrow> S l = slocks s0 l"
  then have "s\<lparr>disk := D\<rparr> = s0\<lparr>bufs := B, slocks := S, disk := D\<rparr>" and "\<forall>l. (\<forall>j. l \<noteq> LBuf j) \<longrightarrow> S l = slocks s0 l"
    by simp_all
  then show ?thesis unfolding rest_def by blast
qed

lemma rest_kctx: "rest s0 s \<Longrightarrow> kctx s = kctx s0 \<and> quiet s = quiet s0"
  unfolding rest_def by auto

interpretation bs: block_store "bview s0" "bread 1" bwrite brelse "\<lambda>s i. b_data (bufs s i)" upd_data
  for s0 :: "'a bio_st_scheme"
proof unfold_locales
  fix H X L n i f and s :: "'a bio_st_scheme"
  assume v: "bview s0 H X L s"
  then have k: "kctx s" "quiet s" and r: "rest s0 s" and c: "cache H X L s"
    and k0: "kctx s0" "quiet s0"
    using rest_kctx [of s0 s] by (auto simp: bview_def)
  show "\<exists>i s'. bread 1 n s = Ok (i, s') \<and> bview s0 (H(n \<mapsto> i)) X L s'"
    if "H n = None" "card (dom H) < NBUF"
    using bread_spec [OF c k(1) that] rest_cache [OF r] k0 unfolding bview_def by metis
  show "b_data (bufs s i) = L n" if "H n = Some i" by (rule cache_data [OF c that])
  show "\<exists>s'. upd_data i f s = Ok ((), s') \<and> bview s0 H (insert n X) (L(n := f (L n))) s'"
    if "H n = Some i"
    using cache_put [OF c that, of "f (L n)"] cache_data [OF c that] rest_bufs [OF r] k0
    by (simp add: upd_data_def set_buf_def bview_def)
  show "\<exists>s'. bwrite i s = Ok ((), s') \<and> bview s0 H (X - {n}) L s'" if "H n = Some i"
    using bwrite_spec [OF c k(1) that] rest_disk [OF r] k0 unfolding bview_def by metis
  show "\<exists>s'. brelse i s = Ok ((), s') \<and> bview s0 (H(n := None)) X L s'" if "H n = Some i" "n \<notin> X"
    using brelse_spec [OF c k that] rest_cache [OF r] k0 unfolding bview_def by metis
  show "finite (dom H)" by (rule held_card(1) [OF c])
qed

end
