(* ===== verification/Xv6fs.thy ===== *)
theory Xv6fs
  imports Bio
begin

text \<open>
  The lower half of \<open>kernel/fs/xv6fs/fs.c\<close>: super block, block allocator, the inode on disk
  and in memory, and reading and writing the contents of a file. A pointer to a
  \<open>struct inode\<close> is an index into \<open>itable\<close>; \<open>ip->private\<close> is the address of the page that
  holds the \<open>struct xv6fs_inode\<close>, kept as an object of the store \<open>privs\<close>, and a dangling or
  null address is a fault. \<open>dev\<close> is the device number the source passes on.
\<close>

section \<open>State\<close>

record xv6fs_super_block =
  sb_magic :: u32
  sb_size :: u32
  sb_nblocks :: u32
  sb_ninodes :: u32
  sb_nlog :: u32
  sb_logstart :: u32
  sb_inodestart :: u32
  sb_bmapstart :: u32

text \<open>The tables of operations a pointer of type \<open>struct filesystem_operations *\<close> can point to.\<close>

datatype fsops = Xv6fs_op

record inode =
  i_op :: "fsops option"
  i_sb :: bool
  i_inum :: u32
  i_ref :: int
  i_type :: u16
  i_dev :: u32
  i_size :: u32
  i_nlink :: u16
  i_private :: u64

record xv6fs_inode =
  x_dev :: u32
  x_valid :: bool
  x_major :: u16
  x_minor :: u16
  x_addrs :: "nat \<Rightarrow> u32"

datatype ftype = FD_NONE | FD_PIPE | FD_INODE | FD_DEVICE

record vfile =
  f_type :: ftype
  f_op :: "fsops option"
  f_ref :: int
  f_off :: u32
  f_readable :: bool
  f_writable :: bool
  f_inode :: "nat option"

record super_block =
  vs_page :: u64
  vs_op :: "fsops option"
  vs_root :: "nat option"

record fs_st = bio_st +
  sb :: xv6fs_super_block
  itable :: "nat \<Rightarrow> inode"
  privs :: "u64 \<Rightarrow> xv6fs_inode option"
  ftable :: "nat \<Rightarrow> vfile"
  root :: "super_block option"

definition FSMAGIC :: u32 where "FSMAGIC = 0x10203040"
definition NDIRECT :: nat where "NDIRECT = 12"
definition NINDIRECT :: nat where "NINDIRECT = 256"
definition MAXFILE :: nat where "MAXFILE = NDIRECT + NINDIRECT"
definition IPB :: nat where "IPB = 16"
definition BPB :: nat where "BPB = 8192"
definition T_DIR :: u16 where "T_DIR = 1"
definition T_FILE :: u16 where "T_FILE = 2"
definition T_DEVICE :: u16 where "T_DEVICE = 3"

definition IBLOCK :: "u32 \<Rightarrow> xv6fs_super_block \<Rightarrow> u32" where
  "IBLOCK i x = i div 16 + sb_inodestart x"

definition BBLOCK :: "u32 \<Rightarrow> xv6fs_super_block \<Rightarrow> u32" where
  "BBLOCK b x = b div 8192 + sb_bmapstart x"

definition get_inode :: "nat \<Rightarrow> ('a fs_st_scheme, inode) K" where
  "get_inode i = gets (\<lambda>s. itable s i)"

definition set_inode :: "nat \<Rightarrow> (inode \<Rightarrow> inode) \<Rightarrow> ('a fs_st_scheme, unit) K" where
  "set_inode i f = modify (\<lambda>s. s\<lparr>itable := (itable s)(i := f (itable s i))\<rparr>)"

definition get_priv :: "u64 \<Rightarrow> ('a fs_st_scheme, xv6fs_inode) K" where
  "get_priv p = bnd (gets (\<lambda>s. privs s p)) (\<lambda>x. case x of None \<Rightarrow> fault | Some y \<Rightarrow> ret y)"

definition set_priv :: "u64 \<Rightarrow> xv6fs_inode \<Rightarrow> ('a fs_st_scheme, unit) K" where
  "set_priv p x = modify (\<lambda>s. s\<lparr>privs := (privs s)(p \<mapsto> x)\<rparr>)"

definition buf_data :: "nat \<Rightarrow> ('a fs_st_scheme, bytes) K" where
  "buf_data bp = gets (\<lambda>s. b_data (bufs s bp))"

section \<open>The inode on disk\<close>

text \<open>The offset of inode \<open>inum\<close> in its block, and the fields of \<open>struct dinode\<close>.\<close>

definition di_off :: "u32 \<Rightarrow> nat" where
  "di_off inum = 64 * (unat inum mod IPB)"

record dinode =
  di_type :: u16
  di_major :: u16
  di_minor :: u16
  di_nlink :: u16
  di_size :: u32
  di_addrs :: "nat \<Rightarrow> u32"

definition ld_dinode :: "bytes \<Rightarrow> nat \<Rightarrow> dinode" where
  "ld_dinode d a = \<lparr>di_type = ld16 d a, di_major = ld16 d (a + 2), di_minor = ld16 d (a + 4),
     di_nlink = ld16 d (a + 6), di_size = ld32 d (a + 8),
     di_addrs = (\<lambda>k. if k \<le> NDIRECT then ld32 d (a + 12 + 4 * k) else 0)\<rparr>"

primrec st_addrs :: "bytes \<Rightarrow> nat \<Rightarrow> (nat \<Rightarrow> u32) \<Rightarrow> nat \<Rightarrow> bytes" where
  "st_addrs d a f 0 = d"
| "st_addrs d a f (Suc k) = st32 (st_addrs d a f k) (a + 4 * k) (f k)"

definition st_dinode :: "bytes \<Rightarrow> nat \<Rightarrow> dinode \<Rightarrow> bytes" where
  "st_dinode d a x =
     st_addrs (st32 (st16 (st16 (st16 (st16 d a (di_type x)) (a + 2) (di_major x)) (a + 4) (di_minor x))
       (a + 6) (di_nlink x)) (a + 8) (di_size x)) (a + 12) (di_addrs x) (Suc NDIRECT)"

section \<open>Operations\<close>

definition ld_sb :: "bytes \<Rightarrow> xv6fs_super_block" where
  "ld_sb d = \<lparr>sb_magic = ld32 d 0, sb_size = ld32 d 4, sb_nblocks = ld32 d 8, sb_ninodes = ld32 d 12,
     sb_nlog = ld32 d 16, sb_logstart = ld32 d 20, sb_inodestart = ld32 d 24, sb_bmapstart = ld32 d 28\<rparr>"

definition readsb :: "u32 \<Rightarrow> ('a fs_st_scheme, unit) K" where
  "readsb dev =
     bnd (bread dev 1) (\<lambda>bp.
     bnd (buf_data bp) (\<lambda>d.
     bnd (modify (\<lambda>s. s\<lparr>sb := ld_sb d\<rparr>)) (\<lambda>_.
     brelse bp)))"

definition readblock :: "nat \<Rightarrow> ('a fs_st_scheme, unit) K" where
  "readblock ip =
     bnd (get_inode ip) (\<lambda>i.
     if i_private i \<noteq> 0 then ret ()
     else bnd kalloc (\<lambda>ipp.
       bnd (gets sb) (\<lambda>x.
       bnd (bread (i_dev i) (IBLOCK (i_inum i) x)) (\<lambda>bp.
       bnd (buf_data bp) (\<lambda>d.
       let di = ld_dinode d (di_off (i_inum i)) in
       bnd (set_inode ip (\<lambda>i. i\<lparr>i_type := di_type di\<rparr>)) (\<lambda>_.
       if ipp = 0 then fault
       else bnd (set_inode ip (\<lambda>i. i\<lparr>i_nlink := di_nlink di, i_size := di_size di\<rparr>)) (\<lambda>_.
         bnd (set_priv ipp \<lparr>x_dev = 1, x_valid = True, x_major = di_major di, x_minor = di_minor di,
            x_addrs = di_addrs di\<rparr>) (\<lambda>_.
         bnd (brelse bp) (\<lambda>_.
         if di_type di = 0 then panic ''ilock: no type''
         else set_inode ip (\<lambda>i. i\<lparr>i_private := ipp\<rparr>))))))))))"

definition xv6fs_fsinit :: "('a fs_st_scheme, unit) K" where
  "xv6fs_fsinit =
     bnd (readsb 1) (\<lambda>_.
     bnd (gets sb) (\<lambda>x.
     if sb_magic x \<noteq> FSMAGIC then panic ''invalid file system'' else ret ()))"

definition bzero :: "u32 \<Rightarrow> u32 \<Rightarrow> ('a fs_st_scheme, unit) K" where
  "bzero dev bno =
     bnd (bread dev bno) (\<lambda>bp.
     bnd (upd_data bp (\<lambda>d. memset d 0 0 BSIZE)) (\<lambda>_.
     bnd (bwrite bp) (\<lambda>_.
     brelse bp)))"

text \<open>The two loops of \<open>balloc\<close>: over the bits of a bitmap block, over the bitmap blocks.\<close>

definition bmask :: "nat \<Rightarrow> u8" where
  "bmask bi = push_bit (bi mod 8) 1"

definition balloc_bit :: "u32 \<Rightarrow> nat \<Rightarrow> nat \<Rightarrow> nat \<Rightarrow> ('a fs_st_scheme, u32 option) K" where
  "balloc_bit dev b bp bi =
     bnd (buf_data bp) (\<lambda>d.
     if d (bi div 8) AND bmask bi = 0
     then bnd (upd_data bp (\<lambda>d. d(bi div 8 := d (bi div 8) OR bmask bi))) (\<lambda>_.
       bnd (bwrite bp) (\<lambda>_.
       bnd (brelse bp) (\<lambda>_.
       bnd (bzero dev (of_nat (b + bi))) (\<lambda>_.
       ret (Some (of_nat (b + bi)))))))
     else ret None)"

definition balloc_blk :: "u32 \<Rightarrow> nat \<Rightarrow> ('a fs_st_scheme, u32 option) K" where
  "balloc_blk dev k =
     bnd (gets sb) (\<lambda>x.
     let b = k * BPB in
     bnd (bread dev (BBLOCK (of_nat b) x)) (\<lambda>bp.
     bnd (untilK (balloc_bit dev b bp) [0..<min BPB (unat (sb_size x) - b)]) (\<lambda>r.
     case r of
       Some a \<Rightarrow> ret (Some a)
     | None \<Rightarrow> bnd (brelse bp) (\<lambda>_. ret None))))"

definition balloc :: "u32 \<Rightarrow> ('a fs_st_scheme, u32) K" where
  "balloc dev =
     bnd (gets sb) (\<lambda>x.
     bnd (untilK (balloc_blk dev) [0..<(unat (sb_size x) + (BPB - 1)) div BPB]) (\<lambda>r.
     case r of Some a \<Rightarrow> ret a | None \<Rightarrow> ret 0))"

definition bfree :: "u32 \<Rightarrow> u32 \<Rightarrow> ('a fs_st_scheme, unit) K" where
  "bfree dev b =
     bnd (gets sb) (\<lambda>x.
     bnd (bread dev (BBLOCK b x)) (\<lambda>bp.
     bnd (buf_data bp) (\<lambda>d.
     let bi = unat b mod BPB in
     if d (bi div 8) AND bmask bi = 0 then panic ''freeing free block''
     else bnd (upd_data bp (\<lambda>d. d(bi div 8 := d (bi div 8) AND NOT (bmask bi)))) (\<lambda>_.
       bnd (bwrite bp) (\<lambda>_.
       brelse bp)))))"

definition xv6fs_iupdate :: "nat \<Rightarrow> ('a fs_st_scheme, unit) K" where
  "xv6fs_iupdate ip =
     bnd (get_inode ip) (\<lambda>i.
     bnd (gets sb) (\<lambda>x.
     bnd (bread (i_dev i) (IBLOCK (i_inum i) x)) (\<lambda>bp.
     bnd (get_priv (i_private i)) (\<lambda>p.
     bnd (upd_data bp (\<lambda>d. st_dinode d (di_off (i_inum i)) \<lparr>di_type = i_type i, di_major = x_major p,
            di_minor = x_minor p, di_nlink = i_nlink i, di_size = i_size i, di_addrs = x_addrs p\<rparr>)) (\<lambda>_.
     bnd (bwrite bp) (\<lambda>_.
     brelse bp))))))"

text \<open>\<open>bmap\<close> takes the address of the \<open>xv6fs_inode\<close>; the entries of the indirect block are
  words of its data.\<close>

definition bmap :: "u64 \<Rightarrow> nat \<Rightarrow> ('a fs_st_scheme, u32) K" where
  "bmap ipp bn =
     bnd (get_priv ipp) (\<lambda>p.
     if bn < NDIRECT
     then if x_addrs p bn \<noteq> 0 then ret (x_addrs p bn)
       else bnd (balloc (x_dev p)) (\<lambda>addr.
         if addr = 0 then ret 0
         else bnd (set_priv ipp (p\<lparr>x_addrs := (x_addrs p)(bn := addr)\<rparr>)) (\<lambda>_. ret addr))
     else if bn - NDIRECT < NINDIRECT
     then bnd (if x_addrs p NDIRECT \<noteq> 0 then ret (x_addrs p NDIRECT)
          else bnd (balloc (x_dev p)) (\<lambda>addr.
            if addr = 0 then ret 0
            else bnd (set_priv ipp (p\<lparr>x_addrs := (x_addrs p)(NDIRECT := addr)\<rparr>)) (\<lambda>_. ret addr)))
       (\<lambda>ind.
       if ind = 0 then ret 0
       else bnd (bread (x_dev p) ind) (\<lambda>bp.
         bnd (buf_data bp) (\<lambda>d.
         bnd (if ld32 d (4 * (bn - NDIRECT)) \<noteq> 0 then ret (ld32 d (4 * (bn - NDIRECT)))
              else bnd (balloc (x_dev p)) (\<lambda>addr.
                if addr = 0 then ret 0
                else bnd (upd_data bp (\<lambda>d. st32 d (4 * (bn - NDIRECT)) addr)) (\<lambda>_.
                  bnd (bwrite bp) (\<lambda>_. ret addr))))
         (\<lambda>addr. bnd (brelse bp) (\<lambda>_. ret addr)))))
     else panic ''bmap: out of range'')"

definition itrunc_direct :: "nat \<Rightarrow> nat \<Rightarrow> ('a fs_st_scheme, unit) K" where
  "itrunc_direct ip k =
     bnd (get_inode ip) (\<lambda>i.
     bnd (get_priv (i_private i)) (\<lambda>p.
     if x_addrs p k \<noteq> 0
     then bnd (bfree (i_dev i) (x_addrs p k)) (\<lambda>_.
       set_priv (i_private i) (p\<lparr>x_addrs := (x_addrs p)(k := 0)\<rparr>))
     else ret ()))"

definition itrunc_entry :: "u32 \<Rightarrow> nat \<Rightarrow> nat \<Rightarrow> ('a fs_st_scheme, unit) K" where
  "itrunc_entry dev bp j =
     bnd (buf_data bp) (\<lambda>d.
     whenK (ld32 d (4 * j) \<noteq> 0) (bfree dev (ld32 d (4 * j))))"

definition xv6fs_itrunc :: "nat \<Rightarrow> ('a fs_st_scheme, unit) K" where
  "xv6fs_itrunc ip =
     bnd (forK (itrunc_direct ip) [0..<NDIRECT]) (\<lambda>_.
     bnd (get_inode ip) (\<lambda>i.
     bnd (get_priv (i_private i)) (\<lambda>p.
     bnd (if x_addrs p NDIRECT \<noteq> 0
          then bnd (bread (i_dev i) (x_addrs p NDIRECT)) (\<lambda>bp.
            bnd (forK (itrunc_entry (i_dev i) bp) [0..<NINDIRECT]) (\<lambda>_.
            bnd (brelse bp) (\<lambda>_.
            bnd (bfree (i_dev i) (x_addrs p NDIRECT)) (\<lambda>_.
            set_priv (i_private i) (p\<lparr>x_addrs := (x_addrs p)(NDIRECT := 0)\<rparr>)))))
          else ret ()) (\<lambda>_.
     bnd (set_inode ip (\<lambda>i. i\<lparr>i_size := 0\<rparr>)) (\<lambda>_.
     xv6fs_iupdate ip)))))"

section \<open>Reading and writing the contents\<close>

text \<open>
  The loops of \<open>readi\<close> and \<open>writei\<close>. The checks before them bound \<open>off + n\<close>, so the counters
  never wrap and are natural numbers here. The result of the reading loop is \<open>tot\<close> (-1 after a
  failed copy) with the bytes stored when the destination is a variable; the result of the
  writing loop is \<open>tot\<close> with the final \<open>off\<close>.
\<close>

definition piece :: "nat \<Rightarrow> nat \<Rightarrow> nat" where
  "piece off left = min left (BSIZE - off mod BSIZE)"

lemma piece_pos: "0 < left \<Longrightarrow> 0 < piece off left"
  by (simp add: piece_def BSIZE_def)

lemma piece_less: "\<not> n \<le> tot \<Longrightarrow> n - (tot + piece off (n - tot)) < n - tot"
  using piece_pos [of "n - tot" off] by simp

lemma piece_le: "piece off left \<le> left"
  by (simp add: piece_def)

function readi_loop :: "nat \<Rightarrow> dst \<Rightarrow> nat \<Rightarrow> nat \<Rightarrow> nat \<Rightarrow> ('a fs_st_scheme, int \<times> u8 list) K" where
  "readi_loop ip dst off n tot =
     (if n \<le> tot then ret (int tot, [])
      else
       bnd (get_inode ip) (\<lambda>i.
       bnd (bmap (i_private i) (off div BSIZE)) (\<lambda>addr.
       if addr = 0 then ret (int tot, [])
       else bnd (bread (i_dev i) addr) (\<lambda>bp.
         bnd (gets (\<lambda>s. rd (b_data (bufs s bp)) (off mod BSIZE) (piece off (n - tot)))) (\<lambda>bs.
         bnd (either_copyout dst bs) (\<lambda>r.
         if r = -1 then bnd (brelse bp) (\<lambda>_. ret (-1, []))
         else bnd (brelse bp) (\<lambda>_.
           bnd (readi_loop ip (dst_add dst (piece off (n - tot))) (off + piece off (n - tot)) n
                  (tot + piece off (n - tot))) (\<lambda>q.
           ret (fst q, bs @ snd q)))))))))"
  by pat_completeness auto
termination
  by (relation "measure (\<lambda>(ip, dst, off, n, tot). n - tot)") (auto simp: piece_less)

definition xv6fs_readi :: "nat \<Rightarrow> dst \<Rightarrow> u32 \<Rightarrow> u32 \<Rightarrow> ('a fs_st_scheme, int \<times> u8 list) K" where
  "xv6fs_readi ip dst off n =
     bnd (get_inode ip) (\<lambda>i.
     if off > i_size i \<or> off + n < off then ret (0, [])
     else let n' = (if off + n > i_size i then i_size i - off else n)
       in readi_loop ip dst (unat off) (unat n') 0)"

function writei_loop :: "nat \<Rightarrow> src \<Rightarrow> nat \<Rightarrow> nat \<Rightarrow> nat \<Rightarrow> ('a fs_st_scheme, nat \<times> nat) K" where
  "writei_loop ip src off n tot =
     (if n \<le> tot then ret (tot, off)
      else
       bnd (get_inode ip) (\<lambda>i.
       bnd (bmap (i_private i) (off div BSIZE)) (\<lambda>addr.
       if addr = 0 then ret (tot, off)
       else bnd (bread (i_dev i) addr) (\<lambda>bp.
         bnd (either_copyin src (piece off (n - tot))) (\<lambda>r.
         bnd (upd_data bp (\<lambda>d. wr d (off mod BSIZE) (snd r))) (\<lambda>_.
         if fst r = -1 then bnd (brelse bp) (\<lambda>_. ret (tot, off))
         else bnd (bwrite bp) (\<lambda>_.
           bnd (brelse bp) (\<lambda>_.
           writei_loop ip (src_add src (piece off (n - tot))) (off + piece off (n - tot)) n
             (tot + piece off (n - tot))))))))))"
  by pat_completeness auto
termination
  by (relation "measure (\<lambda>(ip, src, off, n, tot). n - tot)") (auto simp: piece_less)

declare readi_loop.simps [simp del] writei_loop.simps [simp del]

definition xv6fs_writei :: "nat \<Rightarrow> src \<Rightarrow> u32 \<Rightarrow> u32 \<Rightarrow> ('a fs_st_scheme, int) K" where
  "xv6fs_writei ip src off n =
     bnd (get_inode ip) (\<lambda>i.
     if off > i_size i \<or> off + n < off then ret (-1)
     else if unat (off + n) > MAXFILE * BSIZE then ret (-1)
     else bnd (writei_loop ip src (unat off) (unat n) 0) (\<lambda>r.
       bnd (whenK (snd r > unat (i_size i)) (set_inode ip (\<lambda>i. i\<lparr>i_size := of_nat (snd r)\<rparr>))) (\<lambda>_.
       bnd (xv6fs_iupdate ip) (\<lambda>_.
       ret (int (fst r))))))"

end
