(* ===== verification/Fsblock.thy ===== *)
theory Fsblock
  imports Xv6fs
begin

text \<open>
  The block allocator of \<open>fs.c\<close> against the free map it keeps on disk: \<open>used L x b\<close> reads the
  bit of block \<open>b\<close>, \<open>mark\<close> and \<open>unmark\<close> set and clear it. Everything is stated over the
  contents \<open>L\<close> of the blocks that the buffer cache shows.
\<close>

section \<open>The state around the cache\<close>

lemma rest_fs:
  assumes "rest s0 (s :: 'a fs_st_scheme)"
  shows "sb s = sb s0" "itable s = itable s0" "privs s = privs s0" "ftable s = ftable s0"
    "root s = root s0" "pmem s = pmem s0" "freelist s = freelist s0" "kernel_end s = kernel_end s0"
    "procs s = procs s0" "hart s = hart s0" "cpus s = cpus s0" "locks s = locks s0"
    "slocks s (LInode i) = slocks s0 (LInode i)"
  by (rule restE [OF assms], simp)+

text \<open>An update of another field on both sides.\<close>

lemma rest_upd:
  assumes "rest s0 (s :: 'a fs_st_scheme)"
  shows "rest (s0\<lparr>sb := x\<rparr>) (s\<lparr>sb := x\<rparr>)"
    "rest (s0\<lparr>itable := it\<rparr>) (s\<lparr>itable := it\<rparr>)"
    "rest (s0\<lparr>privs := pr\<rparr>) (s\<lparr>privs := pr\<rparr>)"
    "rest (s0\<lparr>ftable := ft\<rparr>) (s\<lparr>ftable := ft\<rparr>)"
    "rest (s0\<lparr>pmem := m\<rparr>) (s\<lparr>pmem := m\<rparr>)"
    "rest (s0\<lparr>freelist := f\<rparr>) (s\<lparr>freelist := f\<rparr>)"
proof -
  note e = rest_eq [OF assms]
  have S: "(\<And>j. l \<noteq> LBuf j) \<Longrightarrow> slocks s l = slocks s0 l" for l by (rule rest_slocks [OF assms])
  have "s\<lparr>sb := x\<rparr> = s0\<lparr>sb := x, bufs := bufs s, slocks := slocks s, disk := disk s\<rparr>"
    using arg_cong [OF e, of "sb_update (\<lambda>_. x)"] by simp
  then show "rest (s0\<lparr>sb := x\<rparr>) (s\<lparr>sb := x\<rparr>)" by (rule restI) (use S in simp)
  have "s\<lparr>itable := it\<rparr> = s0\<lparr>itable := it, bufs := bufs s, slocks := slocks s, disk := disk s\<rparr>"
    using arg_cong [OF e, of "itable_update (\<lambda>_. it)"] by simp
  then show "rest (s0\<lparr>itable := it\<rparr>) (s\<lparr>itable := it\<rparr>)" by (rule restI) (use S in simp)
  have "s\<lparr>privs := pr\<rparr> = s0\<lparr>privs := pr, bufs := bufs s, slocks := slocks s, disk := disk s\<rparr>"
    using arg_cong [OF e, of "privs_update (\<lambda>_. pr)"] by simp
  then show "rest (s0\<lparr>privs := pr\<rparr>) (s\<lparr>privs := pr\<rparr>)" by (rule restI) (use S in simp)
  have "s\<lparr>ftable := ft\<rparr> = s0\<lparr>ftable := ft, bufs := bufs s, slocks := slocks s, disk := disk s\<rparr>"
    using arg_cong [OF e, of "ftable_update (\<lambda>_. ft)"] by simp
  then show "rest (s0\<lparr>ftable := ft\<rparr>) (s\<lparr>ftable := ft\<rparr>)" by (rule restI) (use S in simp)
  have "s\<lparr>pmem := m\<rparr> = s0\<lparr>pmem := m, bufs := bufs s, slocks := slocks s, disk := disk s\<rparr>"
    using arg_cong [OF e, of "pmem_update (\<lambda>_. m)"] by simp
  then show "rest (s0\<lparr>pmem := m\<rparr>) (s\<lparr>pmem := m\<rparr>)" by (rule restI) (use S in simp)
  have "s\<lparr>freelist := f\<rparr> = s0\<lparr>freelist := f, bufs := bufs s, slocks := slocks s, disk := disk s\<rparr>"
    using arg_cong [OF e, of "freelist_update (\<lambda>_. f)"] by simp
  then show "rest (s0\<lparr>freelist := f\<rparr>) (s\<lparr>freelist := f\<rparr>)" by (rule restI) (use S in simp)
qed

lemma cache_upd [simp]:
  fixes s :: "'a fs_st_scheme"
  shows "cache H X L (s\<lparr>sb := x\<rparr>) = cache H X L s" "cache H X L (s\<lparr>itable := it\<rparr>) = cache H X L s"
    "cache H X L (s\<lparr>privs := pr\<rparr>) = cache H X L s" "cache H X L (s\<lparr>ftable := ft\<rparr>) = cache H X L s"
    "cache H X L (s\<lparr>pmem := m\<rparr>) = cache H X L s" "cache H X L (s\<lparr>freelist := f\<rparr>) = cache H X L s"
  by (simp_all add: cache_def mypid_def me_def)

lemma kctx_fs [simp]:
  fixes s :: "'a fs_st_scheme"
  shows "kctx (s\<lparr>sb := x\<rparr>) = kctx s" "kctx (s\<lparr>itable := it\<rparr>) = kctx s"
    "kctx (s\<lparr>privs := pr\<rparr>) = kctx s" "kctx (s\<lparr>ftable := ft\<rparr>) = kctx s"
    "quiet (s\<lparr>sb := x\<rparr>) = quiet s" "quiet (s\<lparr>itable := it\<rparr>) = quiet s"
    "quiet (s\<lparr>privs := pr\<rparr>) = quiet s" "quiet (s\<lparr>ftable := ft\<rparr>) = quiet s"
  by (rule kctx_base quiet_base; simp)+

lemma bview_upd:
  assumes "bview s0 H X L (s :: 'a fs_st_scheme)"
  shows "bview (s0\<lparr>sb := x\<rparr>) H X L (s\<lparr>sb := x\<rparr>)"
    "bview (s0\<lparr>itable := it\<rparr>) H X L (s\<lparr>itable := it\<rparr>)"
    "bview (s0\<lparr>privs := pr\<rparr>) H X L (s\<lparr>privs := pr\<rparr>)"
    "bview (s0\<lparr>ftable := ft\<rparr>) H X L (s\<lparr>ftable := ft\<rparr>)"
    "bview (s0\<lparr>pmem := m\<rparr>) H X L (s\<lparr>pmem := m\<rparr>)"
    "bview (s0\<lparr>freelist := f\<rparr>) H X L (s\<lparr>freelist := f\<rparr>)"
  using assms by (simp_all add: bview_def rest_upd)

lemma bview_fs:
  assumes "bview s0 H X L (s :: 'a fs_st_scheme)"
  shows "sb s = sb s0" "itable s = itable s0" "privs s = privs s0" "ftable s = ftable s0"
    "root s = root s0" "pmem s = pmem s0" "freelist s = freelist s0" "kernel_end s = kernel_end s0"
    "procs s = procs s0"
  using assms rest_fs [of s0 s] by (auto simp: bview_def)

lemma bview_kctx: "bview s0 H X L s \<Longrightarrow> kctx s \<and> quiet s"
  using rest_kctx [of s0 s] by (simp add: bview_def)

section \<open>The free map\<close>

definition used :: "(u32 \<Rightarrow> bytes) \<Rightarrow> xv6fs_super_block \<Rightarrow> u32 \<Rightarrow> bool" where
  "used L x b \<longleftrightarrow> L (BBLOCK b x) (unat b mod BPB div 8) AND bmask (unat b mod BPB) \<noteq> 0"

definition mark :: "(u32 \<Rightarrow> bytes) \<Rightarrow> xv6fs_super_block \<Rightarrow> u32 \<Rightarrow> u32 \<Rightarrow> bytes" where
  "mark L x b = (let bi = unat b mod BPB; d = L (BBLOCK b x) in
     L(BBLOCK b x := d(bi div 8 := d (bi div 8) OR bmask bi)))"

definition unmark :: "(u32 \<Rightarrow> bytes) \<Rightarrow> xv6fs_super_block \<Rightarrow> u32 \<Rightarrow> u32 \<Rightarrow> bytes" where
  "unmark L x b = (let bi = unat b mod BPB; d = L (BBLOCK b x) in
     L(BBLOCK b x := d(bi div 8 := d (bi div 8) AND NOT (bmask bi))))"

lemma bit_bmask: "bit (bmask i) j \<longleftrightarrow> j = i mod 8"
proof -
  have "bmask i = 2 ^ (i mod 8)" by (simp add: bmask_def)
  then have "bit (bmask i) j \<longleftrightarrow> possible_bit TYPE(u8) j \<and> j = i mod 8"
    by (simp only: bit_exp_iff)
  then show ?thesis by (auto simp: possible_bit_def)
qed

lemma and_bmask: "b AND bmask i = 0 \<longleftrightarrow> \<not> bit b (i mod 8)"
proof
  assume "b AND bmask i = 0"
  then have "\<not> bit (b AND bmask i) (i mod 8)" by (simp only: bit_0_eq bot_fun_def) simp
  then show "\<not> bit b (i mod 8)" by (simp add: bit_and_iff bit_bmask)
next
  assume "\<not> bit b (i mod 8)"
  then show "b AND bmask i = 0"
    by (intro bit_word_eqI) (auto simp: bit_and_iff bit_bmask)
qed

lemma used_bit: "used L x b \<longleftrightarrow> bit (L (BBLOCK b x) (unat b mod BPB div 8)) (unat b mod 8)"
proof -
  have "unat b mod BPB mod 8 = unat b mod 8" by (simp add: BPB_def mod_mod_cancel)
  then show ?thesis by (simp add: used_def and_bmask)
qed

text \<open>The place of the bit of a block: equal for equal blocks only.\<close>

lemma bit_place:
  assumes "BBLOCK b x = BBLOCK c x" and "unat b mod BPB div 8 = unat c mod BPB div 8"
    and "unat b mod 8 = unat c mod 8"
  shows "b = c"
proof -
  have "b div 8192 = c div 8192" using assms(1) by (simp add: BBLOCK_def)
  then have "unat (b div 8192) = unat (c div 8192)" by simp
  then have "unat b div 8192 = unat c div 8192" by (simp add: unat_div)
  moreover have "unat b mod 8192 mod 8 = unat c mod 8192 mod 8"
    using assms(3) by (simp add: mod_mod_cancel)
  then have "unat b mod 8192 = unat c mod 8192"
    using assms(2) unfolding BPB_def by (metis div_mult_mod_eq)
  ultimately have "unat b = unat c" by (metis div_mult_mod_eq)
  then show ?thesis by (simp only: word_unat_eq_iff)
qed

lemma used_mark: "used (mark L x b) x c \<longleftrightarrow> c = b \<or> used L x c"
proof (cases "BBLOCK c x = BBLOCK b x \<and> unat c mod BPB div 8 = unat b mod BPB div 8")
  case True
  have "unat b mod BPB mod 8 = unat b mod 8" by (simp add: BPB_def mod_mod_cancel)
  with True bit_place [of c x b] show ?thesis
    by (auto simp: used_bit mark_def Let_def bit_or_iff bit_bmask)
next
  case False
  then show ?thesis by (auto simp: used_bit mark_def Let_def)
qed

lemma used_unmark: "used (unmark L x b) x c \<longleftrightarrow> c \<noteq> b \<and> used L x c"
proof (cases "BBLOCK c x = BBLOCK b x \<and> unat c mod BPB div 8 = unat b mod BPB div 8")
  case True
  have "unat b mod BPB mod 8 = unat b mod 8" by (simp add: BPB_def mod_mod_cancel)
  moreover have "unat b mod 8 < LENGTH(8)" by simp
  ultimately show ?thesis
    using True bit_place [of c x b]
    by (auto simp: used_bit unmark_def Let_def bit_and_iff bit_not_iff bit_bmask possible_bit_def)
next
  case False
  then show ?thesis by (auto simp: used_bit unmark_def Let_def)
qed

section \<open>The layout\<close>

text \<open>
  The regions of the disk as \<open>mkfs\<close> lays them out: inode blocks, then the free map, then the
  data blocks up to the end, with enough map blocks for every block.
\<close>

definition data_start :: "xv6fs_super_block \<Rightarrow> nat" where
  "data_start x = unat (sb_size x) - unat (sb_nblocks x)"

definition sb_ok :: "xv6fs_super_block \<Rightarrow> bool" where
  "sb_ok x \<longleftrightarrow> 2 \<le> unat (sb_inodestart x)
     \<and> unat (sb_inodestart x) + unat (sb_ninodes x) div 16 + 1 \<le> unat (sb_bmapstart x)
     \<and> unat (sb_bmapstart x) + unat (sb_size x) div 8192 + 1 \<le> data_start x
     \<and> data_start x \<le> unat (sb_size x)"

text \<open>The bitmap shows every block outside the data region as used.\<close>

definition meta_used :: "(u32 \<Rightarrow> bytes) \<Rightarrow> xv6fs_super_block \<Rightarrow> bool" where
  "meta_used L x \<longleftrightarrow> (\<forall>b. unat b < data_start x \<longrightarrow> used L x b)"

definition data_blk :: "xv6fs_super_block \<Rightarrow> u32 \<Rightarrow> bool" where
  "data_blk x b \<longleftrightarrow> data_start x \<le> unat b \<and> unat b < unat (sb_size x)"

lemma unat_BBLOCK:
  assumes "sb_ok x" and "unat b < unat (sb_size x)"
  shows "unat (BBLOCK b x) = unat b div 8192 + unat (sb_bmapstart x)"
    and "unat (BBLOCK b x) < data_start x"
proof -
  have "unat b div 8192 \<le> unat (sb_size x) div 8192" using assms(2) by (simp add: div_le_mono)
  moreover have "unat (sb_size x) < 2 ^ 32" using unsigned_less [of "sb_size x", where 'a = nat] by simp
  ultimately have "unat b div 8192 + unat (sb_bmapstart x) < 2 ^ 32"
    and lt: "unat b div 8192 + unat (sb_bmapstart x) < data_start x"
    using assms(1) by (auto simp: sb_ok_def)
  then show eq: "unat (BBLOCK b x) = unat b div 8192 + unat (sb_bmapstart x)"
    by (simp add: BBLOCK_def unat_word_ariths unat_div)
  with lt show "unat (BBLOCK b x) < data_start x" by simp
qed

lemma unat_of_small: "n < unat (sb_size x) \<Longrightarrow> unat (of_nat n :: u32) = n"
  using unsigned_less [of "sb_size x", where 'a = nat] by (simp add: unat_of_nat)

lemma BBLOCK_of_nat:
  assumes "k * BPB + bi < unat (sb_size x)" and "bi < BPB"
  shows "BBLOCK (of_nat (k * BPB + bi)) x = BBLOCK (of_nat (k * BPB)) x"
    and "unat (of_nat (k * BPB + bi) :: u32) mod BPB = bi"
proof -
  have u: "unat (of_nat (k * BPB + bi) :: u32) = k * BPB + bi"
    by (rule unat_of_small [OF assms(1)])
  have v: "unat (of_nat (k * BPB) :: u32) = k * BPB"
    by (rule unat_of_small [of _ x]) (use assms(1) in simp)
  have "(k * BPB + bi) div 8192 = k * BPB div 8192" using assms(2) by (simp add: BPB_def)
  then have "unat ((of_nat (k * BPB + bi) :: u32) div 8192) = unat ((of_nat (k * BPB) :: u32) div 8192)"
    unfolding unat_div u v by simp
  then have "(of_nat (k * BPB + bi) :: u32) div 8192 = of_nat (k * BPB) div 8192"
    by (simp only: word_unat_eq_iff)
  then show "BBLOCK (of_nat (k * BPB + bi)) x = BBLOCK (of_nat (k * BPB)) x"
    by (simp only: BBLOCK_def)
  show "unat (of_nat (k * BPB + bi) :: u32) mod BPB = bi" unfolding u using assms(2) by simp
qed

section \<open>The calls\<close>

text \<open>
  What the file system holds while it calls the allocator: few blocks, none of the map and
  none that is free.
\<close>

definition hold_ok :: "(u32 \<Rightarrow> nat option) \<Rightarrow> (u32 \<Rightarrow> bytes) \<Rightarrow> xv6fs_super_block \<Rightarrow> bool" where
  "hold_ok H L x \<longleftrightarrow> card (dom H) < 20
     \<and> (\<forall>n \<in> dom H. data_blk x n \<and> used L x n)"

definition zeroed :: "bytes \<Rightarrow> bytes" where
  "zeroed d = memset d 0 0 BSIZE"

lemma card_hold: "hold_ok H L x \<Longrightarrow> finite (dom H) \<Longrightarrow> card (dom (H(n \<mapsto> i))) < NBUF"
  using card_insert_le_m1 [of 21 "dom H" n] by (simp add: hold_ok_def NBUF_def card_insert_if)

lemma card_hold0: "hold_ok H L x \<Longrightarrow> card (dom H) < NBUF"
  by (simp add: hold_ok_def NBUF_def)

lemma bzero_rule:
  assumes "bview s0 H X L s" and "H n = None" and "card (dom H) < NBUF" and "n \<notin> X"
  shows "runs (bzero 1 n s) (\<lambda>_. bview s0 H X (L(n := zeroed (L n))))"
  using bs.modify_block_ok [OF assms, of zeroed] unfolding bs.modify_block_def bzero_def zeroed_def .

lemma hold_bitmap:
  assumes "hold_ok H L x" and "sb_ok x" and "unat b < unat (sb_size x)"
  shows "H (BBLOCK b x) = None"
proof (rule ccontr)
  assume "H (BBLOCK b x) \<noteq> None"
  with assms(1) have "data_start x \<le> unat (BBLOCK b x)" by (auto simp: hold_ok_def data_blk_def)
  with unat_BBLOCK(2) [OF assms(2,3)] show False by simp
qed

lemma bview_dirty: "bview s0 H X L s \<Longrightarrow> X \<subseteq> dom H"
  by (simp add: bview_def cache_def)

definition allocd :: "(u32 \<Rightarrow> bytes) \<Rightarrow> xv6fs_super_block \<Rightarrow> u32 \<Rightarrow> u32 \<Rightarrow> bytes" where
  "allocd L x a = (mark L x a)(a := zeroed (mark L x a a))"

lemma balloc_bit_rule:
  assumes v: "bview s0 (H(bb \<mapsto> bp)) X L s" and x: "x = sb s0" "sb_ok x" and h: "hold_ok H L x"
    and n: "n = k * BPB + bi" "n < unat (sb_size x)" "bi < BPB" and bb: "bb = BBLOCK (of_nat (k * BPB)) x"
    and clean: "bb \<notin> X" and X: "X \<subseteq> dom H" and m: "meta_used L x"
  shows "runs (balloc_bit 1 (k * BPB) bp bi s) (\<lambda>r s'. case r of
      None \<Rightarrow> bview s0 (H(bb \<mapsto> bp)) X L s' \<and> used L x (of_nat n)
    | Some a \<Rightarrow> a = of_nat n \<and> \<not> used L x a \<and> bview s0 H X (allocd L x a) s')"
proof -
  let ?a = "of_nat n :: u32"
  have ua: "unat ?a = n" by (rule unat_of_small [OF n(2)])
  have bba: "BBLOCK ?a x = bb" and bia: "unat ?a mod BPB = bi"
    using BBLOCK_of_nat [of k bi x] n bb by simp_all
  have none: "H bb = None" using hold_bitmap [OF h x(2), of ?a] ua n(2) bba by simp
  have d: "b_data (bufs s bp) = L bb" by (rule bs.content_ok [OF v]) simp
  have u: "used L x ?a \<longleftrightarrow> L bb (bi div 8) AND bmask bi \<noteq> 0" by (simp add: used_def bba bia)
  show ?thesis
  proof (cases "used L x ?a")
    case True
    with u d v show ?thesis by (simp add: balloc_bit_def buf_data_def)
  next
    case False
    have a: "data_blk x ?a" using m False ua n(2) by (force simp: meta_used_def data_blk_def)
    have Ha: "H ?a = None"
    proof (rule ccontr)
      assume "H ?a \<noteq> None"
      with h have "used L x ?a" by (auto simp: hold_ok_def)
      with False show False by simp
    qed
    have mk: "L(bb := (L bb)(bi div 8 := L bb (bi div 8) OR bmask bi)) = mark L x ?a"
      by (simp add: mark_def Let_def bba bia)
    show ?thesis
      using False u d unfolding balloc_bit_def buf_data_def n(1) [symmetric]
      apply simp
      apply (rule bs.store_rule [OF v, where n = bb], simp)
      apply (rule bs.put_rule [where n = bb], assumption, simp)
      apply (rule bs.rel_rule [where n = bb], assumption, simp, use clean in simp)
      apply (rule runs_bndI)
       apply (rule bzero_rule [where H = H and X = X and L = "mark L x ?a"])
      using Ha X clean none mk card_hold0 [OF h] by (auto simp: fun_upd_idem allocd_def)
  qed
qed

text \<open>The first free block.\<close>

definition first_free :: "(u32 \<Rightarrow> bytes) \<Rightarrow> xv6fs_super_block \<Rightarrow> u32 \<Rightarrow> bool" where
  "first_free L x a \<longleftrightarrow> unat a < unat (sb_size x) \<and> \<not> used L x a \<and> (\<forall>b. unat b < unat a \<longrightarrow> used L x b)"

definition used_below :: "(u32 \<Rightarrow> bytes) \<Rightarrow> xv6fs_super_block \<Rightarrow> nat \<Rightarrow> bool" where
  "used_below L x n \<longleftrightarrow> (\<forall>b. unat b < n \<longrightarrow> unat b < unat (sb_size x) \<longrightarrow> used L x b)"

lemma used_below_Suc:
  assumes "used_below L x n" and "used L x (of_nat n)"
  shows "used_below L x (Suc n)"
  unfolding used_below_def
proof (intro allI impI)
  fix b :: u32 assume "unat b < Suc n" and b: "unat b < unat (sb_size x)"
  then consider "unat b < n" | "unat b = n" by linarith
  then show "used L x b"
  proof cases
    case 1
    with assms(1) b show ?thesis by (simp add: used_below_def)
  next
    case 2
    then have "b = of_nat n" by auto
    with assms(2) show ?thesis by simp
  qed
qed

lemma first_freeI:
  "n < unat (sb_size x) \<Longrightarrow> used_below L x n \<Longrightarrow> \<not> used L x (of_nat n) \<Longrightarrow> first_free L x (of_nat n)"
  using unat_of_small [of n x] by (auto simp: first_free_def used_below_def)

lemma used_below_mono: "used_below L x n \<Longrightarrow> unat (sb_size x) \<le> n \<Longrightarrow> used_below L x m"
  by (auto simp: used_below_def)

lemma balloc_blk_rule:
  assumes v: "bview s0 H X L s" and x: "x = sb s0" "sb_ok x" and h: "hold_ok H L x"
    and m: "meta_used L x" and k: "k * BPB < unat (sb_size x)" and before: "used_below L x (k * BPB)"
  shows "runs (balloc_blk 1 k s) (\<lambda>r s'. case r of
      None \<Rightarrow> bview s0 H X L s' \<and> used_below L x (Suc k * BPB)
    | Some a \<Rightarrow> first_free L x a \<and> bview s0 H X (allocd L x a) s')"
proof -
  let ?bb = "BBLOCK (of_nat (k * BPB)) x"
  let ?n = "min BPB (unat (sb_size x) - k * BPB)"
  have none: "H ?bb = None"
    using hold_bitmap [OF h x(2), of "of_nat (k * BPB)"] k unat_of_small [OF k] by simp
  have X: "X \<subseteq> dom H" by (rule bview_dirty [OF v])
  then have clean: "?bb \<notin> X" using none by auto
  have loop: "runs (untilK (balloc_bit 1 (k * BPB) bp) [0..<?n] t) (\<lambda>r s'. case r of
      None \<Rightarrow> bview s0 (H(?bb \<mapsto> bp)) X L s' \<and> used_below L x (k * BPB + ?n)
    | Some a \<Rightarrow> first_free L x a \<and> bview s0 H X (allocd L x a) s')"
    if vt: "bview s0 (H(?bb \<mapsto> bp)) X L t" for bp t
  proof (rule runs_untilK [where P = "\<lambda>j t. bview s0 (H(?bb \<mapsto> bp)) X L t \<and> used_below L x (k * BPB + j)"])
    show "bview s0 (H(?bb \<mapsto> bp)) X L t \<and> used_below L x (k * BPB + 0)" using vt before by simp
    fix j t' assume "j < ?n" and P: "bview s0 (H(?bb \<mapsto> bp)) X L t' \<and> used_below L x (k * BPB + j)"
    then have j: "k * BPB + j < unat (sb_size x)" "j < BPB" by auto
    from P have vt': "bview s0 (H(?bb \<mapsto> bp)) X L t'" by blast
    show "runs (balloc_bit 1 (k * BPB) bp j t') (\<lambda>r t'. case r of
        None \<Rightarrow> bview s0 (H(?bb \<mapsto> bp)) X L t' \<and> used_below L x (k * BPB + Suc j)
      | Some a \<Rightarrow> first_free L x a \<and> bview s0 H X (allocd L x a) t')"
      by (rule runs_mono [OF balloc_bit_rule [OF vt' x h refl j refl clean X m]])
         (use P first_freeI [OF j(1)] used_below_Suc in \<open>auto split: option.splits\<close>)
  qed simp
  have fin: "used_below L x (Suc k * BPB)" if "used_below L x (k * BPB + ?n)"
  proof (cases "BPB \<le> unat (sb_size x) - k * BPB")
    case True
    with that show ?thesis by (simp add: min_def add.commute)
  next
    case False
    then have "unat (sb_size x) \<le> k * BPB + ?n" by simp
    with that show ?thesis by (rule used_below_mono)
  qed
  show ?thesis
    unfolding balloc_blk_def runs_gets Let_def bview_fs(1) [OF v] x(1) [symmetric]
  proof (rule bs.get_rule [OF v none card_hold0 [OF h]], rule runs_bndI, erule loop)
    fix bp t r t'
    assume "case r of None \<Rightarrow> bview s0 (H(?bb \<mapsto> bp)) X L t' \<and> used_below L x (k * BPB + ?n)
       | Some a \<Rightarrow> first_free L x a \<and> bview s0 H X (allocd L x a) t'"
    then show "runs ((case r of None \<Rightarrow> bnd (brelse bp) (\<lambda>_. ret None) | Some a \<Rightarrow> ret (Some a)) t')
       (\<lambda>r s'. case r of None \<Rightarrow> bview s0 H X L s' \<and> used_below L x (Suc k * BPB)
       | Some a \<Rightarrow> first_free L x a \<and> bview s0 H X (allocd L x a) s')"
    proof (cases r)
      case None
      with \<open>case r of None \<Rightarrow> _ | Some a \<Rightarrow> _ a\<close>
      have vt: "bview s0 (H(?bb \<mapsto> bp)) X L t'" and ub: "used_below L x (k * BPB + ?n)" by auto
      show ?thesis
        unfolding None option.case
        by (rule bs.rel_rule [OF vt, of ?bb])
           (use clean none fin [OF ub] in \<open>auto simp: fun_upd_idem\<close>)
    qed auto
  qed
qed

lemma balloc_rule:
  assumes v: "bview s0 H X L s" and x: "x = sb s0" "sb_ok x" and h: "hold_ok H L x"
    and m: "meta_used L x"
  shows "runs (balloc 1 s) (\<lambda>a s'.
      a = 0 \<and> used_below L x (unat (sb_size x)) \<and> bview s0 H X L s'
    \<or> a \<noteq> 0 \<and> first_free L x a \<and> data_blk x a \<and> H a = None \<and> bview s0 H X (allocd L x a) s')"
proof -
  let ?N = "(unat (sb_size x) + (BPB - 1)) div BPB"
  have loop: "runs (untilK (balloc_blk 1) [0..<?N] s) (\<lambda>r s'. case r of
      None \<Rightarrow> bview s0 H X L s' \<and> used_below L x (?N * BPB)
    | Some a \<Rightarrow> first_free L x a \<and> bview s0 H X (allocd L x a) s')"
  proof (rule runs_untilK [where P = "\<lambda>k t. bview s0 H X L t \<and> used_below L x (k * BPB)"])
    show "bview s0 H X L s \<and> used_below L x (0 * BPB)" using v by (simp add: used_below_def)
    fix k t assume "k < ?N" and P: "bview s0 H X L t \<and> used_below L x (k * BPB)"
    then have "Suc k * BPB \<le> ?N * BPB" by (intro mult_le_mono1) simp
    also have "?N * BPB \<le> unat (sb_size x) + (BPB - 1)" by (rule div_times_less_eq_dividend)
    finally have "k * BPB < unat (sb_size x)" by (simp add: BPB_def)
    with P show "runs (balloc_blk 1 k t) (\<lambda>r t'. case r of
        None \<Rightarrow> bview s0 H X L t' \<and> used_below L x (Suc k * BPB)
      | Some a \<Rightarrow> first_free L x a \<and> bview s0 H X (allocd L x a) t')"
      by (intro balloc_blk_rule [OF _ x h m]) simp_all
  qed simp
  have "unat (sb_size x) \<le> ?N * BPB" by (simp add: BPB_def)
  then have all: "used_below L x (?N * BPB) \<Longrightarrow> used_below L x (unat (sb_size x))"
    by (rule used_below_mono [rotated])
  have fresh: "a \<noteq> 0 \<and> data_blk x a \<and> H a = None" if "first_free L x a" for a
  proof -
    have "data_blk x a" using that m by (force simp: first_free_def meta_used_def data_blk_def)
    moreover have "0 < data_start x" using x(2) by (simp add: sb_ok_def)
    moreover have "H a = None" using that h by (force simp: first_free_def hold_ok_def)
    ultimately show ?thesis by (auto simp: data_blk_def)
  qed
  show ?thesis
    unfolding balloc_def runs_gets bview_fs(1) [OF v] x(1) [symmetric]
    by (rule runs_bndI, rule loop) (use all fresh in \<open>auto split: option.splits\<close>)
qed

lemma bfree_rule:
  assumes v: "bview s0 H X L s" and x: "x = sb s0" "sb_ok x" and h: "hold_ok H L x"
    and b: "unat b < unat (sb_size x)" "used L x b"
  shows "runs (bfree 1 b s) (\<lambda>_. bview s0 H X (unmark L x b))"
proof -
  let ?bb = "BBLOCK b x" and ?bi = "unat b mod BPB"
  have none: "H ?bb = None" by (rule hold_bitmap [OF h x(2) b(1)])
  then have clean: "?bb \<notin> X" using bview_dirty [OF v] by auto
  have un: "unmark L x b = L(?bb := (L ?bb)(?bi div 8 := L ?bb (?bi div 8) AND NOT (bmask ?bi)))"
    by (simp add: unmark_def Let_def)
  have u: "L ?bb (?bi div 8) AND bmask ?bi \<noteq> 0" using b(2) by (simp add: used_def)
  show ?thesis
    unfolding bfree_def runs_gets bview_fs(1) [OF v] x(1) [symmetric] buf_data_def Let_def un
    apply (rule bs.get_rule [OF v none card_hold0 [OF h]])
    apply (rule bs.content_rule [where n = ?bb and g = "\<lambda>d. d"], assumption, simp)
    apply (simp only: u if_False)
    apply (rule bs.store_rule [where n = ?bb], assumption, simp)
    apply (rule bs.put_rule [where n = ?bb], assumption, simp)
    apply (rule bs.rel_last [where n = ?bb], assumption)
    using clean none by (simp_all add: fun_upd_idem)
qed

lemma bfree_panics:
  assumes v: "bview s0 H X L s" and x: "x = sb s0" "sb_ok x" and h: "hold_ok H L x"
    and b: "unat b < unat (sb_size x)" "\<not> used L x b"
  shows "bfree 1 b s = Panic ''freeing free block''"
proof -
  let ?bb = "BBLOCK b x"
  obtain i t where r: "bread 1 ?bb s = Ok (i, t)" and vt: "bview s0 (H(?bb \<mapsto> i)) X L t"
    using bs.get_ok [OF v hold_bitmap [OF h x(2) b(1)] card_hold0 [OF h]] by blast
  have "b_data (bufs t i) = L ?bb" by (rule bs.content_ok [OF vt]) simp
  with r b(2) show ?thesis
    by (simp add: bfree_def bnd_apply bview_fs(1) [OF v] x(1) [symmetric] buf_data_def Let_def used_def)
qed

section \<open>The inode on disk\<close>

lemma st_addrs_frame:
  "b + 2 \<le> a \<or> a + 4 * n \<le> b \<Longrightarrow> ld16 (st_addrs d a f n) b = ld16 d b"
  "b + 4 \<le> a \<or> a + 4 * n \<le> b \<Longrightarrow> ld32 (st_addrs d a f n) b = ld32 d b"
  by (induction n) (auto simp: st32_def)

lemma ld_st_addrs: "k < n \<Longrightarrow> ld32 (st_addrs d a f n) (a + 4 * k) = f k"
  by (induction n) (auto simp: less_Suc_eq)

lemma ld_st_dinode:
  assumes "\<And>k. NDIRECT < k \<Longrightarrow> di_addrs x k = 0"
  shows "ld_dinode (st_dinode d a x) a = x"
proof -
  have "(\<lambda>k. if k \<le> NDIRECT then ld32 (st_dinode d a x) (a + 12 + 4 * k) else 0) = di_addrs x"
    using assms by (auto simp: fun_eq_iff st_dinode_def ld_st_addrs simp del: st_addrs.simps)
  moreover have "ld16 (st_dinode d a x) a = di_type x" "ld16 (st_dinode d a x) (a + 2) = di_major x"
    "ld16 (st_dinode d a x) (a + 4) = di_minor x" "ld16 (st_dinode d a x) (a + 6) = di_nlink x"
    "ld32 (st_dinode d a x) (a + 8) = di_size x"
    by (simp_all add: st_dinode_def st_addrs_frame st16_def st32_def ld_st_same
        [unfolded st16_def st32_def] del: st_addrs.simps)
  ultimately show ?thesis by (simp add: ld_dinode_def)
qed

lemma ld_st_dinode_other:
  assumes "b + 64 \<le> a \<or> a + 64 \<le> b"
  shows "ld_dinode (st_dinode d a x) b = ld_dinode d b"
  using assms
  by (auto simp: ld_dinode_def st_dinode_def st_addrs_frame st16_def st32_def NDIRECT_def fun_eq_iff
      simp del: st_addrs.simps)

end
