(* ===== verification/Fsfile.thy ===== *)
theory Fsfile
  imports Fsblock
begin

text \<open>
  The contents of a file as \<open>bmap\<close>, \<open>readi\<close>, \<open>writei\<close> and \<open>itrunc\<close> of \<open>fs.c\<close> keep them. A file
  has 269 slots for blocks: 0 to 267 for its contents, the slot 268 for the indirect block.
  \<open>fbytes\<close> is the file as an array of bytes, a hole reading as zeros; \<open>bmap\<close> leaves it alone,
  \<open>readi\<close> reads it and \<open>writei\<close> overwrites a part of it. \<open>fs_ext\<close> says what stays as it is
  elsewhere on the disk.
\<close>

section \<open>Files as arrays of bytes\<close>

definition slot :: "(u32 \<Rightarrow> bytes) \<Rightarrow> xv6fs_inode \<Rightarrow> nat \<Rightarrow> u32" where
  "slot L p k =
     (if k < NDIRECT then x_addrs p k
      else if k < MAXFILE then if x_addrs p NDIRECT = 0 then 0
        else ld32 (L (x_addrs p NDIRECT)) (4 * (k - NDIRECT))
      else if k = MAXFILE then x_addrs p NDIRECT
      else 0)"

definition fbytes :: "(u32 \<Rightarrow> bytes) \<Rightarrow> xv6fs_inode \<Rightarrow> bytes" where
  "fbytes L p = (\<lambda>pos. if pos < MAXFILE * BSIZE \<and> slot L p (pos div BSIZE) \<noteq> 0
     then L (slot L p (pos div BSIZE)) (pos mod BSIZE) else 0)"

definition fblocks :: "(u32 \<Rightarrow> bytes) \<Rightarrow> xv6fs_inode \<Rightarrow> u32 set" where
  "fblocks L p = slot L p ` {..MAXFILE} - {0}"

text \<open>Every block of the file is an allocated data block, and no two slots share one.\<close>

definition wf_file :: "(u32 \<Rightarrow> bytes) \<Rightarrow> xv6fs_super_block \<Rightarrow> xv6fs_inode \<Rightarrow> bool" where
  "wf_file L x p \<longleftrightarrow> x_dev p = 1 \<and> (\<forall>k. NDIRECT < k \<longrightarrow> x_addrs p k = 0)
     \<and> (\<forall>k. slot L p k \<noteq> 0 \<longrightarrow> data_blk x (slot L p k) \<and> used L x (slot L p k))
     \<and> (\<forall>j k. slot L p j \<noteq> 0 \<longrightarrow> slot L p j = slot L p k \<longrightarrow> j = k)"

definition fs_ext :: "xv6fs_super_block \<Rightarrow> (u32 \<Rightarrow> bytes) \<Rightarrow> xv6fs_inode \<Rightarrow> (u32 \<Rightarrow> bytes) \<Rightarrow>
    xv6fs_inode \<Rightarrow> bool" where
  "fs_ext x L p L' p' \<longleftrightarrow>
     (\<forall>b. unat b < unat (sb_size x) \<longrightarrow> used L x b \<longrightarrow> used L' x b)
     \<and> (\<forall>b. unat b < unat (sb_bmapstart x) \<longrightarrow> L' b = L b)
     \<and> (\<forall>b. data_blk x b \<longrightarrow> used L x b \<longrightarrow> b \<notin> fblocks L p \<longrightarrow> L' b = L b)
     \<and> (\<forall>b \<in> fblocks L' p'. b \<in> fblocks L p \<or> \<not> used L x b)
     \<and> (\<forall>j. slot L p j \<noteq> 0 \<longrightarrow> slot L' p' j = slot L p j)
     \<and> x_major p' = x_major p \<and> x_minor p' = x_minor p"

lemma fs_ext_refl [simp]: "fs_ext x L p L p"
  by (simp add: fs_ext_def)

lemma fs_ext_trans:
  assumes "fs_ext x L p L1 p1" and "fs_ext x L1 p1 L2 p2" and "wf_file L2 x p2"
  shows "fs_ext x L p L2 p2"
proof -
  have e1: "unat b < unat (sb_size x) \<Longrightarrow> used L x b \<Longrightarrow> used L1 x b"
    and "unat b < unat (sb_bmapstart x) \<Longrightarrow> L1 b = L b"
    and d1: "data_blk x b \<Longrightarrow> used L x b \<Longrightarrow> b \<notin> fblocks L p \<Longrightarrow> L1 b = L b"
    and n1: "b \<in> fblocks L1 p1 \<Longrightarrow> b \<in> fblocks L p \<or> \<not> used L x b" for b
    using assms(1) unfolding fs_ext_def by blast+
  have e2: "unat b < unat (sb_size x) \<Longrightarrow> used L1 x b \<Longrightarrow> used L2 x b"
    and d2: "data_blk x b \<Longrightarrow> used L1 x b \<Longrightarrow> b \<notin> fblocks L1 p1 \<Longrightarrow> L2 b = L1 b"
    and n2: "b \<in> fblocks L2 p2 \<Longrightarrow> b \<in> fblocks L1 p1 \<or> \<not> used L1 x b" for b
    using assms(2) unfolding fs_ext_def by blast+
  have size: "data_blk x b \<Longrightarrow> unat b < unat (sb_size x)" for b by (simp add: data_blk_def)
  have blk: "b \<in> fblocks L2 p2 \<Longrightarrow> data_blk x b" for b
    using assms(3) by (auto simp: fblocks_def wf_file_def)
  have "L2 b = L b" if "data_blk x b" "used L x b" "b \<notin> fblocks L p" for b
    using that d1 [OF that] d2 [of b] e1 [OF size] n1 [of b] by metis
  moreover have "b \<in> fblocks L p \<or> \<not> used L x b" if "b \<in> fblocks L2 p2" for b
    using that n1 n2 e1 size blk by metis
  ultimately show ?thesis
    using assms(1,2) unfolding fs_ext_def by auto
qed

section \<open>A new block\<close>

lemma BBLOCK_not_data: "sb_ok x \<Longrightarrow> unat b < unat (sb_size x) \<Longrightarrow> \<not> data_blk x (BBLOCK b x)"
  using unat_BBLOCK(2) [of x b] by (simp add: data_blk_def)

lemma allocd_other: "b \<noteq> a \<Longrightarrow> b \<noteq> BBLOCK a x \<Longrightarrow> allocd L x a b = L b"
  by (simp add: allocd_def mark_def Let_def)

lemma used_other:
  "L' (BBLOCK c x) = L (BBLOCK c x) \<Longrightarrow> used L' x c = used L x c"
  by (simp add: used_def)

lemma used_allocd:
  assumes "sb_ok x" and "data_blk x a" and "unat c < unat (sb_size x)"
  shows "used (allocd L x a) x c \<longleftrightarrow> c = a \<or> used L x c"
proof -
  have "BBLOCK c x \<noteq> a" using BBLOCK_not_data [OF assms(1,3)] assms(2) by auto
  then have "used (allocd L x a) x c = used (mark L x a) x c"
    by (intro used_other) (simp add: allocd_def)
  then show ?thesis by (simp add: used_mark)
qed

lemma allocd_data:
  assumes "sb_ok x" and "data_blk x a" and "data_blk x b" and "b \<noteq> a"
  shows "allocd L x a b = L b"
proof -
  have "b \<noteq> BBLOCK a x" using BBLOCK_not_data [of x a] assms by (auto simp: data_blk_def)
  with assms(4) show ?thesis by (rule allocd_other)
qed

lemma allocd_low:
  assumes "sb_ok x" and "data_blk x a" and "unat b < unat (sb_bmapstart x)"
  shows "allocd L x a b = L b"
proof -
  have "unat (BBLOCK a x) \<ge> unat (sb_bmapstart x)"
    using unat_BBLOCK(1) [of x a] assms by (simp add: data_blk_def)
  moreover have "unat b < unat a" using assms by (auto simp: data_blk_def sb_ok_def)
  ultimately show ?thesis using assms(3) by (intro allocd_other) auto
qed

lemma allocd_zero: "pos < BSIZE \<Longrightarrow> allocd L x a a pos = 0"
  by (simp add: allocd_def zeroed_def memset_inside)

lemma meta_used_allocd:
  assumes "sb_ok x" and "data_blk x a" and "meta_used L x"
  shows "meta_used (allocd L x a) x"
  unfolding meta_used_def
proof (intro allI impI)
  fix b :: u32 assume b: "unat b < data_start x"
  then have "unat b < unat (sb_size x)" using assms(1) by (simp add: sb_ok_def)
  with used_allocd [OF assms(1,2)] assms(3) b show "used (allocd L x a) x b"
    by (simp add: meta_used_def)
qed

text \<open>
  A fresh block \<open>a\<close> in slot \<open>k\<close> of a file, by whatever steps: the file stays well-formed, its
  bytes do not change, and nothing else on the disk does.
\<close>

lemma slot_add:
  assumes ok: "sb_ok x" and wf: "wf_file L x p" and a: "data_blk x a" "\<not> used L x a"
    and k: "slot L p k = 0" "k \<le> MAXFILE"
    and slot': "slot L' p' = (slot L p)(k := a)"
    and used': "\<And>c. unat c < unat (sb_size x) \<Longrightarrow> used L' x c \<longleftrightarrow> c = a \<or> used L x c"
    and data': "\<And>b. data_blk x b \<Longrightarrow> b \<noteq> a \<Longrightarrow> b \<noteq> slot L p MAXFILE \<Longrightarrow> L' b = L b"
    and low': "\<And>b. unat b < unat (sb_bmapstart x) \<Longrightarrow> L' b = L b"
    and zero: "\<And>pos. pos < BSIZE \<Longrightarrow> k < MAXFILE \<Longrightarrow> L' a pos = 0"
    and p': "x_dev p' = 1" "x_major p' = x_major p" "x_minor p' = x_minor p"
      "\<And>k. NDIRECT < k \<Longrightarrow> x_addrs p' k = 0"
  shows "wf_file L' x p'" and "fbytes L' p' = fbytes L p" and "fs_ext x L p L' p'"
proof -
  have blk: "data_blk x (slot L p j)" "used L x (slot L p j)" if "slot L p j \<noteq> 0" for j
    using wf that by (auto simp: wf_file_def)
  have inj: "j = i" if "slot L p j \<noteq> 0" "slot L p j = slot L p i" for i j
    using wf that unfolding wf_file_def by blast
  have na: "slot L p j \<noteq> a" for j
  proof
    assume "slot L p j = a"
    moreover have "a \<noteq> 0" using a(1) ok by (auto simp: data_blk_def sb_ok_def)
    ultimately show False using blk(2) [of j] a(2) by simp
  qed
  have size: "data_blk x b \<Longrightarrow> unat b < unat (sb_size x)" for b by (simp add: data_blk_def)
  have "\<forall>j. slot L' p' j \<noteq> 0 \<longrightarrow> data_blk x (slot L' p' j) \<and> used L' x (slot L' p' j)"
    using blk a(1) used' size unfolding slot' by auto
  moreover have "\<forall>i j. slot L' p' i \<noteq> 0 \<longrightarrow> slot L' p' i = slot L' p' j \<longrightarrow> i = j"
    using inj na unfolding slot' by (auto split: if_splits)
  ultimately show wf': "wf_file L' x p'" using p'(1,4) unfolding wf_file_def by blast
  have same: "L' (slot L p j) = L (slot L p j)" if "j < MAXFILE" "slot L p j \<noteq> 0" for j
    using blk(1) [OF that(2)] na [of j] inj [OF that(2), of MAXFILE] that(1) by (intro data') auto
  show "fbytes L' p' = fbytes L p"
  proof
    fix pos
    let ?j = "pos div BSIZE"
    show "fbytes L' p' pos = fbytes L p pos"
    proof (cases "pos < MAXFILE * BSIZE")
      case True
      then have j: "?j < MAXFILE" by (simp add: less_mult_imp_div_less)
      have "pos mod BSIZE < BSIZE" by (simp add: BSIZE_def)
      then show ?thesis
        using True j k(1) same [OF j] zero [of "pos mod BSIZE"] by (auto simp: fbytes_def slot')
    qed (simp add: fbytes_def)
  qed
  have "\<forall>b. data_blk x b \<longrightarrow> used L x b \<longrightarrow> b \<notin> fblocks L p \<longrightarrow> L' b = L b"
  proof (intro allI impI)
    fix b assume b: "data_blk x b" "used L x b" "b \<notin> fblocks L p"
    have "b \<noteq> 0" using b(1) ok by (auto simp: data_blk_def sb_ok_def)
    with b(3) have "b \<noteq> slot L p MAXFILE" by (auto simp: fblocks_def)
    with b a(2) show "L' b = L b" by (intro data') auto
  qed
  moreover have "\<forall>b \<in> fblocks L' p'. b \<in> fblocks L p \<or> \<not> used L x b"
    using a(2) unfolding fblocks_def slot' by (auto split: if_splits)
  moreover have "\<forall>j. slot L p j \<noteq> 0 \<longrightarrow> slot L' p' j = slot L p j" using k(1) by (simp add: slot')
  ultimately show "fs_ext x L p L' p'"
    using used' low' p'(2,3) unfolding fs_ext_def by blast
qed

section \<open>Mapping a block of a file\<close>

text \<open>The state with the in-memory inode \<open>p\<close> at address \<open>pp\<close>.\<close>

definition with_priv :: "'a fs_st_scheme \<Rightarrow> u64 \<Rightarrow> xv6fs_inode \<Rightarrow> 'a fs_st_scheme" where
  "with_priv s0 pp p = s0\<lparr>privs := (privs s0)(pp \<mapsto> p)\<rparr>"

definition filev :: "'a fs_st_scheme \<Rightarrow> u64 \<Rightarrow> xv6fs_inode \<Rightarrow> (u32 \<Rightarrow> bytes) \<Rightarrow> 'a fs_st_scheme \<Rightarrow> bool" where
  "filev s0 pp p L s \<longleftrightarrow> bview (with_priv s0 pp p) Map.empty {} L s
     \<and> sb_ok (sb s0) \<and> meta_used L (sb s0) \<and> wf_file L (sb s0) p"

lemma with_priv_simps [simp]:
  "sb (with_priv s0 pp p) = sb s0" "itable (with_priv s0 pp p) = itable s0"
  "privs (with_priv s0 pp p) = (privs s0)(pp \<mapsto> p)"
  "(with_priv s0 pp p)\<lparr>privs := (privs s0)(pp \<mapsto> q)\<rparr> = with_priv s0 pp q"
  "procs (with_priv s0 pp p) = procs s0" "pmem (with_priv s0 pp p) = pmem s0"
  by (simp_all add: with_priv_def)

lemma get_priv_rule:
  assumes "bview (with_priv s0 pp p) H X L s" and "runs (f p s) Q"
  shows "runs (bnd (get_priv pp) f s) Q"
  using assms(2) bview_fs(3) [OF assms(1)] by (simp add: get_priv_def runs_bnd)

lemma set_priv_rule:
  assumes "bview (with_priv s0 pp p) H X L s"
    and "\<And>s'. bview (with_priv s0 pp q) H X L s' \<Longrightarrow> runs (f () s') Q"
  shows "runs (bnd (set_priv pp q) f s) Q"
proof -
  have "s\<lparr>privs := (privs s)(pp \<mapsto> q)\<rparr> = s\<lparr>privs := (privs s0)(pp \<mapsto> q)\<rparr>"
    using bview_fs(3) [OF assms(1)] by simp
  moreover have "bview (with_priv s0 pp q) H X L (s\<lparr>privs := (privs s0)(pp \<mapsto> q)\<rparr>)"
    using bview_upd(3) [OF assms(1), of "(privs s0)(pp \<mapsto> q)"] by simp
  ultimately show ?thesis using assms(2) by (simp add: set_priv_def runs_bnd)
qed

lemma hold_empty [simp]: "hold_ok Map.empty L x"
  by (simp add: hold_ok_def)

text \<open>The result of mapping block \<open>bn\<close>: address \<open>a\<close>, or 0 when the disk is full.\<close>

definition mapped :: "xv6fs_super_block \<Rightarrow> (u32 \<Rightarrow> bytes) \<Rightarrow> xv6fs_inode \<Rightarrow> nat \<Rightarrow> u32 \<Rightarrow>
    (u32 \<Rightarrow> bytes) \<Rightarrow> xv6fs_inode \<Rightarrow> bool" where
  "mapped x L p k a L' p' \<longleftrightarrow>
     fbytes L' p' = fbytes L p \<and> fs_ext x L p L' p'
     \<and> (\<forall>j. slot L p j \<noteq> 0 \<longrightarrow> slot L' p' j = slot L p j)
     \<and> (if a = 0 then used_below L' x (unat (sb_size x)) else slot L' p' k = a)"

lemma mapped_refl: "slot L p k = a \<Longrightarrow> a \<noteq> 0 \<Longrightarrow> mapped x L p k a L p"
  by (simp add: mapped_def)

lemma mapped_full: "used_below L x (unat (sb_size x)) \<Longrightarrow> mapped x L p k 0 L p"
  by (simp add: mapped_def)

lemma mapped_trans:
  assumes "mapped x L p j a L1 p1" and "mapped x L1 p1 k b L2 p2" and "wf_file L2 x p2"
  shows "mapped x L p k b L2 p2"
  using assms fs_ext_trans unfolding mapped_def by (metis (no_types))

lemma slot_direct:
  assumes "sb_ok x" and "wf_file L x p" and "data_blk x a" and "\<not> used L x a" and "bn < NDIRECT"
  shows "slot (allocd L x a) (p\<lparr>x_addrs := (x_addrs p)(bn := a)\<rparr>) = (slot L p)(bn := a)"
proof -
  have "x_addrs p NDIRECT \<noteq> 0 \<Longrightarrow> allocd L x a (x_addrs p NDIRECT) = L (x_addrs p NDIRECT)"
  proof (rule allocd_data [OF assms(1,3)])
    have e: "slot L p MAXFILE = x_addrs p NDIRECT" by (simp add: slot_def MAXFILE_def NINDIRECT_def)
    assume "x_addrs p NDIRECT \<noteq> 0"
    then show "data_blk x (x_addrs p NDIRECT)" and "x_addrs p NDIRECT \<noteq> a"
      using assms(2,4) e unfolding wf_file_def by metis+
  qed
  with assms(5) show ?thesis by (intro ext) (auto simp: slot_def)
qed

lemma of_le_zero: "of_le (replicate k 0) = 0"
  by (induction k) simp_all

lemma ld32_zero:
  assumes "\<And>i. i < 4 \<Longrightarrow> d (n + i) = 0"
  shows "ld32 d n = 0"
proof -
  have "rd d n 4 = replicate 4 0" by (rule nth_equalityI) (use assms in auto)
  then show ?thesis by (simp only: ld32_def of_le_zero)
qed

lemma slot_indirect:
  assumes "x_addrs p NDIRECT = 0"
  shows "slot (allocd L x a) (p\<lparr>x_addrs := (x_addrs p)(NDIRECT := a)\<rparr>) = (slot L p)(MAXFILE := a)"
proof
  fix k
  have "ld32 (allocd L x a a) (4 * (k - NDIRECT)) = 0" if "k < MAXFILE" "\<not> k < NDIRECT"
    by (rule ld32_zero, rule allocd_zero)
       (use that in \<open>auto simp: MAXFILE_def NDIRECT_def NINDIRECT_def BSIZE_def\<close>)
  with assms show "slot (allocd L x a) (p\<lparr>x_addrs := (x_addrs p)(NDIRECT := a)\<rparr>) k = ((slot L p)(MAXFILE := a)) k"
    by (auto simp: slot_def MAXFILE_def)
qed

lemma slot_entry:
  assumes "x_addrs p NDIRECT = ind" and "ind \<noteq> 0" and "NDIRECT \<le> bn" and "bn < MAXFILE"
    and "L' ind = st32 (L ind) (4 * (bn - NDIRECT)) a"
  shows "slot L' p = (slot L p)(bn := a)"
proof
  fix k
  have "ld32 (st32 d (4 * (bn - NDIRECT)) a) (4 * (k - NDIRECT)) = ld32 d (4 * (k - NDIRECT))"
    if "k \<noteq> bn" "\<not> k < NDIRECT" for d
  proof (rule ld32_st32_disjoint)
    from that assms(3) have "k - NDIRECT < bn - NDIRECT \<or> bn - NDIRECT < k - NDIRECT" by auto
    then show "4 * (k - NDIRECT) + 4 \<le> 4 * (bn - NDIRECT) \<or> 4 * (bn - NDIRECT) + 4 \<le> 4 * (k - NDIRECT)"
      by auto
  qed
  with assms show "slot L' p k = ((slot L p)(bn := a)) k"
    by (cases "k = bn") (auto simp: slot_def)
qed

lemma filevD:
  assumes "filev s0 pp p L s"
  shows "bview (with_priv s0 pp p) Map.empty {} L s" "sb_ok (sb s0)" "meta_used L (sb s0)"
    "wf_file L (sb s0) p" "x_dev p = 1" "NDIRECT < k \<Longrightarrow> x_addrs p k = 0"
  using assms by (simp_all add: filev_def wf_file_def)

text \<open>A fresh block put into an address of the inode itself, direct or indirect.\<close>

lemma mapped_addr:
  assumes f: "filev s0 pp p L s" and k: "k \<le> NDIRECT" "x_addrs p k = 0" and a: "data_blk (sb s0) a" "first_free L (sb s0) a"
    and v: "bview (with_priv s0 pp (p\<lparr>x_addrs := (x_addrs p)(k := a)\<rparr>)) Map.empty {} (allocd L (sb s0) a) t"
    and j: "j = (if k = NDIRECT then MAXFILE else k)"
  shows "filev s0 pp (p\<lparr>x_addrs := (x_addrs p)(k := a)\<rparr>) (allocd L (sb s0) a) t"
    and "mapped (sb s0) L p j a (allocd L (sb s0) a) (p\<lparr>x_addrs := (x_addrs p)(k := a)\<rparr>)"
proof -
  let ?x = "sb s0" and ?L = "allocd L (sb s0) a" and ?p = "p\<lparr>x_addrs := (x_addrs p)(k := a)\<rparr>"
  note d = filevD [OF f]
  have na: "\<not> used L ?x a" using a(2) by (simp add: first_free_def)
  have slots: "slot ?L ?p = (slot L p)(j := a)"
    using slot_direct [OF d(2,4) a(1) na] slot_indirect [of p L ?x a] k j by (cases "k = NDIRECT") auto
  have j0: "slot L p j = 0" "j \<le> MAXFILE"
    using k j by (auto simp: slot_def MAXFILE_def NINDIRECT_def)
  have add: "wf_file ?L ?x ?p" "fbytes ?L ?p = fbytes L p" "fs_ext ?x L p ?L ?p"
    using d(5,6) k(1)
    by (intro slot_add [OF d(2,4) a(1) na j0 slots];
        simp add: used_allocd [OF d(2) a(1)] allocd_data [OF d(2) a(1)] allocd_low [OF d(2) a(1)]
          allocd_zero)+
  show "filev s0 pp ?p ?L t"
    using v add(1) d(2) meta_used_allocd [OF d(2) a(1) d(3)] by (simp add: filev_def)
  have "a \<noteq> 0" using a(1) d(2) by (auto simp: data_blk_def sb_ok_def)
  with add(2,3) slots j0(1) show "mapped ?x L p j a ?L ?p" by (auto simp: mapped_def)
qed

text \<open>The step of \<open>bmap\<close> that fills an empty address of the inode.\<close>

lemma fill_rule:
  assumes f: "filev s0 pp p L s" and k: "k \<le> NDIRECT" "x_addrs p k = 0"
    and j: "j = (if k = NDIRECT then MAXFILE else k)"
  shows "runs (bnd (balloc (x_dev p)) (\<lambda>addr. if addr = 0 then ret 0
      else bnd (set_priv pp (p\<lparr>x_addrs := (x_addrs p)(k := addr)\<rparr>)) (\<lambda>_. ret addr)) s)
    (\<lambda>a s'. \<exists>p' L'. filev s0 pp p' L' s' \<and> mapped (sb s0) L p j a L' p')"
  unfolding filevD(5) [OF f]
proof (rule runs_bndI, rule balloc_rule [OF filevD(1) [OF f] _ _ hold_empty])
  show "sb s0 = sb (with_priv s0 pp p)" "sb_ok (sb s0)" "meta_used L (sb s0)"
    using filevD [OF f] by simp_all
  fix a t
  assume "a = 0 \<and> used_below L (sb s0) (unat (sb_size (sb s0))) \<and> bview (with_priv s0 pp p) Map.empty {} L t
    \<or> a \<noteq> 0 \<and> first_free L (sb s0) a \<and> data_blk (sb s0) a \<and> Map.empty a = None
      \<and> bview (with_priv s0 pp p) Map.empty {} (allocd L (sb s0) a) t"
  then consider "a = 0" "used_below L (sb s0) (unat (sb_size (sb s0)))" "bview (with_priv s0 pp p) Map.empty {} L t"
    | "a \<noteq> 0" "first_free L (sb s0) a" "data_blk (sb s0) a"
      "bview (with_priv s0 pp p) Map.empty {} (allocd L (sb s0) a) t" by blast
  then show "runs ((if a = 0 then ret 0
      else bnd (set_priv pp (p\<lparr>x_addrs := (x_addrs p)(k := a)\<rparr>)) (\<lambda>_. ret a)) t)
    (\<lambda>a s'. \<exists>p' L'. filev s0 pp p' L' s' \<and> mapped (sb s0) L p j a L' p')"
  proof cases
    case 1
    then have "filev s0 pp p L t" using f by (simp add: filev_def)
    with 1 show ?thesis by (auto intro: mapped_full)
  next
    case 2
    show ?thesis
      unfolding if_not_P [OF 2(1)]
    proof (rule set_priv_rule [OF 2(4)])
      fix s' assume "bview (with_priv s0 pp (p\<lparr>x_addrs := (x_addrs p)(k := a)\<rparr>)) Map.empty {}
        (allocd L (sb s0) a) s'"
      from mapped_addr [OF f k 2(3,2) this j]
      show "runs (ret a s') (\<lambda>a s'. \<exists>p' L'. filev s0 pp p' L' s' \<and> mapped (sb s0) L p j a L' p')"
        unfolding ret_apply runs_simps by blast
    qed
  qed
qed

text \<open>The step that fills an empty entry of the indirect block, which is held.\<close>

lemma mapped_entry:
  assumes f: "filev s0 pp p L s" and ind: "x_addrs p NDIRECT = ind" "ind \<noteq> 0"
    and bn: "NDIRECT \<le> bn" "bn < MAXFILE" "slot L p bn = 0"
    and a: "data_blk (sb s0) a" "first_free L (sb s0) a"
    and L': "L' = (allocd L (sb s0) a)(ind := st32 (allocd L (sb s0) a ind) (4 * (bn - NDIRECT)) a)"
  shows "meta_used L' (sb s0)" and "wf_file L' (sb s0) p" and "mapped (sb s0) L p bn a L' p"
proof -
  let ?x = "sb s0"
  note d = filevD [OF f]
  have na: "\<not> used L ?x a" using a(2) by (simp add: first_free_def)
  have islot: "slot L p MAXFILE = ind" using ind by (simp add: slot_def MAXFILE_def NINDIRECT_def)
  then have i: "data_blk ?x ind" "used L ?x ind" using d(4) ind(2) unfolding wf_file_def by metis+
  then have "ind \<noteq> a" using na by auto
  then have ai: "allocd L ?x a ind = L ind" using allocd_data [OF d(2) a(1) i(1)] by simp
  have slots: "slot L' p = (slot L p)(bn := a)"
    by (rule slot_entry [OF ind bn(1,2)]) (simp add: L' ai)
  have map': "L' (BBLOCK c ?x) = allocd L ?x a (BBLOCK c ?x)" if "unat c < unat (sb_size ?x)" for c
    using BBLOCK_not_data [OF d(2) that] i(1) by (auto simp: L')
  have used': "used L' ?x c \<longleftrightarrow> c = a \<or> used L ?x c" if "unat c < unat (sb_size ?x)" for c
    using used_other [of L' c ?x "allocd L ?x a"] map' [OF that] used_allocd [OF d(2) a(1) that] by simp
  have low: "unat b < unat (sb_bmapstart ?x) \<Longrightarrow> b \<noteq> ind" for b
    using i(1) d(2) by (auto simp: data_blk_def sb_ok_def)
  have add: "wf_file L' ?x p" "fbytes L' p = fbytes L p" "fs_ext ?x L p L' p"
    using d(5,6) bn islot \<open>ind \<noteq> a\<close> low
    by (intro slot_add [OF d(2,4) a(1) na bn(3) _ slots used'];
        simp add: L' allocd_data [OF d(2) a(1)] allocd_low [OF d(2) a(1)] allocd_zero)+
  show "wf_file L' ?x p" by (rule add)
  have size: "data_start ?x \<le> unat (sb_size ?x)" using d(2) by (simp add: sb_ok_def)
  show "meta_used L' ?x" using d(3) used' size by (auto simp: meta_used_def)
  have "a \<noteq> 0" using a(1) d(2) by (auto simp: data_blk_def sb_ok_def)
  with add(2,3) slots bn(3) show "mapped ?x L p bn a L' p" by (auto simp: mapped_def)
qed

lemma entry_rule:
  assumes f: "filev s0 pp p L s" and ind: "x_addrs p NDIRECT = ind" "ind \<noteq> 0"
    and bn: "NDIRECT \<le> bn" "bn < MAXFILE"
  shows "runs (bnd (bread 1 ind) (\<lambda>bp.
         bnd (buf_data bp) (\<lambda>d.
         bnd (if ld32 d (4 * (bn - NDIRECT)) \<noteq> 0 then ret (ld32 d (4 * (bn - NDIRECT)))
              else bnd (balloc 1) (\<lambda>addr.
                if addr = 0 then ret 0
                else bnd (upd_data bp (\<lambda>d. st32 d (4 * (bn - NDIRECT)) addr)) (\<lambda>_.
                  bnd (bwrite bp) (\<lambda>_. ret addr))))
         (\<lambda>addr. bnd (brelse bp) (\<lambda>_. ret addr)))) s)
    (\<lambda>a s'. \<exists>p' L'. filev s0 pp p' L' s' \<and> mapped (sb s0) L p bn a L' p')"
proof -
  let ?x = "sb s0" and ?s0 = "with_priv s0 pp p" and ?j = "4 * (bn - NDIRECT)"
  note d = filevD [OF f]
  have islot: "slot L p MAXFILE = ind" using ind by (simp add: slot_def MAXFILE_def NINDIRECT_def)
  then have i: "data_blk ?x ind" "used L ?x ind" using d(4) ind(2) unfolding wf_file_def by metis+
  have e: "slot L p bn = ld32 (L ind) ?j" using ind bn by (simp add: slot_def)
  have fin: "runs (bnd (brelse bp) (\<lambda>_. ret a) t)
      (\<lambda>a s'. \<exists>p' L'. filev s0 pp p' L' s' \<and> mapped ?x L p bn a L' p')"
    if "bview ?s0 [ind \<mapsto> bp] {} L' t" "meta_used L' ?x" "wf_file L' ?x p" "mapped ?x L p bn a L' p"
    for bp a L' t
    by (rule bs.rel_rule [OF that(1), of ind]) (use that(2-4) d(2) in \<open>auto simp: filev_def\<close>)
  show ?thesis
  proof (rule bs.get_rule [OF d(1)])
    fix bp t assume v: "bview ?s0 [ind \<mapsto> bp] {} L t"
    show "runs (bnd (buf_data bp) (\<lambda>d.
         bnd (if ld32 d ?j \<noteq> 0 then ret (ld32 d ?j)
              else bnd (balloc 1) (\<lambda>addr.
                if addr = 0 then ret 0
                else bnd (upd_data bp (\<lambda>d. st32 d ?j addr)) (\<lambda>_.
                  bnd (bwrite bp) (\<lambda>_. ret addr))))
         (\<lambda>addr. bnd (brelse bp) (\<lambda>_. ret addr))) t)
      (\<lambda>a s'. \<exists>p' L'. filev s0 pp p' L' s' \<and> mapped ?x L p bn a L' p')"
      unfolding buf_data_def
    proof (rule bs.content_rule [OF v, of ind, where g = "\<lambda>d. d"])
      show "runs (bnd (if ld32 (L ind) ?j \<noteq> 0 then ret (ld32 (L ind) ?j)
              else bnd (balloc 1) (\<lambda>addr.
                if addr = 0 then ret 0
                else bnd (upd_data bp (\<lambda>d. st32 d ?j addr)) (\<lambda>_.
                  bnd (bwrite bp) (\<lambda>_. ret addr))))
         (\<lambda>addr. bnd (brelse bp) (\<lambda>_. ret addr)) t)
        (\<lambda>a s'. \<exists>p' L'. filev s0 pp p' L' s' \<and> mapped ?x L p bn a L' p')"
      proof (cases "ld32 (L ind) ?j = 0")
        case False
        have "mapped ?x L p bn (ld32 (L ind) ?j) L p" using e False by (intro mapped_refl) simp_all
        from fin [OF v d(3,4) this] False show ?thesis by simp
      next
        case True
        have h: "hold_ok [ind \<mapsto> bp] L ?x" using i by (simp add: hold_ok_def)
        show ?thesis
          unfolding bnd_assoc if_not_P [OF not_not [THEN iffD2, OF True]]
        proof (rule runs_bndI, rule balloc_rule [OF v _ _ h])
          show "sb s0 = sb ?s0" "sb_ok ?x" "meta_used L ?x" using d by simp_all
          fix a u
          assume "a = 0 \<and> used_below L ?x (unat (sb_size ?x)) \<and> bview ?s0 [ind \<mapsto> bp] {} L u
            \<or> a \<noteq> 0 \<and> first_free L ?x a \<and> data_blk ?x a \<and> [ind \<mapsto> bp] a = None
              \<and> bview ?s0 [ind \<mapsto> bp] {} (allocd L ?x a) u"
          then consider "a = 0" "used_below L ?x (unat (sb_size ?x))" "bview ?s0 [ind \<mapsto> bp] {} L u"
            | "a \<noteq> 0" "first_free L ?x a" "data_blk ?x a" "bview ?s0 [ind \<mapsto> bp] {} (allocd L ?x a) u"
            by blast
          then show "runs (bnd (if a = 0 then ret 0
                else bnd (upd_data bp (\<lambda>d. st32 d ?j a)) (\<lambda>_. bnd (bwrite bp) (\<lambda>_. ret a)))
              (\<lambda>addr. bnd (brelse bp) (\<lambda>_. ret addr)) u)
            (\<lambda>a s'. \<exists>p' L'. filev s0 pp p' L' s' \<and> mapped ?x L p bn a L' p')"
          proof cases
            case 1
            from fin [OF 1(3) d(3,4) mapped_full [OF 1(2)]] 1(1) show ?thesis by simp
          next
            case 2
            have "slot L p bn = 0" using e True by simp
            note m = mapped_entry [OF f ind bn this 2(3,2) refl]
            show ?thesis
              unfolding bnd_assoc if_not_P [OF 2(1)]
              apply (rule bs.store_rule [OF 2(4), of ind], simp)
              apply (rule bs.put_rule [where n = ind], assumption, simp)
              apply (simp only: bnd_ret_left)
              by (rule fin [OF _ m]) simp
          qed
        qed
      qed
    qed simp
  qed (simp_all add: NBUF_def)
qed

lemma bmap_rule:
  assumes f: "filev s0 pp p L s" and bn: "bn < MAXFILE"
  shows "runs (bmap pp bn s) (\<lambda>a s'. \<exists>p' L'. filev s0 pp p' L' s' \<and> mapped (sb s0) L p bn a L' p')"
    (is "runs _ ?Q")
proof -
  note d = filevD [OF f]
  note fin = get_priv_rule [OF d(1)]
  show ?thesis
  proof (cases "bn < NDIRECT")
    case True
    show ?thesis
    proof (cases "x_addrs p bn = 0")
      case False
      with True have "mapped (sb s0) L p bn (x_addrs p bn) L p" by (intro mapped_refl) (simp_all add: slot_def)
      with f have "?Q (x_addrs p bn) s" by blast
      with True False show ?thesis unfolding bmap_def by (intro fin) (simp del: split_paired_Ex)
    next
      case z: True
      with True show ?thesis
        unfolding bmap_def by (intro fin) (simp, rule fill_rule [OF f], simp_all)
    qed
  next
    case False
    with bn have range: "\<not> bn < NDIRECT" "bn - NDIRECT < NINDIRECT" "NDIRECT \<le> bn"
      by (auto simp: MAXFILE_def)
    let ?first = "if x_addrs p NDIRECT \<noteq> 0 then ret (x_addrs p NDIRECT)
          else bnd (balloc (x_dev p)) (\<lambda>addr. if addr = 0 then ret 0
            else bnd (set_priv pp (p\<lparr>x_addrs := (x_addrs p)(NDIRECT := addr)\<rparr>)) (\<lambda>_. ret addr))"
    have first: "runs (?first s) (\<lambda>a s'. \<exists>p' L'. filev s0 pp p' L' s' \<and> mapped (sb s0) L p MAXFILE a L' p')"
    proof (cases "x_addrs p NDIRECT = 0")
      case True
      then show ?thesis by (simp, intro fill_rule [OF f]) simp_all
    next
      case False
      then have "mapped (sb s0) L p MAXFILE (x_addrs p NDIRECT) L p"
        by (intro mapped_refl) (simp_all add: slot_def MAXFILE_def NINDIRECT_def)
      with f False show ?thesis by auto
    qed
    show ?thesis
      unfolding bmap_def
      apply (rule fin)
      unfolding if_not_P [OF range(1)] if_P [OF range(2)]
      apply (rule runs_bndI, rule first)
      apply (elim exE conjE)
      subgoal premises prems for ind t p1 L1
      proof (cases "ind = 0")
        case True
        with prems(2) have "mapped (sb s0) L p bn 0 L1 p1" by (simp add: mapped_def)
        with True prems(1) show ?thesis by auto
      next
        case False
        with prems(2) have "x_addrs p1 NDIRECT = ind"
          by (simp add: mapped_def slot_def MAXFILE_def NINDIRECT_def)
        note r = entry_rule [OF prems(1) this False range(3) bn]
        show ?thesis
          unfolding if_not_P [OF False] d(5)
          by (rule runs_mono [OF r]) (use prems(2) mapped_trans filevD(4) in blast)
      qed
      done
  qed
qed

section \<open>Reading\<close>

lemma piece_inside:
  assumes "i < piece off m"
  shows "(off + i) div BSIZE = off div BSIZE" and "(off + i) mod BSIZE = off mod BSIZE + i"
proof -
  have le: "off mod BSIZE + i < BSIZE" using assms by (auto simp: piece_def)
  then have "(off mod BSIZE + i mod BSIZE) div BSIZE = 0" and "i div BSIZE = 0" by simp_all
  then show "(off + i) div BSIZE = off div BSIZE" by (subst div_add1_eq) simp
  have "(off + i) mod BSIZE = (off mod BSIZE + i) mod BSIZE" by (simp only: mod_add_left_eq)
  with le show "(off + i) mod BSIZE = off mod BSIZE + i" by simp
qed

lemma fbytes_piece:
  assumes "slot L p (off div BSIZE) = a" and "a \<noteq> 0" and "off + piece off m \<le> MAXFILE * BSIZE"
  shows "rd (L a) (off mod BSIZE) (piece off m) = rd (fbytes L p) off (piece off m)"
  using assms piece_inside [of _ off m] by (auto simp: fbytes_def intro!: nth_equalityI)

lemma copyout_KVar_rule:
  "bview s0 H X L s \<Longrightarrow> runs (f 0 s) Q \<Longrightarrow> runs (bnd (either_copyout KVar bs) f s) Q"
  using bview_kctx [of s0 H X L s] by (simp add: runs_bnd either_copyout_KVar)

lemma copyin_KSrc_rule:
  "bview s0 H X L s \<Longrightarrow> runs (f (0, take n bs) s) Q \<Longrightarrow> runs (bnd (either_copyin (KSrc bs) n) f s) Q"
  using bview_kctx [of s0 H X L s] by (simp add: runs_bnd either_copyin_KSrc)

lemma block_index: "off < MAXFILE * BSIZE \<Longrightarrow> off div BSIZE < MAXFILE"
  by (simp add: less_mult_imp_div_less)

text \<open>
  What a transfer leaves: the file \<open>p'\<close> over \<open>L'\<close> after \<open>m\<close> of \<open>n\<close> bytes; fewer only when the
  disk is full.
\<close>

definition moved :: "xv6fs_super_block \<Rightarrow> (u32 \<Rightarrow> bytes) \<Rightarrow> xv6fs_inode \<Rightarrow> (u32 \<Rightarrow> bytes) \<Rightarrow>
    xv6fs_inode \<Rightarrow> nat \<Rightarrow> nat \<Rightarrow> bool" where
  "moved x L p L' p' m n \<longleftrightarrow> fs_ext x L p L' p' \<and> m \<le> n \<and> (m < n \<longrightarrow> used_below L' x (unat (sb_size x)))"

lemma readi_loop_rule:
  assumes f: "filev s0 pp p L s" and i: "i_private (itable s0 ip) = pp" "i_dev (itable s0 ip) = 1"
    and n: "tot \<le> n" "off + (n - tot) \<le> MAXFILE * BSIZE"
  shows "runs (readi_loop ip KVar off n tot s) (\<lambda>r s'. \<exists>p' L' m.
     filev s0 pp p' L' s' \<and> fbytes L' p' = fbytes L p \<and> moved (sb s0) L p L' p' m (n - tot)
     \<and> r = (int (tot + m), rd (fbytes L p) off m))"
  using assms
proof (induction "n - tot" arbitrary: off tot p L s rule: less_induct)
  case less
  note f = less.prems(1)
  show ?case
  proof (cases "n \<le> tot")
    case True
    with f show ?thesis
      by (subst readi_loop.simps) (auto simp: moved_def intro!: exI [of _ p] exI [of _ L])
  next
    case False
    let ?m = "piece off (n - tot)" and ?x = "sb s0"
    have m: "0 < ?m" "?m \<le> n - tot" using False by (simp_all add: piece_pos piece_le)
    have it: "itable s = itable s0" using bview_fs(2) [OF filevD(1) [OF f]] by simp
    have "off < MAXFILE * BSIZE" using less.prems(5) False by simp
    note bm = bmap_rule [OF f block_index [OF this]]
    show ?thesis
      apply (subst readi_loop.simps)
      unfolding if_not_P [OF False] get_inode_def runs_gets it less.prems(2,3)
      apply (rule runs_bndI, rule bm)
      apply (elim exE conjE)
      subgoal premises prems for a t p1 L1
      proof (cases "a = 0")
        case True
        with prems m show ?thesis
          by (auto simp: moved_def mapped_def intro!: exI [of _ p1] exI [of _ L1] exI [of _ 0])
      next
        case False
        note v1 = filevD(1) [OF prems(1)]
        have sl: "slot L1 p1 (off div BSIZE) = a" and fb: "fbytes L1 p1 = fbytes L p"
          and ex: "fs_ext ?x L p L1 p1" using prems(2) False by (simp_all add: mapped_def)
        have data: "rd (L1 a) (off mod BSIZE) ?m = rd (fbytes L p) off ?m"
          using fbytes_piece [OF sl False, of "n - tot"] less.prems(5) m fb by simp
        have rest: "runs (bnd (readi_loop ip (dst_add KVar ?m) (off + ?m) n (tot + ?m)) (\<lambda>q.
             ret (fst q, rd (fbytes L p) off ?m @ snd q)) u) (\<lambda>r s'. \<exists>p' L' m.
           filev s0 pp p' L' s' \<and> fbytes L' p' = fbytes L p \<and> moved ?x L p L' p' m (n - tot)
           \<and> r = (int (tot + m), rd (fbytes L p) off m))"
          if u: "filev s0 pp p1 L1 u" for u
        proof (rule runs_bndI)
          have "dst_add KVar ?m = KVar" by (simp add: dst_add_def)
          moreover have "runs (readi_loop ip KVar (off + ?m) n (tot + ?m) u) (\<lambda>r s'. \<exists>p' L' m.
             filev s0 pp p' L' s' \<and> fbytes L' p' = fbytes L1 p1 \<and> moved ?x L1 p1 L' p' m (n - (tot + ?m))
             \<and> r = (int (tot + ?m + m), rd (fbytes L1 p1) (off + ?m) m))"
            using m less.prems by (intro less.hyps [OF _ u]) auto
          ultimately show "runs (readi_loop ip (dst_add KVar ?m) (off + ?m) n (tot + ?m) u) (\<lambda>r s'. \<exists>p' L' m.
             filev s0 pp p' L' s' \<and> fbytes L' p' = fbytes L1 p1 \<and> moved ?x L1 p1 L' p' m (n - (tot + ?m))
             \<and> r = (int (tot + ?m + m), rd (fbytes L1 p1) (off + ?m) m))" by simp
          fix q w
          assume "\<exists>p' L' k. filev s0 pp p' L' w \<and> fbytes L' p' = fbytes L1 p1
             \<and> moved ?x L1 p1 L' p' k (n - (tot + ?m))
             \<and> q = (int (tot + ?m + k), rd (fbytes L1 p1) (off + ?m) k)"
          then obtain p' L' k where w: "filev s0 pp p' L' w" "fbytes L' p' = fbytes L1 p1"
             "moved ?x L1 p1 L' p' k (n - (tot + ?m))"
             "q = (int (tot + ?m + k), rd (fbytes L1 p1) (off + ?m) k)" by blast
          have "moved ?x L p L' p' (?m + k) (n - tot)"
            using w(3) m fs_ext_trans [OF ex _ filevD(4) [OF w(1)]] by (auto simp: moved_def)
          with w fb show "runs (ret (fst q, rd (fbytes L p) off ?m @ snd q) w) (\<lambda>r s'. \<exists>p' L' m.
             filev s0 pp p' L' s' \<and> fbytes L' p' = fbytes L p \<and> moved ?x L p L' p' m (n - tot)
             \<and> r = (int (tot + m), rd (fbytes L p) off m))"
            by (auto simp: rd_append intro!: exI [of _ p'] exI [of _ L'] exI [of _ "?m + k"])
        qed
        show ?thesis
          unfolding if_not_P [OF False]
          apply (rule bs.get_rule [OF v1], simp, simp add: NBUF_def)
          apply (rule bs.content_rule [where n = a and g = "\<lambda>d. rd d (off mod BSIZE) ?m"], assumption, simp)
          apply (rule copyout_KVar_rule, assumption, subst if_not_P, simp)
          unfolding data
          apply (rule bs.rel_rule [where n = a], assumption, simp, simp)
          apply (rule rest)
          using prems(1) by (simp add: filev_def)
      qed
      done
  qed
qed

section \<open>Writing\<close>

text \<open>Overwriting part of a block of the file.\<close>

lemma file_write:
  assumes ok: "sb_ok x" and wf: "wf_file L x p" and mu: "meta_used L x"
    and a: "slot L p (off div BSIZE) = a" "a \<noteq> 0" and bs: "length bs \<le> BSIZE - off mod BSIZE"
    and off: "off < MAXFILE * BSIZE"
    and L': "L' = L(a := wr (L a) (off mod BSIZE) bs)"
  shows "wf_file L' x p" and "meta_used L' x" and "fbytes L' p = wr (fbytes L p) off bs"
    and "fs_ext x L p L' p"
proof -
  let ?j = "off div BSIZE"
  have j: "?j < MAXFILE" by (rule block_index [OF off])
  have blk: "data_blk x (slot L p k) \<and> used L x (slot L p k)" if "slot L p k \<noteq> 0" for k
    using wf that by (simp add: wf_file_def)
  have inj: "k = ?j" if "slot L p k = a" for k
    using wf that a unfolding wf_file_def by metis
  have da: "data_blk x a" using blk a by metis
  have "x_addrs p NDIRECT \<noteq> a"
    using inj [of MAXFILE] j by (auto simp: slot_def MAXFILE_def NINDIRECT_def)
  then have slots: "slot L' p = slot L p" by (intro ext) (simp add: slot_def L')
  have used': "used L' x c = used L x c" if "unat c < unat (sb_size x)" for c
    by (rule used_other) (use BBLOCK_not_data [OF ok that] da L' in auto)
  have size: "data_blk x b \<Longrightarrow> unat b < unat (sb_size x)" for b by (simp add: data_blk_def)
  show "wf_file L' x p" using wf blk used' size unfolding wf_file_def slots by blast
  show "meta_used L' x" using mu used' ok by (auto simp: meta_used_def sb_ok_def)
  have at: "L' a = wr (L a) (off mod BSIZE) bs" and off_a: "b \<noteq> a \<Longrightarrow> L' b = L b" for b
    by (simp_all add: L')
  show "fbytes L' p = wr (fbytes L p) off bs"
  proof
    fix pos
    show "fbytes L' p pos = wr (fbytes L p) off bs pos"
    proof (cases "pos div BSIZE = ?j")
      case True
      define c where "c = ?j * BSIZE"
      have pos: "pos = c + pos mod BSIZE" and o: "off = c + off mod BSIZE"
        using True div_mult_mod_eq [of pos BSIZE] div_mult_mod_eq [of off BSIZE] by (simp_all add: c_def)
      have cmp: "off \<le> pos \<longleftrightarrow> off mod BSIZE \<le> pos mod BSIZE" using pos o by linarith
      have sub: "off \<le> pos \<Longrightarrow> pos mod BSIZE - off mod BSIZE = pos - off" using pos o by linarith
      have lt: "pos < off + length bs \<longleftrightarrow> pos mod BSIZE < off mod BSIZE + length bs"
        using pos o by linarith
      have "pos div BSIZE < MAXFILE" using True j by simp
      then have "pos < MAXFILE * BSIZE"
        using div_less_iff_less_mult [of BSIZE pos MAXFILE] by (simp add: BSIZE_def)
      then show ?thesis
        using True a cmp sub lt by (auto simp: fbytes_def slots at wr_def)
    next
      case False
      then have "slot L p (pos div BSIZE) \<noteq> a" using inj by blast
      moreover have "\<not> (off \<le> pos \<and> pos < off + length bs)"
      proof
        assume p: "off \<le> pos \<and> pos < off + length bs"
        then have "pos - off < piece off (length bs)" using bs by (auto simp: piece_def)
        from piece_inside(1) [OF this] p False show False by simp
      qed
      ultimately show ?thesis by (auto simp: fbytes_def slots off_a wr_def)
    qed
  qed
  have "a \<in> fblocks L p" using a j by (auto simp: fblocks_def)
  moreover have "unat a \<ge> unat (sb_bmapstart x)" using da ok by (auto simp: data_blk_def sb_ok_def)
  ultimately show "fs_ext x L p L' p"
    using used' unfolding fs_ext_def fblocks_def slots by (auto intro: off_a)
qed

lemma wr_take_append:
  "k \<le> length bs \<Longrightarrow> wr (wr m off (take k bs)) (off + k) (take j (drop k bs)) = wr m off (take (k + j) bs)"
  using wr_append [of m off "take k bs" "take j (drop k bs)"] by (simp add: take_add)

lemma writei_loop_rule:
  assumes f: "filev s0 pp p L s" and i: "i_private (itable s0 ip) = pp" "i_dev (itable s0 ip) = 1"
    and n: "tot \<le> n" "off + (n - tot) \<le> MAXFILE * BSIZE" and bs: "n - tot \<le> length bs"
  shows "runs (writei_loop ip (KSrc bs) off n tot s) (\<lambda>r s'. \<exists>p' L' m.
     filev s0 pp p' L' s' \<and> fbytes L' p' = wr (fbytes L p) off (take m bs)
     \<and> moved (sb s0) L p L' p' m (n - tot) \<and> r = (tot + m, off + m))"
  using assms
proof (induction "n - tot" arbitrary: off tot p L s bs rule: less_induct)
  case less
  note f = less.prems(1)
  show ?case
  proof (cases "n \<le> tot")
    case True
    with f show ?thesis
      by (subst writei_loop.simps) (auto simp: moved_def intro!: exI [of _ p] exI [of _ L])
  next
    case False
    let ?m = "piece off (n - tot)" and ?x = "sb s0"
    have m: "0 < ?m" "?m \<le> n - tot" "?m \<le> BSIZE - off mod BSIZE"
      using False by (simp_all add: piece_pos piece_le) (simp add: piece_def)
    have it: "itable s = itable s0" using bview_fs(2) [OF filevD(1) [OF f]] by simp
    have off: "off < MAXFILE * BSIZE" using less.prems(5) False by simp
    note bm = bmap_rule [OF f block_index [OF off]]
    show ?thesis
      apply (subst writei_loop.simps)
      unfolding if_not_P [OF False] get_inode_def runs_gets it less.prems(2,3)
      apply (rule runs_bndI, rule bm)
      apply (elim exE conjE)
      subgoal premises prems for a t p1 L1
      proof (cases "a = 0")
        case True
        with prems m show ?thesis
          by (auto simp: moved_def mapped_def intro!: exI [of _ p1] exI [of _ L1] exI [of _ 0])
      next
        case False
        note d1 = filevD [OF prems(1)]
        have sl: "slot L1 p1 (off div BSIZE) = a" and fb: "fbytes L1 p1 = fbytes L p"
          and ex: "fs_ext ?x L p L1 p1" using prems(2) False by (simp_all add: mapped_def)
        define L2 where "L2 = L1(a := wr (L1 a) (off mod BSIZE) (take ?m bs))"
        have len: "length (take ?m bs) = ?m" using m(2) less.prems(6) by simp
        then have "length (take ?m bs) \<le> BSIZE - off mod BSIZE" using m(3) by simp
        note w = file_write [OF d1(2,4,3) sl False this off L2_def]
        have fb2: "fbytes L2 p1 = wr (fbytes L p) off (take ?m bs)" using w(3) fb by simp
        have ex2: "fs_ext ?x L p L2 p1" by (rule fs_ext_trans [OF ex w(4,1)])
        have rest: "runs (writei_loop ip (src_add (KSrc bs) ?m) (off + ?m) n (tot + ?m) u)
            (\<lambda>r s'. \<exists>p' L' m. filev s0 pp p' L' s' \<and> fbytes L' p' = wr (fbytes L p) off (take m bs)
             \<and> moved ?x L p L' p' m (n - tot) \<and> r = (tot + m, off + m))"
          if u: "filev s0 pp p1 L2 u" for u
        proof -
          have "src_add (KSrc bs) ?m = KSrc (drop ?m bs)" by (simp add: src_add_def)
          moreover have "runs (writei_loop ip (KSrc (drop ?m bs)) (off + ?m) n (tot + ?m) u)
             (\<lambda>r s'. \<exists>p' L' m. filev s0 pp p' L' s'
               \<and> fbytes L' p' = wr (fbytes L2 p1) (off + ?m) (take m (drop ?m bs))
               \<and> moved ?x L2 p1 L' p' m (n - (tot + ?m)) \<and> r = (tot + ?m + m, off + ?m + m))"
          proof (rule less.hyps [OF _ u less.prems(2,3)])
            show "n - (tot + ?m) < n - tot" "tot + ?m \<le> n" using m(1,2) less.prems(4) by linarith+
            show "off + ?m + (n - (tot + ?m)) \<le> MAXFILE * BSIZE" using m(2) less.prems(4,5) by linarith
            show "n - (tot + ?m) \<le> length (drop ?m bs)"
              using diff_le_mono [OF less.prems(6), of ?m] by simp
          qed
          moreover have "\<exists>p' L' m. filev s0 pp p' L' w \<and> fbytes L' p' = wr (fbytes L p) off (take m bs)
               \<and> moved ?x L p L' p' m (n - tot) \<and> q = (tot + m, off + m)"
            if w: "filev s0 pp p' L' w" "fbytes L' p' = wr (fbytes L2 p1) (off + ?m) (take k (drop ?m bs))"
               "moved ?x L2 p1 L' p' k (n - (tot + ?m))" "q = (tot + ?m + k, off + ?m + k)"
            for p' L' k q w
          proof (intro exI conjI)
            show "filev s0 pp p' L' w" by (rule w)
            show "fbytes L' p' = wr (fbytes L p) off (take (?m + k) bs)"
              using w(2) m(2) less.prems(6) by (simp add: fb2 wr_take_append)
            show "moved ?x L p L' p' (?m + k) (n - tot)"
              using w(3) m fs_ext_trans [OF ex2 _ filevD(4) [OF w(1)]] by (auto simp: moved_def)
            show "q = (tot + (?m + k), off + (?m + k))" using w(4) by simp
          qed
          ultimately show ?thesis by (elim runsE) (auto simp: runs_def)
        qed
        show ?thesis
          unfolding if_not_P [OF False]
          apply (rule bs.get_rule [OF d1(1)], simp, simp add: NBUF_def)
          apply (rule copyin_KSrc_rule, assumption)
          unfolding fst_conv snd_conv
          apply (rule bs.store_rule [where n = a], assumption, simp)
          apply (subst if_not_P, simp)
          apply (rule bs.put_rule [where n = a], assumption, simp)
          apply (rule bs.rel_rule [where n = a], assumption, simp, simp)
          apply (rule rest)
          using w(1,2) d1(2) by (simp add: filev_def L2_def)
      qed
      done
  qed
qed

section \<open>The inode block\<close>

definition dinode_of :: "inode \<Rightarrow> xv6fs_inode \<Rightarrow> dinode" where
  "dinode_of i p = \<lparr>di_type = i_type i, di_major = x_major p, di_minor = x_minor p,
     di_nlink = i_nlink i, di_size = i_size i, di_addrs = x_addrs p\<rparr>"

definition ino_ok :: "xv6fs_super_block \<Rightarrow> u32 \<Rightarrow> bool" where
  "ino_ok x n \<longleftrightarrow> unat n < unat (sb_ninodes x)"

definition disk_inode :: "(u32 \<Rightarrow> bytes) \<Rightarrow> xv6fs_super_block \<Rightarrow> u32 \<Rightarrow> dinode" where
  "disk_inode L x n = ld_dinode (L (IBLOCK n x)) (di_off n)"

definition put_inode :: "(u32 \<Rightarrow> bytes) \<Rightarrow> xv6fs_super_block \<Rightarrow> u32 \<Rightarrow> dinode \<Rightarrow> u32 \<Rightarrow> bytes" where
  "put_inode L x n d = L(IBLOCK n x := st_dinode (L (IBLOCK n x)) (di_off n) d)"

lemma unat_IBLOCK:
  assumes "sb_ok x" and "ino_ok x n"
  shows "unat (IBLOCK n x) = unat n div 16 + unat (sb_inodestart x)"
    and "unat (IBLOCK n x) < unat (sb_bmapstart x)"
proof -
  have "unat n div 16 \<le> unat (sb_ninodes x) div 16" using assms(2) by (simp add: div_le_mono ino_ok_def)
  then have lt: "unat n div 16 + unat (sb_inodestart x) < unat (sb_bmapstart x)"
    using assms(1) by (auto simp: sb_ok_def)
  moreover have "unat (sb_bmapstart x) < 2 ^ 32" using unsigned_less [of "sb_bmapstart x", where 'a = nat] by simp
  ultimately show eq: "unat (IBLOCK n x) = unat n div 16 + unat (sb_inodestart x)"
    by (simp add: IBLOCK_def unat_word_ariths unat_div)
  with lt show "unat (IBLOCK n x) < unat (sb_bmapstart x)" by simp
qed

lemma disk_put_same:
  "(\<And>k. NDIRECT < k \<Longrightarrow> di_addrs d k = 0) \<Longrightarrow> disk_inode (put_inode L x n d) x n = d"
  by (simp add: disk_inode_def put_inode_def ld_st_dinode)

lemma disk_put_other:
  assumes "sb_ok x" and "ino_ok x n" and "ino_ok x m" and "m \<noteq> n"
  shows "disk_inode (put_inode L x n d) x m = disk_inode L x m"
proof (cases "IBLOCK m x = IBLOCK n x")
  case True
  then have "unat m div 16 = unat n div 16"
    using unat_IBLOCK(1) [OF assms(1,2)] unat_IBLOCK(1) [OF assms(1,3)] by simp
  moreover have "unat m \<noteq> unat n" using assms(4) by (simp add: word_unat_eq_iff)
  ultimately have "unat m mod 16 \<noteq> unat n mod 16" by (metis div_mult_mod_eq)
  then have "unat m mod 16 < unat n mod 16 \<or> unat n mod 16 < unat m mod 16" by auto
  then have "di_off m + 64 \<le> di_off n \<or> di_off n + 64 \<le> di_off m" by (auto simp: di_off_def IPB_def)
  with True show ?thesis by (simp add: disk_inode_def put_inode_def ld_st_dinode_other)
next
  case False
  then show ?thesis by (simp add: disk_inode_def put_inode_def)
qed

text \<open>Nothing a file shows depends on the blocks below the free map.\<close>

lemma low_update:
  assumes ok: "sb_ok x" and b: "unat b < unat (sb_bmapstart x)" and L': "L' = L(b := d)"
  shows "wf_file L x p \<Longrightarrow> wf_file L' x p" and "meta_used L x \<Longrightarrow> meta_used L' x"
    and "wf_file L x p \<Longrightarrow> fbytes L' p = fbytes L p" and "wf_file L x p \<Longrightarrow> slot L' p = slot L p"
    and "unat c < unat (sb_size x) \<Longrightarrow> used L' x c = used L x c"
proof -
  have nb: "\<not> data_blk x b" using b ok by (auto simp: data_blk_def sb_ok_def)
  have used': "used L' x c = used L x c" if "unat c < unat (sb_size x)" for c
    by (rule used_other) (use unat_BBLOCK(1) [OF ok that] b L' in auto)
  then show "unat c < unat (sb_size x) \<Longrightarrow> used L' x c = used L x c" .
  show mu: "meta_used L x \<Longrightarrow> meta_used L' x" using used' ok by (auto simp: meta_used_def sb_ok_def)
  assume wf: "wf_file L x p"
  have "x_addrs p NDIRECT \<noteq> 0 \<Longrightarrow> x_addrs p NDIRECT \<noteq> b"
  proof -
    assume "x_addrs p NDIRECT \<noteq> 0"
    then have "slot L p MAXFILE \<noteq> 0" and e: "slot L p MAXFILE = x_addrs p NDIRECT"
      by (simp_all add: slot_def MAXFILE_def NINDIRECT_def)
    then have "data_blk x (x_addrs p NDIRECT)" using wf unfolding wf_file_def by metis
    with nb show "x_addrs p NDIRECT \<noteq> b" by auto
  qed
  then show slots: "slot L' p = slot L p" by (intro ext) (simp add: slot_def L')
  have blk: "data_blk x (slot L p k) \<and> used L x (slot L p k)" if "slot L p k \<noteq> 0" for k
    using wf that by (simp add: wf_file_def)
  have size: "data_blk x b \<Longrightarrow> unat b < unat (sb_size x)" for b by (simp add: data_blk_def)
  show "wf_file L' x p" using wf blk used' size unfolding wf_file_def slots by blast
  have "L' (slot L p k) = L (slot L p k)" if "slot L p k \<noteq> 0" for k
    using blk [OF that] nb L' by auto
  then show "fbytes L' p = fbytes L p" by (intro ext) (simp add: fbytes_def slots)
qed

section \<open>The calls on an inode\<close>

text \<open>The state with the in-memory \<open>struct inode\<close> \<open>i\<close> at index \<open>ip\<close>.\<close>

definition with_ino :: "'a fs_st_scheme \<Rightarrow> nat \<Rightarrow> inode \<Rightarrow> 'a fs_st_scheme" where
  "with_ino s0 ip i = s0\<lparr>itable := (itable s0)(ip := i)\<rparr>"

lemma with_ino_simps [simp]:
  "sb (with_ino s0 ip i) = sb s0" "itable (with_ino s0 ip i) = (itable s0)(ip := i)"
  "privs (with_ino s0 ip i) = privs s0" "with_ino (with_ino s0 ip i) ip j = with_ino s0 ip j"
  "with_ino s0 ip (itable s0 ip) = s0" "procs (with_ino s0 ip i) = procs s0"
  by (simp_all add: with_ino_def)

lemma with_ino_priv: "(with_priv s0 pp p)\<lparr>itable := (itable s0)(ip := i)\<rparr> = with_priv (with_ino s0 ip i) pp p"
  by (simp add: with_ino_def with_priv_def)

lemma set_inode_rule:
  assumes "bview (with_priv s0 pp p) H X L s"
    and "\<And>s'. bview (with_priv (with_ino s0 ip (f (itable s0 ip))) pp p) H X L s' \<Longrightarrow> runs (g () s') Q"
  shows "runs (bnd (set_inode ip f) g s) Q"
proof -
  have "itable s = itable s0" using bview_fs(2) [OF assms(1)] by simp
  moreover have "bview (with_priv (with_ino s0 ip (f (itable s0 ip))) pp p) H X L
      (s\<lparr>itable := (itable s0)(ip := f (itable s0 ip))\<rparr>)"
    using bview_upd(2) [OF assms(1), of "(itable s0)(ip := f (itable s0 ip))"]
    by (simp add: with_ino_priv)
  ultimately show ?thesis using assms(2) by (simp add: set_inode_def runs_bnd)
qed

lemma filev_low:
  assumes "filev s0 pp p L s" and "unat b < unat (sb_bmapstart (sb s0))"
    and "bview (with_priv s0 pp p) Map.empty {} (L(b := d)) t"
  shows "filev s0 pp p (L(b := d)) t"
  using assms low_update [OF filevD(2) [OF assms(1)] assms(2) refl] filevD [OF assms(1)]
  by (simp add: filev_def)

lemma iupdate_rule:
  assumes f: "filev s0 pp p L s" and i: "i_private (itable s0 ip) = pp" "i_dev (itable s0 ip) = 1"
    and ino: "ino_ok (sb s0) (i_inum (itable s0 ip))"
  shows "runs (xv6fs_iupdate ip s) (\<lambda>_ s'. filev s0 pp p
     (put_inode L (sb s0) (i_inum (itable s0 ip)) (dinode_of (itable s0 ip) p)) s')"
proof -
  let ?i = "itable s0 ip" and ?x = "sb s0"
  let ?b = "IBLOCK (i_inum ?i) ?x"
  note d = filevD [OF f]
  have fs: "itable s = itable s0" "sb s = ?x" using bview_fs(1,2) [OF d(1)] by simp_all
  have low: "unat ?b < unat (sb_bmapstart ?x)" by (rule unat_IBLOCK(2) [OF d(2) ino])
  show ?thesis
    unfolding xv6fs_iupdate_def get_inode_def runs_gets fs i dinode_of_def [symmetric]
    apply (rule bs.get_rule [OF d(1)], simp, simp add: NBUF_def)
    apply (rule get_priv_rule, assumption)
    unfolding dinode_of_def [symmetric]
    apply (rule bs.store_rule [where n = ?b], assumption, simp)
    apply (rule bs.put_rule [where n = ?b], assumption, simp)
    apply (rule bs.rel_last [where n = ?b], assumption, simp, simp)
    unfolding put_inode_def
    by (rule filev_low [OF f low]) simp
qed

lemma unat_add_nowrap:
  assumes "a \<le> a + (b :: u32)"
  shows "unat (a + b) = unat a + unat b"
  using assms unsigned_less [of b, where 'a = nat]
  by (simp add: unat_plus_if' word_le_nat_alt split: if_splits)

lemma readi_rule:
  assumes f: "filev s0 pp p L s" and i: "i_private (itable s0 ip) = pp" "i_dev (itable s0 ip) = 1"
    and size: "unat (i_size (itable s0 ip)) \<le> MAXFILE * BSIZE"
    and off: "off \<le> i_size (itable s0 ip)" "off \<le> off + n"
  shows "runs (xv6fs_readi ip KVar off n s) (\<lambda>r s'. \<exists>p' L' m.
     filev s0 pp p' L' s' \<and> fbytes L' p' = fbytes L p
     \<and> moved (sb s0) L p L' p' m (min (unat n) (unat (i_size (itable s0 ip)) - unat off))
     \<and> r = (int m, rd (fbytes L p) (unat off) m))"
proof -
  let ?z = "i_size (itable s0 ip)"
  let ?n = "if off + n > ?z then ?z - off else n"
  have it: "itable s = itable s0" using bview_fs(2) [OF filevD(1) [OF f]] by simp
  have "unat (off + n) = unat off + unat n" using off(2) by (rule unat_add_nowrap)
  then have n: "unat ?n = min (unat n) (unat ?z - unat off)"
    using off(1) by (auto simp: unat_sub word_less_nat_alt word_le_nat_alt)
  then have "unat off + (unat ?n - 0) \<le> MAXFILE * BSIZE" using size off(1) by (simp add: word_le_nat_alt)
  from readi_loop_rule [OF f i le0 this]
  have "runs (readi_loop ip KVar (unat off) (unat ?n) 0 s) (\<lambda>r s'. \<exists>p' L' m.
     filev s0 pp p' L' s' \<and> fbytes L' p' = fbytes L p \<and> moved (sb s0) L p L' p' m (unat ?n)
     \<and> r = (int m, rd (fbytes L p) (unat off) m))" by simp
  moreover have "\<not> (off > ?z \<or> off + n < off)" using off by (auto simp: not_less)
  ultimately show ?thesis
    unfolding xv6fs_readi_def get_inode_def runs_gets it Let_def n [symmetric] by (simp only: if_False)
qed

text \<open>The size after a write that ended at \<open>pos\<close>.\<close>

definition grown :: "inode \<Rightarrow> nat \<Rightarrow> inode" where
  "grown i pos = (if unat (i_size i) < pos then i\<lparr>i_size := of_nat pos\<rparr> else i)"

lemma filev_with_ino:
  "filev (with_ino s0 ip i) pp p L s \<longleftrightarrow> bview (with_priv (with_ino s0 ip i) pp p) Map.empty {} L s
     \<and> sb_ok (sb s0) \<and> meta_used L (sb s0) \<and> wf_file L (sb s0) p"
  by (simp add: filev_def)

lemma writei_rule:
  assumes f: "filev s0 pp p L s" and i: "i_private (itable s0 ip) = pp" "i_dev (itable s0 ip) = 1"
    and ino: "ino_ok (sb s0) (i_inum (itable s0 ip))"
    and off: "off \<le> i_size (itable s0 ip)" "off \<le> off + n" "unat off + unat n \<le> MAXFILE * BSIZE"
    and bs: "unat n \<le> length bs"
  shows "runs (xv6fs_writei ip (KSrc bs) off n s) (\<lambda>r s'. \<exists>p' L' m.
     let i' = grown (itable s0 ip) (unat off + m);
         L'' = put_inode L' (sb s0) (i_inum (itable s0 ip)) (dinode_of i' p') in
     filev (with_ino s0 ip i') pp p' L'' s' \<and> fbytes L'' p' = wr (fbytes L p) (unat off) (take m bs)
     \<and> moved (sb s0) L p L' p' m (unat n) \<and> wf_file L' (sb s0) p' \<and> r = int m)"
    (is "runs _ ?Q")
proof -
  let ?i = "itable s0 ip" and ?x = "sb s0"
  have it: "itable s = itable s0" using bview_fs(2) [OF filevD(1) [OF f]] by simp
  have u: "unat (off + n) = unat off + unat n" using off(2) by (rule unat_add_nowrap)
  have c1: "\<not> (off > i_size ?i \<or> off + n < off)" using off by (auto simp: not_less)
  have c2: "\<not> unat (off + n) > MAXFILE * BSIZE" using u off(3) by simp
  have "unat off + (unat n - 0) \<le> MAXFILE * BSIZE" "unat n - 0 \<le> length bs" using off(3) bs by simp_all
  note loop = writei_loop_rule [OF f i le0 this]
  have fin: "runs (bnd (xv6fs_iupdate ip) (\<lambda>_. ret (int m)) t) ?Q"
    if t: "filev (with_ino s0 ip (grown ?i (unat off + m))) pp p' L' t"
      and fb: "fbytes L' p' = wr (fbytes L p) (unat off) (take m bs)" and mv: "moved ?x L p L' p' m (unat n)"
    for m p' L' t
  proof -
    let ?i' = "grown ?i (unat off + m)"
    have i': "i_private ?i' = pp" "i_dev ?i' = 1" "i_inum ?i' = i_inum ?i" using i by (simp_all add: grown_def)
    have low: "unat (IBLOCK (i_inum ?i) ?x) < unat (sb_bmapstart ?x)"
      by (rule unat_IBLOCK(2) [OF filevD(2) [OF f] ino])
    have wf: "wf_file L' ?x p'" using filevD(4) [OF t] by simp
    have "fbytes (put_inode L' ?x (i_inum ?i) (dinode_of ?i' p')) p' = wr (fbytes L p) (unat off) (take m bs)"
      using low_update(3) [OF filevD(2) [OF f] low refl wf] fb by (simp add: put_inode_def)
    moreover have "runs (xv6fs_iupdate ip t) (\<lambda>_ s'. filev (with_ino s0 ip ?i') pp p'
        (put_inode L' ?x (i_inum ?i) (dinode_of ?i' p')) s')"
      using iupdate_rule [OF t, of ip] i' ino by simp
    ultimately show ?thesis
      using mv wf by (elim runsE) (auto simp: bnd_Ok Let_def intro!: exI)
  qed
  show ?thesis
    unfolding xv6fs_writei_def get_inode_def runs_gets it if_not_P [OF c1] if_not_P [OF c2]
    apply (rule runs_bndI, rule loop)
    apply (elim exE conjE)
    subgoal premises prems for r t p' L' m
    proof -
      have r: "fst r = m" "snd r = unat off + m" using prems(4) by simp_all
      show ?thesis
        unfolding r
      proof (cases "unat (i_size ?i) < unat off + m")
        case True
        then have g: "grown ?i (unat off + m) = ?i\<lparr>i_size := of_nat (unat off + m)\<rparr>"
          by (simp add: grown_def)
        show "runs (bnd (whenK (unat (i_size ?i) < unat off + m)
              (set_inode ip (\<lambda>i. i\<lparr>i_size := of_nat (unat off + m)\<rparr>)))
            (\<lambda>_. bnd (xv6fs_iupdate ip) (\<lambda>_. ret (int m))) t) ?Q"
          unfolding whenK_def if_P [OF True]
          apply (rule set_inode_rule [OF filevD(1) [OF prems(1)]])
          apply (rule fin [OF _ prems(2)])
          using prems(1,3) by (simp_all add: g filev_with_ino filev_def)
      next
        case False
        then have g: "grown ?i (unat off + m) = ?i" by (simp add: grown_def)
        with fin [OF _ prems(2), of t] prems(1,3) False
        show "runs (bnd (whenK (unat (i_size ?i) < unat off + m)
              (set_inode ip (\<lambda>i. i\<lparr>i_size := of_nat (unat off + m)\<rparr>)))
            (\<lambda>_. bnd (xv6fs_iupdate ip) (\<lambda>_. ret (int m))) t) ?Q"
          unfolding whenK_def if_not_P [OF False] bnd_ret_left by simp
      qed
    qed
    done
qed

end
