(* ===== verification/Vfs.thy ===== *)
theory Vfs
  imports Fsfile
begin

text \<open>
  The inode layer of \<open>kernel/fs/vfs.c\<close>, the inode allocator of \<open>kernel/fs/xv6fs/fs.c\<close>, and the
  directory layer of both. A \<open>struct inode *\<close> is an optional index into \<open>itable\<close>; a call
  through \<open>ip->op\<close> first reads the table of operations, and a null table is a fault. A
  \<open>struct dentry\<close> lives in a page of its own, with a second page for \<open>private\<close>: the record
  keeps both addresses, so that the allocations and the frees are those of the source, and the
  fields by value. A path is the list of its bytes up to the NUL, a pointer into it a suffix.
  Messages printed on the console are not part of the state.
\<close>

section \<open>Inodes in memory\<close>

definition NINODE :: nat where "NINODE = 50"

definition deref :: "'b option \<Rightarrow> ('s, 'b) K" where
  "deref x = (case x of None \<Rightarrow> fault | Some y \<Rightarrow> ret y)"

text \<open>Loading the table of operations of an inode, as every call through it does.\<close>

definition vcall :: "fsops option \<Rightarrow> ('s, unit) K" where
  "vcall x = (case x of None \<Rightarrow> fault | Some Xv6fs_op \<Rightarrow> ret ())"

definition iinit :: "('a fs_st_scheme, unit) K" where
  "iinit = forK (\<lambda>i. initsleeplock (LInode i) ''inode'') [0..<NINODE]"

definition iget :: "u32 \<Rightarrow> u32 \<Rightarrow> ('a fs_st_scheme, nat) K" where
  "iget dev inum =
     bnd (gets (\<lambda>s. find (\<lambda>i. i_ref (itable s i) > 0 \<and> i_dev (itable s i) = dev
            \<and> i_inum (itable s i) = inum) [0..<NINODE])) (\<lambda>found.
     case found of
       Some ip \<Rightarrow> bnd (set_inode ip (\<lambda>i. i\<lparr>i_ref := i_ref i + 1\<rparr>)) (\<lambda>_. ret ip)
     | None \<Rightarrow>
         bnd (gets (\<lambda>s. find (\<lambda>i. i_ref (itable s i) = 0) [0..<NINODE])) (\<lambda>empty.
         case empty of
           None \<Rightarrow> panic ''iget: no inodes''
         | Some ip \<Rightarrow>
             bnd (set_inode ip (\<lambda>i. i\<lparr>i_dev := dev, i_op := Some Xv6fs_op, i_inum := inum,
                    i_ref := 1, i_private := 0\<rparr>)) (\<lambda>_. ret ip)))"

definition idup :: "nat option \<Rightarrow> ('a fs_st_scheme, nat) K" where
  "idup p =
     bnd (deref p) (\<lambda>ip.
     bnd (set_inode ip (\<lambda>i. i\<lparr>i_ref := i_ref i + 1\<rparr>)) (\<lambda>_. ret ip))"

definition ilock :: "nat option \<Rightarrow> ('a fs_st_scheme, unit) K" where
  "ilock p = (case p of
       None \<Rightarrow> panic ''ilock''
     | Some ip \<Rightarrow>
         bnd (get_inode ip) (\<lambda>i.
         if i_ref i < 1 then panic ''ilock''
         else bnd (acquiresleep (LInode ip)) (\<lambda>_.
           bnd (vcall (i_op i)) (\<lambda>_.
           readblock ip))))"

definition iunlock :: "nat option \<Rightarrow> ('a fs_st_scheme, unit) K" where
  "iunlock p = (case p of
       None \<Rightarrow> panic ''iunlock''
     | Some ip \<Rightarrow>
         bnd (holdingsleep (LInode ip)) (\<lambda>h.
         bnd (get_inode ip) (\<lambda>i.
         if \<not> h \<or> i_ref i < 1 then panic ''iunlock''
         else releasesleep (LInode ip))))"

text \<open>\<open>struct stat\<close>, with its layout in memory (four bytes of padding before \<open>size\<close>).\<close>

record stat =
  st_dev :: u32
  st_ino :: u32
  st_type :: u16
  st_nlink :: u16
  st_size :: u64

definition stati :: "nat \<Rightarrow> ('a fs_st_scheme, stat) K" where
  "stati ip =
     bnd (get_inode ip) (\<lambda>i.
     ret \<lparr>st_dev = i_dev i, st_ino = i_inum i, st_type = i_type i, st_nlink = i_nlink i,
       st_size = ucast (i_size i)\<rparr>)"

definition free_priv :: "u64 \<Rightarrow> ('a fs_st_scheme, unit) K" where
  "free_priv p = bnd (kfree p) (\<lambda>_. modify (\<lambda>s. s\<lparr>privs := (privs s)(p := None)\<rparr>))"

definition iput :: "nat option \<Rightarrow> ('a fs_st_scheme, unit) K" where
  "iput p =
     bnd (deref p) (\<lambda>ip.
     bnd (get_inode ip) (\<lambda>i.
     bnd (whenK (i_ref i = 1 \<and> i_private i \<noteq> 0 \<and> i_nlink i = 0)
       (bnd (acquiresleep (LInode ip)) (\<lambda>_.
        bnd (vcall (i_op i)) (\<lambda>_.
        bnd (xv6fs_itrunc ip) (\<lambda>_.
        bnd (set_inode ip (\<lambda>i. i\<lparr>i_type := 0\<rparr>)) (\<lambda>_.
        bnd (xv6fs_iupdate ip) (\<lambda>_.
        bnd (free_priv (i_private i)) (\<lambda>_.
        releasesleep (LInode ip))))))))) (\<lambda>_.
     set_inode ip (\<lambda>i. i\<lparr>i_ref := i_ref i - 1\<rparr>))))"

definition iunlockput :: "nat option \<Rightarrow> ('a fs_st_scheme, unit) K" where
  "iunlockput p = bnd (iunlock p) (\<lambda>_. iput p)"

text \<open>\<open>dip\<close> is the free inode's slot in its block; the loop starts with inode 1.\<close>

definition ialloc_one :: "nat \<Rightarrow> u16 \<Rightarrow> nat \<Rightarrow> ('a fs_st_scheme, nat option) K" where
  "ialloc_one rt ty inum =
     bnd (gets sb) (\<lambda>x.
     bnd (get_inode rt) (\<lambda>r.
     bnd (bread (i_dev r) (IBLOCK (of_nat inum) x)) (\<lambda>bp.
     bnd (buf_data bp) (\<lambda>d.
     if di_type (ld_dinode d (di_off (of_nat inum))) = 0
     then bnd (upd_data bp (\<lambda>d. st16 (memset d (di_off (of_nat inum)) 0 64) (di_off (of_nat inum)) ty)) (\<lambda>_.
       bnd (bwrite bp) (\<lambda>_.
       bnd (brelse bp) (\<lambda>_.
       bnd (iget (i_dev r) (of_nat inum)) (\<lambda>ip.
       bnd (set_inode ip (\<lambda>i. i\<lparr>i_op := Some Xv6fs_op, i_sb := True, i_dev := 1, i_private := 0\<rparr>)) (\<lambda>_.
       ret (Some ip))))))
     else bnd (brelse bp) (\<lambda>_. ret None)))))"

definition xv6fs_ialloc :: "super_block option \<Rightarrow> u16 \<Rightarrow> ('a fs_st_scheme, nat option) K" where
  "xv6fs_ialloc vfs_sb ty =
     bnd (gets sb) (\<lambda>x.
     untilK (\<lambda>inum. bnd (deref vfs_sb) (\<lambda>v. bnd (deref (vs_root v)) (\<lambda>rt. ialloc_one rt ty inum)))
       [1..<unat (sb_ninodes x)])"

definition vfs_init :: "('a fs_st_scheme, unit) K" where
  "vfs_init =
     bnd kalloc (\<lambda>pg.
     if pg = 0 then fault
     else bnd (modify (\<lambda>s. s\<lparr>root := Some \<lparr>vs_page = pg, vs_op = Some Xv6fs_op, vs_root = None\<rparr>\<rparr>)) (\<lambda>_.
       bnd xv6fs_fsinit (\<lambda>_.
       bnd (iget 1 1) (\<lambda>ip.
       bnd (modify (\<lambda>s. s\<lparr>root := Some \<lparr>vs_page = pg, vs_op = Some Xv6fs_op, vs_root = Some ip\<rparr>\<rparr>)) (\<lambda>_.
       bnd (readblock ip) (\<lambda>_.
       bnd kalloc (\<lambda>_. ret ())))))))"

section \<open>Directory entries\<close>

definition DIRSIZ :: nat where "DIRSIZ = 14"
definition MAXPATH :: nat where "MAXPATH = 128"

record dentry =
  d_page :: u64
  d_private :: u64
  d_word :: u32
  d_str :: bytes
  d_name :: bytes
  d_inode :: "nat option"

text \<open>The two pages of a fresh dentry, filled with 5 by the allocator.\<close>

definition new_dentry :: "('a fs_st_scheme, dentry) K" where
  "new_dentry =
     bnd kalloc (\<lambda>pg.
     bnd kalloc (\<lambda>priv.
     if pg = 0 then fault
     else ret \<lparr>d_page = pg, d_private = priv, d_word = 0x05050505, d_str = (\<lambda>_. 5), d_name = (\<lambda>_. 5),
       d_inode = None\<rparr>))"

definition free_dentry :: "dentry \<Rightarrow> ('a fs_st_scheme, unit) K" where
  "free_dentry d = bnd (kfree (d_private d)) (\<lambda>_. kfree (d_page d))"

text \<open>\<open>struct xv6fs_dentry\<close> as the sixteen bytes of an entry.\<close>

definition de_inum :: "u8 list \<Rightarrow> u16" where
  "de_inum e = of_le (take 2 e)"

definition de_name :: "u8 list \<Rightarrow> bytes" where
  "de_name e = (\<lambda>i. if i < DIRSIZ then e ! (2 + i) else 0)"

definition de_bytes :: "u16 \<Rightarrow> bytes \<Rightarrow> u8 list" where
  "de_bytes inum nm = le_bytes 2 inum @ rd nm 0 DIRSIZ"

definition namecmp :: "bytes \<Rightarrow> bytes \<Rightarrow> int" where
  "namecmp s t = strncmp s t DIRSIZ"

definition xv6fs_namecmp :: "bytes \<Rightarrow> bytes \<Rightarrow> int" where
  "xv6fs_namecmp s t = strncmp s t DIRSIZ"

text \<open>A string literal, as the array a pointer to it shows.\<close>

definition cname :: "u8 list \<Rightarrow> bytes" where
  "cname cs = (\<lambda>i. if i < length cs then cs ! i else 0)"

text \<open>The number of entries the loops over a directory visit: \<open>off\<close> grows by 16 up to \<open>size\<close>.\<close>

definition entries :: "u32 \<Rightarrow> nat" where
  "entries sz = (unat sz + 15) div 16"

definition lookup_one :: "nat \<Rightarrow> bytes \<Rightarrow> nat \<Rightarrow> ('a fs_st_scheme, dentry option) K" where
  "lookup_one dp nm k =
     bnd (xv6fs_readi dp KVar (of_nat (16 * k)) 16) (\<lambda>r.
     if fst r \<noteq> 16 then panic ''dirlookup read''
     else if de_inum (snd r) = 0 then ret None
     else if xv6fs_namecmp nm (de_name (snd r)) = 0
     then bnd new_dentry (\<lambda>d.
       if d_private d = 0 then fault
       else bnd (get_inode dp) (\<lambda>i.
         bnd (iget (i_dev i) (ucast (de_inum (snd r)))) (\<lambda>ip.
         ret (Some (d\<lparr>d_word := of_nat (16 * k), d_inode := Some ip\<rparr>)))))
     else ret None)"

definition xv6fs_dirlookup :: "nat \<Rightarrow> bytes \<Rightarrow> ('a fs_st_scheme, dentry) K" where
  "xv6fs_dirlookup dp nm =
     bnd (get_inode dp) (\<lambda>i.
     if i_type i \<noteq> T_DIR then panic ''dirlookup not DIR''
     else bnd (untilK (lookup_one dp nm) [0..<entries (i_size i)]) (\<lambda>r.
       case r of
         Some d \<Rightarrow> ret d
       | None \<Rightarrow> new_dentry))"

text \<open>The search for an empty entry: the index where the loop stops.\<close>

definition free_slot_one :: "nat \<Rightarrow> dentry \<Rightarrow> nat \<Rightarrow> ('a fs_st_scheme, nat option) K" where
  "free_slot_one dp dir k =
     bnd (xv6fs_readi dp KVar (of_nat (16 * k)) 16) (\<lambda>r.
     if fst r \<noteq> 16 then bnd (free_dentry dir) (\<lambda>_. panic ''dirlink read'')
     else if de_inum (snd r) = 0 then ret (Some k) else ret None)"

definition xv6fs_link :: "dentry \<Rightarrow> ('a fs_st_scheme, int) K" where
  "xv6fs_link target =
     bnd (deref (d_inode target)) (\<lambda>dp.
     let nm = strncpy (\<lambda>_. 0) (d_name target) DIRSIZ; inum = d_word target in
     bnd (xv6fs_dirlookup dp nm) (\<lambda>dir.
     case d_inode dir of
       Some ip \<Rightarrow> bnd (iput (Some ip)) (\<lambda>_. bnd (free_dentry dir) (\<lambda>_. ret (-1)))
     | None \<Rightarrow>
         bnd (get_inode dp) (\<lambda>i.
         bnd (untilK (free_slot_one dp dir) [0..<entries (i_size i)]) (\<lambda>r.
         let k = (case r of None \<Rightarrow> entries (i_size i) | Some k \<Rightarrow> k) in
         bnd (xv6fs_writei dp (KSrc (de_bytes (ucast inum) (strncpy (\<lambda>_. 0) nm DIRSIZ))) (of_nat (16 * k)) 16) (\<lambda>w.
         bnd (free_dentry dir) (\<lambda>_.
         if w \<noteq> 16 then ret (-1) else ret 0))))))"

definition dirlink :: "nat \<Rightarrow> bytes \<Rightarrow> u32 \<Rightarrow> ('a fs_st_scheme, int) K" where
  "dirlink dp nm inum =
     bnd new_dentry (\<lambda>t.
     if d_private t = 0 then fault
     else bnd (get_inode dp) (\<lambda>i.
       bnd (vcall (i_op i)) (\<lambda>_.
       bnd (xv6fs_link (t\<lparr>d_inode := Some dp, d_name := strncpy (d_name t) nm DIRSIZ, d_word := inum\<rparr>)) (\<lambda>r.
       bnd (free_dentry t) (\<lambda>_.
       ret r)))))"

definition isdirempty_one :: "nat \<Rightarrow> nat \<Rightarrow> ('a fs_st_scheme, unit option) K" where
  "isdirempty_one dp k =
     bnd (xv6fs_readi dp KVar (of_nat (16 * k)) 16) (\<lambda>r.
     if fst r \<noteq> 16 then panic ''isdirempty: readi''
     else if de_inum (snd r) \<noteq> 0 then ret (Some ()) else ret None)"

definition xv6fs_isdirempty :: "nat \<Rightarrow> ('a fs_st_scheme, bool) K" where
  "xv6fs_isdirempty dp =
     bnd (get_inode dp) (\<lambda>i.
     bnd (untilK (isdirempty_one dp) [2..<entries (i_size i)]) (\<lambda>r.
     ret (r = None)))"

section \<open>Paths\<close>

definition SLASH :: u8 where "SLASH = 47"

definition skipelem :: "u8 list \<Rightarrow> bytes \<Rightarrow> u8 list option \<times> bytes" where
  "skipelem path nm =
     (let s = dropWhile (\<lambda>c. c = SLASH) path in
      if s = [] then (None, nm)
      else let el = takeWhile (\<lambda>c. c \<noteq> SLASH) s; len = length el;
             nm' = (if len \<ge> DIRSIZ then wr nm 0 (take DIRSIZ el) else (wr nm 0 el)(len := 0))
        in (Some (dropWhile (\<lambda>c. c = SLASH) (dropWhile (\<lambda>c. c \<noteq> SLASH) s)), nm'))"

lemma skipelem_shorter: "skipelem path nm = (Some tail, nm') \<Longrightarrow> length tail < length path"
proof -
  assume a: "skipelem path nm = (Some tail, nm')"
  let ?s = "dropWhile (\<lambda>c. c = SLASH) path"
  from a have ne: "?s \<noteq> []" and tail: "tail = dropWhile (\<lambda>c. c = SLASH) (dropWhile (\<lambda>c. c \<noteq> SLASH) ?s)"
    by (auto simp: skipelem_def Let_def split: if_splits)
  from ne have "hd ?s \<noteq> SLASH" using hd_dropWhile [of "\<lambda>c. c = SLASH" path] by simp
  with ne obtain c cs where "?s = c # cs" and "c \<noteq> SLASH" by (cases ?s) auto
  then have "tail = dropWhile (\<lambda>c. c = SLASH) (dropWhile (\<lambda>c. c \<noteq> SLASH) cs)" by (simp add: tail)
  then have "length tail \<le> length cs"
    using length_dropWhile_le [of "\<lambda>c. c = SLASH" "dropWhile (\<lambda>c. c \<noteq> SLASH) cs"]
      length_dropWhile_le [of "\<lambda>c. c \<noteq> SLASH" cs] by simp
  moreover have "length ?s \<le> length path" by (rule length_dropWhile_le)
  ultimately show ?thesis using \<open>?s = c # cs\<close> by simp
qed

function namex_loop :: "u8 list \<Rightarrow> bool \<Rightarrow> bytes \<Rightarrow> nat option \<Rightarrow> ('a fs_st_scheme, nat option \<times> bytes) K" where
  "namex_loop path par nm ip =
     (case skipelem path nm of
        (None, nm') \<Rightarrow>
          if par then bnd (iput ip) (\<lambda>_. ret (None, nm')) else ret (ip, nm')
      | (Some tail, nm') \<Rightarrow>
          bnd (ilock ip) (\<lambda>_.
          bnd (deref ip) (\<lambda>n.
          bnd (get_inode n) (\<lambda>i.
          if i_type i \<noteq> T_DIR then bnd (iunlockput ip) (\<lambda>_. ret (None, nm'))
          else if par \<and> tail = [] then bnd (iunlock ip) (\<lambda>_. ret (ip, nm'))
          else bnd (vcall (i_op i)) (\<lambda>_.
            bnd (xv6fs_dirlookup n nm') (\<lambda>nx.
            if d_inode nx = None
            then bnd (iunlockput ip) (\<lambda>_. bnd (free_dentry nx) (\<lambda>_. ret (None, nm')))
            else bnd (iunlockput ip) (\<lambda>_. namex_loop tail par nm' (d_inode nx))))))))"
  by pat_completeness auto
termination
  by (relation "measure (\<lambda>(path, par, nm, ip). length path)") (auto dest: skipelem_shorter [OF sym])

declare namex_loop.simps [simp del]

definition namex :: "u8 list \<Rightarrow> bool \<Rightarrow> bytes \<Rightarrow> ('a fs_st_scheme, nat option \<times> bytes) K" where
  "namex path par nm =
     bnd (if path \<noteq> [] \<and> hd path = SLASH
          then bnd (gets root) (\<lambda>r. case r of
                 None \<Rightarrow> bnd (iget 1 1) (\<lambda>ip. ret (Some ip))
               | Some v \<Rightarrow> ret (vs_root v))
          else bnd curproc (\<lambda>m.
            bnd (get_proc m) (\<lambda>p.
            bnd (idup (p_cwd p)) (\<lambda>ip. ret (Some ip))))) (\<lambda>ip.
     namex_loop path par nm ip)"

definition namei :: "u8 list \<Rightarrow> ('a fs_st_scheme, nat option) K" where
  "namei path = bnd (namex path False (\<lambda>_. 0)) (\<lambda>r. ret (fst r))"

definition nameiparent :: "u8 list \<Rightarrow> bytes \<Rightarrow> ('a fs_st_scheme, nat option \<times> bytes) K" where
  "nameiparent path nm = namex path True nm"

section \<open>Removing and creating names\<close>

definition dot :: bytes where "dot = cname [46]"
definition dotdot :: bytes where "dotdot = cname [46, 46]"

definition unlink_bad :: "nat \<Rightarrow> dentry \<Rightarrow> ('a fs_st_scheme, int) K" where
  "unlink_bad dp dir =
     bnd (free_dentry dir) (\<lambda>_. bnd (iunlockput (Some dp)) (\<lambda>_. ret (-1)))"

definition unlink_found :: "nat \<Rightarrow> dentry \<Rightarrow> nat \<Rightarrow> ('a fs_st_scheme, int) K" where
  "unlink_found dp dir ip =
     bnd (ilock (Some ip)) (\<lambda>_.
     bnd (get_inode ip) (\<lambda>i.
     if sint (i_nlink i) < 1 then panic ''unlink: nlink < 1''
     else bnd (if i_type i = T_DIR then bnd (vcall (i_op i)) (\<lambda>_. xv6fs_isdirempty ip) else ret True) (\<lambda>ok.
       if \<not> ok then bnd (iunlockput (Some ip)) (\<lambda>_. unlink_bad dp dir)
       else bnd (xv6fs_writei dp (KSrc (replicate 16 0)) (d_word dir) 16) (\<lambda>w.
         if w \<noteq> 16 then panic ''unlink: writei''
         else bnd (get_inode ip) (\<lambda>i.
           bnd (whenK (i_type i = T_DIR)
             (bnd (set_inode dp (\<lambda>d. d\<lparr>i_nlink := i_nlink d - 1\<rparr>)) (\<lambda>_. xv6fs_iupdate dp))) (\<lambda>_.
           bnd (iunlockput (Some dp)) (\<lambda>_.
           bnd (set_inode ip (\<lambda>i. i\<lparr>i_nlink := i_nlink i - 1\<rparr>)) (\<lambda>_.
           bnd (xv6fs_iupdate ip) (\<lambda>_.
           bnd (iunlockput (Some ip)) (\<lambda>_.
           bnd (free_dentry dir) (\<lambda>_.
           ret 0)))))))))))"

definition xv6fs_unlink :: "dentry \<Rightarrow> ('a fs_st_scheme, int) K" where
  "xv6fs_unlink d =
     (let path = cstr MAXPATH (strncpy (\<lambda>_. 0) (d_str d) MAXPATH) in
      bnd (nameiparent path (\<lambda>_. 0)) (\<lambda>q.
      case fst q of
        None \<Rightarrow> ret (-1)
      | Some dp \<Rightarrow>
          bnd (ilock (Some dp)) (\<lambda>_.
          if xv6fs_namecmp (snd q) dot = 0 \<or> xv6fs_namecmp (snd q) dotdot = 0
          then bnd (iunlockput (Some dp)) (\<lambda>_. ret (-1))
          else bnd (xv6fs_dirlookup dp (snd q)) (\<lambda>dir.
            if d_private dir = 0 then fault
            else case d_inode dir of
                None \<Rightarrow> unlink_bad dp dir
              | Some ip \<Rightarrow> unlink_found dp dir ip))))"

text \<open>\<open>xv6fs_create\<close> returns its result with the inode it stored in \<open>target->inode\<close>.\<close>

definition create_found :: "nat \<Rightarrow> dentry \<Rightarrow> nat \<Rightarrow> u16 \<Rightarrow> ('a fs_st_scheme, int \<times> nat option) K" where
  "create_found dp dir ip ty =
     bnd (iunlockput (Some dp)) (\<lambda>_.
     bnd (ilock (Some ip)) (\<lambda>_.
     bnd (get_inode ip) (\<lambda>i.
     if ty = T_FILE \<and> (i_type i = T_FILE \<or> i_type i = T_DEVICE)
     then bnd (free_dentry dir) (\<lambda>_. ret (1, Some ip))
     else bnd (iunlockput (Some ip)) (\<lambda>_. bnd (free_dentry dir) (\<lambda>_. ret (0, None))))))"

definition create_fail :: "nat \<Rightarrow> nat \<Rightarrow> dentry \<Rightarrow> ('a fs_st_scheme, int \<times> nat option) K" where
  "create_fail ip dp dir =
     bnd (set_inode ip (\<lambda>i. i\<lparr>i_nlink := 0\<rparr>)) (\<lambda>_.
     bnd (xv6fs_iupdate ip) (\<lambda>_.
     bnd (iunlockput (Some ip)) (\<lambda>_.
     bnd (iunlockput (Some dp)) (\<lambda>_.
     bnd (free_dentry dir) (\<lambda>_. ret (0, None))))))"

definition create_dots :: "nat \<Rightarrow> nat \<Rightarrow> ('a fs_st_scheme, bool) K" where
  "create_dots ip dp =
     bnd (get_inode ip) (\<lambda>i.
     bnd (dirlink ip dot (i_inum i)) (\<lambda>r.
     if r < 0 then ret False
     else bnd (get_inode dp) (\<lambda>d.
       bnd (dirlink ip dotdot (i_inum d)) (\<lambda>r.
       ret (\<not> r < 0)))))"

definition xv6fs_create :: "nat \<Rightarrow> dentry \<Rightarrow> u16 \<Rightarrow> u16 \<Rightarrow> u16 \<Rightarrow> ('a fs_st_scheme, int \<times> nat option) K" where
  "xv6fs_create dp target ty major minor =
     (let nm = strncpy (\<lambda>_. 0) (d_str target) DIRSIZ in
      bnd (ilock (Some dp)) (\<lambda>_.
      bnd (xv6fs_dirlookup dp nm) (\<lambda>dir.
      case d_inode dir of
        Some ip \<Rightarrow> create_found dp dir ip ty
      | None \<Rightarrow>
          bnd (gets root) (\<lambda>rt.
          bnd (xv6fs_ialloc rt ty) (\<lambda>a.
          case a of
            None \<Rightarrow> bnd (iunlockput (Some dp)) (\<lambda>_. bnd (free_dentry dir) (\<lambda>_. ret (0, None)))
          | Some ip \<Rightarrow>
              bnd (ilock (Some ip)) (\<lambda>_.
              bnd (get_inode ip) (\<lambda>i.
              bnd (get_priv (i_private i)) (\<lambda>x.
              bnd (set_priv (i_private i) (x\<lparr>x_major := major, x_minor := minor\<rparr>)) (\<lambda>_.
              bnd (set_inode ip (\<lambda>i. i\<lparr>i_nlink := 1\<rparr>)) (\<lambda>_.
              bnd (xv6fs_iupdate ip) (\<lambda>_.
              bnd (if ty = T_DIR then create_dots ip dp else ret True) (\<lambda>ok.
              if \<not> ok then create_fail ip dp dir
              else bnd (get_inode ip) (\<lambda>i.
                bnd (dirlink dp nm (i_inum i)) (\<lambda>r.
                if r < 0 then create_fail ip dp dir
                else bnd (whenK (ty = T_DIR)
                       (bnd (set_inode dp (\<lambda>d. d\<lparr>i_nlink := i_nlink d + 1\<rparr>)) (\<lambda>_. xv6fs_iupdate dp))) (\<lambda>_.
                  bnd (iunlockput (Some dp)) (\<lambda>_.
                  bnd (free_dentry dir) (\<lambda>_.
                  ret (1, Some ip))))))))))))))))))"

end
