(* ===== verification/Console.thy ===== *)
theory Console
  imports Vfs
begin

text \<open>
  Character output and input: \<open>kernel/uart.c\<close>, \<open>kernel/printf.c\<close>, \<open>kernel/console.c\<close> and
  \<open>procdump\<close> of \<open>kernel/proc.c\<close>. The UART is a device: the values its status and receive
  registers will return are lists in the state, consumed by the reads, and the writes to its
  registers are recorded in order. A read after the end of a list, like a wait for the
  transmitter or for another thread, is \<open>Blocked\<close>. \<open>stack_pad\<close> is what the padding of a
  \<open>struct stat\<close> on the kernel stack happens to hold.
\<close>

section \<open>State\<close>

record cons_st = fs_st +
  uart_lsr :: "u8 list"
  uart_rhr :: "u8 list"
  uart_log :: "(nat \<times> u8) list"
  uart_tx_buf :: bytes
  uart_tx_w :: u64
  uart_tx_r :: u64
  panicked :: bool
  pr_locking :: bool
  cons_buf :: bytes
  cons_r :: u32
  cons_w :: u32
  cons_e :: u32
  devsw_console :: bool
  stack_pad :: u32

definition RHR :: nat where "RHR = 0"
definition THR :: nat where "THR = 0"
definition IER :: nat where "IER = 1"
definition FCR :: nat where "FCR = 2"
definition LCR :: nat where "LCR = 3"
definition LSR_RX_READY :: u8 where "LSR_RX_READY = 1"
definition LSR_TX_IDLE :: u8 where "LSR_TX_IDLE = 32"
definition UART_TX_BUF_SIZE :: nat where "UART_TX_BUF_SIZE = 32"
definition INPUT_BUF_SIZE :: nat where "INPUT_BUF_SIZE = 128"

definition read_lsr :: "('a cons_st_scheme, u8) K" where
  "read_lsr =
     bnd (gets uart_lsr) (\<lambda>q. case q of
       [] \<Rightarrow> blocked
     | v # vs \<Rightarrow> bnd (modify (\<lambda>s. s\<lparr>uart_lsr := vs\<rparr>)) (\<lambda>_. ret v))"

definition read_rhr :: "('a cons_st_scheme, u8) K" where
  "read_rhr =
     bnd (gets uart_rhr) (\<lambda>q. case q of
       [] \<Rightarrow> blocked
     | v # vs \<Rightarrow> bnd (modify (\<lambda>s. s\<lparr>uart_rhr := vs\<rparr>)) (\<lambda>_. ret v))"

definition WriteReg :: "nat \<Rightarrow> u8 \<Rightarrow> ('a cons_st_scheme, unit) K" where
  "WriteReg r v = modify (\<lambda>s. s\<lparr>uart_log := uart_log s @ [(r, v)]\<rparr>)"

section \<open>The UART\<close>

definition uartinit :: "('a cons_st_scheme, unit) K" where
  "uartinit =
     bnd (WriteReg IER 0) (\<lambda>_.
     bnd (WriteReg LCR 0x80) (\<lambda>_.
     bnd (WriteReg 0 3) (\<lambda>_.
     bnd (WriteReg 1 0) (\<lambda>_.
     bnd (WriteReg LCR 3) (\<lambda>_.
     bnd (WriteReg FCR 7) (\<lambda>_.
     bnd (WriteReg IER 3) (\<lambda>_.
     initlock LUart ''uart'')))))))"

text \<open>
  One round of the loop of \<open>uartstart\<close>. A round that goes on sends one byte, so there are at
  most as many rounds as bytes in the buffer and one more that finds it empty.
\<close>

definition uartstart_one :: "nat \<Rightarrow> ('a cons_st_scheme, unit option) K" where
  "uartstart_one k =
     bnd (gets uart_tx_w) (\<lambda>w.
     bnd (gets uart_tx_r) (\<lambda>r.
     if w = r then ret (Some ())
     else bnd read_lsr (\<lambda>v.
       if v AND LSR_TX_IDLE = 0 then ret (Some ())
       else bnd (gets (\<lambda>s. uart_tx_buf s (unat r mod UART_TX_BUF_SIZE))) (\<lambda>c.
         bnd (modify (\<lambda>s. s\<lparr>uart_tx_r := r + 1\<rparr>)) (\<lambda>_.
         bnd (wakeup ChUart) (\<lambda>_.
         bnd (WriteReg THR c) (\<lambda>_.
         ret None)))))))"

definition uartstart :: "('a cons_st_scheme, unit) K" where
  "uartstart =
     bnd (gets (\<lambda>s. unat (uart_tx_w s - uart_tx_r s))) (\<lambda>n.
     bnd (untilK uartstart_one [0..<Suc n]) (\<lambda>_. ret ()))"

definition uartputc :: "u8 \<Rightarrow> ('a cons_st_scheme, unit) K" where
  "uartputc c =
     bnd (acquire LUart) (\<lambda>_.
     bnd (gets panicked) (\<lambda>pk.
     if pk then blocked
     else bnd (gets (\<lambda>s. uart_tx_w s = uart_tx_r s + of_nat UART_TX_BUF_SIZE)) (\<lambda>full.
       bnd (whenK full (sleep ChUart LUart)) (\<lambda>_.
       bnd (modify (\<lambda>s. s\<lparr>uart_tx_buf := (uart_tx_buf s)(unat (uart_tx_w s) mod UART_TX_BUF_SIZE := c)\<rparr>)) (\<lambda>_.
       bnd (modify (\<lambda>s. s\<lparr>uart_tx_w := uart_tx_w s + 1\<rparr>)) (\<lambda>_.
       bnd uartstart (\<lambda>_.
       release LUart)))))))"

definition uartputc_sync :: "u8 \<Rightarrow> ('a cons_st_scheme, unit) K" where
  "uartputc_sync c =
     bnd push_off (\<lambda>_.
     bnd (gets panicked) (\<lambda>pk.
     if pk then blocked
     else bnd read_lsr (\<lambda>v.
       if v AND LSR_TX_IDLE = 0 then blocked
       else bnd (WriteReg THR c) (\<lambda>_.
         pop_off))))"

definition uartgetc :: "('a cons_st_scheme, u8 option) K" where
  "uartgetc =
     bnd read_lsr (\<lambda>v.
     if v AND LSR_RX_READY \<noteq> 0 then bnd read_rhr (\<lambda>c. ret (Some c))
     else ret None)"

section \<open>Formatted output\<close>

definition BACKSPACE :: int where "BACKSPACE = 0x100"

definition consputc :: "int \<Rightarrow> ('a cons_st_scheme, unit) K" where
  "consputc c =
     (if c = BACKSPACE
      then bnd (uartputc_sync 8) (\<lambda>_. bnd (uartputc_sync 32) (\<lambda>_. uartputc_sync 8))
      else uartputc_sync (word_of_int c))"

definition chars :: "string \<Rightarrow> u8 list" where
  "chars cs = map of_char cs"

definition digit :: "nat \<Rightarrow> u8" where
  "digit d = chars ''0123456789abcdef'' ! d"

text \<open>The digits in the order the loop stores them; the source calls it with base 10 and 16.\<close>

function udigits :: "nat \<Rightarrow> nat \<Rightarrow> u8 list" where
  "udigits x base =
     digit (x mod base) # (if x div base = 0 \<or> base \<le> 1 then [] else udigits (x div base) base)"
  by pat_completeness auto
termination
  by (relation "measure fst") (auto simp: Suc_le_eq not_le intro!: div_less_dividend gr0I)

declare udigits.simps [simp del]

definition printint_chars :: "u32 \<Rightarrow> nat \<Rightarrow> bool \<Rightarrow> u8 list" where
  "printint_chars xx base sign =
     (let neg = (sign \<and> sint xx < 0);
          x = (if neg then - xx else xx)
      in rev (udigits (unat x) base @ (if neg then [45] else [])))"

definition printint :: "u32 \<Rightarrow> nat \<Rightarrow> bool \<Rightarrow> ('a cons_st_scheme, unit) K" where
  "printint xx base sign = forK (\<lambda>c. consputc (uint c)) (printint_chars xx base sign)"

definition printptr_chars :: "u64 \<Rightarrow> u8 list" where
  "printptr_chars x = [48, 120] @ map (\<lambda>i. digit (unat (drop_bit 60 (push_bit (4 * i) x)))) [0..<16]"

definition printptr :: "u64 \<Rightarrow> ('a cons_st_scheme, unit) K" where
  "printptr x = forK (\<lambda>c. consputc (uint c)) (printptr_chars x)"

text \<open>The variable arguments; one of the wrong kind, or a missing one, has no meaning.\<close>

datatype parg = PInt u32 | PPtr u64 | PStr "u8 list option"

fun printf_loop :: "u8 list \<Rightarrow> parg list \<Rightarrow> ('a cons_st_scheme, unit) K" where
  "printf_loop [] args = ret ()"
| "printf_loop (c # cs) args =
     (if c \<noteq> 37 then bnd (consputc (uint c)) (\<lambda>_. printf_loop cs args)
      else case cs of
          [] \<Rightarrow> ret ()
        | d # ds \<Rightarrow>
            if d = 100 then (case args of
                PInt x # as \<Rightarrow> bnd (printint x 10 True) (\<lambda>_. printf_loop ds as) | _ \<Rightarrow> fault)
            else if d = 120 then (case args of
                PInt x # as \<Rightarrow> bnd (printint x 16 True) (\<lambda>_. printf_loop ds as) | _ \<Rightarrow> fault)
            else if d = 112 then (case args of
                PPtr x # as \<Rightarrow> bnd (printptr x) (\<lambda>_. printf_loop ds as) | _ \<Rightarrow> fault)
            else if d = 115 then (case args of
                PStr x # as \<Rightarrow>
                  bnd (forK (\<lambda>c. consputc (uint c)) (case x of None \<Rightarrow> chars ''(null)'' | Some t \<Rightarrow> t)) (\<lambda>_.
                  printf_loop ds as)
              | _ \<Rightarrow> fault)
            else if d = 37 then bnd (consputc 37) (\<lambda>_. printf_loop ds args)
            else bnd (consputc 37) (\<lambda>_. bnd (consputc (uint d)) (\<lambda>_. printf_loop ds args)))"

definition printf :: "u8 list \<Rightarrow> parg list \<Rightarrow> ('a cons_st_scheme, unit) K" where
  "printf fmt args =
     bnd (gets pr_locking) (\<lambda>locking.
     bnd (whenK locking (acquire LPr)) (\<lambda>_.
     bnd (printf_loop fmt args) (\<lambda>_.
     whenK locking (release LPr))))"

text \<open>What \<open>panic\<close> does before it loops for ever.\<close>

definition panic_print :: "u8 list \<Rightarrow> ('a cons_st_scheme, unit) K" where
  "panic_print msg =
     bnd (modify (\<lambda>s. s\<lparr>pr_locking := False\<rparr>)) (\<lambda>_.
     bnd (printf (chars ''panic: '') []) (\<lambda>_.
     bnd (printf msg []) (\<lambda>_.
     bnd (printf [10] []) (\<lambda>_.
     modify (\<lambda>s. s\<lparr>panicked := True\<rparr>)))))"

definition printfinit :: "('a cons_st_scheme, unit) K" where
  "printfinit =
     bnd (initlock LPr ''pr'') (\<lambda>_.
     modify (\<lambda>s. s\<lparr>pr_locking := True\<rparr>))"

definition state_name :: "procstate \<Rightarrow> u8 list" where
  "state_name st = chars (case st of UNUSED \<Rightarrow> ''unused'' | USED \<Rightarrow> ''used'' | SLEEPING \<Rightarrow> ''sleep ''
     | RUNNABLE \<Rightarrow> ''runble'' | RUNNING \<Rightarrow> ''run   '' | ZOMBIE \<Rightarrow> ''zombie'')"

definition procdump_one :: "nat \<Rightarrow> ('a cons_st_scheme, unit) K" where
  "procdump_one i =
     bnd (get_proc i) (\<lambda>p.
     whenK (p_state p \<noteq> UNUSED)
       (bnd (printf (chars ''%d %s %s'')
               [PInt (p_pid p), PStr (Some (state_name (p_state p))), PStr (Some (cstr 16 (p_name p)))]) (\<lambda>_.
        printf [10] [])))"

definition procdump :: "('a cons_st_scheme, unit) K" where
  "procdump = bnd (printf [10] []) (\<lambda>_. forK procdump_one [0..<NPROC])"

section \<open>The console\<close>

definition consolewrite_one :: "u64 \<Rightarrow> nat \<Rightarrow> ('a cons_st_scheme, nat option) K" where
  "consolewrite_one src i =
     bnd (either_copyin (USrc (src + of_nat i)) 1) (\<lambda>r.
     if fst r = -1 then ret (Some i)
     else bnd (uartputc (hd (snd r))) (\<lambda>_. ret None))"

definition consolewrite :: "u64 \<Rightarrow> int \<Rightarrow> ('a cons_st_scheme, int) K" where
  "consolewrite src n =
     bnd (untilK (consolewrite_one src) [0..<nat n]) (\<lambda>r.
     ret (case r of None \<Rightarrow> int (nat n) | Some i \<Rightarrow> int i))"

text \<open>
  The loop of \<open>consoleread\<close>, by the number of bytes still wanted: the result is that number
  when the loop is left, or \<open>None\<close> when the process was killed while the buffer was empty.
\<close>

fun consoleread_loop :: "nat \<Rightarrow> u64 \<Rightarrow> nat \<Rightarrow> ('a cons_st_scheme, nat option) K" where
  "consoleread_loop target dst 0 = ret (Some 0)"
| "consoleread_loop target dst (Suc n) =
     bnd (gets (\<lambda>s. cons_r s = cons_w s)) (\<lambda>emp.
     if emp
     then bnd curproc (\<lambda>i.
       bnd (killed i) (\<lambda>k.
       if k then bnd (release LCons) (\<lambda>_. ret None)
       else bnd (sleep ChCons LCons) (\<lambda>_. blocked)))
     else bnd (gets (\<lambda>s. cons_buf s (unat (cons_r s) mod INPUT_BUF_SIZE))) (\<lambda>c.
       bnd (modify (\<lambda>s. s\<lparr>cons_r := cons_r s + 1\<rparr>)) (\<lambda>_.
       if c = 4
       then bnd (whenK (Suc n < target) (modify (\<lambda>s. s\<lparr>cons_r := cons_r s - 1\<rparr>))) (\<lambda>_. ret (Some (Suc n)))
       else bnd (either_copyout (UDst dst) [c]) (\<lambda>r.
         if r = -1 then ret (Some (Suc n))
         else if c = 10 then ret (Some n)
         else consoleread_loop target (dst + 1) n))))"

definition consoleread :: "u64 \<Rightarrow> int \<Rightarrow> ('a cons_st_scheme, int) K" where
  "consoleread dst n =
     bnd (acquire LCons) (\<lambda>_.
     bnd (consoleread_loop (nat n) dst (nat n)) (\<lambda>r.
     case r of
       None \<Rightarrow> ret (-1)
     | Some m \<Rightarrow> bnd (release LCons) (\<lambda>_. ret (int (nat n) - int m))))"

definition killline_one :: "nat \<Rightarrow> ('a cons_st_scheme, unit option) K" where
  "killline_one k =
     bnd (gets (\<lambda>s. cons_e s \<noteq> cons_w s \<and> cons_buf s (unat (cons_e s - 1) mod INPUT_BUF_SIZE) \<noteq> 10)) (\<lambda>go.
     if go
     then bnd (modify (\<lambda>s. s\<lparr>cons_e := cons_e s - 1\<rparr>)) (\<lambda>_.
       bnd (consputc BACKSPACE) (\<lambda>_. ret None))
     else ret (Some ()))"

definition cons_store :: "u8 \<Rightarrow> ('a cons_st_scheme, unit) K" where
  "cons_store c0 =
     bnd (gets (\<lambda>s. c0 \<noteq> 0 \<and> unat (cons_e s - cons_r s) < INPUT_BUF_SIZE)) (\<lambda>room.
     whenK room (
       let c = (if c0 = 13 then 10 else c0) in
       bnd (consputc (uint c)) (\<lambda>_.
       bnd (modify (\<lambda>s. s\<lparr>cons_buf := (cons_buf s)(unat (cons_e s) mod INPUT_BUF_SIZE := c)\<rparr>)) (\<lambda>_.
       bnd (modify (\<lambda>s. s\<lparr>cons_e := cons_e s + 1\<rparr>)) (\<lambda>_.
       bnd (gets (\<lambda>s. unat (cons_e s - cons_r s) = INPUT_BUF_SIZE)) (\<lambda>full.
       whenK (c = 10 \<or> c = 4 \<or> full)
         (bnd (modify (\<lambda>s. s\<lparr>cons_w := cons_e s\<rparr>)) (\<lambda>_.
          wakeup ChCons))))))))"

definition consoleintr :: "u8 \<Rightarrow> ('a cons_st_scheme, unit) K" where
  "consoleintr c =
     bnd (acquire LCons) (\<lambda>_.
     bnd (if c = 16 then procdump
          else if c = 21
          then bnd (gets (\<lambda>s. unat (cons_e s - cons_w s))) (\<lambda>n.
            bnd (untilK killline_one [0..<n]) (\<lambda>_. ret ()))
          else if c = 8 \<or> c = 127
          then bnd (gets (\<lambda>s. cons_e s \<noteq> cons_w s)) (\<lambda>any.
            whenK any (bnd (modify (\<lambda>s. s\<lparr>cons_e := cons_e s - 1\<rparr>)) (\<lambda>_. consputc BACKSPACE)))
          else cons_store c) (\<lambda>_.
     release LCons))"

definition consoleinit :: "('a cons_st_scheme, unit) K" where
  "consoleinit =
     bnd (initlock LCons ''cons'') (\<lambda>_.
     bnd uartinit (\<lambda>_.
     modify (\<lambda>s. s\<lparr>devsw_console := True\<rparr>)))"

text \<open>
  Every round of \<open>uartintr\<close> reads the status register, so the loop has at most as many rounds
  as the register has values to give.
\<close>

definition uartintr_one :: "nat \<Rightarrow> ('a cons_st_scheme, unit option) K" where
  "uartintr_one k =
     bnd uartgetc (\<lambda>c. case c of
       None \<Rightarrow> ret (Some ())
     | Some v \<Rightarrow> bnd (consoleintr v) (\<lambda>_. ret None))"

definition uartintr :: "('a cons_st_scheme, unit) K" where
  "uartintr =
     bnd (gets (\<lambda>s. length (uart_lsr s))) (\<lambda>n.
     bnd (untilK uartintr_one [0..<Suc n]) (\<lambda>_.
     bnd (acquire LUart) (\<lambda>_.
     bnd uartstart (\<lambda>_.
     release LUart))))"

end
