(* ===== verification/Fileops.thy ===== *)
theory Fileops
  imports Console
begin

text \<open>
  Open files: the file table of \<open>kernel/fs/vfs.c\<close>, \<open>xv6fs_open\<close> and \<open>xv6fs_fileclose\<close> of
  \<open>kernel/fs/xv6fs/fs.c\<close>, and the pipes of \<open>kernel/fs/pipe.c\<close>. A \<open>struct file *\<close> is an
  optional index into \<open>ftable\<close>. Pipes are an object store of their own, because \<open>pipealloc\<close>
  makes none in this kernel.
\<close>

section \<open>The file table\<close>

definition NFILE :: nat where "NFILE = 100"
definition NDEV :: int where "NDEV = 10"
definition O_WRONLY :: u32 where "O_WRONLY = 1"
definition O_RDWR :: u32 where "O_RDWR = 2"
definition O_CREATE :: u32 where "O_CREATE = 0x200"
definition O_TRUNC :: u32 where "O_TRUNC = 0x400"

definition get_file :: "nat \<Rightarrow> ('a fs_st_scheme, vfile) K" where
  "get_file i = gets (\<lambda>s. ftable s i)"

definition set_file :: "nat \<Rightarrow> (vfile \<Rightarrow> vfile) \<Rightarrow> ('a fs_st_scheme, unit) K" where
  "set_file i f = modify (\<lambda>s. s\<lparr>ftable := (ftable s)(i := f (ftable s i))\<rparr>)"

definition filealloc :: "('a fs_st_scheme, nat option) K" where
  "filealloc =
     bnd (gets (\<lambda>s. find (\<lambda>i. f_ref (ftable s i) = 0) [0..<NFILE])) (\<lambda>r.
     case r of
       None \<Rightarrow> ret None
     | Some i \<Rightarrow> bnd (set_file i (\<lambda>f. f\<lparr>f_ref := 1\<rparr>)) (\<lambda>_. ret (Some i)))"

definition filedup :: "nat \<Rightarrow> ('a fs_st_scheme, nat) K" where
  "filedup i =
     bnd (get_file i) (\<lambda>f.
     if f_ref f < 1 then panic ''filedup''
     else bnd (set_file i (\<lambda>f. f\<lparr>f_ref := f_ref f + 1\<rparr>)) (\<lambda>_. ret i))"

definition xv6fs_fileclose :: "nat \<Rightarrow> ('a fs_st_scheme, unit) K" where
  "xv6fs_fileclose i =
     bnd (get_file i) (\<lambda>f.
     if f_ref f < 1 then panic ''fileclose''
     else bnd (set_file i (\<lambda>f. f\<lparr>f_ref := f_ref f - 1\<rparr>)) (\<lambda>_.
       bnd (get_file i) (\<lambda>ff.
       if f_ref ff > 0 then ret ()
       else bnd (set_file i (\<lambda>f. f\<lparr>f_ref := 0, f_type := FD_NONE\<rparr>)) (\<lambda>_.
         whenK (f_type ff = FD_INODE \<or> f_type ff = FD_DEVICE) (iput (f_inode ff))))))"

definition xv6fs_open :: "nat \<Rightarrow> u32 \<Rightarrow> ('a fs_st_scheme, nat option) K" where
  "xv6fs_open ip omode =
     bnd (get_inode ip) (\<lambda>i.
     bnd (if i_type i = T_DEVICE
          then bnd (get_priv (i_private i)) (\<lambda>x. ret (sint (x_major x) < 0 \<or> sint (x_major x) \<ge> NDEV))
          else ret False) (\<lambda>bad.
     if bad then bnd (iunlockput (Some ip)) (\<lambda>_. ret None)
     else bnd filealloc (\<lambda>r.
       case r of
         None \<Rightarrow> bnd (iunlockput (Some ip)) (\<lambda>_. ret None)
       | Some f \<Rightarrow>
           bnd (if i_type i = T_DEVICE then set_file f (\<lambda>f. f\<lparr>f_type := FD_DEVICE\<rparr>)
                else set_file f (\<lambda>f. f\<lparr>f_type := FD_INODE, f_off := 0\<rparr>)) (\<lambda>_.
           bnd (set_file f (\<lambda>f. f\<lparr>f_inode := Some ip,
                  f_readable := (omode AND O_WRONLY = 0),
                  f_writable := (omode AND O_WRONLY \<noteq> 0 \<or> omode AND O_RDWR \<noteq> 0)\<rparr>)) (\<lambda>_.
           ret (Some f))))))"

definition stat_bytes :: "u32 \<Rightarrow> stat \<Rightarrow> u8 list" where
  "stat_bytes pad st = le_bytes 4 (st_dev st) @ le_bytes 4 (st_ino st) @ le_bytes 2 (st_type st)
     @ le_bytes 2 (st_nlink st) @ le_bytes 4 pad @ le_bytes 8 (st_size st)"

definition filestat :: "nat \<Rightarrow> u64 \<Rightarrow> ('a cons_st_scheme, int) K" where
  "filestat i addr =
     bnd curproc (\<lambda>m.
     bnd (get_file i) (\<lambda>f.
     if f_type f = FD_INODE \<or> f_type f = FD_DEVICE
     then bnd (ilock (f_inode f)) (\<lambda>_.
       bnd (deref (f_inode f)) (\<lambda>ip.
       bnd (stati ip) (\<lambda>st.
       bnd (iunlock (f_inode f)) (\<lambda>_.
       bnd (get_proc m) (\<lambda>p.
       bnd (gets stack_pad) (\<lambda>pad.
       bnd (copyout (p_pagetable p) addr (stat_bytes pad st)) (\<lambda>r.
       ret (if r < 0 then -1 else 0))))))))
     else ret (-1)))"

text \<open>\<open>devsw[CONSOLE]\<close> holds null pointers before \<open>consoleinit\<close>.\<close>

definition fileread :: "nat \<Rightarrow> u64 \<Rightarrow> u32 \<Rightarrow> ('a cons_st_scheme, int) K" where
  "fileread i addr n =
     bnd (get_file i) (\<lambda>f.
     if \<not> f_readable f then ret (-1)
     else if f_type f = FD_DEVICE
     then bnd (gets devsw_console) (\<lambda>d. if d then consoleread addr (sint n) else fault)
     else if f_type f = FD_INODE
     then bnd (ilock (f_inode f)) (\<lambda>_.
       bnd (deref (f_inode f)) (\<lambda>ip.
       bnd (get_inode ip) (\<lambda>x.
       bnd (vcall (i_op x)) (\<lambda>_.
       bnd (xv6fs_readi ip (UDst addr) (f_off f) n) (\<lambda>r.
       bnd (whenK (fst r > 0) (set_file i (\<lambda>f. f\<lparr>f_off := f_off f + of_int (fst r)\<rparr>))) (\<lambda>_.
       bnd (iunlock (f_inode f)) (\<lambda>_.
       ret (fst r))))))))
     else ret 0)"

text \<open>The most bytes one call of \<open>write\<close> gets: \<open>((MAXOPBLOCKS-1-1-2) / 2) * BSIZE\<close>.\<close>

definition WMAX :: nat where "WMAX = ((10 - 1 - 1 - 2) div 2) * BSIZE"

lemma WMAX_pos: "0 < WMAX"
  by (simp add: WMAX_def BSIZE_def)

definition write_piece :: "nat \<Rightarrow> u64 \<Rightarrow> nat \<Rightarrow> ('a cons_st_scheme, int) K" where
  "write_piece i addr n1 =
     bnd (get_file i) (\<lambda>f.
     bnd (ilock (f_inode f)) (\<lambda>_.
     bnd (deref (f_inode f)) (\<lambda>ip.
     bnd (get_inode ip) (\<lambda>x.
     bnd (vcall (i_op x)) (\<lambda>_.
     bnd (xv6fs_writei ip (USrc addr) (f_off f) (of_nat n1)) (\<lambda>r.
     bnd (whenK (r > 0) (set_file i (\<lambda>f. f\<lparr>f_off := f_off f + of_int r\<rparr>))) (\<lambda>_.
     bnd (iunlock (f_inode f)) (\<lambda>_.
     ret r))))))))"

function filewrite_loop :: "nat \<Rightarrow> u64 \<Rightarrow> nat \<Rightarrow> nat \<Rightarrow> ('a cons_st_scheme, nat) K" where
  "filewrite_loop fi addr n i =
     (if i < n
      then bnd (write_piece fi (addr + of_nat i) (min (n - i) WMAX)) (\<lambda>r.
        if r \<noteq> int (min (n - i) WMAX) then ret i
        else filewrite_loop fi addr n (i + min (n - i) WMAX))
      else ret i)"
  by pat_completeness auto
termination
  by (relation "measure (\<lambda>(fi, addr, n, i). n - i)") (use WMAX_pos in auto)

declare filewrite_loop.simps [simp del]

definition filewrite :: "nat \<Rightarrow> u64 \<Rightarrow> u32 \<Rightarrow> ('a cons_st_scheme, int) K" where
  "filewrite i addr n =
     bnd (get_file i) (\<lambda>f.
     if \<not> f_writable f then ret (-1)
     else if f_type f = FD_DEVICE
     then bnd (gets devsw_console) (\<lambda>d. if d then consolewrite addr (sint n) else fault)
     else if f_type f = FD_INODE
     then bnd (filewrite_loop i addr (nat (sint n)) 0) (\<lambda>k.
       ret (if int k = sint n then sint n else -1))
     else ret 0)"

section \<open>Pipes\<close>

text \<open>
  A pipe, in the page at its address, which also names its lock and its two channels. The
  kernel of this repository never calls these routines: \<open>pipealloc\<close> and \<open>sys_pipe\<close> are empty.
\<close>

definition PIPESIZE :: nat where "PIPESIZE = 512"

record pipe =
  pp_data :: bytes
  pp_nread :: u32
  pp_nwrite :: u32
  pp_readopen :: bool
  pp_writeopen :: bool

record pipe_st = cons_st +
  pipes :: "u64 \<Rightarrow> pipe option"

definition get_pipe :: "u64 \<Rightarrow> ('a pipe_st_scheme, pipe) K" where
  "get_pipe pi = bnd (gets (\<lambda>s. pipes s pi)) deref"

definition set_pipe :: "u64 \<Rightarrow> (pipe \<Rightarrow> pipe) \<Rightarrow> ('a pipe_st_scheme, unit) K" where
  "set_pipe pi f = bnd (get_pipe pi) (\<lambda>p. modify (\<lambda>s. s\<lparr>pipes := (pipes s)(pi \<mapsto> f p)\<rparr>))"

definition pipealloc :: "('a pipe_st_scheme, int) K" where
  "pipealloc = ret 0"

definition pipeclose :: "u64 \<Rightarrow> bool \<Rightarrow> ('a pipe_st_scheme, unit) K" where
  "pipeclose pi writable =
     bnd (acquire (LPipe (unat pi))) (\<lambda>_.
     bnd (if writable
          then bnd (set_pipe pi (\<lambda>p. p\<lparr>pp_writeopen := False\<rparr>)) (\<lambda>_. wakeup (ChRead (unat pi)))
          else bnd (set_pipe pi (\<lambda>p. p\<lparr>pp_readopen := False\<rparr>)) (\<lambda>_. wakeup (ChWrite (unat pi)))) (\<lambda>_.
     bnd (get_pipe pi) (\<lambda>p.
     if \<not> pp_readopen p \<and> \<not> pp_writeopen p
     then bnd (release (LPipe (unat pi))) (\<lambda>_.
       bnd (kfree pi) (\<lambda>_.
       modify (\<lambda>s. s\<lparr>pipes := (pipes s)(pi := None)\<rparr>)))
     else release (LPipe (unat pi)))))"

text \<open>
  The loop of \<open>pipewrite\<close> by the number of bytes still to write. \<open>Inl\<close> is the early return;
  \<open>Inr\<close> the bytes not written when the loop is left.
\<close>

fun pipewrite_loop :: "nat \<Rightarrow> u64 \<Rightarrow> u64 \<Rightarrow> nat \<Rightarrow> ('a pipe_st_scheme, int + nat) K" where
  "pipewrite_loop pr pi addr 0 = ret (Inr 0)"
| "pipewrite_loop pr pi addr (Suc n) =
     bnd (get_pipe pi) (\<lambda>p.
     bnd (if pp_readopen p then killed pr else ret True) (\<lambda>stop.
     if stop then bnd (release (LPipe (unat pi))) (\<lambda>_. ret (Inl (-1)))
     else if pp_nwrite p = pp_nread p + of_nat PIPESIZE
     then bnd (wakeup (ChRead (unat pi))) (\<lambda>_.
       bnd (sleep (ChWrite (unat pi)) (LPipe (unat pi))) (\<lambda>_. blocked))
     else bnd (get_proc pr) (\<lambda>q.
       bnd (copyin (p_pagetable q) addr 1) (\<lambda>r.
       if fst r = -1 then ret (Inr (Suc n))
       else bnd (set_pipe pi (\<lambda>p. p\<lparr>pp_data := (pp_data p)(unat (pp_nwrite p) mod PIPESIZE := hd (snd r)),
                   pp_nwrite := pp_nwrite p + 1\<rparr>)) (\<lambda>_.
         pipewrite_loop pr pi (addr + 1) n)))))"

definition pipewrite :: "u64 \<Rightarrow> u64 \<Rightarrow> int \<Rightarrow> ('a pipe_st_scheme, int) K" where
  "pipewrite pi addr n =
     bnd curproc (\<lambda>pr.
     bnd (acquire (LPipe (unat pi))) (\<lambda>_.
     bnd (pipewrite_loop pr pi addr (nat n)) (\<lambda>r.
     case r of
       Inl e \<Rightarrow> ret e
     | Inr left \<Rightarrow>
         bnd (wakeup (ChRead (unat pi))) (\<lambda>_.
         bnd (release (LPipe (unat pi))) (\<lambda>_.
         ret (int (nat n) - int left))))))"

fun piperead_loop :: "nat \<Rightarrow> u64 \<Rightarrow> u64 \<Rightarrow> nat \<Rightarrow> ('a pipe_st_scheme, nat) K" where
  "piperead_loop pr pi addr 0 = ret 0"
| "piperead_loop pr pi addr (Suc n) =
     bnd (get_pipe pi) (\<lambda>p.
     if pp_nread p = pp_nwrite p then ret (Suc n)
     else bnd (set_pipe pi (\<lambda>p. p\<lparr>pp_nread := pp_nread p + 1\<rparr>)) (\<lambda>_.
       bnd (get_proc pr) (\<lambda>q.
       bnd (copyout (p_pagetable q) addr [pp_data p (unat (pp_nread p) mod PIPESIZE)]) (\<lambda>r.
       if r = -1 then ret (Suc n)
       else piperead_loop pr pi (addr + 1) n))))"

definition piperead :: "u64 \<Rightarrow> u64 \<Rightarrow> int \<Rightarrow> ('a pipe_st_scheme, int) K" where
  "piperead pi addr n =
     bnd curproc (\<lambda>pr.
     bnd (acquire (LPipe (unat pi))) (\<lambda>_.
     bnd (get_pipe pi) (\<lambda>p.
     if pp_nread p = pp_nwrite p \<and> pp_writeopen p
     then bnd (killed pr) (\<lambda>k.
       if k then bnd (release (LPipe (unat pi))) (\<lambda>_. ret (-1))
       else bnd (sleep (ChRead (unat pi)) (LPipe (unat pi))) (\<lambda>_. blocked))
     else bnd (piperead_loop pr pi addr (nat n)) (\<lambda>left.
       bnd (wakeup (ChWrite (unat pi))) (\<lambda>_.
       bnd (release (LPipe (unat pi))) (\<lambda>_.
       ret (int (nat n) - int left)))))))"

end
