(* ===== verification/Sysfile.thy ===== *)
theory Sysfile
  imports Fileops
begin

text \<open>
  System calls: fetching arguments (\<open>kernel/syscall.c\<close>), the calls on files
  (\<open>kernel/fs/sysfile.c\<close>) and \<open>exec\<close> (\<open>kernel/fs/exec.c\<close>). The saved registers of the
  process are the words of its trap frame in physical memory. A fetched string is returned
  by value, with the result of the C function.
\<close>

section \<open>Arguments\<close>

text \<open>Offsets in \<open>struct trapframe\<close>.\<close>

definition TF_KSATP :: nat where "TF_KSATP = 0"
definition TF_KSP :: nat where "TF_KSP = 8"
definition TF_KTRAP :: nat where "TF_KTRAP = 16"
definition TF_EPC :: nat where "TF_EPC = 24"
definition TF_KHARTID :: nat where "TF_KHARTID = 32"
definition TF_SP :: nat where "TF_SP = 48"
definition TF_A0 :: nat where "TF_A0 = 112"
definition TF_A1 :: nat where "TF_A1 = 120"
definition TF_A7 :: nat where "TF_A7 = 168"

definition get_tf :: "nat \<Rightarrow> nat \<Rightarrow> ('a proc_st_scheme, u64) K" where
  "get_tf i a =
     bnd (get_proc i) (\<lambda>p.
     if p_trapframe p = 0 then fault
     else gets (\<lambda>s. ld64 (pmem s) (unat (p_trapframe p) + a)))"

definition set_tf :: "nat \<Rightarrow> nat \<Rightarrow> u64 \<Rightarrow> ('a proc_st_scheme, unit) K" where
  "set_tf i a v =
     bnd (get_proc i) (\<lambda>p.
     if p_trapframe p = 0 then fault
     else modify (\<lambda>s. s\<lparr>pmem := st64 (pmem s) (unat (p_trapframe p) + a) v\<rparr>))"

definition fetchaddr :: "u64 \<Rightarrow> ('a proc_st_scheme, int \<times> u64) K" where
  "fetchaddr addr =
     bnd curproc (\<lambda>i.
     bnd (get_proc i) (\<lambda>p.
     if addr \<ge> p_sz p \<or> addr + 8 > p_sz p then ret (-1, 0)
     else bnd (copyin (p_pagetable p) addr 8) (\<lambda>r.
       if fst r \<noteq> 0 then ret (-1, 0) else ret (0, of_le (snd r)))))"

definition fetchstr :: "u64 \<Rightarrow> nat \<Rightarrow> ('a proc_st_scheme, int \<times> u8 list) K" where
  "fetchstr addr mx =
     bnd curproc (\<lambda>i.
     bnd (get_proc i) (\<lambda>p.
     bnd (copyinstr (p_pagetable p) addr mx) (\<lambda>r.
     if fst r < 0 then ret (-1, snd r)
     else let str = takeWhile (\<lambda>c. c \<noteq> 0) (snd r) in ret (int (length str), str))))"

definition argraw :: "nat \<Rightarrow> ('a proc_st_scheme, u64) K" where
  "argraw n = bnd curproc (\<lambda>i. if n < 6 then get_tf i (TF_A0 + 8 * n) else panic ''argraw'')"

definition argint :: "nat \<Rightarrow> ('a proc_st_scheme, u32) K" where
  "argint n = bnd (argraw n) (\<lambda>v. ret (ucast v))"

definition argaddr :: "nat \<Rightarrow> ('a proc_st_scheme, u64) K" where
  "argaddr n = argraw n"

definition argstr :: "nat \<Rightarrow> nat \<Rightarrow> ('a proc_st_scheme, int \<times> u8 list) K" where
  "argstr n mx = bnd (argaddr n) (\<lambda>addr. fetchstr addr mx)"

text \<open>\<open>argfd\<close> returns the descriptor and the file, or nothing.\<close>

definition argfd :: "nat \<Rightarrow> ('a proc_st_scheme, (nat \<times> nat) option) K" where
  "argfd n =
     bnd (argint n) (\<lambda>v.
     if sint v < 0 \<or> sint v \<ge> int NOFILE then ret None
     else bnd curproc (\<lambda>i.
       bnd (get_proc i) (\<lambda>p.
       case p_ofile p (unat v) of
         None \<Rightarrow> ret None
       | Some f \<Rightarrow> ret (Some (unat v, f)))))"

definition fdalloc :: "nat \<Rightarrow> ('a proc_st_scheme, int) K" where
  "fdalloc f =
     bnd curproc (\<lambda>i.
     bnd (get_proc i) (\<lambda>p.
     case find (\<lambda>fd. p_ofile p fd = None) [0..<NOFILE] of
       None \<Rightarrow> ret (-1)
     | Some fd \<Rightarrow> bnd (set_proc i (\<lambda>p. p\<lparr>p_ofile := (p_ofile p)(fd \<mapsto> f)\<rparr>)) (\<lambda>_. ret (int fd))))"

section \<open>Calls on descriptors\<close>

definition sys_dup :: "('a cons_st_scheme, int) K" where
  "sys_dup =
     bnd (argfd 0) (\<lambda>a.
     case a of
       None \<Rightarrow> ret (-1)
     | Some (_, f) \<Rightarrow>
         bnd (fdalloc f) (\<lambda>fd.
         if fd < 0 then ret (-1)
         else bnd (filedup f) (\<lambda>_. ret fd)))"

definition sys_read :: "('a cons_st_scheme, int) K" where
  "sys_read =
     bnd (argaddr 1) (\<lambda>p.
     bnd (argint 2) (\<lambda>n.
     bnd (argfd 0) (\<lambda>a.
     case a of None \<Rightarrow> ret (-1) | Some (_, f) \<Rightarrow> fileread f p n)))"

definition sys_write :: "('a cons_st_scheme, int) K" where
  "sys_write =
     bnd (argaddr 1) (\<lambda>p.
     bnd (argint 2) (\<lambda>n.
     bnd (argfd 0) (\<lambda>a.
     case a of None \<Rightarrow> ret (-1) | Some (_, f) \<Rightarrow> filewrite f p n)))"

text \<open>\<open>f->op->close(f)\<close>: the table of operations of the file may be null.\<close>

definition file_close :: "nat \<Rightarrow> ('a fs_st_scheme, unit) K" where
  "file_close f = bnd (get_file f) (\<lambda>x. bnd (vcall (f_op x)) (\<lambda>_. xv6fs_fileclose f))"

definition sys_close :: "('a cons_st_scheme, int) K" where
  "sys_close =
     bnd (argfd 0) (\<lambda>a.
     case a of
       None \<Rightarrow> ret (-1)
     | Some (fd, f) \<Rightarrow>
         bnd curproc (\<lambda>i.
         bnd (set_proc i (\<lambda>p. p\<lparr>p_ofile := (p_ofile p)(fd := None)\<rparr>)) (\<lambda>_.
         bnd (file_close f) (\<lambda>_.
         ret 0))))"

definition sys_fstat :: "('a cons_st_scheme, int) K" where
  "sys_fstat =
     bnd (argaddr 1) (\<lambda>st.
     bnd (argfd 0) (\<lambda>a.
     case a of None \<Rightarrow> ret (-1) | Some (_, f) \<Rightarrow> filestat f st))"

section \<open>Calls on paths\<close>

definition link_bad :: "nat \<Rightarrow> ('a fs_st_scheme, int) K" where
  "link_bad ip =
     bnd (ilock (Some ip)) (\<lambda>_.
     bnd (set_inode ip (\<lambda>i. i\<lparr>i_nlink := i_nlink i - 1\<rparr>)) (\<lambda>_.
     bnd (get_inode ip) (\<lambda>i.
     bnd (vcall (i_op i)) (\<lambda>_.
     bnd (xv6fs_iupdate ip) (\<lambda>_.
     bnd (iunlockput (Some ip)) (\<lambda>_.
     ret (-1)))))))"

definition sys_link :: "('a cons_st_scheme, int) K" where
  "sys_link =
     bnd (argstr 0 MAXPATH) (\<lambda>old.
     if fst old < 0 then ret (-1)
     else bnd (argstr 1 MAXPATH) (\<lambda>new.
     if fst new < 0 then ret (-1)
     else bnd (namei (snd old)) (\<lambda>r.
     case r of
       None \<Rightarrow> ret (-1)
     | Some ip \<Rightarrow>
         bnd (ilock (Some ip)) (\<lambda>_.
         bnd (get_inode ip) (\<lambda>i.
         if i_type i = T_DIR then bnd (iunlockput (Some ip)) (\<lambda>_. ret (-1))
         else bnd (set_inode ip (\<lambda>i. i\<lparr>i_nlink := i_nlink i + 1\<rparr>)) (\<lambda>_.
           bnd (vcall (i_op i)) (\<lambda>_.
           bnd (xv6fs_iupdate ip) (\<lambda>_.
           bnd (iunlock (Some ip)) (\<lambda>_.
           bnd (nameiparent (snd new) (\<lambda>_. 0)) (\<lambda>q.
           case fst q of
             None \<Rightarrow> link_bad ip
           | Some dp \<Rightarrow>
               bnd (ilock (Some dp)) (\<lambda>_.
               bnd (get_inode dp) (\<lambda>d.
               bnd (get_inode ip) (\<lambda>i.
               bnd (if i_dev d \<noteq> i_dev i then ret (-1) else dirlink dp (snd q) (i_inum i)) (\<lambda>w.
               if w < 0 then bnd (iunlockput (Some dp)) (\<lambda>_. link_bad ip)
               else bnd (iunlockput (Some dp)) (\<lambda>_.
                 bnd (iput (Some ip)) (\<lambda>_.
                 ret 0))))))))))))))))"

definition sys_unlink :: "('a cons_st_scheme, int) K" where
  "sys_unlink =
     bnd (argstr 0 MAXPATH) (\<lambda>path.
     if fst path < 0 then ret (-1)
     else bnd new_dentry (\<lambda>t.
       if d_private t = 0 then fault
       else bnd (gets root) (\<lambda>r.
         bnd (deref r) (\<lambda>v.
         bnd (vcall (vs_op v)) (\<lambda>_.
         bnd (xv6fs_unlink (t\<lparr>d_str := strncpy (d_str t) (cname (snd path)) MAXPATH\<rparr>)) (\<lambda>w.
         bnd (free_dentry t) (\<lambda>_.
         ret w)))))))"

definition create :: "u8 list \<Rightarrow> u16 \<Rightarrow> u16 \<Rightarrow> u16 \<Rightarrow> ('a cons_st_scheme, nat option) K" where
  "create path ty major minor =
     bnd (nameiparent path (\<lambda>_. 0)) (\<lambda>q.
     case fst q of
       None \<Rightarrow> ret None
     | Some dp \<Rightarrow>
         bnd new_dentry (\<lambda>t.
         if d_private t = 0 then fault
         else bnd (get_inode dp) (\<lambda>d.
           bnd (vcall (i_op d)) (\<lambda>_.
           bnd (xv6fs_create dp (t\<lparr>d_str := strncpy (d_str t) (snd q) MAXPATH\<rparr>) ty major minor) (\<lambda>r.
           bnd (free_dentry t) (\<lambda>_.
           ret (if fst r = 1 then snd r else None)))))))"

text \<open>
  The inode \<open>sys_open\<close> works on, locked. \<open>open_tail\<close> is the rest: on failure it closes the
  file, if there is one, through \<open>f->op\<close>, which is set only afterwards, and unlocks the inode,
  which \<open>xv6fs_open\<close> has already done when it returns null.
\<close>

definition open_inode :: "u8 list \<Rightarrow> u32 \<Rightarrow> ('a cons_st_scheme, nat option) K" where
  "open_inode path omode =
     (if omode AND O_CREATE \<noteq> 0 then create path T_FILE 0 0
      else bnd (namei path) (\<lambda>r.
        case r of
          None \<Rightarrow> ret None
        | Some ip \<Rightarrow>
            bnd (ilock (Some ip)) (\<lambda>_.
            bnd (get_inode ip) (\<lambda>i.
            if i_type i = T_DIR \<and> omode \<noteq> 0 then bnd (iunlockput (Some ip)) (\<lambda>_. ret None)
            else ret (Some ip)))))"

definition open_tail :: "nat \<Rightarrow> u32 \<Rightarrow> ('a cons_st_scheme, int) K" where
  "open_tail ip omode =
     bnd (get_inode ip) (\<lambda>i.
     bnd (vcall (i_op i)) (\<lambda>_.
     bnd (xv6fs_open ip omode) (\<lambda>fo.
     case fo of
       None \<Rightarrow> bnd (iunlockput (Some ip)) (\<lambda>_. ret (-1))
     | Some f \<Rightarrow>
         bnd (fdalloc f) (\<lambda>fd.
         if fd < 0
         then bnd (file_close f) (\<lambda>_. bnd (iunlockput (Some ip)) (\<lambda>_. ret (-1)))
         else bnd (get_inode ip) (\<lambda>i.
           bnd (set_file f (\<lambda>x. x\<lparr>f_op := i_op i\<rparr>)) (\<lambda>_.
           bnd (whenK (omode AND O_TRUNC \<noteq> 0 \<and> i_type i = T_FILE)
                  (bnd (vcall (i_op i)) (\<lambda>_. xv6fs_itrunc ip))) (\<lambda>_.
           bnd (iunlock (Some ip)) (\<lambda>_.
           ret fd))))))))"

definition sys_open :: "('a cons_st_scheme, int) K" where
  "sys_open =
     bnd (argint 1) (\<lambda>omode.
     bnd (argstr 0 MAXPATH) (\<lambda>path.
     if fst path < 0 then ret (-1)
     else bnd (open_inode (snd path) omode) (\<lambda>r.
       case r of None \<Rightarrow> ret (-1) | Some ip \<Rightarrow> open_tail ip omode)))"

definition sys_mkdir :: "('a cons_st_scheme, int) K" where
  "sys_mkdir =
     bnd (argstr 0 MAXPATH) (\<lambda>path.
     if fst path < 0 then ret (-1)
     else bnd (create (snd path) T_DIR 0 0) (\<lambda>r.
       case r of
         None \<Rightarrow> ret (-1)
       | Some ip \<Rightarrow> bnd (iunlockput (Some ip)) (\<lambda>_. ret 0)))"

definition sys_mknod :: "('a cons_st_scheme, int) K" where
  "sys_mknod =
     bnd (argint 1) (\<lambda>major.
     bnd (argint 2) (\<lambda>minor.
     bnd (argstr 0 MAXPATH) (\<lambda>path.
     if fst path < 0 then ret (-1)
     else bnd (create (snd path) T_DEVICE (ucast major) (ucast minor)) (\<lambda>r.
       case r of
         None \<Rightarrow> ret (-1)
       | Some ip \<Rightarrow> bnd (iunlockput (Some ip)) (\<lambda>_. ret 0)))))"

definition sys_chdir :: "('a cons_st_scheme, int) K" where
  "sys_chdir =
     bnd curproc (\<lambda>m.
     bnd (argstr 0 MAXPATH) (\<lambda>path.
     if fst path < 0 then ret (-1)
     else bnd (namei (snd path)) (\<lambda>r.
       case r of
         None \<Rightarrow> ret (-1)
       | Some ip \<Rightarrow>
           bnd (ilock (Some ip)) (\<lambda>_.
           bnd (get_inode ip) (\<lambda>i.
           if i_type i \<noteq> T_DIR then bnd (iunlockput (Some ip)) (\<lambda>_. ret (-1))
           else bnd (iunlock (Some ip)) (\<lambda>_.
             bnd (get_proc m) (\<lambda>p.
             bnd (iput (p_cwd p)) (\<lambda>_.
             bnd (set_proc m (\<lambda>p. p\<lparr>p_cwd := Some ip\<rparr>)) (\<lambda>_.
             ret 0)))))))))"

definition sys_pipe :: "('a cons_st_scheme, int) K" where
  "sys_pipe = ret 0"

section \<open>exec\<close>

definition MAXARG :: nat where "MAXARG = 32"
definition ELF_MAGIC :: u32 where "ELF_MAGIC = 0x464C457F"

text \<open>The fields of \<open>struct elfhdr\<close> (64 bytes) and \<open>struct proghdr\<close> (56 bytes) that are read.\<close>

record elfhdr =
  e_magic :: u32
  e_entry :: u64
  e_phoff :: u64
  e_phnum :: u16

definition ld_elf :: "u8 list \<Rightarrow> elfhdr" where
  "ld_elf b = \<lparr>e_magic = ld32 (nth b) 0, e_entry = ld64 (nth b) 24, e_phoff = ld64 (nth b) 32,
     e_phnum = ld16 (nth b) 56\<rparr>"

record proghdr =
  ph_type :: u32
  ph_flags :: u32
  ph_off :: u64
  ph_vaddr :: u64
  ph_filesz :: u64
  ph_memsz :: u64

definition ld_ph :: "u8 list \<Rightarrow> proghdr" where
  "ld_ph b = \<lparr>ph_type = ld32 (nth b) 0, ph_flags = ld32 (nth b) 4, ph_off = ld64 (nth b) 8,
     ph_vaddr = ld64 (nth b) 16, ph_filesz = ld64 (nth b) 32, ph_memsz = ld64 (nth b) 40\<rparr>"

definition flags2perm :: "u32 \<Rightarrow> u64" where
  "flags2perm flags =
     (let perm = (if flags AND 1 \<noteq> 0 then PTE_X else 0)
      in if flags AND 2 \<noteq> 0 then perm OR PTE_W else perm)"

definition loadseg_one :: "u64 \<Rightarrow> u64 \<Rightarrow> nat \<Rightarrow> u32 \<Rightarrow> u32 \<Rightarrow> nat \<Rightarrow> ('a cons_st_scheme, int option) K" where
  "loadseg_one pagetable va ip offset sz k =
     (let i = of_nat (k * PGSIZE) :: u32; n = (if sz - i < 4096 then sz - i else 4096) in
      bnd (walkaddr pagetable (va + ucast i)) (\<lambda>pa.
      if pa = 0 then panic ''loadseg: address should exist''
      else bnd (get_inode ip) (\<lambda>x.
        bnd (vcall (i_op x)) (\<lambda>_.
        bnd (xv6fs_readi ip (PDst pa) (offset + i) n) (\<lambda>r.
        ret (if fst r \<noteq> uint n then Some (-1) else None))))))"

definition loadseg :: "u64 \<Rightarrow> u64 \<Rightarrow> nat \<Rightarrow> u32 \<Rightarrow> u32 \<Rightarrow> ('a cons_st_scheme, int) K" where
  "loadseg pagetable va ip offset sz =
     bnd (untilK (loadseg_one pagetable va ip offset sz) [0..<(unat sz + (PGSIZE - 1)) div PGSIZE]) (\<lambda>r.
     case r of None \<Rightarrow> ret 0 | Some x \<Rightarrow> ret x)"

text \<open>
  The loop over the program headers, by the number of headers left; it returns whether it ran
  to the end, with the size reached.
\<close>

primrec exec_load :: "nat \<Rightarrow> u64 \<Rightarrow> nat \<Rightarrow> u32 \<Rightarrow> u64 \<Rightarrow> ('a cons_st_scheme, bool \<times> u64) K" where
  "exec_load 0 pagetable ip off sz = ret (True, sz)"
| "exec_load (Suc m) pagetable ip off sz =
     bnd (get_inode ip) (\<lambda>x.
     bnd (vcall (i_op x)) (\<lambda>_.
     bnd (xv6fs_readi ip KVar off 56) (\<lambda>r.
     if fst r \<noteq> 56 then ret (False, sz)
     else let ph = ld_ph (snd r) in
       if ph_type ph \<noteq> 1 then exec_load m pagetable ip (off + 56) sz
       else if ph_memsz ph < ph_filesz ph then ret (False, sz)
       else if ph_vaddr ph + ph_memsz ph < ph_vaddr ph then ret (False, sz)
       else if ph_vaddr ph mod 4096 \<noteq> 0 then ret (False, sz)
       else bnd (uvmalloc pagetable sz (ph_vaddr ph + ph_memsz ph) (flags2perm (ph_flags ph))) (\<lambda>sz1.
         if sz1 = 0 then ret (False, sz)
         else bnd (loadseg pagetable (ph_vaddr ph) ip (ucast (ph_off ph)) (ucast (ph_filesz ph))) (\<lambda>w.
           if w < 0 then ret (False, sz1)
           else exec_load m pagetable ip (off + 56) sz1)))))"

text \<open>Pushing the argument strings: the stack pointer and the addresses pushed, or nothing.\<close>

fun push_args :: "u64 \<Rightarrow> u64 \<Rightarrow> u64 \<Rightarrow> u8 list list \<Rightarrow> u64 list \<Rightarrow> ('a cons_st_scheme, (u64 \<times> u64 list) option) K" where
  "push_args pagetable stackbase sp [] ustack = ret (Some (sp, ustack))"
| "push_args pagetable stackbase sp (a # as) ustack =
     (if length ustack \<ge> MAXARG then ret None
      else let sp1 = sp - of_nat (length a + 1); sp2 = sp1 - sp1 mod 16 in
        if sp2 < stackbase then ret None
        else bnd (copyout pagetable sp2 (a @ [0])) (\<lambda>r.
          if r < 0 then ret None
          else push_args pagetable stackbase sp2 as (ustack @ [sp2])))"

definition exec_bad :: "u64 \<Rightarrow> u64 \<Rightarrow> nat option \<Rightarrow> ('a cons_st_scheme, int) K" where
  "exec_bad pagetable sz ip =
     bnd (whenK (pagetable \<noteq> 0) (proc_freepagetable pagetable sz)) (\<lambda>_.
     bnd (whenK (ip \<noteq> None) (iunlockput ip)) (\<lambda>_.
     ret (-1)))"

text \<open>The part of the path after the last slash.\<close>

fun last_elem :: "u8 list \<Rightarrow> u8 list \<Rightarrow> u8 list" where
  "last_elem l [] = l"
| "last_elem l (c # cs) = (if c = SLASH then last_elem cs cs else last_elem l cs)"

definition exec_commit :: "nat \<Rightarrow> u8 list \<Rightarrow> u64 \<Rightarrow> u64 \<Rightarrow> u64 \<Rightarrow> u64 \<Rightarrow> u64 \<Rightarrow> ('a cons_st_scheme, unit) K" where
  "exec_commit i path pagetable sz entry sp oldsz =
     bnd (set_tf i TF_A1 sp) (\<lambda>_.
     bnd (set_proc i (\<lambda>p. p\<lparr>p_name := safestrcpy (p_name p) (cname (last_elem path path)) 16\<rparr>)) (\<lambda>_.
     bnd (get_proc i) (\<lambda>p.
     bnd (set_proc i (\<lambda>p. p\<lparr>p_pagetable := pagetable, p_sz := sz\<rparr>)) (\<lambda>_.
     bnd (set_tf i TF_EPC entry) (\<lambda>_.
     bnd (set_tf i TF_SP sp) (\<lambda>_.
     proc_freepagetable (p_pagetable p) oldsz))))))"

definition exec_stack :: "nat \<Rightarrow> u8 list \<Rightarrow> u8 list list \<Rightarrow> u64 \<Rightarrow> u64 \<Rightarrow> u64 \<Rightarrow> ('a cons_st_scheme, int) K" where
  "exec_stack i path argv pagetable sz0 entry =
     bnd (get_proc i) (\<lambda>p.
     let oldsz = p_sz p; szr = PGROUNDUP sz0 in
     bnd (uvmalloc pagetable szr (szr + 2 * 4096) PTE_W) (\<lambda>sz1.
     if sz1 = 0 then exec_bad pagetable szr None
     else bnd (uvmclear pagetable (sz1 - 2 * 4096)) (\<lambda>_.
       bnd (push_args pagetable (sz1 - 4096) sz1 argv []) (\<lambda>r.
       case r of
         None \<Rightarrow> exec_bad pagetable sz1 None
       | Some (sp, ustack) \<Rightarrow>
           let sp1 = sp - of_nat ((length ustack + 1) * 8); sp2 = sp1 - sp1 mod 16 in
           if sp2 < sz1 - 4096 then exec_bad pagetable sz1 None
           else bnd (copyout pagetable sp2 (concat (map (le_bytes 8) (ustack @ [0])))) (\<lambda>w.
             if w < 0 then exec_bad pagetable sz1 None
             else bnd (exec_commit i path pagetable sz1 entry sp2 oldsz) (\<lambda>_.
               ret (int (length ustack))))))))"

definition exec :: "u8 list \<Rightarrow> u8 list list \<Rightarrow> ('a cons_st_scheme, int) K" where
  "exec path argv =
     bnd curproc (\<lambda>i.
     bnd (namei path) (\<lambda>r.
     case r of
       None \<Rightarrow> ret (-1)
     | Some ip \<Rightarrow>
         bnd (ilock (Some ip)) (\<lambda>_.
         bnd (get_inode ip) (\<lambda>x.
         bnd (vcall (i_op x)) (\<lambda>_.
         bnd (xv6fs_readi ip KVar 0 64) (\<lambda>e.
         if fst e \<noteq> 64 then exec_bad 0 0 (Some ip)
         else let elf = ld_elf (snd e) in
           if e_magic elf \<noteq> ELF_MAGIC then exec_bad 0 0 (Some ip)
           else bnd (proc_pagetable i) (\<lambda>pagetable.
             if pagetable = 0 then exec_bad 0 0 (Some ip)
             else bnd (exec_load (unat (e_phnum elf)) pagetable ip (ucast (e_phoff elf)) 0) (\<lambda>l.
               if \<not> fst l then exec_bad pagetable (snd l) (Some ip)
               else bnd (iunlockput (Some ip)) (\<lambda>_.
                 exec_stack i path argv pagetable (snd l) (e_entry elf))))))))))"

text \<open>
  The arguments of \<open>sys_exec\<close>, by the number of slots of \<open>argv\<close> left: the pages allocated
  with the strings copied into them, and whether the loop ended at a null pointer.
\<close>

primrec fetch_args :: "nat \<Rightarrow> u64 \<Rightarrow> (u64 \<times> u8 list) list \<Rightarrow> ('a cons_st_scheme, bool \<times> (u64 \<times> u8 list) list) K" where
  "fetch_args 0 ua acc = ret (False, acc)"
| "fetch_args (Suc k) ua acc =
     bnd (fetchaddr ua) (\<lambda>r.
     if fst r < 0 then ret (False, acc)
     else if snd r = 0 then ret (True, acc)
     else bnd kalloc (\<lambda>pg.
       if pg = 0 then ret (False, acc)
       else bnd (fetchstr (snd r) PGSIZE) (\<lambda>str.
         bnd (modify (\<lambda>s. s\<lparr>pmem := wr (pmem s) (unat pg) (snd str @ (if fst str < 0 then [] else [0]))\<rparr>)) (\<lambda>_.
         if fst str < 0 then ret (False, acc @ [(pg, snd str)])
         else fetch_args k (ua + 8) (acc @ [(pg, snd str)])))))"

definition sys_exec :: "('a cons_st_scheme, int) K" where
  "sys_exec =
     bnd (argaddr 1) (\<lambda>uargv.
     bnd (argstr 0 MAXPATH) (\<lambda>path.
     if fst path < 0 then ret (-1)
     else bnd (fetch_args MAXARG uargv []) (\<lambda>r.
       bnd (if fst r then exec (snd path) (map snd (snd r)) else ret (-1)) (\<lambda>w.
       bnd (forK (\<lambda>a. kfree (fst a)) (snd r)) (\<lambda>_.
       ret w)))))"

end
