(* ===== verification/Syscall.thy ===== *)
theory Syscall
  imports Sysfile
begin

text \<open>
  The rest of \<open>kernel/proc.c\<close>, which needs the file system (\<open>userinit\<close>, \<open>fork\<close>, \<open>exit\<close>, a
  round of the scheduler), the calls on processes (\<open>kernel/sysproc.c\<close>) and the dispatcher
  \<open>syscall\<close> of \<open>kernel/syscall.c\<close>. The results of the calls are integers; the dispatcher stores
  them in the saved register a0 as the 64-bit words C converts them to.
\<close>

section \<open>The life of a process\<close>

text \<open>The program of the first process, which calls \<open>exec("/init")\<close>.\<close>

definition initcode :: "u8 list" where
  "initcode = [
     0x17, 0x05, 0x00, 0x00, 0x13, 0x05, 0x45, 0x02,
     0x97, 0x05, 0x00, 0x00, 0x93, 0x85, 0x35, 0x02,
     0x93, 0x08, 0x70, 0x00, 0x73, 0x00, 0x00, 0x00,
     0x93, 0x08, 0x20, 0x00, 0x73, 0x00, 0x00, 0x00,
     0xef, 0xf0, 0x9f, 0xff, 0x2f, 0x69, 0x6e, 0x69,
     0x74, 0x00, 0x00, 0x24, 0x00, 0x00, 0x00, 0x00,
     0x00, 0x00, 0x00, 0x00]"

definition userinit :: "('a cons_st_scheme, unit) K" where
  "userinit =
     bnd allocproc (\<lambda>r.
     bnd (modify (\<lambda>s. s\<lparr>initproc := r\<rparr>)) (\<lambda>_.
     bnd (deref r) (\<lambda>i.
     bnd (get_proc i) (\<lambda>p.
     bnd (uvmfirst (p_pagetable p) initcode) (\<lambda>_.
     bnd (set_proc i (\<lambda>p. p\<lparr>p_sz := 4096\<rparr>)) (\<lambda>_.
     bnd (set_tf i TF_EPC 0) (\<lambda>_.
     bnd (set_tf i TF_SP 4096) (\<lambda>_.
     bnd (set_proc i (\<lambda>p. p\<lparr>p_name := safestrcpy (p_name p) (cname (chars ''initcode'')) 16\<rparr>)) (\<lambda>_.
     bnd (namei [SLASH]) (\<lambda>ip.
     bnd (set_proc i (\<lambda>p. p\<lparr>p_cwd := ip\<rparr>)) (\<lambda>_.
     bnd (set_proc i (\<lambda>p. p\<lparr>p_state := RUNNABLE\<rparr>)) (\<lambda>_.
     release (LProc i)))))))))))))"

definition fork_ofile :: "nat \<Rightarrow> nat \<Rightarrow> nat \<Rightarrow> ('a cons_st_scheme, unit) K" where
  "fork_ofile i np fd =
     bnd (get_proc i) (\<lambda>p.
     case p_ofile p fd of
       None \<Rightarrow> ret ()
     | Some f \<Rightarrow>
         bnd (filedup f) (\<lambda>g.
         set_proc np (\<lambda>q. q\<lparr>p_ofile := (p_ofile q)(fd \<mapsto> g)\<rparr>)))"

definition TRAPFRAME_SIZE :: nat where "TRAPFRAME_SIZE = 288"

definition fork_child :: "nat \<Rightarrow> nat \<Rightarrow> ('a cons_st_scheme, int) K" where
  "fork_child i np =
     bnd (get_proc i) (\<lambda>p.
     bnd (set_proc np (\<lambda>q. q\<lparr>p_sz := p_sz p\<rparr>)) (\<lambda>_.
     bnd (get_proc np) (\<lambda>q.
     bnd (modify (\<lambda>s. s\<lparr>pmem := wr (pmem s) (unat (p_trapframe q))
            (rd (pmem s) (unat (p_trapframe p)) TRAPFRAME_SIZE)\<rparr>)) (\<lambda>_.
     bnd (set_tf np TF_A0 0) (\<lambda>_.
     bnd (forK (fork_ofile i np) [0..<NOFILE]) (\<lambda>_.
     bnd (idup (p_cwd p)) (\<lambda>ip.
     bnd (set_proc np (\<lambda>q. q\<lparr>p_cwd := Some ip, p_name := safestrcpy (p_name q) (p_name p) 16\<rparr>)) (\<lambda>_.
     bnd (get_proc np) (\<lambda>q.
     bnd (release (LProc np)) (\<lambda>_.
     bnd (acquire LWait) (\<lambda>_.
     bnd (set_proc np (\<lambda>q. q\<lparr>p_parent := Some i\<rparr>)) (\<lambda>_.
     bnd (release LWait) (\<lambda>_.
     bnd (acquire (LProc np)) (\<lambda>_.
     bnd (set_proc np (\<lambda>q. q\<lparr>p_state := RUNNABLE\<rparr>)) (\<lambda>_.
     bnd (release (LProc np)) (\<lambda>_.
     ret (sint (p_pid q))))))))))))))))))"

definition fork :: "('a cons_st_scheme, int) K" where
  "fork =
     bnd curproc (\<lambda>i.
     bnd allocproc (\<lambda>a.
     case a of
       None \<Rightarrow> ret (-1)
     | Some np \<Rightarrow>
         bnd (get_proc i) (\<lambda>p.
         bnd (get_proc np) (\<lambda>q.
         bnd (uvmcopy (p_pagetable p) (p_pagetable q) (p_sz p)) (\<lambda>r.
         if r < 0 then bnd (freeproc np) (\<lambda>_. bnd (release (LProc np)) (\<lambda>_. ret (-1)))
         else fork_child i np)))))"

definition exit_ofile :: "nat \<Rightarrow> nat \<Rightarrow> ('a cons_st_scheme, unit) K" where
  "exit_ofile i fd =
     bnd (get_proc i) (\<lambda>p.
     case p_ofile p fd of
       None \<Rightarrow> ret ()
     | Some f \<Rightarrow>
         bnd (file_close f) (\<lambda>_.
         set_proc i (\<lambda>p. p\<lparr>p_ofile := (p_ofile p)(fd := None)\<rparr>)))"

text \<open>
  \<open>exit\<close> ends in \<open>sched\<close>, which does not come back. Nobody sleeps on the null channel, so
  waking the null parent of the first process has no effect.
\<close>

definition exit :: "u32 \<Rightarrow> ('a cons_st_scheme, 'b) K" where
  "exit status =
     bnd myproc (\<lambda>m.
     bnd (gets initproc) (\<lambda>ini.
     if m = ini then panic ''init exiting''
     else bnd (deref m) (\<lambda>i.
       bnd (forK (exit_ofile i) [0..<NOFILE]) (\<lambda>_.
       bnd (get_proc i) (\<lambda>p.
       bnd (iput (p_cwd p)) (\<lambda>_.
       bnd (set_proc i (\<lambda>p. p\<lparr>p_cwd := None\<rparr>)) (\<lambda>_.
       bnd (acquire LWait) (\<lambda>_.
       bnd (reparent i) (\<lambda>_.
       bnd (get_proc i) (\<lambda>p.
       bnd (case p_parent p of None \<Rightarrow> ret () | Some k \<Rightarrow> wakeup (ChProc k)) (\<lambda>_.
       bnd (acquire (LProc i)) (\<lambda>_.
       bnd (set_proc i (\<lambda>p. p\<lparr>p_xstate := status, p_state := ZOMBIE\<rparr>)) (\<lambda>_.
       bnd (release LWait) (\<lambda>_.
       bnd sched (\<lambda>_.
       panic ''zombie exit'')))))))))))))))"

text \<open>
  A round of \<open>scheduler\<close> up to the switch to the first runnable process it meets, and what the
  scheduler does when that process comes back.
\<close>

definition scheduler_round :: "('a proc_st_scheme, nat option) K" where
  "scheduler_round =
     bnd intr_on (\<lambda>_.
     untilK (\<lambda>i. bnd (sched_pick i) (\<lambda>b. ret (if b then Some i else None))) [0..<NPROC])"

definition scheduler_back :: "nat \<Rightarrow> ('a proc_st_scheme, unit) K" where
  "scheduler_back i =
     bnd (set_cpu (\<lambda>c. c\<lparr>c_proc := None\<rparr>)) (\<lambda>_.
     release (LProc i))"

section \<open>Calls on processes\<close>

definition sys_exit :: "('a cons_st_scheme, int) K" where
  "sys_exit = bnd (argint 0) (\<lambda>n. exit n)"

definition sys_getpid :: "('a cons_st_scheme, int) K" where
  "sys_getpid = bnd curproc (\<lambda>i. bnd (get_proc i) (\<lambda>p. ret (sint (p_pid p))))"

definition sys_fork :: "('a cons_st_scheme, int) K" where
  "sys_fork = fork"

definition sys_wait :: "('a cons_st_scheme, int) K" where
  "sys_wait = bnd (argaddr 0) wait"

definition sys_sbrk :: "('a cons_st_scheme, int) K" where
  "sys_sbrk =
     bnd (argint 0) (\<lambda>n.
     bnd curproc (\<lambda>i.
     bnd (get_proc i) (\<lambda>p.
     bnd (growproc (sint n)) (\<lambda>r.
     ret (if r < 0 then -1 else uint (p_sz p))))))"

text \<open>The test compares unsigned words; a process that has to wait sleeps in the first round.\<close>

definition sys_sleep :: "('a cons_st_scheme, int) K" where
  "sys_sleep =
     bnd (argint 0) (\<lambda>n.
     bnd (acquire LTicks) (\<lambda>_.
     bnd (gets ticks) (\<lambda>ticks0.
     bnd (gets (\<lambda>s. ticks s - ticks0 < n)) (\<lambda>w.
     if w
     then bnd curproc (\<lambda>i.
       bnd (killed i) (\<lambda>k.
       if k then bnd (release LTicks) (\<lambda>_. ret (-1))
       else bnd (sleep ChTicks LTicks) (\<lambda>_. blocked)))
     else bnd (release LTicks) (\<lambda>_. ret 0)))))"

definition sys_kill :: "('a cons_st_scheme, int) K" where
  "sys_kill = bnd (argint 0) kill"

definition sys_uptime :: "('a cons_st_scheme, int) K" where
  "sys_uptime =
     bnd (acquire LTicks) (\<lambda>_.
     bnd (gets ticks) (\<lambda>x.
     bnd (release LTicks) (\<lambda>_.
     ret (uint x))))"

section \<open>The dispatcher\<close>

definition syscalls :: "u32 \<Rightarrow> ('a cons_st_scheme, int) K option" where
  "syscalls num =
     (if num = 1 then Some sys_fork else if num = 2 then Some sys_exit
      else if num = 3 then Some sys_wait else if num = 4 then Some sys_pipe
      else if num = 5 then Some sys_read else if num = 6 then Some sys_kill
      else if num = 7 then Some sys_exec else if num = 8 then Some sys_fstat
      else if num = 9 then Some sys_chdir else if num = 10 then Some sys_dup
      else if num = 11 then Some sys_getpid else if num = 12 then Some sys_sbrk
      else if num = 13 then Some sys_sleep else if num = 14 then Some sys_uptime
      else if num = 15 then Some sys_open else if num = 16 then Some sys_write
      else if num = 17 then Some sys_mknod else if num = 18 then Some sys_unlink
      else if num = 19 then Some sys_link else if num = 20 then Some sys_mkdir
      else if num = 21 then Some sys_close else None)"

definition syscall :: "('a cons_st_scheme, unit) K" where
  "syscall =
     bnd curproc (\<lambda>i.
     bnd (get_tf i TF_A7) (\<lambda>v.
     let num = ucast v :: u32 in
     case (if sint num > 0 then syscalls num else None) of
       Some f \<Rightarrow> bnd f (\<lambda>r. set_tf i TF_A0 (of_int r))
     | None \<Rightarrow>
         bnd (get_proc i) (\<lambda>p.
         bnd (printf (chars ''%d %s: unknown sys call %d'' @ [10])
                [PInt (p_pid p), PStr (Some (cstr 16 (p_name p))), PInt num]) (\<lambda>_.
         set_tf i TF_A0 (-1)))))"

end
