(* ===== verification/Virtio.thy ===== *)
theory Virtio
  imports Fileops
begin

text \<open>
  The driver of the disk, \<open>kernel/virtio_disk.c\<close>. The descriptor table and the two rings are
  kept as objects; a descriptor's address says which structure it points to. The values the
  device's registers return are a list in the state, consumed by the reads, and the writes
  are recorded. What the device does with a request is a parameter of the lemmas; the rest of
  the kernel uses the effect of a finished request, \<open>disk_transfer\<close> of theory \<open>Bio\<close>.
\<close>

section \<open>State\<close>

definition NUM :: nat where "NUM = 8"
definition VRING_DESC_F_NEXT :: u16 where "VRING_DESC_F_NEXT = 1"
definition VRING_DESC_F_WRITE :: u16 where "VRING_DESC_F_WRITE = 2"
definition VIRTIO_BLK_T_IN :: u32 where "VIRTIO_BLK_T_IN = 0"
definition VIRTIO_BLK_T_OUT :: u32 where "VIRTIO_BLK_T_OUT = 1"

datatype daddr = ANull | AReq nat | AData nat | AStatus nat

record virtq_desc =
  v_addr :: daddr
  v_len :: u32
  v_flags :: u16
  v_next :: u16

record virtio_blk_req =
  r_type :: u32
  r_reserved :: u32
  r_sector :: u64

record vd_st = pipe_st +
  vd_desc_pa :: u64
  vd_avail_pa :: u64
  vd_used_pa :: u64
  vd_desc :: "nat \<Rightarrow> virtq_desc"
  avail_idx :: u16
  avail_ring :: "nat \<Rightarrow> u16"
  dev_used_idx :: u16
  used_ring :: "nat \<Rightarrow> u32"
  vd_free :: "nat \<Rightarrow> bool"
  used_idx :: u16
  info_b :: "nat \<Rightarrow> nat option"
  info_status :: "nat \<Rightarrow> u8"
  vd_ops :: "nat \<Rightarrow> virtio_blk_req"
  mmio_in :: "u32 list"
  mmio_log :: "(nat \<times> u32) list"

definition read_mmio :: "('a vd_st_scheme, u32) K" where
  "read_mmio =
     bnd (gets mmio_in) (\<lambda>q. case q of
       [] \<Rightarrow> blocked
     | v # vs \<Rightarrow> bnd (modify (\<lambda>s. s\<lparr>mmio_in := vs\<rparr>)) (\<lambda>_. ret v))"

definition write_mmio :: "nat \<Rightarrow> u32 \<Rightarrow> ('a vd_st_scheme, unit) K" where
  "write_mmio r v = modify (\<lambda>s. s\<lparr>mmio_log := mmio_log s @ [(r, v)]\<rparr>)"

section \<open>Initialization\<close>

text \<open>The four identification registers, read until one is wrong.\<close>

definition probe :: "('a vd_st_scheme, bool) K" where
  "probe =
     bnd read_mmio (\<lambda>magic. if magic \<noteq> 0x74726976 then ret False
     else bnd read_mmio (\<lambda>version. if version \<noteq> 2 then ret False
     else bnd read_mmio (\<lambda>device. if device \<noteq> 2 then ret False
     else bnd read_mmio (\<lambda>vendor. ret (vendor = 0x554d4551)))))"

definition drop_features :: "u32 \<Rightarrow> u32" where
  "drop_features f = f AND NOT (push_bit 5 1) AND NOT (push_bit 7 1) AND NOT (push_bit 11 1)
     AND NOT (push_bit 12 1) AND NOT (push_bit 27 1) AND NOT (push_bit 29 1) AND NOT (push_bit 28 1)"

text \<open>The registers' offsets are those of \<open>kernel/virtio.h\<close>; the status bits are 1, 2, 8 and 4.\<close>

definition init_negotiate :: "('a vd_st_scheme, u32) K" where
  "init_negotiate =
     bnd (write_mmio 0x070 0) (\<lambda>_.
     bnd (write_mmio 0x070 1) (\<lambda>_.
     bnd (write_mmio 0x070 3) (\<lambda>_.
     bnd read_mmio (\<lambda>features.
     bnd (write_mmio 0x020 (drop_features features)) (\<lambda>_.
     bnd (write_mmio 0x070 11) (\<lambda>_.
     bnd read_mmio (\<lambda>status.
     if status AND 8 = 0 then panic ''virtio disk FEATURES_OK unset'' else ret status)))))))"

definition init_queue :: "('a vd_st_scheme, unit) K" where
  "init_queue =
     bnd (write_mmio 0x030 0) (\<lambda>_.
     bnd read_mmio (\<lambda>ready.
     if ready \<noteq> 0 then panic ''virtio disk should not be ready''
     else bnd read_mmio (\<lambda>mx.
       if mx = 0 then panic ''virtio disk has no queue 0''
       else if mx < of_nat NUM then panic ''virtio disk max queue too short''
       else bnd kalloc (\<lambda>desc.
         bnd kalloc (\<lambda>avail.
         bnd kalloc (\<lambda>used.
         bnd (modify (\<lambda>s. s\<lparr>vd_desc_pa := desc, vd_avail_pa := avail, vd_used_pa := used\<rparr>)) (\<lambda>_.
         if desc = 0 \<or> avail = 0 \<or> used = 0 then panic ''virtio disk kalloc''
         else bnd (modify (\<lambda>s. s\<lparr>vd_desc := (\<lambda>_. \<lparr>v_addr = ANull, v_len = 0, v_flags = 0, v_next = 0\<rparr>),
                     avail_idx := 0, avail_ring := (\<lambda>_. 0), dev_used_idx := 0, used_ring := (\<lambda>_. 0)\<rparr>)) (\<lambda>_.
           bnd (write_mmio 0x038 (of_nat NUM)) (\<lambda>_.
           bnd (write_mmio 0x080 (ucast desc)) (\<lambda>_.
           bnd (write_mmio 0x084 (ucast (drop_bit 32 desc))) (\<lambda>_.
           bnd (write_mmio 0x090 (ucast avail)) (\<lambda>_.
           bnd (write_mmio 0x094 (ucast (drop_bit 32 avail))) (\<lambda>_.
           bnd (write_mmio 0x0a0 (ucast used)) (\<lambda>_.
           bnd (write_mmio 0x0a4 (ucast (drop_bit 32 used))) (\<lambda>_.
           write_mmio 0x044 1)))))))))))))))"

definition virtio_disk_init :: "('a vd_st_scheme, unit) K" where
  "virtio_disk_init =
     bnd (initlock LDisk ''virtio_disk'') (\<lambda>_.
     bnd probe (\<lambda>ok.
     if \<not> ok then panic ''could not find virtio disk''
     else bnd init_negotiate (\<lambda>status.
       bnd init_queue (\<lambda>_.
       bnd (forK (\<lambda>i. modify (\<lambda>s. s\<lparr>vd_free := (vd_free s)(i := True)\<rparr>)) [0..<NUM]) (\<lambda>_.
       write_mmio 0x070 (status OR 4))))))"

section \<open>Descriptors\<close>

definition alloc_desc :: "('a vd_st_scheme, nat option) K" where
  "alloc_desc =
     bnd (gets (\<lambda>s. find (vd_free s) [0..<NUM])) (\<lambda>r.
     case r of
       None \<Rightarrow> ret None
     | Some i \<Rightarrow> bnd (modify (\<lambda>s. s\<lparr>vd_free := (vd_free s)(i := False)\<rparr>)) (\<lambda>_. ret (Some i)))"

definition free_desc :: "nat \<Rightarrow> ('a vd_st_scheme, unit) K" where
  "free_desc i =
     (if i \<ge> NUM then panic ''free_desc 1''
      else bnd (gets (\<lambda>s. vd_free s i)) (\<lambda>f.
        if f then panic ''free_desc 2''
        else bnd (modify (\<lambda>s. s\<lparr>vd_desc := (vd_desc s)(i := \<lparr>v_addr = ANull, v_len = 0, v_flags = 0, v_next = 0\<rparr>)\<rparr>)) (\<lambda>_.
          bnd (modify (\<lambda>s. s\<lparr>vd_free := (vd_free s)(i := True)\<rparr>)) (\<lambda>_.
          wakeup ChDesc))))"

text \<open>
  Every round of \<open>free_chain\<close> frees a descriptor that was in use, so there are at most \<open>NUM\<close>
  rounds before \<open>free_desc\<close> panics; the fuel is one more.
\<close>

primrec free_chain_loop :: "nat \<Rightarrow> nat \<Rightarrow> ('a vd_st_scheme, unit) K" where
  "free_chain_loop 0 i = blocked"
| "free_chain_loop (Suc k) i =
     bnd (gets (\<lambda>s. vd_desc s i)) (\<lambda>d.
     bnd (free_desc i) (\<lambda>_.
     if v_flags d AND VRING_DESC_F_NEXT \<noteq> 0 then free_chain_loop k (unat (v_next d)) else ret ()))"

definition free_chain :: "nat \<Rightarrow> ('a vd_st_scheme, unit) K" where
  "free_chain i = free_chain_loop (Suc NUM) i"

definition alloc3_desc :: "('a vd_st_scheme, (nat \<times> nat \<times> nat) option) K" where
  "alloc3_desc =
     bnd alloc_desc (\<lambda>a.
     case a of
       None \<Rightarrow> ret None
     | Some i0 \<Rightarrow>
         bnd alloc_desc (\<lambda>b.
         case b of
           None \<Rightarrow> bnd (free_desc i0) (\<lambda>_. ret None)
         | Some i1 \<Rightarrow>
             bnd alloc_desc (\<lambda>c.
             case c of
               None \<Rightarrow> bnd (free_desc i0) (\<lambda>_. bnd (free_desc i1) (\<lambda>_. ret None))
             | Some i2 \<Rightarrow> ret (Some (i0, i1, i2)))))"

section \<open>Requests\<close>

definition set_desc :: "nat \<Rightarrow> virtq_desc \<Rightarrow> ('a vd_st_scheme, unit) K" where
  "set_desc i d = modify (\<lambda>s. s\<lparr>vd_desc := (vd_desc s)(i := d)\<rparr>)"

text \<open>The request as the device will find it, up to the notification.\<close>

definition submit :: "nat \<Rightarrow> bool \<Rightarrow> nat \<times> nat \<times> nat \<Rightarrow> ('a vd_st_scheme, unit) K" where
  "submit b write idx =
     (case idx of (i0, i1, i2) \<Rightarrow>
      bnd (get_buf b) (\<lambda>x.
      bnd (modify (\<lambda>s. s\<lparr>vd_ops := (vd_ops s)(i0 :=
             \<lparr>r_type = (if write then VIRTIO_BLK_T_OUT else VIRTIO_BLK_T_IN), r_reserved = 0,
              r_sector = ucast (b_blockno x * 2)\<rparr>)\<rparr>)) (\<lambda>_.
      bnd (set_desc i0 \<lparr>v_addr = AReq i0, v_len = 16, v_flags = VRING_DESC_F_NEXT, v_next = of_nat i1\<rparr>) (\<lambda>_.
      bnd (set_desc i1 \<lparr>v_addr = AData b, v_len = of_nat BSIZE,
             v_flags = (if write then 0 else VRING_DESC_F_WRITE) OR VRING_DESC_F_NEXT, v_next = of_nat i2\<rparr>) (\<lambda>_.
      bnd (modify (\<lambda>s. s\<lparr>info_status := (info_status s)(i0 := 0xff)\<rparr>)) (\<lambda>_.
      bnd (set_desc i2 \<lparr>v_addr = AStatus i0, v_len = 1, v_flags = VRING_DESC_F_WRITE, v_next = 0\<rparr>) (\<lambda>_.
      bnd (set_buf b (\<lambda>x. x\<lparr>b_disk := True\<rparr>)) (\<lambda>_.
      bnd (modify (\<lambda>s. s\<lparr>info_b := (info_b s)(i0 := Some b)\<rparr>)) (\<lambda>_.
      bnd (modify (\<lambda>s. s\<lparr>avail_ring := (avail_ring s)(unat (avail_idx s) mod NUM := of_nat i0)\<rparr>)) (\<lambda>_.
      bnd (modify (\<lambda>s. s\<lparr>avail_idx := avail_idx s + 1\<rparr>)) (\<lambda>_.
      write_mmio 0x050 0)))))))))))"

definition virtio_finish :: "nat \<Rightarrow> ('a vd_st_scheme, unit) K" where
  "virtio_finish i0 =
     bnd (modify (\<lambda>s. s\<lparr>info_b := (info_b s)(i0 := None)\<rparr>)) (\<lambda>_.
     bnd (free_chain i0) (\<lambda>_.
     release LDisk))"

text \<open>
  The call up to the first sleep is \<open>virtio_start\<close>; when the process runs again, with the lock
  held and \<open>b->disk\<close> cleared, it goes on with \<open>virtio_finish\<close>.
\<close>

definition virtio_start :: "nat \<Rightarrow> bool \<Rightarrow> ('a vd_st_scheme, nat) K" where
  "virtio_start b write =
     bnd (acquire LDisk) (\<lambda>_.
     bnd alloc3_desc (\<lambda>r.
     case r of
       None \<Rightarrow> bnd (sleep ChDesc LDisk) (\<lambda>_. blocked)
     | Some idx \<Rightarrow> bnd (submit b write idx) (\<lambda>_. ret (fst idx))))"

definition virtio_disk_rw :: "nat \<Rightarrow> bool \<Rightarrow> ('a vd_st_scheme, unit) K" where
  "virtio_disk_rw b write =
     bnd (virtio_start b write) (\<lambda>i0.
     bnd (get_buf b) (\<lambda>x.
     bnd (whenK (b_disk x) (sleep (ChDisk b) LDisk)) (\<lambda>_.
     virtio_finish i0)))"

definition intr_one :: "nat \<Rightarrow> ('a vd_st_scheme, unit) K" where
  "intr_one k =
     bnd (gets (\<lambda>s. unat (used_ring s (unat (used_idx s) mod NUM)))) (\<lambda>id.
     if id \<ge> NUM then fault
     else bnd (gets (\<lambda>s. info_status s id)) (\<lambda>st.
       if st \<noteq> 0 then panic ''virtio_disk_intr status''
       else bnd (gets (\<lambda>s. info_b s id)) (\<lambda>bo.
         bnd (deref bo) (\<lambda>b.
         bnd (set_buf b (\<lambda>x. x\<lparr>b_disk := False\<rparr>)) (\<lambda>_.
         bnd (wakeup (ChDisk b)) (\<lambda>_.
         modify (\<lambda>s. s\<lparr>used_idx := used_idx s + 1\<rparr>)))))))"

definition virtio_disk_intr :: "('a vd_st_scheme, unit) K" where
  "virtio_disk_intr =
     bnd (acquire LDisk) (\<lambda>_.
     bnd read_mmio (\<lambda>st.
     bnd (write_mmio 0x064 (st AND 3)) (\<lambda>_.
     bnd (gets (\<lambda>s. unat (dev_used_idx s - used_idx s))) (\<lambda>n.
     bnd (forK intr_one [0..<n]) (\<lambda>_.
     release LDisk)))))"

end
