(* ===== verification/Trap.thy ===== *)
theory Trap
  imports Syscall Virtio
begin

text \<open>
  Traps: \<open>kernel/trap.c\<close>, the interrupt controller \<open>kernel/plic.c\<close>, \<open>forkret\<close> of
  \<open>kernel/proc.c\<close>, and the way into the kernel: the kernel page table of \<open>kernel/vm.c\<close>,
  \<open>kernel/main.c\<close> and \<open>kernel/start.c\<close>. The supervisor registers are fields of the state; the
  addresses of code and of the end of the kernel's text are too. The interrupts the controller
  will report are a list, consumed by the claims. \<open>usertrapret\<close> ends with the jump to the
  trampoline; its result is the argument of that jump.
\<close>

section \<open>State\<close>

record trap_st = vd_st +
  scause :: u64
  sepc :: u64
  stval :: u64
  stvec :: u64
  satp :: u64
  sip :: u64
  plic_in :: "u32 list"
  plic_log :: "(u64 \<times> u32) list"
  kernelvec_pc :: u64
  usertrap_pc :: u64
  uservec_pc :: u64
  userret_pc :: u64
  first_forkret :: bool
  kernel_pagetable :: u64
  etext :: u64
  started :: bool

definition SSTATUS_SPP :: u64 where "SSTATUS_SPP = 0x100"
definition SSTATUS_SPIE :: u64 where "SSTATUS_SPIE = 0x20"
definition UART0 :: u64 where "UART0 = 0x10000000"
definition UART0_IRQ :: u32 where "UART0_IRQ = 10"
definition VIRTIO0 :: u64 where "VIRTIO0 = 0x10001000"
definition VIRTIO0_IRQ :: u32 where "VIRTIO0_IRQ = 1"
definition PLIC :: u64 where "PLIC = 0x0c000000"
definition PLIC_SENABLE :: "nat \<Rightarrow> u64" where "PLIC_SENABLE h = PLIC + 0x2080 + of_nat h * 0x100"
definition PLIC_SPRIORITY :: "nat \<Rightarrow> u64" where "PLIC_SPRIORITY h = PLIC + 0x201000 + of_nat h * 0x2000"
definition PLIC_SCLAIM :: "nat \<Rightarrow> u64" where "PLIC_SCLAIM h = PLIC + 0x201004 + of_nat h * 0x2000"

definition MAKE_SATP :: "u64 \<Rightarrow> u64" where
  "MAKE_SATP pagetable = push_bit 60 8 OR drop_bit 12 pagetable"

definition w_sstatus :: "u64 \<Rightarrow> ('a cpu_st_scheme, unit) K" where
  "w_sstatus x = modify (\<lambda>s. s\<lparr>sstatus := (sstatus s)(hart s := x)\<rparr>)"

section \<open>The interrupt controller\<close>

definition plic_write :: "u64 \<Rightarrow> u32 \<Rightarrow> ('a trap_st_scheme, unit) K" where
  "plic_write a v = modify (\<lambda>s. s\<lparr>plic_log := plic_log s @ [(a, v)]\<rparr>)"

definition plicinit :: "('a trap_st_scheme, unit) K" where
  "plicinit =
     bnd (plic_write (PLIC + ucast UART0_IRQ * 4) 1) (\<lambda>_.
     plic_write (PLIC + ucast VIRTIO0_IRQ * 4) 1)"

definition plicinithart :: "('a trap_st_scheme, unit) K" where
  "plicinithart =
     bnd cpuid (\<lambda>h.
     bnd (plic_write (PLIC_SENABLE h) (push_bit 10 1 OR push_bit 1 1)) (\<lambda>_.
     plic_write (PLIC_SPRIORITY h) 0))"

definition plic_claim :: "('a trap_st_scheme, u32) K" where
  "plic_claim =
     bnd cpuid (\<lambda>h.
     bnd (gets plic_in) (\<lambda>q. case q of
       [] \<Rightarrow> blocked
     | v # vs \<Rightarrow> bnd (modify (\<lambda>s. s\<lparr>plic_in := vs\<rparr>)) (\<lambda>_. ret v)))"

definition plic_complete :: "u32 \<Rightarrow> ('a trap_st_scheme, unit) K" where
  "plic_complete irq = bnd cpuid (\<lambda>h. plic_write (PLIC_SCLAIM h) irq)"

section \<open>Traps\<close>

definition trapinit :: "('a trap_st_scheme, unit) K" where
  "trapinit = initlock LTicks ''time''"

definition trapinithart :: "('a trap_st_scheme, unit) K" where
  "trapinithart = modify (\<lambda>s. s\<lparr>stvec := kernelvec_pc s\<rparr>)"

definition clockintr :: "('a trap_st_scheme, unit) K" where
  "clockintr =
     bnd (acquire LTicks) (\<lambda>_.
     bnd (modify (\<lambda>s. s\<lparr>ticks := ticks s + 1\<rparr>)) (\<lambda>_.
     bnd (wakeup ChTicks) (\<lambda>_.
     release LTicks)))"

definition devintr :: "('a trap_st_scheme, nat) K" where
  "devintr =
     bnd (gets scause) (\<lambda>c.
     if c AND 0x8000000000000000 \<noteq> 0 \<and> c AND 0xff = 9
     then bnd plic_claim (\<lambda>irq.
       bnd (if irq = UART0_IRQ then uartintr
            else if irq = VIRTIO0_IRQ then virtio_disk_intr
            else if irq \<noteq> 0 then printf (chars ''unexpected interrupt irq=%d'' @ [10]) [PInt irq]
            else ret ()) (\<lambda>_.
       bnd (whenK (irq \<noteq> 0) (plic_complete irq)) (\<lambda>_.
       ret 1)))
     else if c = 0x8000000000000001
     then bnd cpuid (\<lambda>h.
       bnd (whenK (h = 0) clockintr) (\<lambda>_.
       bnd (modify (\<lambda>s. s\<lparr>sip := sip s AND NOT 2\<rparr>)) (\<lambda>_.
       ret 2)))
     else ret 0)"

definition usertrapret :: "('a trap_st_scheme, u64) K" where
  "usertrapret =
     bnd curproc (\<lambda>i.
     bnd intr_off (\<lambda>_.
     bnd (modify (\<lambda>s. s\<lparr>stvec := TRAMPOLINE + (uservec_pc s - trampoline s)\<rparr>)) (\<lambda>_.
     bnd (gets satp) (\<lambda>ksatp.
     bnd (set_tf i TF_KSATP ksatp) (\<lambda>_.
     bnd (get_proc i) (\<lambda>p.
     bnd (set_tf i TF_KSP (p_kstack p + 4096)) (\<lambda>_.
     bnd (gets usertrap_pc) (\<lambda>ut.
     bnd (set_tf i TF_KTRAP ut) (\<lambda>_.
     bnd cpuid (\<lambda>h.
     bnd (set_tf i TF_KHARTID (of_nat h)) (\<lambda>_.
     bnd (gets (\<lambda>s. sstatus s (hart s))) (\<lambda>x.
     bnd (w_sstatus ((x AND NOT SSTATUS_SPP) OR SSTATUS_SPIE)) (\<lambda>_.
     bnd (get_tf i TF_EPC) (\<lambda>epc.
     bnd (modify (\<lambda>s. s\<lparr>sepc := epc\<rparr>)) (\<lambda>_.
     ret (MAKE_SATP (p_pagetable p)))))))))))))))))"

definition usertrap_cause :: "nat \<Rightarrow> ('a trap_st_scheme, nat) K" where
  "usertrap_cause i =
     bnd (gets scause) (\<lambda>c.
     if c = 8
     then bnd (killed i) (\<lambda>k.
       bnd (whenK k (exit (-1))) (\<lambda>_.
       bnd (get_tf i TF_EPC) (\<lambda>epc.
       bnd (set_tf i TF_EPC (epc + 4)) (\<lambda>_.
       bnd intr_on (\<lambda>_.
       bnd syscall (\<lambda>_.
       ret 0))))))
     else bnd devintr (\<lambda>which.
       if which \<noteq> 0 then ret which
       else bnd (get_proc i) (\<lambda>p.
         bnd (printf (chars ''usertrap(): unexpected scause %p pid=%d'' @ [10]) [PPtr c, PInt (p_pid p)]) (\<lambda>_.
         bnd (gets sepc) (\<lambda>e.
         bnd (gets stval) (\<lambda>v.
         bnd (printf (chars ''            sepc=%p stval=%p'' @ [10]) [PPtr e, PPtr v]) (\<lambda>_.
         bnd (setkilled i) (\<lambda>_.
         ret 0))))))))"

definition usertrap :: "('a trap_st_scheme, u64) K" where
  "usertrap =
     bnd (gets (\<lambda>s. sstatus s (hart s))) (\<lambda>x.
     if x AND SSTATUS_SPP \<noteq> 0 then panic ''usertrap: not from user mode''
     else bnd (modify (\<lambda>s. s\<lparr>stvec := kernelvec_pc s\<rparr>)) (\<lambda>_.
       bnd curproc (\<lambda>i.
       bnd (gets sepc) (\<lambda>e.
       bnd (set_tf i TF_EPC e) (\<lambda>_.
       bnd (usertrap_cause i) (\<lambda>which.
       bnd (killed i) (\<lambda>k.
       bnd (whenK k (exit (-1))) (\<lambda>_.
       bnd (whenK (which = 2) yield) (\<lambda>_.
       usertrapret)))))))))"

definition kerneltrap :: "('a trap_st_scheme, unit) K" where
  "kerneltrap =
     bnd (gets sepc) (\<lambda>e.
     bnd (gets (\<lambda>s. sstatus s (hart s))) (\<lambda>x.
     bnd (gets scause) (\<lambda>c.
     if x AND SSTATUS_SPP = 0 then panic ''kerneltrap: not from supervisor mode''
     else bnd intr_get (\<lambda>on.
       if on then panic ''kerneltrap: interrupts enabled''
       else bnd devintr (\<lambda>which.
         if which = 0
         then bnd (printf (chars ''scause %p'' @ [10]) [PPtr c]) (\<lambda>_.
           bnd (gets stval) (\<lambda>v.
           bnd (printf (chars ''sepc=%p stval=%p'' @ [10]) [PPtr e, PPtr v]) (\<lambda>_.
           panic ''kerneltrap'')))
         else bnd myproc (\<lambda>m.
           bnd (case m of
                  None \<Rightarrow> ret False
                | Some i \<Rightarrow> bnd (get_proc i) (\<lambda>p. ret (which = 2 \<and> p_state p = RUNNING))) (\<lambda>y.
           bnd (whenK y yield) (\<lambda>_.
           bnd (modify (\<lambda>s. s\<lparr>sepc := e\<rparr>)) (\<lambda>_.
           w_sstatus x)))))))))"

definition forkret :: "('a trap_st_scheme, u64) K" where
  "forkret =
     bnd curproc (\<lambda>i.
     bnd (release (LProc i)) (\<lambda>_.
     bnd (gets first_forkret) (\<lambda>f.
     bnd (whenK f (bnd (modify (\<lambda>s. s\<lparr>first_forkret := False\<rparr>)) (\<lambda>_. vfs_init))) (\<lambda>_.
     usertrapret))))"

section \<open>Booting\<close>

definition kvmmake :: "('a trap_st_scheme, u64) K" where
  "kvmmake =
     bnd kalloc (\<lambda>pt.
     if pt = 0 then fault
     else bnd (zero_page pt) (\<lambda>_.
       bnd (kvmmap pt UART0 UART0 4096 (PTE_R OR PTE_W)) (\<lambda>_.
       bnd (kvmmap pt VIRTIO0 VIRTIO0 4096 (PTE_R OR PTE_W)) (\<lambda>_.
       bnd (kvmmap pt PLIC PLIC 0x400000 (PTE_R OR PTE_W)) (\<lambda>_.
       bnd (gets etext) (\<lambda>et.
       bnd (kvmmap pt KERNBASE KERNBASE (et - KERNBASE) (PTE_R OR PTE_X)) (\<lambda>_.
       bnd (kvmmap pt et et (PHYSTOP - et) (PTE_R OR PTE_W)) (\<lambda>_.
       bnd (gets trampoline) (\<lambda>tr.
       bnd (kvmmap pt TRAMPOLINE tr 4096 (PTE_R OR PTE_X)) (\<lambda>_.
       bnd (proc_mapstacks pt) (\<lambda>_.
       ret pt)))))))))))"

definition kvminit :: "('a trap_st_scheme, unit) K" where
  "kvminit = bnd kvmmake (\<lambda>pt. modify (\<lambda>s. s\<lparr>kernel_pagetable := pt\<rparr>))"

definition kvminithart :: "('a trap_st_scheme, unit) K" where
  "kvminithart = modify (\<lambda>s. s\<lparr>satp := MAKE_SATP (kernel_pagetable s)\<rparr>)"

definition fileinit :: "('a trap_st_scheme, unit) K" where
  "fileinit = ret ()"

text \<open>\<open>main\<close> up to the call of \<open>scheduler\<close>. The other harts spin until the first has started.\<close>

definition main :: "('a trap_st_scheme, unit) K" where
  "main =
     bnd cpuid (\<lambda>h.
     if h = 0
     then bnd consoleinit (\<lambda>_.
       bnd printfinit (\<lambda>_.
       bnd (printf [10] []) (\<lambda>_.
       bnd (printf (chars ''xv6 kernel is booting'' @ [10]) []) (\<lambda>_.
       bnd (printf [10] []) (\<lambda>_.
       bnd kinit (\<lambda>_.
       bnd kvminit (\<lambda>_.
       bnd kvminithart (\<lambda>_.
       bnd procinit (\<lambda>_.
       bnd trapinit (\<lambda>_.
       bnd trapinithart (\<lambda>_.
       bnd plicinit (\<lambda>_.
       bnd plicinithart (\<lambda>_.
       bnd binit (\<lambda>_.
       bnd iinit (\<lambda>_.
       bnd fileinit (\<lambda>_.
       bnd virtio_disk_init (\<lambda>_.
       bnd userinit (\<lambda>_.
       modify (\<lambda>s. s\<lparr>started := True\<rparr>)))))))))))))))))))
     else bnd (gets started) (\<lambda>st.
       if \<not> st then blocked
       else bnd (printf (chars ''hart %d starting'' @ [10]) [PInt (of_nat h)]) (\<lambda>_.
         bnd kvminithart (\<lambda>_.
         bnd trapinithart (\<lambda>_.
         plicinithart)))))"

text \<open>The machine-mode registers \<open>start\<close> sets before it leaves for \<open>main\<close> in supervisor mode.\<close>

record mregs =
  mhartid :: u64
  mstatus :: u64
  mepc :: u64
  m_satp :: u64
  medeleg :: u64
  mideleg :: u64
  m_sie :: u64
  pmpaddr0 :: u64
  pmpcfg0 :: u64
  mtime :: u64
  mtimecmp :: "u64 \<Rightarrow> u64"
  timer_scratch :: "u64 \<Rightarrow> nat \<Rightarrow> u64"
  mscratch :: u64
  mtvec :: u64
  mie :: u64
  m_tp :: u64

definition CLINT_MTIMECMP :: "u64 \<Rightarrow> u64" where
  "CLINT_MTIMECMP h = 0x2000000 + 0x4000 + 8 * h"

text \<open>\<open>scratch_at\<close> is the address of \<open>timer_scratch\<close>, \<open>timervec\<close> that of the handler.\<close>

definition timerinit :: "u64 \<Rightarrow> u64 \<Rightarrow> mregs \<Rightarrow> mregs" where
  "timerinit scratch_at timervec r =
     (let h = mhartid r; interval = 1000000 in
      r\<lparr>mtimecmp := (mtimecmp r)(h := mtime r + interval),
        timer_scratch := (timer_scratch r)(h := (timer_scratch r h)(3 := CLINT_MTIMECMP h, 4 := interval)),
        mscratch := scratch_at + 40 * h,
        mtvec := timervec,
        mstatus := mstatus r OR push_bit 3 1,
        mie := mie r OR push_bit 7 1\<rparr>)"

definition start :: "u64 \<Rightarrow> u64 \<Rightarrow> u64 \<Rightarrow> mregs \<Rightarrow> mregs" where
  "start main_pc scratch_at timervec r =
     (let r1 = r\<lparr>mstatus := (mstatus r AND NOT (push_bit 11 3)) OR push_bit 11 1,
                 mepc := main_pc, m_satp := 0, medeleg := 0xffff, mideleg := 0xffff,
                 m_sie := m_sie r OR push_bit 9 1 OR push_bit 5 1 OR push_bit 1 1,
                 pmpaddr0 := 0x3fffffffffffff, pmpcfg0 := 0xf\<rparr>;
          r2 = timerinit scratch_at timervec r1
      in r2\<lparr>m_tp := mhartid r2\<rparr>)"

end
