(* ===== verification/Fsinode.thy ===== *)
theory Fsinode
  imports Fsfile
begin

text \<open>
  Truncating a file and loading an inode, over the abstract view of the buffer cache. The
  main fact on \<open>itrunc\<close>: it frees exactly the blocks of the file, direct, indirect and the
  indirect block itself, and touches no other block but the bitmap and the inode.
\<close>

section \<open>Freeing a set of blocks\<close>

text \<open>\<open>L'\<close> is \<open>L\<close> with the blocks of \<open>S\<close> freed.\<close>

definition freed :: "xv6fs_super_block \<Rightarrow> (u32 \<Rightarrow> bytes) \<Rightarrow> u32 set \<Rightarrow> (u32 \<Rightarrow> bytes) \<Rightarrow> bool" where
  "freed x L S L' \<longleftrightarrow> (\<forall>c. unat c < unat (sb_size x) \<longrightarrow> (used L' x c \<longleftrightarrow> used L x c \<and> c \<notin> S))
     \<and> (\<forall>b. unat b < unat (sb_bmapstart x) \<or> data_blk x b \<longrightarrow> L' b = L b)"

lemma freed_refl [simp]: "freed x L {} L"
  by (simp add: freed_def)

lemma freed_used: "freed x L S L' \<Longrightarrow> data_blk x c \<Longrightarrow> used L x c \<Longrightarrow> c \<notin> S \<Longrightarrow> used L' x c"
  by (simp add: freed_def data_blk_def)

lemma freed_data: "freed x L S L' \<Longrightarrow> data_blk x c \<Longrightarrow> L' c = L c"
  by (simp add: freed_def)

lemma freed_step:
  assumes ok: "sb_ok x" and b: "data_blk x b" and f: "freed x L S L'"
  shows "freed x L (insert b S) (unmark L' x b)"
proof -
  have bb: "unat (BBLOCK b x) \<ge> unat (sb_bmapstart x)" "\<not> data_blk x (BBLOCK b x)"
    using unat_BBLOCK(1) [OF ok, of b] BBLOCK_not_data [OF ok, of b] b by (simp_all add: data_blk_def)
  then have "unmark L' x b c = L' c" if "unat c < unat (sb_bmapstart x) \<or> data_blk x c" for c
    using that by (auto simp: unmark_def Let_def)
  with f show ?thesis by (auto simp: freed_def used_unmark)
qed

lemma freed_hold:
  assumes "freed x L S L'" and "hold_ok H L x" and "dom H \<inter> S = {}"
  shows "hold_ok H L' x"
  using assms freed_used [OF assms(1)] unfolding hold_ok_def by blast

lemma bfree_freed:
  assumes v: "bview s0 H X L' s" and x: "x = sb s0" "sb_ok x" and h: "hold_ok H L x" "dom H \<inter> S = {}"
    and f: "freed x L S L'" and b: "data_blk x b" "used L x b" "b \<notin> S"
  shows "runs (bfree 1 b s) (\<lambda>_ s'. \<exists>L2. bview s0 H X L2 s' \<and> freed x L (insert b S) L2)"
proof (rule runs_mono)
  show "runs (bfree 1 b s) (\<lambda>_. bview s0 H X (unmark L' x b))"
    by (rule bfree_rule [OF v x freed_hold [OF f h]])
       (use b freed_used [OF f] in \<open>auto simp: data_blk_def\<close>)
qed (use freed_step [OF x(2) b(1) f] in blast)

section \<open>Truncation\<close>

text \<open>The inode whose first \<open>k\<close> addresses are cleared.\<close>

definition cutp :: "xv6fs_inode \<Rightarrow> nat \<Rightarrow> xv6fs_inode" where
  "cutp p k = p\<lparr>x_addrs := (\<lambda>j. if j < k then 0 else x_addrs p j)\<rparr>"

lemma cut_0 [simp]: "cutp p 0 = p"
  by (simp add: cutp_def)

lemma cut_Suc:
  "(cutp p k)\<lparr>x_addrs := (x_addrs (cutp p k))(k := 0)\<rparr> = cutp p (Suc k)"
  by (auto simp: cutp_def fun_eq_iff intro!: arg_cong [where f = "\<lambda>f. p\<lparr>x_addrs := f\<rparr>"])

lemma cut_Suc_zero: "x_addrs p k = 0 \<Longrightarrow> cutp p k = cutp p (Suc k)"
  by (auto simp: cutp_def fun_eq_iff less_Suc_eq intro!: arg_cong [where f = "\<lambda>f. p\<lparr>x_addrs := f\<rparr>"])

lemma slot_addr: "k < NDIRECT \<Longrightarrow> slot L p k = x_addrs p k"
  by (simp add: slot_def)

lemma slot_ind: "slot L p MAXFILE = x_addrs p NDIRECT"
  by (simp add: slot_def MAXFILE_def NINDIRECT_def)

lemma wf_slot:
  assumes "wf_file L x p" and "slot L p k \<noteq> 0"
  shows "data_blk x (slot L p k)" "used L x (slot L p k)" "slot L p j = slot L p k \<Longrightarrow> j = k"
  using assms unfolding wf_file_def by metis+

text \<open>The blocks of the slots below \<open>k\<close>.\<close>

definition low_blocks :: "(u32 \<Rightarrow> bytes) \<Rightarrow> xv6fs_inode \<Rightarrow> nat \<Rightarrow> u32 set" where
  "low_blocks L p k = slot L p ` {..<k} - {0}"

lemma low_blocks_Suc:
  "low_blocks L p (Suc k) = (if slot L p k = 0 then low_blocks L p k else insert (slot L p k) (low_blocks L p k))"
  by (auto simp: low_blocks_def lessThan_Suc)

lemma low_blocks_ext:
  assumes "k \<le> m" and "\<And>j. k \<le> j \<Longrightarrow> slot L p j = 0"
  shows "low_blocks L p m = low_blocks L p k"
  using assms(1) by (induction m rule: dec_induct) (simp_all add: low_blocks_Suc assms(2))

lemma low_blocks_fresh: "wf_file L x p \<Longrightarrow> slot L p k \<noteq> 0 \<Longrightarrow> k \<ge> m \<Longrightarrow> slot L p k \<notin> low_blocks L p m"
  using wf_slot(3) [of L x p k] by (fastforce simp: low_blocks_def)

lemma itrunc_direct_rule:
  assumes f: "filev s0 pp p L s" and i: "i_private (itable s0 ip) = pp" "i_dev (itable s0 ip) = 1"
  shows "runs (forK (itrunc_direct ip) [0..<NDIRECT] s) (\<lambda>_ t. \<exists>L'.
     bview (with_priv s0 pp (cutp p NDIRECT)) Map.empty {} L' t \<and> freed (sb s0) L (low_blocks L p NDIRECT) L')"
proof -
  note d = filevD [OF f]
  let ?P = "\<lambda>k t. \<exists>L'. bview (with_priv s0 pp (cutp p k)) Map.empty {} L' t
     \<and> freed (sb s0) L (low_blocks L p k) L'"
  have "?P 0 s" using d(1) by (auto simp: low_blocks_def)
  moreover have "runs (itrunc_direct ip k t) (\<lambda>_. ?P (Suc k))" if k: "k < NDIRECT" and t: "?P k t" for k t
  proof -
    from t obtain L' where v: "bview (with_priv s0 pp (cutp p k)) Map.empty {} L' t"
      and fr: "freed (sb s0) L (low_blocks L p k) L'" by blast
    have it: "itable t = itable s0" using bview_fs(2) [OF v] by simp
    have a: "x_addrs (cutp p k) k = slot L p k" using k by (simp add: cutp_def slot_addr)
    show ?thesis
      unfolding itrunc_direct_def get_inode_def runs_gets it i
      apply (rule get_priv_rule [OF v])
      unfolding a
    proof (cases "slot L p k = 0")
      case True
      then have "cutp p k = cutp p (Suc k)" using k by (intro cut_Suc_zero) (simp add: slot_addr)
      with v fr True show "runs ((if slot L p k \<noteq> 0 then bnd (bfree 1 (slot L p k))
          (\<lambda>_. set_priv pp (cutp p k\<lparr>x_addrs := (x_addrs (cutp p k))(k := 0)\<rparr>)) else ret ()) t) (\<lambda>_. ?P (Suc k))"
        by (auto simp: low_blocks_Suc)
    next
      case False
      note w = wf_slot [OF d(4) False]
      have "runs (bfree 1 (slot L p k) t) (\<lambda>_ s'. \<exists>L2. bview (with_priv s0 pp (cutp p k)) Map.empty {} L2 s'
          \<and> freed (sb s0) L (insert (slot L p k) (low_blocks L p k)) L2)"
        using low_blocks_fresh [OF d(4) False, of k] w
        by (intro bfree_freed [OF v _ d(2) _ _ fr]) simp_all
      then have "runs (bnd (bfree 1 (slot L p k)) (\<lambda>_. set_priv pp (cutp p (Suc k))) t) (\<lambda>_. ?P (Suc k))"
      proof (rule runs_bndI, elim exE conjE)
        fix u L2
        assume u: "bview (with_priv s0 pp (cutp p k)) Map.empty {} L2 u"
          and fr2: "freed (sb s0) L (insert (slot L p k) (low_blocks L p k)) L2"
        have "runs (bnd (set_priv pp (cutp p (Suc k))) ret u) (\<lambda>_. ?P (Suc k))"
          by (rule set_priv_rule [OF u]) (use fr2 False in \<open>auto simp: low_blocks_Suc\<close>)
        then show "runs (set_priv pp (cutp p (Suc k)) u) (\<lambda>_. ?P (Suc k))"
          by (simp add: set_priv_def runs_bnd)
      qed
      with False show "runs ((if slot L p k \<noteq> 0 then bnd (bfree 1 (slot L p k))
          (\<lambda>_. set_priv pp (cutp p k\<lparr>x_addrs := (x_addrs (cutp p k))(k := 0)\<rparr>)) else ret ()) t) (\<lambda>_. ?P (Suc k))"
        by (simp add: cut_Suc)
    qed
  qed
  ultimately show ?thesis by (rule runs_forK [where P = ?P])
qed

lemma itrunc_entry_rule:
  assumes wf: "wf_file L (sb s0) p" and ok: "sb_ok (sb s0)" and ind: "x_addrs p NDIRECT = ind" "ind \<noteq> 0"
    and v: "bview s0 [ind \<mapsto> bp] {} L' s" and fr: "freed (sb s0) L (low_blocks L p NDIRECT) L'"
  shows "runs (forK (itrunc_entry 1 bp) [0..<NINDIRECT] s) (\<lambda>_ t. \<exists>L'.
     bview s0 [ind \<mapsto> bp] {} L' t \<and> freed (sb s0) L (low_blocks L p MAXFILE) L')"
proof -
  let ?P = "\<lambda>j t. \<exists>L'. bview s0 [ind \<mapsto> bp] {} L' t \<and> freed (sb s0) L (low_blocks L p (NDIRECT + j)) L'"
  have i0: "slot L p MAXFILE = ind" by (simp add: slot_ind ind)
  then have wi: "data_blk (sb s0) ind" "used L (sb s0) ind" using wf_slot [OF wf, of MAXFILE] ind by simp_all
  have "runs (forK (itrunc_entry 1 bp) [0..<NINDIRECT] s) (\<lambda>_. ?P NINDIRECT)"
  proof (rule runs_forK [where P = ?P])
    show "?P 0 s" using v fr by auto
    fix j t
    assume j: "j < NINDIRECT" and "?P j t"
    then obtain L' where v: "bview s0 [ind \<mapsto> bp] {} L' t"
      and fr: "freed (sb s0) L (low_blocks L p (NDIRECT + j)) L'" by blast
    let ?k = "NDIRECT + j"
    have k: "?k < MAXFILE" using j by (simp add: MAXFILE_def)
    have "b_data (bufs t bp) = L' ind" by (rule bs.content_ok [OF v]) simp
    also have "\<dots> = L ind" by (rule freed_data [OF fr wi(1)])
    finally have a: "ld32 (b_data (bufs t bp)) (4 * j) = slot L p ?k" using ind k by (simp add: slot_def)
    have hold: "hold_ok [ind \<mapsto> bp] L (sb s0)" using wi by (simp add: hold_ok_def)
    have out: "ind \<notin> low_blocks L p ?k"
      using low_blocks_fresh [OF wf, of MAXFILE ?k] i0 ind k by simp
    show "runs (itrunc_entry 1 bp j t) (\<lambda>_. ?P (Suc j))"
    proof (cases "slot L p ?k = 0")
      case True
      with v fr show ?thesis
        by (auto simp: itrunc_entry_def buf_data_def a low_blocks_Suc)
    next
      case False
      have "runs (bfree 1 (slot L p ?k) t) (\<lambda>_ s'. \<exists>L2. bview s0 [ind \<mapsto> bp] {} L2 s'
          \<and> freed (sb s0) L (insert (slot L p ?k) (low_blocks L p ?k)) L2)"
        using low_blocks_fresh [OF wf False, of ?k] wf_slot [OF wf False] hold out
        by (intro bfree_freed [OF v _ ok _ _ fr]) simp_all
      with False show ?thesis by (simp add: itrunc_entry_def buf_data_def a low_blocks_Suc)
    qed
  qed
  then show ?thesis by (simp add: MAXFILE_def)
qed

lemma fblocks_low: "fblocks L p = low_blocks L p (Suc MAXFILE)"
  by (simp add: fblocks_def low_blocks_def lessThan_Suc_atMost)

text \<open>The part of \<open>itrunc\<close> that follows the direct addresses.\<close>

lemma itrunc_indirect_rule:
  assumes f: "filev s0 pp p L s0'" and v: "bview (with_priv s0 pp (cutp p NDIRECT)) Map.empty {} L' s"
    and fr: "freed (sb s0) L (low_blocks L p NDIRECT) L'"
  shows "runs ((if x_addrs p NDIRECT \<noteq> 0
          then bnd (bread 1 (x_addrs p NDIRECT)) (\<lambda>bp.
            bnd (forK (itrunc_entry 1 bp) [0..<NINDIRECT]) (\<lambda>_.
            bnd (brelse bp) (\<lambda>_.
            bnd (bfree 1 (x_addrs p NDIRECT)) (\<lambda>_.
            set_priv pp (cutp p (Suc NDIRECT))))))
          else ret ()) s) (\<lambda>_ t. \<exists>L'. bview (with_priv s0 pp (cutp p (Suc NDIRECT))) Map.empty {} L' t
     \<and> freed (sb s0) L (fblocks L p) L')" (is "runs _ ?Q")
proof (cases "x_addrs p NDIRECT = 0")
  case True
  have "slot L p k = 0" if "NDIRECT \<le> k" for k
    using True filevD(6) [OF f] that by (auto simp: slot_def MAXFILE_def)
  then have "low_blocks L p (Suc MAXFILE) = low_blocks L p NDIRECT"
    by (intro low_blocks_ext) (simp_all add: MAXFILE_def)
  moreover have "cutp p NDIRECT = cutp p (Suc NDIRECT)" using True by (rule cut_Suc_zero)
  ultimately show ?thesis using v fr True by (auto simp: fblocks_low)
next
  case False
  let ?ind = "x_addrs p NDIRECT" and ?q = "cutp p NDIRECT"
  note d = filevD [OF f]
  have i0: "slot L p MAXFILE = ?ind" by (rule slot_ind)
  have w: "data_blk (sb s0) ?ind" "used L (sb s0) ?ind"
    using wf_slot [OF d(4), of MAXFILE] False i0 by simp_all
  have out: "?ind \<notin> low_blocks L p MAXFILE" using low_blocks_fresh [OF d(4), of MAXFILE MAXFILE] False i0 by simp
  have fin: "runs (set_priv pp (cutp p (Suc NDIRECT)) t) ?Q"
    if "bview (with_priv s0 pp ?q) Map.empty {} L2 t" "freed (sb s0) L (insert ?ind (low_blocks L p MAXFILE)) L2" for L2 t
  proof -
    have "runs (bnd (set_priv pp (cutp p (Suc NDIRECT))) ret t) ?Q"
      by (rule set_priv_rule [OF that(1)]) (use that(2) False i0 in \<open>auto simp: fblocks_low low_blocks_Suc\<close>)
    then show ?thesis by (simp add: set_priv_def runs_bnd)
  qed
  show ?thesis
    unfolding if_P [OF False]
    apply (rule bs.get_rule [OF v], simp, simp add: NBUF_def)
    apply (rule runs_bndI, rule itrunc_entry_rule [where p = p and L = L and L' = L' and ind = ?ind
          and ?s0.0 = "with_priv s0 pp ?q"])
         apply (simp_all add: d(2,4) fr False)
    apply (elim exE conjE)
    apply (rule bs.rel_rule [where n = ?ind], assumption, simp, simp, simp)
    apply (rule runs_bndI, rule bfree_freed [where L = L and S = "low_blocks L p MAXFILE" and x = "sb s0"])
            apply assumption
           apply (simp_all add: d(2) w out)
    using fin by blast
qed

lemma itrunc_rule:
  assumes f: "filev s0 pp p L s" and i: "i_private (itable s0 ip) = pp" "i_dev (itable s0 ip) = 1"
    and ino: "ino_ok (sb s0) (i_inum (itable s0 ip))"
  shows "runs (xv6fs_itrunc ip s) (\<lambda>_ s'. \<exists>L'.
     let i' = (itable s0 ip)\<lparr>i_size := 0\<rparr>; p' = p\<lparr>x_addrs := (\<lambda>_. 0)\<rparr>;
         L'' = put_inode L' (sb s0) (i_inum i') (dinode_of i' p')
     in filev (with_ino s0 ip i') pp p' L'' s' \<and> freed (sb s0) L (fblocks L p) L')"
proof -
  note d = filevD [OF f]
  let ?i' = "(itable s0 ip)\<lparr>i_size := 0\<rparr>" and ?p' = "p\<lparr>x_addrs := (\<lambda>_. 0)\<rparr>" and ?x = "sb s0"
  have cutp: "cutp p (Suc NDIRECT) = ?p'"
    using d(6) by (auto simp: cutp_def fun_eq_iff not_less Suc_le_eq intro!: arg_cong [where f = "\<lambda>f. p\<lparr>x_addrs := f\<rparr>"])
  have a: "x_addrs (cutp p NDIRECT) NDIRECT = x_addrs p NDIRECT" by (simp add: cutp_def)
  have meta: "meta_used L' ?x" if "freed ?x L (fblocks L p) L'" for L'
  proof -
    have "b \<notin> fblocks L p" if "unat b < data_start ?x" for b
      using that d(4) by (auto simp: fblocks_def wf_file_def data_blk_def)
    with that d(2,3) show ?thesis by (auto simp: meta_used_def freed_def sb_ok_def)
  qed
  have wf: "wf_file L' ?x ?p'" for L' using d(5) by (auto simp: wf_file_def slot_def)
  show ?thesis
    unfolding xv6fs_itrunc_def
    apply (rule runs_bndI, rule itrunc_direct_rule [OF f i])
    apply (elim exE conjE)
    subgoal premises prems for u t L1
    proof -
      have it: "itable t = itable s0" using bview_fs(2) [OF prems(1)] by simp
      show ?thesis
        unfolding get_inode_def runs_gets it i
        apply (rule get_priv_rule [OF prems(1)])
        unfolding a cut_Suc
        apply (rule runs_bndI, rule itrunc_indirect_rule [OF f prems])
        apply (elim exE conjE)
        subgoal premises q for u t' L2
        proof -
          show ?thesis
            apply (rule set_inode_rule [OF q(1)])
            subgoal premises z for t2
            proof -
              have "filev (with_ino s0 ip ?i') pp ?p' L2 t2"
                using z meta [OF q(2)] wf d(2) by (simp add: filev_with_ino cutp)
              from iupdate_rule [OF this, of ip] i ino q(2) show ?thesis
                by (auto simp: Let_def elim!: runs_mono)
            qed
            done
        qed
        done
    qed
    done
qed

end
