(* ===== verification/Fsspec.thy ===== *)
theory Fsspec
  imports Fsinode
begin

text \<open>
  What the buffer cache, the block allocator and the file contents promise, stated on the
  contents of the disk, with a small file system on which the promises are tried: a
  super block for 2000 blocks, a bitmap with the first 72 blocks in use, an empty file and a
  root directory with two entries in block 64.
\<close>

section \<open>Reading the view off the disk\<close>

lemma filev_disk: "filev s0 pp p L s \<Longrightarrow> disk s = L"
  unfolding filev_def bview_def using cache_disk by blast

lemma bview_disk: "bview s0 H {} L s \<Longrightarrow> disk s = L"
  unfolding bview_def using cache_disk by blast

section \<open>Other files\<close>

text \<open>A file whose blocks another file does not share keeps its contents when that one grows.\<close>

lemma other_blocks:
  assumes "wf_file L x q" and "fblocks L q \<inter> fblocks L p = {}" and "fs_ext x L p L' p'"
    and "b \<in> fblocks L q"
  shows "L' b = L b" and "data_blk x b" and "used L x b"
proof -
  from assms(4) obtain k where "b = slot L q k" "slot L q k \<noteq> 0" by (auto simp: fblocks_def)
  with assms(1) show "data_blk x b" "used L x b" by (simp_all add: wf_file_def)
  with assms show "L' b = L b" unfolding fs_ext_def by blast
qed

lemma slot_in: "slot L q k \<noteq> 0 \<Longrightarrow> slot L q k \<in> fblocks L q"
proof -
  assume a: "slot L q k \<noteq> 0"
  then have "k \<le> MAXFILE" by (auto simp: slot_def MAXFILE_def split: if_splits)
  with a show ?thesis by (simp add: fblocks_def)
qed

lemma other_slot:
  assumes "wf_file L x q" and "fblocks L q \<inter> fblocks L p = {}" and "fs_ext x L p L' p'"
  shows "slot L' q = slot L q"
proof -
  have "L' (x_addrs q NDIRECT) = L (x_addrs q NDIRECT)" if "x_addrs q NDIRECT \<noteq> 0"
    using other_blocks(1) [OF assms] slot_in [of L q MAXFILE] that by (simp add: slot_ind)
  then show ?thesis by (intro ext) (simp add: slot_def)
qed

lemma other_bytes:
  assumes "wf_file L x q" and "fblocks L q \<inter> fblocks L p = {}" and "fs_ext x L p L' p'"
  shows "fbytes L' q = fbytes L q" and "wf_file L' x q"
proof -
  note s = other_slot [OF assms]
  show "fbytes L' q = fbytes L q"
    using other_blocks(1) [OF assms slot_in] by (intro ext) (simp add: fbytes_def s)
  have "used L' x (slot L q k)" if "slot L q k \<noteq> 0" for k
    using other_blocks(2,3) [OF assms slot_in [OF that]] assms(3) by (simp add: fs_ext_def data_blk_def)
  with assms(1) show "wf_file L' x q" by (simp add: wf_file_def s)
qed

section \<open>A small file system\<close>

definition buf0 :: "nat \<Rightarrow> buf" where
  "buf0 i = \<lparr>b_valid = False, b_disk = False, b_dev = 0, b_blockno = 0, b_refcnt = 0,
     b_prev = (if i = NBUF then 0 else i + 1), b_next = (if i = 0 then NBUF else i - 1), b_data = (\<lambda>_. 0)\<rparr>"

definition proc0 :: "nat \<Rightarrow> proc" where
  "proc0 i = \<lparr>p_state = (if i = 0 then RUNNING else UNUSED), p_chan = None, p_killed = False, p_xstate = 0,
     p_pid = (if i = 0 then 1 else 0), p_parent = None, p_kstack = KSTACK i, p_sz = 0, p_pagetable = 0,
     p_trapframe = 0, p_context = [], p_ofile = (\<lambda>_. None), p_cwd = None, p_name = (\<lambda>_. 0)\<rparr>"

definition sb0 :: xv6fs_super_block where
  "sb0 = \<lparr>sb_magic = FSMAGIC, sb_size = 2000, sb_nblocks = 1954, sb_ninodes = 200, sb_nlog = 30,
     sb_logstart = 2, sb_inodestart = 32, sb_bmapstart = 45\<rparr>"

definition disk0 :: "u32 \<Rightarrow> bytes" where
  "disk0 b = (if b = 45 then (\<lambda>i. if i < 9 then 255 else 0)
     else if b = 64 then wr (\<lambda>_. 0) 0 ([1, 0, 46] @ replicate 13 0 @ [1, 0, 46, 46] @ replicate 12 0)
     else (\<lambda>_. 0))"

definition file0 :: xv6fs_inode where
  "file0 = \<lparr>x_dev = 1, x_valid = True, x_major = 0, x_minor = 0, x_addrs = (\<lambda>_. 0)\<rparr>"

definition dir0 :: xv6fs_inode where
  "dir0 = \<lparr>x_dev = 1, x_valid = True, x_major = 0, x_minor = 0, x_addrs = (\<lambda>k. if k = 0 then 64 else 0)\<rparr>"

definition ino0 :: "nat \<Rightarrow> inode" where
  "ino0 i = \<lparr>i_op = Some Xv6fs_op, i_sb = True, i_inum = (if i = 0 then 1 else if i = 1 then 2 else 0),
     i_ref = (if i \<le> 1 then 1 else 0), i_type = (if i = 0 then T_DIR else T_FILE), i_dev = 1,
     i_size = (if i = 0 then 32 else 0), i_nlink = 1,
     i_private = (if i = 0 then 0x80200000 else if i = 1 then 0x80201000 else 0)\<rparr>"

definition fs0 :: fs_st where
  "fs0 = \<lparr>hart = 0, cpus = (\<lambda>_. \<lparr>c_proc = Some 0, noff = 0, intena = True\<rparr>), sstatus = (\<lambda>_. 2),
     locks = (\<lambda>_. \<lparr>locked = False, lname = ''l'', lcpu = None\<rparr>),
     pmem = (\<lambda>_. 0), freelist = 0, kernel_end = 0x80100000,
     procs = proc0, nextpid = 2, initproc = Some 0, ticks = 0, trampoline = 0x80007000, forkret_pc = 0x80002000,
     slocks = (\<lambda>_. \<lparr>sl_locked = False, sl_name = ''s'', sl_pid = 0\<rparr>),
     bufs = buf0, disk = disk0, sb = sb0, itable = ino0,
     privs = [0x80200000 \<mapsto> dir0, 0x80201000 \<mapsto> file0],
     ftable = (\<lambda>_. \<lparr>f_type = FD_NONE, f_op = None, f_ref = 0, f_off = 0, f_readable = False,
        f_writable = False, f_inode = None\<rparr>),
     root = Some \<lparr>vs_page = 0x80202000, vs_op = Some Xv6fs_op, vs_root = Some 0\<rparr>\<rparr>"

lemma fs0_sel [simp]:
  "hart fs0 = 0" "procs fs0 = proc0" "bufs fs0 = buf0" "disk fs0 = disk0" "sb fs0 = sb0" "itable fs0 = ino0"
  "slocks fs0 l = \<lparr>sl_locked = False, sl_name = ''s'', sl_pid = 0\<rparr>"
  "privs fs0 = [0x80200000 \<mapsto> dir0, 0x80201000 \<mapsto> file0]"
  "cpus fs0 h = \<lparr>c_proc = Some 0, noff = 0, intena = True\<rparr>"
  by (simp_all add: fs0_def)

lemma kctx_fs0 [simp]: "kctx fs0"
  by (simp add: kctx_def cpu_ok_def lfree_def ints_def fs0_def SSTATUS_SIE_def del: fs0_sel)

lemma quiet_fs0 [simp]: "quiet fs0"
  by (simp add: quiet_def proc0_def)

lemma lru_buf0: "lru buf0 (rev [0..<NBUF])"
proof -
  have "linked buf0 (NBUF # rev [0..<NBUF] @ [NBUF])" by (simp add: NBUF_def buf0_def upt_rec)
  then show ?thesis by (simp add: lru_def lessThan_atLeast0)
qed

lemma cache_fs0: "cache Map.empty {} disk0 fs0"
  unfolding cache_def using lru_buf0 by (auto simp: buf_ok_def buf0_def)

lemma with_priv_fs0: "privs s0 pp = Some p \<Longrightarrow> with_priv s0 pp p = s0"
  by (simp add: with_priv_def fun_upd_idem)

lemma sb_ok_sb0 [simp]: "sb_ok sb0"
  by (simp add: sb_ok_def sb0_def data_start_def)

lemma bmask_255: "(255 :: u8) AND bmask i \<noteq> 0"
proof -
  have "bit (255 :: u8) (i mod 8)"
  proof -
    have "(255 :: u8) = mask 8" by (simp add: mask_eq_exp_minus_1)
    then show ?thesis by (simp only: bit_mask_iff possible_bit_def) simp
  qed
  then show ?thesis by (simp add: and_bmask)
qed

lemma used_disk0: "unat b < 2000 \<Longrightarrow> used disk0 sb0 b \<longleftrightarrow> unat b < 72"
proof -
  assume b: "unat b < 2000"
  then have "b div 8192 = 0" by (simp add: word_unat_eq_iff unat_div)
  then have "BBLOCK b sb0 = 45" by (simp add: BBLOCK_def sb0_def)
  moreover have "unat b mod 8192 = unat b" using b by simp
  moreover have "unat b div 8 < 9 \<longleftrightarrow> unat b < 72" by (simp add: div_less_iff_less_mult)
  ultimately show ?thesis using bmask_255 by (simp add: used_def disk0_def BPB_def)
qed

lemma meta_disk0 [simp]: "meta_used disk0 sb0"
  using used_disk0 by (simp add: meta_used_def data_start_def sb0_def)

lemma filev_file0: "filev fs0 0x80201000 file0 disk0 fs0"
  using cache_fs0
  by (simp add: filev_def bview_def with_priv_fs0 wf_file_def file0_def slot_def)

lemmas fs0_sizes = ino0_def ino_ok_def sb0_def MAXFILE_def BSIZE_def NDIRECT_def NINDIRECT_def

lemma slot_file0: "slot L file0 k = 0"
  by (simp add: slot_def file0_def)

lemma fbytes_file0: "fbytes L file0 = (\<lambda>_. 0)"
  by (simp add: fbytes_def slot_file0)

lemma slot_dir0: "slot L dir0 k = (if k = 0 then 64 else 0)"
  by (simp add: slot_def dir0_def NDIRECT_def MAXFILE_def)

lemma filev_dir0: "filev fs0 0x80200000 dir0 disk0 fs0"
proof -
  have "data_blk sb0 64" by (simp add: data_blk_def sb0_def data_start_def)
  moreover have "used disk0 sb0 64" using used_disk0 [of 64] by simp
  ultimately have "wf_file disk0 sb0 dir0"
    unfolding wf_file_def slot_dir0 by (simp add: dir0_def NDIRECT_def)
  then show ?thesis using cache_fs0 by (simp add: filev_def bview_def with_priv_fs0)
qed

section \<open>Properties of the buffer cache\<close>

text \<open>C18: The buffer cache is a write-through store. After a read-modify-write of block \<open>n\<close>
  (\<open>bread\<close>, change, \<open>bwrite\<close>, \<open>brelse\<close>), reading any block \<open>m\<close> shows the changed contents when
  \<open>m = n\<close> and the old contents otherwise, the disk holds the change and differs in no other
  block, and the cache again satisfies its invariant with no buffer held.\<close>

theorem cache_read_back:
  assumes "kctx s" and "quiet s" and "cache Map.empty {} (disk s) s"
  shows "runs (bnd (bread 1 n) (\<lambda>i. bnd (upd_data i g) (\<lambda>_. bnd (bwrite i) (\<lambda>_. bnd (brelse i) (\<lambda>_.
      bnd (bread 1 m) (\<lambda>j. bnd (gets (\<lambda>s. b_data (bufs s j))) (\<lambda>d. bnd (brelse j) (\<lambda>_. ret d))))))) s)
    (\<lambda>d s'. d = (if m = n then g (disk s n) else disk s m) \<and> disk s' = (disk s)(n := g (disk s n))
       \<and> cache Map.empty {} (disk s') s')"
proof -
  have "bview s Map.empty {} (disk s) s" using assms by (simp add: bview_def)
  from bs.modify_then_peek [OF this, of n m g]
  have "runs (bnd (bs.modify_block n g) (\<lambda>_. bs.peek_block m (\<lambda>d. d)) s)
    (\<lambda>d s'. d = (if m = n then g (disk s n) else disk s m) \<and> bview s Map.empty {} ((disk s)(n := g (disk s n))) s')"
    by (simp add: NBUF_def)
  then show ?thesis
    unfolding bs.modify_block_def bs.peek_block_def bnd_assoc
    by (rule runs_mono) (auto simp: bview_disk, auto simp: bview_def)
qed

theorem cache_read_back_witness:
  "runs (bnd (bread 1 64) (\<lambda>i. bnd (upd_data i (\<lambda>d. d(0 := 7))) (\<lambda>_. bnd (bwrite i) (\<lambda>_. bnd (brelse i) (\<lambda>_.
      bnd (bread 1 64) (\<lambda>j. bnd (gets (\<lambda>s. b_data (bufs s j))) (\<lambda>d. bnd (brelse j) (\<lambda>_. ret d))))))) fs0)
    (\<lambda>d s'. d 0 = 7 \<and> d 2 = 46 \<and> disk s' 64 0 = 7)"
  by (rule runs_mono [OF cache_read_back [of fs0 64 "\<lambda>d. d(0 := 7)" 64]])
     (simp_all add: cache_fs0, simp add: disk0_def wr_def)

text \<open>C19: The buffers are recycled in the order of last use. When block \<open>n\<close> is not cached,
  \<open>bget\<close> takes the least recently used buffer that nobody references, and panics when all are
  referenced; when the last reference of a buffer is released, it becomes the most recently used
  one and the order of the others stays.\<close>

theorem bcache_lru:
  assumes "kctx s" and "quiet s" and "lru (bufs s) xs"
  shows "(find (\<lambda>i. b_dev (bufs s i) = dev \<and> b_blockno (bufs s i) = n) xs = None \<longrightarrow>
      (case find (\<lambda>i. b_refcnt (bufs s i) = 0) (rev xs) of
         None \<Rightarrow> bget dev n s = Panic ''bget: no buffers''
       | Some j \<Rightarrow> \<not> sl_locked (slocks s (LBuf j)) \<longrightarrow>
           (\<exists>s'. bget dev n s = Ok (j, s') \<and> lru (bufs s') xs \<and> b_blockno (bufs s' j) = n
              \<and> \<not> b_valid (bufs s' j) \<and> sl_locked (slocks s' (LBuf j)))))
    \<and> (i < NBUF \<longrightarrow> b_refcnt (bufs s i) = 1 \<longrightarrow> sl_locked (slocks s (LBuf i)) \<longrightarrow>
      sl_pid (slocks s (LBuf i)) = mypid s \<longrightarrow>
      (\<exists>s'. brelse i s = Ok ((), s') \<and> lru (bufs s') (i # remove1 i xs) \<and> b_refcnt (bufs s' i) = 0
         \<and> \<not> sl_locked (slocks s' (LBuf i))))"
proof (intro conjI impI)
  assume miss: "find (\<lambda>i. b_dev (bufs s i) = dev \<and> b_blockno (bufs s i) = n) xs = None"
  show "case find (\<lambda>i. b_refcnt (bufs s i) = 0) (rev xs) of
         None \<Rightarrow> bget dev n s = Panic ''bget: no buffers''
       | Some j \<Rightarrow> \<not> sl_locked (slocks s (LBuf j)) \<longrightarrow>
           (\<exists>s'. bget dev n s = Ok (j, s') \<and> lru (bufs s') xs \<and> b_blockno (bufs s' j) = n
              \<and> \<not> b_valid (bufs s' j) \<and> sl_locked (slocks s' (LBuf j)))"
  proof (cases "find (\<lambda>i. b_refcnt (bufs s i) = 0) (rev xs)")
    case None
    then show ?thesis using bget_full [OF assms(1,3) miss] by simp
  next
    case (Some j)
    show ?thesis
      using bget_miss [OF assms(1,3) miss Some] lru_same_links [OF assms(3)] by (simp add: Some)
  qed
next
  assume a: "i < NBUF" "b_refcnt (bufs s i) = 1" "sl_locked (slocks s (LBuf i))"
    "sl_pid (slocks s (LBuf i)) = mypid s"
  note f = brelse_front [OF assms a]
  have "b_refcnt (link_front i (unlink_buf i ((bufs s)(i := (bufs s i)\<lparr>b_refcnt := 0\<rparr>))) i) = 0" by simp
  with f show "\<exists>s'. brelse i s = Ok ((), s') \<and> lru (bufs s') (i # remove1 i xs) \<and> b_refcnt (bufs s' i) = 0
         \<and> \<not> sl_locked (slocks s' (LBuf i))" by auto
qed

theorem bcache_lru_witness:
  "\<exists>s'. bget 1 7 fs0 = Ok (0, s') \<and> lru (bufs s') (rev [0..<NBUF]) \<and> b_blockno (bufs s' 0) = 7"
proof -
  have "find (\<lambda>i. b_dev (bufs fs0 i) = 1 \<and> b_blockno (bufs fs0 i) = 7) (rev [0..<NBUF]) = None"
    by (simp add: find_None_iff buf0_def)
  moreover have "find (\<lambda>i. b_refcnt (bufs fs0 i) = 0) (rev (rev [0..<NBUF])) = Some 0"
    by (simp add: buf0_def NBUF_def upt_rec)
  ultimately show ?thesis
    using bcache_lru [of fs0 "rev [0..<NBUF]" 1 7] lru_buf0 by auto
qed

section \<open>Properties of the block allocator\<close>

text \<open>C16: \<open>balloc\<close> returns the first free block of the disk, marked used in the bitmap and
  zeroed; no other block changes its mark, and no block but that one and its bitmap block
  changes its contents. It returns 0 exactly when no block is free, and then changes nothing.\<close>

theorem balloc_first_free:
  assumes "bview s0 Map.empty {} (disk s) s" and "sb_ok (sb s0)" and "meta_used (disk s) (sb s0)"
  shows "runs (balloc 1 s) (\<lambda>a s'.
      a = 0 \<and> (\<forall>b. unat b < unat (sb_size (sb s0)) \<longrightarrow> used (disk s) (sb s0) b) \<and> disk s' = disk s
    \<or> a \<noteq> 0 \<and> first_free (disk s) (sb s0) a \<and> data_blk (sb s0) a
      \<and> (\<forall>i < BSIZE. disk s' a i = 0)
      \<and> (\<forall>b. unat b < unat (sb_size (sb s0)) \<longrightarrow> used (disk s') (sb s0) b = (b = a \<or> used (disk s) (sb s0) b))
      \<and> (\<forall>b. b \<noteq> a \<longrightarrow> b \<noteq> BBLOCK a (sb s0) \<longrightarrow> disk s' b = disk s b))"
proof (rule runs_mono [OF balloc_rule [OF assms(1) refl assms(2) hold_empty assms(3)]])
  fix a s'
  assume "a = 0 \<and> used_below (disk s) (sb s0) (unat (sb_size (sb s0))) \<and> bview s0 Map.empty {} (disk s) s'
    \<or> a \<noteq> 0 \<and> first_free (disk s) (sb s0) a \<and> data_blk (sb s0) a \<and> None = None
      \<and> bview s0 Map.empty {} (allocd (disk s) (sb s0) a) s'"
  then show "a = 0 \<and> (\<forall>b. unat b < unat (sb_size (sb s0)) \<longrightarrow> used (disk s) (sb s0) b) \<and> disk s' = disk s
    \<or> a \<noteq> 0 \<and> first_free (disk s) (sb s0) a \<and> data_blk (sb s0) a
      \<and> (\<forall>i < BSIZE. disk s' a i = 0)
      \<and> (\<forall>b. unat b < unat (sb_size (sb s0)) \<longrightarrow> used (disk s') (sb s0) b = (b = a \<or> used (disk s) (sb s0) b))
      \<and> (\<forall>b. b \<noteq> a \<longrightarrow> b \<noteq> BBLOCK a (sb s0) \<longrightarrow> disk s' b = disk s b)"
    by (elim disjE conjE)
       (simp_all add: bview_disk used_below_def used_allocd [OF assms(2)] allocd_zero allocd_other)
qed

lemma bview_fs0: "bview fs0 Map.empty {} disk0 fs0"
  using cache_fs0 by (simp add: bview_def)

theorem balloc_first_free_witness:
  "runs (balloc 1 fs0) (\<lambda>a s'. first_free disk0 sb0 a \<and> (\<forall>i < BSIZE. disk s' a i = 0))"
proof (rule runs_mono [OF balloc_first_free [of fs0 fs0]])
  show "bview fs0 Map.empty {} (disk fs0) fs0" "sb_ok (sb fs0)" "meta_used (disk fs0) (sb fs0)"
    using bview_fs0 by simp_all
  have "\<not> used disk0 sb0 72" using used_disk0 [of 72] by simp
  then have "\<exists>b. unat b < unat (sb_size sb0) \<and> \<not> used disk0 sb0 b" by (intro exI [of _ 72]) (simp add: sb0_def)
  then show "first_free disk0 sb0 a \<and> (\<forall>i < BSIZE. disk s' a i = 0)"
    if "a = 0 \<and> (\<forall>b. unat b < unat (sb_size (sb fs0)) \<longrightarrow> used (disk fs0) (sb fs0) b) \<and> disk s' = disk fs0
    \<or> a \<noteq> 0 \<and> first_free (disk fs0) (sb fs0) a \<and> data_blk (sb fs0) a
      \<and> (\<forall>i < BSIZE. disk s' a i = 0)
      \<and> (\<forall>b. unat b < unat (sb_size (sb fs0)) \<longrightarrow> used (disk s') (sb fs0) b = (b = a \<or> used (disk fs0) (sb fs0) b))
      \<and> (\<forall>b. b \<noteq> a \<longrightarrow> b \<noteq> BBLOCK a (sb fs0) \<longrightarrow> disk s' b = disk fs0 b)" for a s'
    using that by auto
qed

text \<open>C17: Freeing is the inverse of allocating, and only of allocating: \<open>bfree\<close> of a used block
  clears its mark and no other, writes the bitmap through to the disk, and leaves every data and
  inode block as it is; \<open>bfree\<close> of a free block panics.\<close>

theorem bfree_exact:
  assumes "bview s0 Map.empty {} (disk s) s" and "sb_ok (sb s0)" and "data_blk (sb s0) b"
  shows "if used (disk s) (sb s0) b
    then runs (bfree 1 b s) (\<lambda>_ s'. freed (sb s0) (disk s) {b} (disk s'))
    else bfree 1 b s = Panic ''freeing free block''"
proof (cases "used (disk s) (sb s0) b")
  case True
  have "runs (bfree 1 b s) (\<lambda>_ s'. \<exists>L2. bview s0 Map.empty {} L2 s' \<and> freed (sb s0) (disk s) {b} L2)"
    using bfree_freed [OF assms(1) refl assms(2) hold_empty _ freed_refl assms(3) True] by simp
  with True show ?thesis by (auto simp: bview_disk elim!: runs_mono)
next
  case False
  with assms bfree_panics [OF assms(1) refl assms(2) hold_empty] show ?thesis by (simp add: data_blk_def)
qed

theorem bfree_exact_witness:
  "runs (bfree 1 64 fs0) (\<lambda>_ s'. \<not> used (disk s') sb0 64 \<and> used (disk s') sb0 65)
    \<and> bfree 1 80 fs0 = Panic ''freeing free block''"
proof -
  have d: "data_blk sb0 64" "data_blk sb0 80" by (simp_all add: data_blk_def sb0_def data_start_def)
  have u: "used disk0 sb0 64" "used disk0 sb0 65" "\<not> used disk0 sb0 80"
    using used_disk0 [of 64] used_disk0 [of 65] used_disk0 [of 80] by simp_all
  have "runs (bfree 1 64 fs0) (\<lambda>_ s'. freed sb0 disk0 {64} (disk s'))"
    using bfree_exact [of fs0 fs0 64] bview_fs0 d u by simp
  then have "runs (bfree 1 64 fs0) (\<lambda>_ s'. \<not> used (disk s') sb0 64 \<and> used (disk s') sb0 65)"
    using u by (auto simp: freed_def sb0_def elim!: runs_mono)
  then show ?thesis using bfree_exact [of fs0 fs0 80] bview_fs0 d u by simp
qed

section \<open>Properties of file contents\<close>

text \<open>What \<open>writei\<close> leaves on the disk, in terms of the disk alone.\<close>

lemma writei_disk:
  assumes f: "filev s0 pp p (disk s) s" and i: "i_private (itable s0 ip) = pp" "i_dev (itable s0 ip) = 1"
    and ino: "ino_ok (sb s0) (i_inum (itable s0 ip))"
    and off: "off \<le> i_size (itable s0 ip)" "off \<le> off + n" "unat off + unat n \<le> MAXFILE * BSIZE"
    and bs: "unat n \<le> length bs"
  shows "runs (xv6fs_writei ip (KSrc bs) off n s) (\<lambda>r s'. \<exists>p' L' m.
     r = int m \<and> m \<le> unat n \<and> filev (with_ino s0 ip (grown (itable s0 ip) (unat off + m))) pp p' (disk s') s'
     \<and> fbytes (disk s') p' = wr (fbytes (disk s) p) (unat off) (take m bs)
     \<and> (m < unat n \<longrightarrow> used_below (disk s') (sb s0) (unat (sb_size (sb s0))))
     \<and> fs_ext (sb s0) (disk s) p L' p' \<and> wf_file L' (sb s0) p'
     \<and> disk s' = put_inode L' (sb s0) (i_inum (itable s0 ip)) (dinode_of (grown (itable s0 ip) (unat off + m)) p'))"
proof (rule runs_mono [OF writei_rule [OF f i ino off bs]])
  fix r s'
  assume "\<exists>p' L' m. let i' = grown (itable s0 ip) (unat off + m);
         L'' = put_inode L' (sb s0) (i_inum (itable s0 ip)) (dinode_of i' p') in
     filev (with_ino s0 ip i') pp p' L'' s' \<and> fbytes L'' p' = wr (fbytes (disk s) p) (unat off) (take m bs)
     \<and> moved (sb s0) (disk s) p L' p' m (unat n) \<and> wf_file L' (sb s0) p' \<and> r = int m"
  then obtain p' L' m where v: "filev (with_ino s0 ip (grown (itable s0 ip) (unat off + m))) pp p'
        (put_inode L' (sb s0) (i_inum (itable s0 ip)) (dinode_of (grown (itable s0 ip) (unat off + m)) p')) s'"
      and fb: "fbytes (put_inode L' (sb s0) (i_inum (itable s0 ip)) (dinode_of (grown (itable s0 ip) (unat off + m)) p')) p'
        = wr (fbytes (disk s) p) (unat off) (take m bs)"
      and mv: "moved (sb s0) (disk s) p L' p' m (unat n)" and wf: "wf_file L' (sb s0) p'" and r: "r = int m"
    unfolding Let_def by blast
  note d = filev_disk [OF v]
  have low: "unat (IBLOCK (i_inum (itable s0 ip)) (sb s0)) < unat (sb_bmapstart (sb s0))"
    by (rule unat_IBLOCK(2) [OF filevD(2) [OF f] ino])
  have "used_below (disk s') (sb s0) (unat (sb_size (sb s0)))" if "m < unat n"
    using mv that low_update(5) [OF filevD(2) [OF f] low refl]
    by (simp add: d moved_def used_below_def put_inode_def)
  with v fb mv wf r d show "\<exists>p' L' m. r = int m \<and> m \<le> unat n
     \<and> filev (with_ino s0 ip (grown (itable s0 ip) (unat off + m))) pp p' (disk s') s'
     \<and> fbytes (disk s') p' = wr (fbytes (disk s) p) (unat off) (take m bs)
     \<and> (m < unat n \<longrightarrow> used_below (disk s') (sb s0) (unat (sb_size (sb s0))))
     \<and> fs_ext (sb s0) (disk s) p L' p' \<and> wf_file L' (sb s0) p'
     \<and> disk s' = put_inode L' (sb s0) (i_inum (itable s0 ip)) (dinode_of (grown (itable s0 ip) (unat off + m)) p')"
    by (intro exI [of _ p'] exI [of _ L'] exI [of _ m]) (simp add: moved_def)
qed







lemma unat_of_nat32: "n < 2 ^ 32 \<Longrightarrow> unat (of_nat n :: u32) = n"
  by (simp add: unsigned_of_nat take_bit_nat_eq_self)



text \<open>C14: Truncation frees the blocks of the file and nothing else: afterwards a block is marked
  used exactly if it was and was not one of the direct, indirect or index blocks of the file, no
  data block has changed, and the inode, in memory and on disk, has size 0 and no address.\<close>

theorem itrunc_frees:
  assumes f: "filev s0 pp p (disk s) s" and i: "i_private (itable s0 ip) = pp" "i_dev (itable s0 ip) = 1"
    and ino: "ino_ok (sb s0) (i_inum (itable s0 ip))"
  shows "runs (xv6fs_itrunc ip s) (\<lambda>_ s'.
     (\<forall>b. unat b < unat (sb_size (sb s0)) \<longrightarrow>
        (used (disk s') (sb s0) b \<longleftrightarrow> used (disk s) (sb s0) b \<and> b \<notin> fblocks (disk s) p))
     \<and> (\<forall>b. data_blk (sb s0) b \<longrightarrow> disk s' b = disk s b)
     \<and> itable s' ip = (itable s0 ip)\<lparr>i_size := 0\<rparr> \<and> privs s' pp = Some (p\<lparr>x_addrs := (\<lambda>_. 0)\<rparr>)
     \<and> disk_inode (disk s') (sb s0) (i_inum (itable s0 ip))
         = dinode_of ((itable s0 ip)\<lparr>i_size := 0\<rparr>) (p\<lparr>x_addrs := (\<lambda>_. 0)\<rparr>))"
proof (rule runs_mono [OF itrunc_rule [OF assms]], elim exE)
  fix r s' L'
  let ?i' = "(itable s0 ip)\<lparr>i_size := 0\<rparr>" and ?p' = "p\<lparr>x_addrs := (\<lambda>_. 0)\<rparr>" and ?x = "sb s0"
  let ?n = "i_inum (itable s0 ip)"
  let ?L = "put_inode L' ?x ?n (dinode_of ?i' ?p')"
  assume "let i' = ?i'; p' = ?p'; L'' = put_inode L' ?x (i_inum i') (dinode_of i' p')
     in filev (with_ino s0 ip i') pp p' L'' s' \<and> freed ?x (disk s) (fblocks (disk s) p) L'"
  then have v: "filev (with_ino s0 ip ?i') pp ?p' ?L s'" and fr: "freed ?x (disk s) (fblocks (disk s) p) L'"
    by (simp_all add: Let_def)
  note ok = filevD(2) [OF f]
  have low: "unat (IBLOCK ?n ?x) < unat (sb_bmapstart ?x)" by (rule unat_IBLOCK(2) [OF ok ino])
  have "used ?L ?x b = used L' ?x b" if "unat b < unat (sb_size ?x)" for b
    using low_update(5) [OF ok low refl that] by (simp add: put_inode_def)
  moreover have "?L b = L' b" if "data_blk ?x b" for b
    using low that ok by (auto simp: put_inode_def data_blk_def sb_ok_def)
  moreover have "disk_inode ?L ?x ?n = dinode_of ?i' ?p'" by (rule disk_put_same) (simp add: dinode_of_def)
  ultimately show "(\<forall>b. unat b < unat (sb_size ?x) \<longrightarrow>
        (used (disk s') ?x b \<longleftrightarrow> used (disk s) ?x b \<and> b \<notin> fblocks (disk s) p))
     \<and> (\<forall>b. data_blk ?x b \<longrightarrow> disk s' b = disk s b)
     \<and> itable s' ip = ?i' \<and> privs s' pp = Some ?p' \<and> disk_inode (disk s') ?x ?n = dinode_of ?i' ?p'"
    using fr bview_fs [OF filevD(1) [OF v]] unfolding filev_disk [OF v] by (simp add: freed_def)
qed

theorem itrunc_frees_witness:
  "runs (xv6fs_itrunc 0 fs0) (\<lambda>_ s'. \<not> used (disk s') sb0 64 \<and> used (disk s') sb0 63)"
proof (rule runs_mono [OF itrunc_frees [where ?s0.0 = fs0 and pp = "0x80200000" and p = dir0]])
  show "filev fs0 0x80200000 dir0 (disk fs0) fs0" using filev_dir0 by simp
  have "64 \<in> fblocks disk0 dir0" by (auto simp: fblocks_def slot_dir0 image_iff)
  moreover have "63 \<notin> fblocks disk0 dir0" by (auto simp: fblocks_def slot_dir0 image_iff split: if_splits)
  moreover have "used disk0 sb0 63" using used_disk0 [of 63] by simp
  ultimately show "\<not> used t sb0 64 \<and> used t sb0 63"
    if "(\<forall>b. unat b < unat (sb_size (sb fs0)) \<longrightarrow>
        (used t (sb fs0) b \<longleftrightarrow> used (disk fs0) (sb fs0) b \<and> b \<notin> fblocks (disk fs0) dir0)) \<and> Q" for t Q
    using conjunct1 [OF that, THEN spec, of 64] conjunct1 [OF that, THEN spec, of 63] by (simp add: fs0_sizes)
qed (simp_all add: fs0_sizes)

end
