(* ===== verification/Pagetable.thy ===== *)
theory Pagetable
  imports Vm "HOL-Library.Sublist"
begin

text \<open>
  What the page-table code of \<open>kernel/vm.c\<close> does, over an abstract view of a table: the function
  from page numbers to leaf entries that the three-level tree in memory stands for.
\<close>

section \<open>The tree of tables\<close>

definition px :: "nat \<Rightarrow> u64 \<Rightarrow> nat" where
  "px l va = unat (PX l va)"

definition ent :: "bytes \<Rightarrow> u64 \<Rightarrow> nat \<Rightarrow> u64" where
  "ent m pt k = ld64 m (unat pt + 8 * k)"

abbreviation valid :: "u64 \<Rightarrow> bool" where
  "valid e \<equiv> e AND PTE_V \<noteq> 0"

definition kids :: "bytes \<Rightarrow> u64 \<Rightarrow> nat set" where
  "kids m pt = {k. k < 512 \<and> valid (ent m pt k)}"

definition kid :: "bytes \<Rightarrow> u64 \<Rightarrow> nat \<Rightarrow> u64" where
  "kid m pt k = PTE2PA (ent m pt k)"

text \<open>An entry that points to a lower-level table allows no access.\<close>

definition dirp :: "u64 \<Rightarrow> bool" where
  "dirp e \<longleftrightarrow> e AND (PTE_R OR PTE_W OR PTE_X) = 0"

text \<open>The pages of a table and its lower-level tables; that they form a tree; the leaf entry a
  virtual address leads to, 0 where a table is missing, and the table that holds it.\<close>

primrec tset :: "bytes \<Rightarrow> nat \<Rightarrow> u64 \<Rightarrow> u64 set" where
  "tset m 0 pt = {pt}"
| "tset m (Suc l) pt = insert pt (\<Union>k \<in> kids m pt. tset m l (kid m pt k))"

primrec ptwf :: "bytes \<Rightarrow> nat \<Rightarrow> u64 \<Rightarrow> bool" where
  "ptwf m 0 pt \<longleftrightarrow> True"
| "ptwf m (Suc l) pt \<longleftrightarrow>
     (\<forall>k \<in> kids m pt. dirp (ent m pt k) \<and> ptwf m l (kid m pt k) \<and> pt \<notin> tset m l (kid m pt k)
        \<and> (\<forall>j \<in> kids m pt. j \<noteq> k \<longrightarrow> tset m l (kid m pt j) \<inter> tset m l (kid m pt k) = {}))"

primrec leaf :: "bytes \<Rightarrow> nat \<Rightarrow> u64 \<Rightarrow> u64 \<Rightarrow> u64" where
  "leaf m 0 pt va = ent m pt (px 0 va)"
| "leaf m (Suc l) pt va =
     (if px (Suc l) va \<in> kids m pt then leaf m l (kid m pt (px (Suc l) va)) va else 0)"

primrec ltab :: "bytes \<Rightarrow> nat \<Rightarrow> u64 \<Rightarrow> u64 \<Rightarrow> u64 option" where
  "ltab m 0 pt va = Some pt"
| "ltab m (Suc l) pt va =
     (if px (Suc l) va \<in> kids m pt then ltab m l (kid m pt (px (Suc l) va)) va else None)"

lemma px_less [simp]: "px l va < 512"
proof -
  have "px l va = unat (take_bit 9 (drop_bit (12 + 9 * l) va))"
    by (simp add: px_def PX_def take_bit_eq_mask mask_eq_exp_minus_1)
  also have "\<dots> = take_bit 9 (unat (drop_bit (12 + 9 * l) va))" by (simp add: unsigned_take_bit_eq)
  finally show ?thesis using take_bit_nat_less_exp [of 9] by simp
qed

lemma px_le [simp]: "px l va \<le> 511"
  using px_less [of l va] by linarith

lemma page_low_bits: "p mod 4096 = 0 \<Longrightarrow> i < 12 \<Longrightarrow> \<not> bit (p :: u64) i"
proof -
  assume "p mod 4096 = 0" "i < 12"
  then have "take_bit 12 p = 0" by (simp add: take_bit_eq_mod)
  with \<open>i < 12\<close> show ?thesis using bit_take_bit_iff [of 12 p i] by simp
qed

text \<open>An entry holds the page and, below it, the flags.\<close>

lemma PTE2PA_make:
  assumes "p mod 4096 = 0" and "drop_bit 10 f = 0"
  shows "PTE2PA (PA2PTE p OR f) = p" and "(PA2PTE p OR f) AND PTE_V = f AND PTE_V"
    and "(PA2PTE p OR f) AND PTE_U = f AND PTE_U" and "PTE_FLAGS (PA2PTE p OR f) = f"
proof -
  have f: "\<not> bit f i" if "10 \<le> i" for i
    using arg_cong [OF assms(2), of "\<lambda>x. bit x (i - 10)"] that by (simp add: bit_drop_bit_eq)
  show "PTE2PA (PA2PTE p OR f) = p"
  proof (rule bit_word_eqI)
    fix i :: nat
    assume "i < LENGTH(64)"
    then show "bit (PTE2PA (PA2PTE p OR f)) i = bit p i"
      using page_low_bits [OF assms(1), of i] f [of "i - 2"]
      by (cases "12 \<le> i") (auto simp: PTE2PA_def PA2PTE_def bit_simps)
  qed
  have low: "\<not> bit (PA2PTE p) i" if "i < 10" for i using that by (simp add: PA2PTE_def bit_simps)
  have V: "bit PTE_V i \<longleftrightarrow> i = 0" and U: "bit PTE_U i \<longleftrightarrow> i = 4" for i
    using bit_exp_iff [of 4 i, where 'a = u64] by (auto simp: PTE_V_def PTE_U_def bit_1_iff)
  show "(PA2PTE p OR f) AND PTE_V = f AND PTE_V" "(PA2PTE p OR f) AND PTE_U = f AND PTE_U"
    using low by (auto intro!: bit_word_eqI simp: bit_simps V U)
  have "PTE_FLAGS (PA2PTE p OR f) = take_bit 10 (PA2PTE p OR f)"
    by (simp add: PTE_FLAGS_def take_bit_eq_mask mask_eq_exp_minus_1)
  also have "\<dots> = f"
    using low f by (auto intro!: bit_word_eqI simp: bit_simps simp flip: not_le)
  finally show "PTE_FLAGS (PA2PTE p OR f) = f" .
qed

lemma pte_slot:
  assumes "page_ok e pt" and "k < 512"
  shows "unat (pt + 8 * of_nat k) = unat pt + 8 * k"
proof -
  have "unat pt < 0x88000000" using assms(1) unat_PHYSTOP by (simp add: page_ok_def word_less_nat_alt)
  then show ?thesis using assms(2) by (simp add: unat_word_ariths unat_of_nat)
qed

lemma slot_PX: "page_ok e pt \<Longrightarrow> unat (pt + 8 * PX l va) = unat pt + 8 * px l va"
  using pte_slot [of e pt, OF _ px_less [of l va]] by (simp add: px_def)

lemma ltab_tset: "ltab m l pt va = Some t \<Longrightarrow> t \<in> tset m l pt"
  by (induction l arbitrary: pt) (auto split: if_splits)

lemma leaf_ltab: "leaf m l pt va = (case ltab m l pt va of None \<Rightarrow> 0 | Some t \<Rightarrow> ent m t (px 0 va))"
  by (induction l arbitrary: pt) auto

lemma tset_root [simp]: "pt \<in> tset m l pt"
  by (cases l) auto

text \<open>Page-aligned addresses.\<close>

definition pal :: "u64 \<Rightarrow> bool" where
  "pal q \<longleftrightarrow> q mod 4096 = 0"

lemma pal_disjoint: "pal p \<Longrightarrow> pal q \<Longrightarrow> p \<noteq> q \<Longrightarrow> unat p + PGSIZE \<le> unat q \<or> unat q + PGSIZE \<le> unat p"
  unfolding pal_def by (rule page_disjoint)

text \<open>Changes of memory outside the tables.\<close>

definition same_page :: "bytes \<Rightarrow> bytes \<Rightarrow> u64 \<Rightarrow> bool" where
  "same_page m m' q \<longleftrightarrow> (\<forall>i < PGSIZE. m' (unat q + i) = m (unat q + i))"

lemma dirp_make: "pal p \<Longrightarrow> dirp (PA2PTE p OR PTE_V)"
proof -
  have low: "\<not> bit (PA2PTE p OR PTE_V) i" if "0 < i" "i < 10" for i
    using that by (simp add: PA2PTE_def PTE_V_def bit_simps)
  have "bit PTE_R i \<longleftrightarrow> i = 1" "bit PTE_W i \<longleftrightarrow> i = 2" "bit PTE_X i \<longleftrightarrow> i = 3" for i
    using bit_exp_iff [of 1 i, where 'a = u64] bit_exp_iff [of 2 i, where 'a = u64] bit_exp_iff [of 3 i, where 'a = u64]
    by (auto simp: PTE_R_def PTE_W_def PTE_X_def)
  then have rwx: "bit (PTE_R OR PTE_W OR PTE_X) i \<Longrightarrow> 0 < i \<and> i < 10" for i by (auto simp: bit_or_iff)
  show ?thesis unfolding dirp_def using low rwx by (intro bit_word_eqI) (auto simp: bit_and_iff)
qed

lemma same_page_refl [simp]: "same_page m m q"
  by (simp add: same_page_def)

lemma same_page_trans: "same_page m1 m2 q \<Longrightarrow> same_page m2 m3 q \<Longrightarrow> same_page m1 m3 q"
  by (simp add: same_page_def)

lemma same_page_ent:
  assumes "same_page m m' q" and "k < 512"
  shows "ent m' q k = ent m q k"
proof -
  have "rd m' (unat q + 8 * k) 8 = rd m (unat q + 8 * k) 8"
    using assms by (intro nth_equalityI) (simp_all add: same_page_def PGSIZE_def add.assoc)
  then show ?thesis by (simp add: ent_def ld64_def)
qed

lemma same_page_wr:
  assumes "pal q" "pal p" "q \<noteq> p" "unat p \<le> a" "a + length bs \<le> unat p + PGSIZE"
  shows "same_page m (wr m a bs) q"
  using pal_disjoint [OF assms(1-3)] assms(4,5) by (auto simp: same_page_def)

lemma same_page_kids: "same_page m m' q \<Longrightarrow> kids m' q = kids m q \<and>
   (\<forall>k < 512. kid m' q k = kid m q k \<and> ent m' q k = ent m q k)"
  using same_page_ent [of m m' q] by (auto simp: kids_def kid_def)

lemma tree_frame:
  assumes "\<forall>q \<in> tset m l pt. same_page m m' q"
  shows "tset m' l pt = tset m l pt \<and> ptwf m' l pt = ptwf m l pt \<and> leaf m' l pt va = leaf m l pt va
     \<and> ltab m' l pt va = ltab m l pt va"
  using assms
proof (induction l arbitrary: pt)
  case 0
  then show ?case by (simp add: same_page_ent)
next
  case (Suc l)
  then have pt: "kids m' pt = kids m pt" "\<And>k. k < 512 \<Longrightarrow> kid m' pt k = kid m pt k \<and> ent m' pt k = ent m pt k"
    using same_page_kids [of m m' pt] by auto
  have k: "k < 512" if "k \<in> kids m pt" for k using that by (simp add: kids_def)
  have "tset m' l (kid m pt k) = tset m l (kid m pt k) \<and> ptwf m' l (kid m pt k) = ptwf m l (kid m pt k)
     \<and> leaf m' l (kid m pt k) va = leaf m l (kid m pt k) va \<and> ltab m' l (kid m pt k) va = ltab m l (kid m pt k) va"
    if "k \<in> kids m pt" for k by (rule Suc.IH) (use Suc.prems that in auto)
  then show ?case using pt k by (simp cong: ball_cong)
qed


text \<open>Storing an entry.\<close>

lemma ent_st:
  assumes "pal p" "pal q" "k < 512" "j < 512"
  shows "ent (st64 m (unat p + 8 * k) v) q j = (if q = p \<and> j = k then v else ent m q j)"
proof (cases "q = p")
  case True
  then show ?thesis by (cases "j < k") (auto simp: ent_def)
next
  case False
  then show ?thesis
    using pal_disjoint [OF assms(2,1) False] assms(3,4) by (auto simp: ent_def PGSIZE_def)
qed

lemma same_page_st: "pal p \<Longrightarrow> pal q \<Longrightarrow> q \<noteq> p \<Longrightarrow> k < 512 \<Longrightarrow>
   same_page m (st64 m (unat p + 8 * k) v) q"
  unfolding st64_def by (rule same_page_wr [where p = p]) (simp_all add: PGSIZE_def)

text \<open>Two addresses that take the same way through the tables.\<close>

primrec same_px :: "nat \<Rightarrow> u64 \<Rightarrow> u64 \<Rightarrow> bool" where
  "same_px 0 w va \<longleftrightarrow> px 0 w = px 0 va"
| "same_px (Suc l) w va \<longleftrightarrow> px (Suc l) w = px (Suc l) va \<and> same_px l w va"

lemma store_leaf:
  fixes v :: u64
  assumes "ptwf m l pt" and "ltab m l pt va = Some t" and "\<forall>q \<in> tset m l pt. pal q"
  defines "m' \<equiv> st64 m (unat t + 8 * px 0 va) v"
  shows "tset m' l pt = tset m l pt \<and> ptwf m' l pt \<and> ltab m' l pt w = ltab m l pt w
     \<and> leaf m' l pt w = (if same_px l w va then v else leaf m l pt w)"
  using assms(1-3)
proof (induction l arbitrary: pt)
  case 0
  then show ?case by (simp add: m'_def ent_st)
next
  case (Suc l)
  let ?k = "px (Suc l) va"
  have k: "?k \<in> kids m pt" and t: "ltab m l (kid m pt ?k) va = Some t"
    using Suc.prems(2) by (simp_all split: if_splits)
  then have tin: "t \<in> tset m l (kid m pt ?k)" by (blast dest: ltab_tset)
  have wf: "ptwf m l (kid m pt ?k)" "pt \<notin> tset m l (kid m pt ?k)" using Suc.prems(1) k by auto
  have other: "t \<notin> tset m l (kid m pt j)" if "j \<in> kids m pt" "j \<noteq> ?k" for j
    using Suc.prems(1) k that tin by (simp only: ptwf.simps) blast
  have al: "\<forall>q \<in> tset m l (kid m pt j). pal q" if "j \<in> kids m pt" for j
    using Suc.prems(3) that by auto
  have sp: "same_page m m' q" if "pal q" "q \<noteq> t" for q
    unfolding m'_def by (rule same_page_st) (use that al [OF k] tin in auto)
  have pt: "kids m' pt = kids m pt" "\<And>j. j < 512 \<Longrightarrow> kid m' pt j = kid m pt j \<and> ent m' pt j = ent m pt j"
    using same_page_kids [OF sp [of pt]] Suc.prems(3) tin wf(2) by auto
  have j: "j < 512" if "j \<in> kids m pt" for j using that by (simp add: kids_def)
  note fr = tree_frame [of m l "kid m pt j" m' for j]
  have "tset m' l (kid m pt j) = tset m l (kid m pt j) \<and> ptwf m' l (kid m pt j)
      \<and> ltab m' l (kid m pt j) w = ltab m l (kid m pt j) w
      \<and> leaf m' l (kid m pt j) w =
          (if j = ?k \<and> same_px l w va then v else leaf m l (kid m pt j) w)"
    if "j \<in> kids m pt" for j
  proof (cases "j = ?k")
    case True
    then show ?thesis using Suc.IH [OF wf(1) t al [OF k]] by simp
  next
    case False
    have "\<forall>q \<in> tset m l (kid m pt j). same_page m m' q" using al [OF that] other [OF that False] sp by metis
    from fr [OF this] show ?thesis using False Suc.prems(1) that by auto
  qed
  then show ?case using pt j Suc.prems(1) k by (simp cong: ball_cong)
qed

section \<open>Growing the tree\<close>

text \<open>The tree has taken the pages of \<open>F\<close> that are not in \<open>F'\<close> as new tables; no translation has
  changed, nor has any page that is neither a table nor one of \<open>F\<close>.\<close>

definition ext :: "nat \<Rightarrow> u64 \<Rightarrow> bytes \<Rightarrow> u64 set \<Rightarrow> bytes \<Rightarrow> u64 set \<Rightarrow> bool" where
  "ext l pt m F m' F' \<longleftrightarrow> F' \<subseteq> F \<and> tset m' l pt = tset m l pt \<union> (F - F')
     \<and> (\<forall>va. leaf m' l pt va = leaf m l pt va)
     \<and> (\<forall>q. pal q \<longrightarrow> q \<notin> tset m l pt \<union> F \<longrightarrow> same_page m m' q)"

lemma ext_refl [simp]: "ext l pt m F m F"
  by (simp add: ext_def)

lemma ext_trans: "ext l pt m F m1 F1 \<Longrightarrow> ext l pt m1 F1 m2 F2 \<Longrightarrow> ext l pt m F m2 F2"
proof -
  assume a: "ext l pt m F m1 F1" "ext l pt m1 F1 m2 F2"
  then have "same_page m m2 q" if "pal q" "q \<notin> tset m l pt \<union> F" for q
    using that same_page_trans [of m m1 q m2] unfolding ext_def by blast
  with a show ?thesis unfolding ext_def by auto
qed

lemma ext_kid:
  assumes wf: "ptwf m (Suc l) pt" and k: "k \<in> kids m pt" and F: "tset m (Suc l) pt \<inter> F = {}"
    and al: "\<forall>q \<in> tset m (Suc l) pt. pal q"
    and x: "ext l (kid m pt k) m F m' F'" "ptwf m' l (kid m pt k)"
  shows "ext (Suc l) pt m F m' F' \<and> ptwf m' (Suc l) pt \<and> kids m' pt = kids m pt \<and> kid m' pt k = kid m pt k"
proof -
  let ?c = "kid m pt"
  have same: "same_page m m' q" if "q \<in> tset m (Suc l) pt" "q \<notin> tset m l (?c k)" for q
    using x(1) that F al unfolding ext_def by blast
  have "same_page m m' pt" by (rule same) (use wf k in auto)
  then have pt: "kids m' pt = kids m pt" "\<And>j. j \<in> kids m pt \<Longrightarrow> kid m' pt j = ?c j \<and> ent m' pt j = ent m pt j"
    using same_page_kids [of m m' pt] by (auto simp: kids_def)
  have oth: "tset m' l (?c j) = tset m l (?c j) \<and> ptwf m' l (?c j) = ptwf m l (?c j)
      \<and> leaf m' l (?c j) va = leaf m l (?c j) va" if "j \<in> kids m pt" "j \<noteq> k" for j va
  proof -
    have "tset m l (?c j) \<inter> tset m l (?c k) = {}" using wf k that by simp
    then have "\<forall>q \<in> tset m l (?c j). same_page m m' q" using that(1) by (intro ballI same) auto
    from tree_frame [OF this] show ?thesis by simp
  qed
  have tk: "tset m' l (?c k) = tset m l (?c k) \<union> (F - F')" and lk: "leaf m' l (?c k) va = leaf m l (?c k) va" for va
    using x(1) by (simp_all add: ext_def)
  have ts: "tset m' l (?c j) = tset m l (?c j) \<union> (if j = k then F - F' else {})" if "j \<in> kids m pt" for j
    using oth [OF that] tk by simp
  have "tset m' (Suc l) pt = tset m (Suc l) pt \<union> (F - F')"
    using pt ts k by (auto split: if_splits)
  moreover have "leaf m' (Suc l) pt va = leaf m (Suc l) pt va" for va
    using pt oth [of _ va] lk [of va] by (cases "px (Suc l) va = k") auto
  moreover have "same_page m m' q" if "pal q" "q \<notin> tset m (Suc l) pt \<union> F" for q
    using x(1) that k unfolding ext_def by auto
  moreover have "ptwf m' (Suc l) pt"
  proof -
    have F': "tset m l (?c j) \<inter> (F - F') = {}" "pt \<notin> F" if "j \<in> kids m pt" for j using F that by auto
    have "ptwf m' l (?c j)" if "j \<in> kids m pt" for j using oth [OF that] x(2) wf that by (cases "j = k") auto
    moreover have "pt \<notin> tset m' l (?c j)" if "j \<in> kids m pt" for j
      using ts [OF that] wf F'(2) [OF that] that by auto
    moreover have "tset m' l (?c i) \<inter> tset m' l (?c j) = {}" if "i \<in> kids m pt" "j \<in> kids m pt" "i \<noteq> j" for i j
    proof -
      have "tset m l (?c i) \<inter> tset m l (?c j) = {}" using wf that by simp
      then show ?thesis using ts [OF that(1)] ts [OF that(2)] F'(1) [OF that(1)] F'(1) [OF that(2)] that(3)
        by (cases "i = k"; cases "j = k") auto
    qed
    moreover have "dirp (ent m pt j)" if "j \<in> kids m pt" for j using wf that by simp
    ultimately show ?thesis using pt by simp
  qed
  ultimately show ?thesis using pt k x(1) by (simp add: ext_def)
qed

text \<open>A table that is all zero.\<close>

lemma blank_table:
  assumes "\<forall>j < 512. ent m p j = 0"
  shows "kids m p = {}" and "tset m l p = {p}" and "ptwf m l p" and "leaf m l p va = 0"
proof -
  show *: "kids m p = {}" using assms by (simp add: kids_def)
  show "tset m l p = {p}" "ptwf m l p" "leaf m l p va = 0" using * assms by (cases l; simp)+
qed

lemma ext_new:
  assumes wf: "ptwf m (Suc l) pt" and k: "k < 512" "k \<notin> kids m pt" and F: "tset m (Suc l) pt \<inter> F = {}" "p \<in> F"
    and al: "\<forall>q \<in> tset m (Suc l) pt. pal q" "pal p"
    and z: "\<forall>j < 512. ent m1 p j = 0" and m1: "\<And>q. pal q \<Longrightarrow> q \<noteq> p \<Longrightarrow> same_page m m1 q"
  defines "m' \<equiv> st64 m1 (unat pt + 8 * k) (PA2PTE p OR PTE_V)"
  shows "ext (Suc l) pt m F m' (F - {p}) \<and> ptwf m' (Suc l) pt \<and> k \<in> kids m' pt \<and> kid m' pt k = p"
proof -
  let ?c = "kid m pt"
  have ptal: "pal pt" and "pt \<noteq> p" using al(1) F by auto
  have st: "ent m' q j = (if q = pt \<and> j = k then PA2PTE p OR PTE_V else ent m1 q j)"
    if "pal q" "j < 512" for q j
    unfolding m'_def by (rule ent_st) (use ptal k that in auto)
  have same: "same_page m m' q" if "pal q" "q \<noteq> p" "q \<noteq> pt" for q
    using same_page_trans [OF m1 [OF that(1,2)]] same_page_st [OF ptal that(1,3) k(1)] by (simp add: m'_def)
  have new: "PTE2PA (PA2PTE p OR PTE_V) = p" "valid (PA2PTE p OR PTE_V)"
    using PTE2PA_make(1,2) [OF al(2) [unfolded pal_def], of PTE_V] by (simp_all add: PTE_V_def drop_bit_eq_div)
  have e: "ent m' pt j = (if j = k then PA2PTE p OR PTE_V else ent m pt j)" if "j < 512" for j
    using st [OF ptal that] same_page_ent [OF m1 [OF ptal \<open>pt \<noteq> p\<close>] that] by simp
  have kids: "kids m' pt = insert k (kids m pt)" using e k new(2) by (auto simp: kids_def split: if_splits)
  have kid: "kid m' pt k = p" "\<And>j. j \<in> kids m pt \<Longrightarrow> kid m' pt j = ?c j"
    using e k new(1) by (auto simp: kid_def kids_def)
  have "\<forall>j < 512. ent m' p j = 0" using st [OF al(2)] z \<open>pt \<noteq> p\<close> by auto
  note blank = blank_table [OF this]
  have oth: "tset m' l (?c j) = tset m l (?c j) \<and> ptwf m' l (?c j) = ptwf m l (?c j)
      \<and> leaf m' l (?c j) va = leaf m l (?c j) va" if "j \<in> kids m pt" for j va
  proof -
    have "\<forall>q \<in> tset m l (?c j). same_page m m' q" using that wf al F by (intro ballI same) auto
    from tree_frame [OF this] show ?thesis by simp
  qed
  have "F - (F - {p}) = {p}" using F(2) by auto
  then have "tset m' (Suc l) pt = tset m (Suc l) pt \<union> (F - (F - {p}))"
    using kids kid oth blank(2) by (simp add: insert_commute)
  moreover have "leaf m' (Suc l) pt va = leaf m (Suc l) pt va" for va
    using kids kid oth [of _ va] blank(4) k(2) by auto
  moreover have "ptwf m' (Suc l) pt"
  proof -
    have "p \<notin> tset m l (?c j)" if "j \<in> kids m pt" for j using F that by auto
    moreover have "dirp (ent m' pt k)" using e [OF k(1)] dirp_make [OF al(2)] by simp
    moreover have "dirp (ent m' pt j)" if "j \<in> kids m pt" for j
      using e [of j] wf that k(2) by (auto simp: kids_def)
    ultimately show ?thesis using kids kid oth blank(2,3) wf \<open>pt \<noteq> p\<close> k(2) by auto
  qed
  moreover have "same_page m m' q" if "pal q" "q \<notin> tset m (Suc l) pt \<union> F" for q
    by (rule same) (use that F(2) in auto)
  ultimately show ?thesis using kids kid(1) unfolding ext_def by blast
qed

section \<open>Walking with allocation\<close>

text \<open>A table in a state whose free pages are \<open>ps\<close>.\<close>

definition ptv :: "nat \<Rightarrow> u64 \<Rightarrow> u64 list \<Rightarrow> 'a kmem_st_scheme \<Rightarrow> bool" where
  "ptv l pt ps s \<longleftrightarrow> kpages s ps \<and> ptwf (pmem s) l pt
     \<and> (\<forall>p \<in> tset (pmem s) l pt. page_ok (kernel_end s) p \<and> p \<notin> set ps)"

definition only_mem :: "'a kmem_st_scheme \<Rightarrow> 'a kmem_st_scheme \<Rightarrow> bool" where
  "only_mem s s' \<longleftrightarrow> s' = s\<lparr>pmem := pmem s', freelist := freelist s'\<rparr>"

lemma only_mem_refl [simp]: "only_mem s s"
  by (simp add: only_mem_def)

lemma only_mem_end: "only_mem s s' \<Longrightarrow> kernel_end s' = kernel_end s"
  unfolding only_mem_def by (metis kmem_st.select_convs(3) kmem_st.surjective kmem_st.update_convs(1,2))

lemma only_mem_trans: "only_mem s s1 \<Longrightarrow> only_mem s1 s2 \<Longrightarrow> only_mem s s2"
  by (cases s; cases s1; cases s2) (simp add: only_mem_def)

lemma only_mem_upd [simp]: "only_mem s (s\<lparr>pmem := m\<rparr>)" "only_mem s (s\<lparr>freelist := p, pmem := m\<rparr>)"
  by (simp_all add: only_mem_def)

lemma page_ok_pal: "page_ok e p \<Longrightarrow> pal p"
  by (simp add: page_ok_def pal_def)

lemma kpages_wr:
  assumes "kpages s ps" and "q \<notin> set ps" and "pal q" and "unat q \<le> a" and "a + length bs \<le> unat q + PGSIZE"
  shows "kpages (s\<lparr>pmem := wr (pmem s) a bs\<rparr>) ps"
proof -
  have "fl_rep (wr (pmem s) a bs) (freelist s) ps"
    by (rule fl_rep_wr [where q = q]) (use assms in \<open>auto simp: kpages_def kinv_def page_ok_def pal_def\<close>)
  then show ?thesis using assms(1) by (simp add: kpages_def kinv_def)
qed

lemma kpages_ok: "kpages s ps \<Longrightarrow> p \<in> set ps \<Longrightarrow> page_ok (kernel_end s) p"
  by (auto simp: kpages_def kinv_def)

text \<open>Taking a page and clearing it.\<close>

lemma kalloc_zero:
  assumes "kpages s (p # ps)"
  defines "m \<equiv> memset (memset (pmem s) (unat p) 5 PGSIZE) (unat p) 0 PGSIZE"
  shows "kalloc s = Ok (p, s\<lparr>freelist := ld64 (pmem s) (unat p), pmem := memset (pmem s) (unat p) 5 PGSIZE\<rparr>)"
    and "p \<noteq> 0" and "kpages (s\<lparr>freelist := ld64 (pmem s) (unat p), pmem := m\<rparr>) ps"
proof -
  have p: "freelist s = p" "p \<noteq> 0" and k: "cpu_ok s" "lfree LKmem s" and "p \<notin> set ps"
    using assms by (auto simp: kpages_def kinv_def)
  have al: "pal p" using kpages_ok [OF assms(1), of p] by (simp add: page_ok_pal)
  let ?s1 = "s\<lparr>freelist := ld64 (pmem s) (unat p), pmem := memset (pmem s) (unat p) 5 PGSIZE\<rparr>"
  have a: "kalloc s = Ok (p, ?s1)" using kalloc_eq [OF k] p by simp
  with km.alloc_Cons [OF assms(1)] have "kpages ?s1 ps" by auto
  then have "kpages (?s1\<lparr>pmem := memset (pmem ?s1) (unat p) 0 PGSIZE\<rparr>) ps"
    unfolding memset_eq by (rule kpages_wr [where q = p]) (use al \<open>p \<notin> set ps\<close> in \<open>simp_all add: memset_eq\<close>)
  with a p show "kalloc s = Ok (p, ?s1)" "p \<noteq> 0" "kpages (s\<lparr>freelist := ld64 (pmem s) (unat p), pmem := m\<rparr>) ps"
    by (simp_all add: m_def)
qed

lemma zero_page_mem:
  assumes "pal p" and "m1 = memset (memset m (unat p) 5 PGSIZE) (unat p) 0 PGSIZE"
  shows "\<forall>j < 512. ent m1 p j = 0" and "pal q \<Longrightarrow> q \<noteq> p \<Longrightarrow> same_page m m1 q"
    and "rd m1 (unat p) PGSIZE = replicate PGSIZE 0"
proof -
  have m1: "m1 = wr m (unat p) (replicate PGSIZE 0)" using assms(2) by (simp add: memset_eq)
  have "rd m1 (unat p + 8 * j) 8 = replicate 8 0" if "j < 512" for j
    using that unfolding m1 by (subst rd_wr_inside) (simp_all add: PGSIZE_def)
  then show "\<forall>j < 512. ent m1 p j = 0" by (simp add: ent_def ld64_def eval_nat_numeral)
  show "pal q \<Longrightarrow> q \<noteq> p \<Longrightarrow> same_page m m1 q"
    unfolding m1 by (rule same_page_wr [where p = p]) (use assms(1) in simp_all)
  show "rd m1 (unat p) PGSIZE = replicate PGSIZE 0" by (simp add: m1)
qed

lemma ptvD:
  assumes "ptv l pt ps s"
  shows "kpages s ps" "ptwf (pmem s) l pt" "\<And>p. p \<in> tset (pmem s) l pt \<Longrightarrow> page_ok (kernel_end s) p"
    "tset (pmem s) l pt \<inter> set ps = {}" "\<And>p. p \<in> tset (pmem s) l pt \<Longrightarrow> pal p"
  using assms by (auto simp: ptv_def page_ok_pal)

lemma ptv_ext:
  assumes "ptv l pt ps s" "ext l pt (pmem s) (set ps) (pmem s') (set ps')" "kpages s' ps'" "ptwf (pmem s') l pt"
    "only_mem s s'"
  shows "ptv l pt ps' s'"
  using assms kpages_ok [OF ptvD(1) [OF assms(1)]] unfolding ptv_def ext_def
  by (auto simp: only_mem_end)

definition walked :: "nat \<Rightarrow> u64 \<Rightarrow> u64 \<Rightarrow> u64 list \<Rightarrow> 'a kmem_st_scheme \<Rightarrow> u64 \<Rightarrow> 'a kmem_st_scheme \<Rightarrow> bool" where
  "walked l pt va ps s r s' \<longleftrightarrow> (\<exists>ps'. ptv l pt ps' s' \<and> suffix ps' ps
     \<and> ext l pt (pmem s) (set ps) (pmem s') (set ps') \<and> only_mem s s'
     \<and> (if r = 0 then ps' = []
        else \<exists>t. ltab (pmem s') l pt va = Some t \<and> r = t + 8 * PX 0 va))"

lemma ptv_kid: "ptv (Suc l) pt ps s \<Longrightarrow> k \<in> kids (pmem s) pt \<Longrightarrow> ptv l (kid (pmem s) pt k) ps s"
  by (auto simp: ptv_def)

lemma walked_kid:
  assumes v: "ptv (Suc l) pt ps s" and k: "px (Suc l) va \<in> kids (pmem s) pt"
    and w: "walked l (kid (pmem s) pt (px (Suc l) va)) va ps s r s'"
  shows "walked (Suc l) pt va ps s r s'"
proof -
  let ?c = "kid (pmem s) pt (px (Suc l) va)"
  obtain ps' where p: "ptv l ?c ps' s'" "suffix ps' ps" "ext l ?c (pmem s) (set ps) (pmem s') (set ps')" "only_mem s s'"
      "if r = 0 then ps' = [] else \<exists>t. ltab (pmem s') l ?c va = Some t \<and> r = t + 8 * PX 0 va"
    using w by (auto simp: walked_def)
  have x: "ext (Suc l) pt (pmem s) (set ps) (pmem s') (set ps') \<and> ptwf (pmem s') (Suc l) pt
      \<and> kids (pmem s') pt = kids (pmem s) pt \<and> kid (pmem s') pt (px (Suc l) va) = ?c"
    by (rule ext_kid) (use ptvD [OF v] k p(3) ptvD(2) [OF p(1)] in auto)
  then have "ptv (Suc l) pt ps' s'" by (intro ptv_ext [OF v _ ptvD(1) [OF p(1)]]) (use p(4) in auto)
  with x p k show ?thesis by (auto simp: walked_def split: if_splits)
qed

lemma walked_trans:
  assumes "ext l pt (pmem s) (set ps) (pmem s1) (set ps1)" "only_mem s s1" "suffix ps1 ps" "walked l pt va ps1 s1 r s'"
  shows "walked l pt va ps s r s'"
  using assms unfolding walked_def by (meson ext_trans only_mem_trans suffix_order.trans)

lemma slot_nonnull: "kpages s ps \<Longrightarrow> page_ok (kernel_end s) t \<Longrightarrow> t + 8 * PX l va \<noteq> 0"
proof
  assume a: "kpages s ps" "page_ok (kernel_end s) t" "t + 8 * PX l va = 0"
  then have "unat t = 0" using slot_PX [OF a(2), of l va] by simp
  with a(1,2) show False by (auto simp: kpages_def kinv_def page_ok_def unat_eq_0)
qed

lemma ptv_new:
  assumes v: "ptv (Suc l) pt (p # ps) s" and k: "k < 512" "k \<notin> kids (pmem s) pt"
  defines "m1 \<equiv> memset (memset (pmem s) (unat p) 5 PGSIZE) (unat p) 0 PGSIZE"
  defines "s1 \<equiv> s\<lparr>freelist := ld64 (pmem s) (unat p), pmem := st64 m1 (unat pt + 8 * k) (PA2PTE p OR PTE_V)\<rparr>"
  shows "ptv (Suc l) pt ps s1 \<and> ext (Suc l) pt (pmem s) (set (p # ps)) (pmem s1) (set ps)
     \<and> k \<in> kids (pmem s1) pt \<and> kid (pmem s1) pt k = p"
proof -
  note d = ptvD [OF v]
  have dist: "p \<notin> set ps" using d(1) by (auto simp: kpages_def kinv_def)
  have al: "pal p" using kpages_ok [OF d(1), of p] by (simp add: page_ok_pal)
  have m': "pmem s1 = st64 m1 (unat pt + 8 * k) (PA2PTE p OR PTE_V)" by (simp add: s1_def)
  note z = zero_page_mem [OF al m1_def [THEN meta_eq_to_obj_eq]]
  have x: "ext (Suc l) pt (pmem s) (set (p # ps)) (pmem s1) (set (p # ps) - {p}) \<and> ptwf (pmem s1) (Suc l) pt
      \<and> k \<in> kids (pmem s1) pt \<and> kid (pmem s1) pt k = p"
    unfolding m' by (rule ext_new [OF d(2) k d(4)]) (use d(5) al z in auto)
  have "kpages (s\<lparr>freelist := ld64 (pmem s) (unat p), pmem := m1\<rparr>) ps"
    unfolding m1_def by (rule kalloc_zero(3) [OF d(1)])
  then have "kpages s1 ps"
    using kpages_wr [of "s\<lparr>freelist := ld64 (pmem s) (unat p), pmem := m1\<rparr>" ps pt] d(4) d(5) [OF tset_root] k(1)
    by (fastforce simp: s1_def st64_def PGSIZE_def)
  moreover have "set (p # ps) - {p} = set ps" using dist by auto
  ultimately show ?thesis using x ptv_ext [OF v, of s1 ps] by (auto simp: s1_def)
qed

lemma walk_from_rule: "ptv l pt ps s \<Longrightarrow> runs (walk_from l pt va True s) (walked l pt va ps s)"
proof (induction l arbitrary: pt ps s)
  case 0
  then have "pt + 8 * PX 0 va \<noteq> 0" using ptvD(1,3) [OF 0] by (intro slot_nonnull) auto
  with 0 show ?case by (auto simp: walked_def)
next
  case (Suc l)
  note d = ptvD [OF Suc.prems]
  let ?k = "px (Suc l) va"
  have a: "unat (pt + 8 * PX (Suc l) va) = unat pt + 8 * ?k" using d(3) [OF tset_root] by (rule slot_PX)
  have e: "ld64 (pmem s) (unat (pt + 8 * PX (Suc l) va)) = ent (pmem s) pt ?k" by (simp add: a ent_def)
  show ?case
  proof (cases "?k \<in> kids (pmem s) pt")
    case True
    then have "valid (ent (pmem s) pt ?k)" by (simp add: kids_def)
    then show ?thesis
      using runs_mono [OF Suc.IH [OF ptv_kid [OF Suc.prems True]] walked_kid [OF Suc.prems True]]
      by (simp add: ldpte_def e kid_def)
  next
    case False
    then have inv: "\<not> valid (ent (pmem s) pt ?k)" by (simp add: kids_def)
    show ?thesis
    proof (cases ps)
      case Nil
      have "kalloc s = Ok (0, s)" using km.alloc_Nil d(1) Nil by blast
      then show ?thesis using Suc.prems inv Nil by (simp add: ldpte_def e runs_bnd walked_def)
    next
      case (Cons p qs)
      note s1 = kalloc_zero(1,2) [OF d(1) [unfolded Cons]]
      let ?t = "s\<lparr>freelist := ld64 (pmem s) (unat p), pmem := st64 (memset (memset (pmem s) (unat p) 5 PGSIZE)
          (unat p) 0 PGSIZE) (unat pt + 8 * ?k) (PA2PTE p OR PTE_V)\<rparr>"
      note n = ptv_new [OF Suc.prems [unfolded Cons] px_less False]
      have "suffix qs ps" by (simp add: Cons suffix_ConsI)
      have "runs (walk_from l p va True ?t) (walked (Suc l) pt va ps s)"
        using runs_mono [OF Suc.IH [of p qs ?t]] walked_kid [of l pt qs ?t va] walked_trans [of "Suc l" pt s ps ?t qs]
          n ptv_kid [of l pt qs ?t ?k] \<open>suffix qs ps\<close> Cons by auto
      then show ?thesis using s1 inv
        by (simp add: ldpte_def runs_bnd zero_page_def stpte_def a ent_def)
    qed
  qed
qed

section \<open>The table as a function of page numbers\<close>

definition vpn :: "u64 \<Rightarrow> nat" where
  "vpn va = unat va div PGSIZE"

definition ptab :: "bytes \<Rightarrow> u64 \<Rightarrow> nat \<Rightarrow> u64" where
  "ptab m pt k = leaf m 2 pt (of_nat (k * PGSIZE))"

lemma px_div: "px l va = vpn va div 512 ^ l mod 512"
proof -
  have "px l va = unat (take_bit 9 (drop_bit (12 + 9 * l) va))"
    by (simp add: px_def PX_def take_bit_eq_mask mask_eq_exp_minus_1)
  also have "\<dots> = take_bit 9 (drop_bit (12 + 9 * l) (unat va))"
    using unsigned_less [of va, where 'a = nat]
    by (simp add: unsigned_take_bit_eq unsigned_drop_bit_eq take_bit_nat_eq_self)
  also have "\<dots> = unat va div 2 ^ (12 + 9 * l) mod 512" by (simp add: drop_bit_eq_div take_bit_eq_mod)
  also have "(2 :: nat) ^ (12 + 9 * l) = PGSIZE * 512 ^ l"
    by (simp add: power_add power_mult PGSIZE_def)
  finally show ?thesis by (simp add: vpn_def div_mult2_eq)
qed

lemma same_px_vpn:
  assumes "vpn w < 2 ^ 27" and "vpn va < 2 ^ 27"
  shows "same_px 2 w va \<longleftrightarrow> vpn w = vpn va"
proof
  have d: "x = x mod 512 + 512 * (x div 512 mod 512) + 262144 * (x div 262144 mod 512)" if "x < 2 ^ 27" for x :: nat
  proof -
    have "x div 262144 < 512" using that by (simp add: less_mult_imp_div_less)
    moreover have "x div 262144 = x div 512 div 512" by (simp flip: div_mult2_eq)
    ultimately have "x div 262144 mod 512 = x div 512 div 512" by simp
    then show ?thesis using div_mult_mod_eq [of x 512] div_mult_mod_eq [of "x div 512" 512] by linarith
  qed
  show "vpn w = vpn va" if "same_px 2 w va"
  proof -
    have e: "vpn w mod 512 = vpn va mod 512" "vpn w div 512 mod 512 = vpn va div 512 mod 512"
        "vpn w div 262144 mod 512 = vpn va div 262144 mod 512"
      using that by (simp_all add: px_div numeral_2_eq_2)
    show ?thesis by (rule trans [OF d [OF assms(1), unfolded e] d [OF assms(2), symmetric]])
  qed
qed (simp add: px_div numeral_2_eq_2)

lemma leaf_same: "same_px l w va \<Longrightarrow> leaf m l pt w = leaf m l pt va"
  by (induction l arbitrary: pt) auto

lemma vpn_page: "k < 2 ^ 27 \<Longrightarrow> vpn (of_nat (k * PGSIZE)) = k"
  by (simp add: vpn_def PGSIZE_def unat_of_nat take_bit_nat_eq_self unsigned_of_nat del: of_nat_mult)

lemma leaf_ptab:
  assumes "vpn va < 2 ^ 27"
  shows "leaf m 2 pt va = ptab m pt (vpn va)"
  unfolding ptab_def by (rule leaf_same) (use assms in \<open>simp add: same_px_vpn vpn_page del: of_nat_mult\<close>)

lemma unat_MAXVA: "unat MAXVA = 2 ^ 38"
  by (simp add: MAXVA_def)

lemma vpn_less: "va < MAXVA \<Longrightarrow> vpn va < 2 ^ 26"
  by (simp add: vpn_def PGSIZE_def word_less_nat_alt unat_MAXVA)

text \<open>The table has become the function \<open>f\<close>; new tables came from the free pages, and no page that is
  neither a table nor free has changed.\<close>

definition ptupd :: "u64 \<Rightarrow> u64 list \<Rightarrow> 'a kmem_st_scheme \<Rightarrow> (nat \<Rightarrow> u64) \<Rightarrow> u64 list \<Rightarrow> 'a kmem_st_scheme \<Rightarrow> bool" where
  "ptupd pt ps s f ps' s' \<longleftrightarrow> ptv 2 pt ps' s' \<and> suffix ps' ps \<and> only_mem s s'
     \<and> tset (pmem s') 2 pt = tset (pmem s) 2 pt \<union> (set ps - set ps')
     \<and> (\<forall>q. pal q \<longrightarrow> q \<notin> tset (pmem s) 2 pt \<union> set ps \<longrightarrow> same_page (pmem s) (pmem s') q)
     \<and> (\<forall>k < 2 ^ 27. ptab (pmem s') pt k = f k)"

lemma ptupd_refl: "ptv 2 pt ps s \<Longrightarrow> ptupd pt ps s (ptab (pmem s) pt) ps s"
  by (simp add: ptupd_def)

lemma ptupd_trans:
  assumes a: "ptupd pt ps s f ps1 s1" and b: "ptupd pt ps1 s1 g ps2 s2"
  shows "ptupd pt ps s g ps2 s2"
proof -
  have sub: "set ps1 \<subseteq> set ps" "set ps2 \<subseteq> set ps1" using a b by (auto simp: ptupd_def set_mono_suffix)
  have "same_page (pmem s) (pmem s2) q" if "pal q" "q \<notin> tset (pmem s) 2 pt \<union> set ps" for q
    using a b that sub same_page_trans [of "pmem s" "pmem s1" q "pmem s2"] unfolding ptupd_def by blast
  moreover have "only_mem s s2" "suffix ps2 ps"
    using a b only_mem_trans suffix_order.trans unfolding ptupd_def by blast+
  moreover have "tset (pmem s2) 2 pt = tset (pmem s) 2 pt \<union> (set ps - set ps2)"
    using a b sub unfolding ptupd_def by auto
  ultimately show ?thesis using b unfolding ptupd_def by blast
qed

lemma ptupd_cong: "ptupd pt ps s f ps' s' \<Longrightarrow> (\<And>k. k < 2 ^ 27 \<Longrightarrow> f k = g k) \<Longrightarrow> ptupd pt ps s g ps' s'"
  by (simp add: ptupd_def)

lemma ptupd_walked:
  assumes "ptv 2 pt ps s" and "walked 2 pt va ps s r s'"
  shows "\<exists>ps'. ptupd pt ps s (ptab (pmem s) pt) ps' s' \<and>
    (if r = 0 then ps' = [] else \<exists>t. ltab (pmem s') 2 pt va = Some t \<and> r = t + 8 * PX 0 va)"
  using assms unfolding walked_def ptupd_def ext_def ptab_def by blast

lemma store_pte:
  assumes v: "ptv 2 pt ps s" and t: "ltab (pmem s) 2 pt va = Some t" and va: "vpn va < 2 ^ 27"
  shows "ptupd pt ps s ((ptab (pmem s) pt)(vpn va := v)) ps (s\<lparr>pmem := st64 (pmem s) (unat (t + 8 * PX 0 va)) v\<rparr>)"
proof -
  note d = ptvD [OF v]
  have tin: "t \<in> tset (pmem s) 2 pt" using t by (rule ltab_tset)
  have a: "unat (t + 8 * PX 0 va) = unat t + 8 * px 0 va" using d(3) [OF tin] by (rule slot_PX)
  let ?m = "st64 (pmem s) (unat t + 8 * px 0 va) v"
  have st: "tset ?m 2 pt = tset (pmem s) 2 pt \<and> ptwf ?m 2 pt
     \<and> leaf ?m 2 pt w = (if same_px 2 w va then v else leaf (pmem s) 2 pt w)" for w
    using store_leaf [OF d(2) t, of v w] d(5) by blast
  have "kpages (s\<lparr>pmem := ?m\<rparr>) ps"
    unfolding st64_def by (rule kpages_wr [OF d(1), of t]) (use tin d(4,5) in \<open>auto simp: PGSIZE_def\<close>)
  moreover have "same_page (pmem s) ?m q" if "pal q" "q \<notin> tset (pmem s) 2 pt \<union> set ps" for q
    by (rule same_page_st) (use that d(5) tin in auto)
  moreover have "ptab ?m pt k = ((ptab (pmem s) pt)(vpn va := v)) k" if "k < 2 ^ 27" for k
    using that st [of "of_nat (k * PGSIZE)"] va by (simp add: ptab_def same_px_vpn vpn_page del: of_nat_mult)
  ultimately show ?thesis using st d v unfolding ptupd_def a by (simp add: ptv_def)
qed

lemma pte_load:
  assumes v: "ptv 2 pt ps s" and t: "ltab (pmem s) 2 pt va = Some t" and va: "vpn va < 2 ^ 27"
  shows "ld64 (pmem s) (unat (t + 8 * PX 0 va)) = ptab (pmem s) pt (vpn va)"
  using leaf_ptab [OF va, of "pmem s" pt] slot_PX [OF ptvD(3) [OF v ltab_tset [OF t]], of 0 va]
  by (simp add: leaf_ltab t ent_def)

lemma map_page_rule:
  assumes v: "ptv 2 pt ps s" and va: "a < MAXVA" and free: "\<not> valid (ptab (pmem s) pt (vpn a))"
  shows "runs (map_page pt a pa perm s) (\<lambda>r s'. \<exists>ps'. case r of
     None \<Rightarrow> ptupd pt ps s ((ptab (pmem s) pt)(vpn a := PA2PTE pa OR perm OR PTE_V)) ps' s'
   | Some x \<Rightarrow> x = -1 \<and> ps' = [] \<and> ptupd pt ps s (ptab (pmem s) pt) ps' s')"
proof -
  have k: "vpn a < 2 ^ 27" using vpn_less [OF va] by simp
  have w: "walk pt a True = walk_from 2 pt a True" using va unfolding walk_def not_le [symmetric] by simp
  show ?thesis
    unfolding map_page_def w
  proof (rule runs_bndI, rule walk_from_rule [OF v])
    fix r s1
    assume "walked 2 pt a ps s r s1"
    then obtain ps1 where u: "ptupd pt ps s (ptab (pmem s) pt) ps1 s1"
        and r: "if r = 0 then ps1 = [] else \<exists>t. ltab (pmem s1) 2 pt a = Some t \<and> r = t + 8 * PX 0 a"
      using ptupd_walked [OF v] by blast
    have v1: "ptv 2 pt ps1 s1" and same: "ptab (pmem s1) pt (vpn a) = ptab (pmem s) pt (vpn a)"
      using u k by (simp_all add: ptupd_def)
    show "runs ((if r = 0 then ret (Some (-1)) else bnd (ldpte r) (\<lambda>e. if valid e
          then panic ''mappages: remap'' else bnd (stpte r (PA2PTE pa OR perm OR PTE_V)) (\<lambda>_. ret None))) s1)
        (\<lambda>r s'. \<exists>ps'. case r of
           None \<Rightarrow> ptupd pt ps s ((ptab (pmem s) pt)(vpn a := PA2PTE pa OR perm OR PTE_V)) ps' s'
         | Some x \<Rightarrow> x = -1 \<and> ps' = [] \<and> ptupd pt ps s (ptab (pmem s) pt) ps' s')"
    proof (cases "r = 0")
      case True
      then show ?thesis using u r by auto
    next
      case False
      then obtain t where t: "ltab (pmem s1) 2 pt a = Some t" "r = t + 8 * PX 0 a" using r by auto
      have ld: "ld64 (pmem s1) (unat r) = ptab (pmem s) pt (vpn a)" using pte_load [OF v1 t(1) k] t(2) same by simp
      have "ptupd pt ps s ((ptab (pmem s1) pt)(vpn a := PA2PTE pa OR perm OR PTE_V)) ps1
          (s1\<lparr>pmem := st64 (pmem s1) (unat r) (PA2PTE pa OR perm OR PTE_V)\<rparr>)"
        unfolding t(2) by (rule ptupd_trans [OF u store_pte [OF v1 t(1) k]])
      then have "ptupd pt ps s ((ptab (pmem s) pt)(vpn a := PA2PTE pa OR perm OR PTE_V)) ps1
          (s1\<lparr>pmem := st64 (pmem s1) (unat r) (PA2PTE pa OR perm OR PTE_V)\<rparr>)"
        by (rule ptupd_cong) (use u in \<open>simp add: ptupd_def\<close>)
      then show ?thesis using False free ld by (auto simp: ldpte_def stpte_def)
    qed
  qed
qed

text \<open>The function that maps \<open>n\<close> pages from the page number \<open>v\<close> on to the pages from \<open>pa\<close> on.\<close>

definition mapfn :: "(nat \<Rightarrow> u64) \<Rightarrow> nat \<Rightarrow> nat \<Rightarrow> u64 \<Rightarrow> u64 \<Rightarrow> nat \<Rightarrow> u64" where
  "mapfn f v n pa perm =
     (\<lambda>k. if v \<le> k \<and> k < v + n then PA2PTE (pa + of_nat ((k - v) * PGSIZE)) OR perm OR PTE_V else f k)"

lemma mapfn_0 [simp]: "mapfn f v 0 pa perm = f"
  by (auto simp: mapfn_def fun_eq_iff)

lemma mapfn_Suc:
  "mapfn f v (Suc n) pa perm = (mapfn f v n pa perm)(v + n := PA2PTE (pa + of_nat (n * PGSIZE)) OR perm OR PTE_V)"
  by (auto simp: mapfn_def fun_eq_iff)

definition npages :: "u64 \<Rightarrow> u64 \<Rightarrow> nat" where
  "npages va sz = Suc (vpn (va + sz - 1) - vpn va)"

lemma range_pages_arith:
  assumes "sz \<noteq> 0" and "unat va + unat sz \<le> 2 ^ 38"
  defines "a \<equiv> PGROUNDDOWN va" and "e \<equiv> PGROUNDDOWN (va + sz - 1)"
  shows "Suc (unat (e - a) div PGSIZE) = npages va sz"
    and "i < npages va sz \<Longrightarrow> vpn (a + of_nat (i * PGSIZE)) = vpn va + i \<and> a + of_nat (i * PGSIZE) < MAXVA"
proof -
  have sz: "0 < unat sz" using assms(1) by (simp add: unat_gt_0)
  have le: "unat (va + sz) = unat va + unat sz" using assms(2) by (simp add: unat_word_ariths)
  have "(1 :: u64) \<le> va + sz" using le sz by (simp add: word_le_nat_alt)
  then have last: "unat (va + sz - 1) = unat va + unat sz - 1" using le by (simp add: unat_sub)
  have ua: "unat a = vpn va * PGSIZE" and ue: "unat e = vpn (va + sz - 1) * PGSIZE"
    by (simp_all add: a_def e_def unat_PGROUNDDOWN vpn_def)
  have mono: "vpn va \<le> vpn (va + sz - 1)" unfolding vpn_def last using sz by (intro div_le_mono) simp
  have top: "vpn (va + sz - 1) < 2 ^ 26" unfolding vpn_def last using assms(2) sz by (simp add: PGSIZE_def)
  have "a \<le> e" using mono by (simp add: word_le_nat_alt ua ue)
  then have "unat (e - a) = (vpn (va + sz - 1) - vpn va) * PGSIZE"
    by (simp add: unat_sub ua ue diff_mult_distrib)
  then show "Suc (unat (e - a) div PGSIZE) = npages va sz" by (simp add: npages_def PGSIZE_def)
  show "vpn (a + of_nat (i * PGSIZE)) = vpn va + i \<and> a + of_nat (i * PGSIZE) < MAXVA" if "i < npages va sz"
  proof -
    have i: "vpn va + i < 2 ^ 26" using that top mono by (simp add: npages_def)
    then have "unat (of_nat (i * PGSIZE) :: u64) = i * PGSIZE"
      by (simp add: unsigned_of_nat take_bit_nat_eq_self PGSIZE_def del: of_nat_mult)
    with i ua have "unat (a + of_nat (i * PGSIZE)) = (vpn va + i) * PGSIZE"
      by (simp add: unat_word_ariths PGSIZE_def del: of_nat_mult)
    with i show ?thesis by (simp add: vpn_def word_less_nat_alt unat_MAXVA PGSIZE_def del: of_nat_mult)
  qed
qed

lemma mappages_rule:
  assumes v: "ptv 2 pt ps s" and sz: "sz \<noteq> 0" "unat va + unat sz \<le> 2 ^ 38"
    and free: "\<And>k. vpn va \<le> k \<Longrightarrow> k < vpn va + npages va sz \<Longrightarrow> \<not> valid (ptab (pmem s) pt k)"
  defines "f \<equiv> mapfn (ptab (pmem s) pt) (vpn va)"
  shows "runs (mappages pt va sz pa perm s) (\<lambda>r s'. \<exists>ps'.
     r = 0 \<and> ptupd pt ps s (f (npages va sz) pa perm) ps' s' \<or>
     r = -1 \<and> ps' = [] \<and> (\<exists>j < npages va sz. ptupd pt ps s (f j pa perm) ps' s'))"
proof -
  let ?a = "PGROUNDDOWN va" and ?n = "npages va sz"
  note ar = range_pages_arith [OF sz]
  let ?Q = "\<lambda>x t. x = -1 \<and> (\<exists>j < ?n. ptupd pt ps s (f j pa perm) [] t)"
  have loop: "runs (untilK (\<lambda>i. map_page pt (?a + of_nat (i * PGSIZE)) (pa + of_nat (i * PGSIZE)) perm) [0..<?n] s)
     (\<lambda>r t. case r of None \<Rightarrow> \<exists>ps'. ptupd pt ps s (f ?n pa perm) ps' t | Some x \<Rightarrow> ?Q x t)"
  proof (rule runs_untilK [where P = "\<lambda>i t. \<exists>ps'. ptupd pt ps s (f i pa perm) ps' t"])
    show "\<exists>ps'. ptupd pt ps s (f 0 pa perm) ps' s" using ptupd_refl [OF v] by (auto simp: f_def)
    fix i t
    assume i: "i < ?n" and "\<exists>ps'. ptupd pt ps s (f i pa perm) ps' t"
    then obtain ps1 where u: "ptupd pt ps s (f i pa perm) ps1 t" by blast
    have k: "vpn va + i < 2 ^ 27" using vpn_less [of "?a + of_nat (i * PGSIZE)"] ar(2) [OF i] by (simp del: of_nat_mult)
    have v1: "ptv 2 pt ps1 t" using u by (simp add: ptupd_def)
    have inv: "\<not> valid (ptab (pmem t) pt (vpn (?a + of_nat (i * PGSIZE))))"
      using u k free [of "vpn va + i"] i ar(2) [OF i] by (simp add: ptupd_def f_def mapfn_def del: of_nat_mult)
    show "runs (map_page pt (?a + of_nat (i * PGSIZE)) (pa + of_nat (i * PGSIZE)) perm t)
       (\<lambda>r t'. case r of None \<Rightarrow> \<exists>ps'. ptupd pt ps s (f (Suc i) pa perm) ps' t' | Some x \<Rightarrow> ?Q x t')"
    proof (rule runs_mono [OF map_page_rule [OF v1 conjunct2 [OF ar(2) [OF i]] inv]], elim exE)
      fix r t' ps'
      assume c: "case r of
          None \<Rightarrow> ptupd pt ps1 t ((ptab (pmem t) pt)(vpn (?a + of_nat (i * PGSIZE)) :=
             PA2PTE (pa + of_nat (i * PGSIZE)) OR perm OR PTE_V)) ps' t'
        | Some x \<Rightarrow> x = -1 \<and> ps' = [] \<and> ptupd pt ps1 t (ptab (pmem t) pt) ps' t'"
      have same: "ptab (pmem t) pt k = f i pa perm k" if "k < 2 ^ 27" for k using u that by (simp add: ptupd_def)
      show "case r of None \<Rightarrow> \<exists>ps'. ptupd pt ps s (f (Suc i) pa perm) ps' t' | Some x \<Rightarrow> ?Q x t'"
      proof (cases r)
        case None
        with c have "ptupd pt ps s ((ptab (pmem t) pt)(vpn va + i := PA2PTE (pa + of_nat (i * PGSIZE)) OR perm OR PTE_V)) ps' t'"
          using ptupd_trans [OF u] ar(2) [OF i] by (simp del: of_nat_mult)
        then have "ptupd pt ps s (f (Suc i) pa perm) ps' t'"
          by (rule ptupd_cong) (use same in \<open>simp add: f_def mapfn_Suc del: of_nat_mult\<close>)
        with None show ?thesis by auto
      next
        case (Some x)
        with c have "x = -1" "ptupd pt ps s (f i pa perm) [] t'"
          using ptupd_cong [OF ptupd_trans [OF u]] same by auto
        with Some i show ?thesis by auto
      qed
    qed
  qed simp
  show ?thesis
    unfolding mappages_def Let_def ar(1) if_not_P [OF sz(1)]
    by (rule runs_bndI, rule loop) (auto split: option.splits)
qed

end
