(* ===== verification/Uvm.thy ===== *)
theory Uvm
  imports Pagetable
begin

text \<open>
  The user address space: what \<open>copyout\<close>, \<open>copyin\<close> and \<open>copyinstr\<close> do to the memory a process sees,
  and what growing, shrinking, copying and freeing an address space does.
\<close>

section \<open>The memory a process sees\<close>

lemma pte_addr_ltab:
  assumes "\<forall>p \<in> tset m l pt. page_ok e p"
  shows "pte_addr m l pt va = (case ltab m l pt va of None \<Rightarrow> 0 | Some t \<Rightarrow> t + 8 * PX 0 va)"
  using assms
proof (induction l arbitrary: pt)
  case (Suc l)
  then have a: "unat (pt + 8 * PX (Suc l) va) = unat pt + 8 * px (Suc l) va" by (intro slot_PX) auto
  show ?case
  proof (cases "px (Suc l) va \<in> kids m pt")
    case True
    then have "pte_addr m l (kid m pt (px (Suc l) va)) va = (case ltab m l (kid m pt (px (Suc l) va)) va of
        None \<Rightarrow> 0 | Some t \<Rightarrow> t + 8 * PX 0 va)" by (intro Suc.IH) (use Suc.prems in auto)
    with True a show ?thesis by (simp add: Let_def kids_def kid_def ent_def)
  next
    case False
    then show ?thesis using a by (simp add: Let_def kids_def ent_def)
  qed
qed simp

text \<open>The physical page of a user page, 0 if the process may not touch it.\<close>

definition frame :: "bytes \<Rightarrow> u64 \<Rightarrow> nat \<Rightarrow> u64" where
  "frame m pt k = (let e = ptab m pt k in if e AND PTE_V = 0 \<or> e AND PTE_U = 0 then 0 else PTE2PA e)"

lemma uaddr_frame:
  assumes v: "ptv 2 pt ps s" and va: "va < MAXVA"
  shows "uaddr (pmem s) pt va = frame (pmem s) pt (vpn va)"
proof -
  note d = ptvD [OF v]
  have k: "vpn va < 2 ^ 27" using vpn_less [OF va] by simp
  have a: "pte_addr (pmem s) 2 pt va = (case ltab (pmem s) 2 pt va of None \<Rightarrow> 0 | Some t \<Rightarrow> t + 8 * PX 0 va)"
    by (rule pte_addr_ltab) (use d(3) in blast)
  show ?thesis
  proof (cases "ltab (pmem s) 2 pt va")
    case None
    then have "ptab (pmem s) pt (vpn va) = 0" using leaf_ptab [OF k, of "pmem s" pt] by (simp add: leaf_ltab)
    with None a show ?thesis by (simp add: uaddr_def frame_def)
  next
    case (Some t)
    have "t + 8 * PX 0 va \<noteq> 0" by (rule slot_nonnull [OF d(1) d(3) [OF ltab_tset [OF Some]]])
    with Some a va pte_load [OF v Some k] show ?thesis
      by (simp add: uaddr_def frame_def Let_def not_le [symmetric])
  qed
qed

definition umem :: "bytes \<Rightarrow> u64 \<Rightarrow> nat \<Rightarrow> u8 option" where
  "umem m pt a = (let pa = uaddr m pt (of_nat (a div PGSIZE * PGSIZE))
     in if a \<ge> 2 ^ 38 \<or> pa = 0 then None else Some (m (unat pa + a mod PGSIZE)))"

lemma PTE2PA_pal: "pal (PTE2PA e)"
proof -
  have "take_bit 12 (PTE2PA e) = 0" by (simp add: PTE2PA_def take_bit_push_bit)
  then show ?thesis by (simp add: pal_def take_bit_eq_mod)
qed

lemma pal_0 [simp]: "pal 0"
  by (simp add: pal_def)

lemma uaddr_pal: "pal (uaddr m pt va)"
  by (simp add: uaddr_def Let_def PTE2PA_pal)

lemma page_offset:
  assumes "pal p" and "unat x < PGSIZE"
  shows "unat (p + x) = unat p + unat x"
proof -
  obtain i where i: "unat p = PGSIZE * i"
    using assms(1) by (auto simp: pal_def page_aligned mod_eq_0_iff_dvd elim!: dvdE)
  have "unat p < 2 ^ 64" using unsigned_less [of p, where 'a = nat] by simp
  then have "Suc i \<le> 2 ^ 52" using i by (simp add: PGSIZE_def)
  then have "PGSIZE * Suc i \<le> 2 ^ 64" by (simp add: PGSIZE_def)
  with i assms(2) show ?thesis by (simp add: unat_word_ariths)
qed

lemma page_split:
  shows "unat (va - PGROUNDDOWN va) = unat va mod PGSIZE" and "PGROUNDDOWN va = of_nat (vpn va * PGSIZE)"
    and "va < MAXVA \<Longrightarrow> PGROUNDDOWN va < MAXVA \<and> vpn (PGROUNDDOWN va) = vpn va
       \<and> unat (PGROUNDDOWN va + 4096) = vpn va * PGSIZE + PGSIZE"
proof -
  have u: "unat (PGROUNDDOWN va) = vpn va * PGSIZE" by (simp add: unat_PGROUNDDOWN vpn_def)
  have s: "unat va = unat (PGROUNDDOWN va) + unat va mod PGSIZE" by (simp add: u vpn_def)
  then have "PGROUNDDOWN va \<le> va" by (simp add: word_le_nat_alt)
  with s show "unat (va - PGROUNDDOWN va) = unat va mod PGSIZE" by (simp add: unat_sub)
  show "PGROUNDDOWN va = of_nat (vpn va * PGSIZE)" unfolding u [symmetric] by simp
  show "PGROUNDDOWN va < MAXVA \<and> vpn (PGROUNDDOWN va) = vpn va
       \<and> unat (PGROUNDDOWN va + 4096) = vpn va * PGSIZE + PGSIZE" if "va < MAXVA"
  proof -
    have "vpn va < 2 ^ 26" using that by (rule vpn_less)
    then show ?thesis using u by (simp add: word_less_nat_alt unat_MAXVA vpn_def unat_word_ariths PGSIZE_def)
  qed
qed

lemma uaddr_top: "\<not> va < MAXVA \<Longrightarrow> uaddr m pt va = 0"
  by (simp add: uaddr_def not_less)

lemma round_top: "\<not> va < MAXVA \<Longrightarrow> \<not> PGROUNDDOWN va < MAXVA"
  by (simp add: word_less_nat_alt unat_MAXVA unat_PGROUNDDOWN PGSIZE_def)

lemma umem_at:
  assumes "unat va mod PGSIZE + i < PGSIZE"
  shows "umem m pt (unat va + i) = (if uaddr m pt (PGROUNDDOWN va) = 0 then None
     else Some (m (unat (uaddr m pt (PGROUNDDOWN va) + (va - PGROUNDDOWN va)) + i)))"
proof -
  have e: "unat va + i = (unat va mod PGSIZE + i) + vpn va * PGSIZE" by (simp add: vpn_def)
  have d: "(unat va + i) div PGSIZE = vpn va" "(unat va + i) mod PGSIZE = unat va mod PGSIZE + i"
    unfolding e using assms by (simp_all add: div_mult_self1 PGSIZE_def)
  have off: "unat (uaddr m pt (PGROUNDDOWN va) + (va - PGROUNDDOWN va))
      = unat (uaddr m pt (PGROUNDDOWN va)) + unat va mod PGSIZE"
    using page_offset [OF uaddr_pal [of m pt "PGROUNDDOWN va"], of "va - PGROUNDDOWN va"]
    by (simp add: page_split(1) PGSIZE_def)
  show ?thesis
  proof (cases "va < MAXVA")
    case True
    have "unat va + i < 2 ^ 38"
    proof -
      have "Suc (vpn va) * PGSIZE \<le> 2 ^ 26 * PGSIZE" using vpn_less [OF True] by (intro mult_le_mono1) simp
      then show ?thesis unfolding e using assms by (simp add: PGSIZE_def)
    qed
    then show ?thesis using d off by (simp add: umem_def page_split(2) add.assoc del: of_nat_mult)
  next
    case False
    then have "\<not> PGROUNDDOWN va < MAXVA" by (rule round_top)
    with False show ?thesis by (simp add: umem_def uaddr_top word_less_nat_alt unat_MAXVA)
  qed
qed

section \<open>Reading user memory\<close>

text \<open>\<open>reads\<close>: the bytes from \<open>a\<close> on are those of the list.\<close>

definition reads :: "bytes \<Rightarrow> u64 \<Rightarrow> nat \<Rightarrow> u8 list \<Rightarrow> bool" where
  "reads m pt a bs \<longleftrightarrow> (\<forall>i < length bs. umem m pt (a + i) = Some (bs ! i))"

lemma reads_Nil [simp]: "reads m pt a []"
  by (simp add: reads_def)

lemma reads_append: "reads m pt a (xs @ ys) \<longleftrightarrow> reads m pt a xs \<and> reads m pt (a + length xs) ys"
proof
  assume r: "reads m pt a (xs @ ys)"
  have "umem m pt (a + length xs + i) = Some (ys ! i)" if "i < length ys" for i
    using r that unfolding reads_def by (auto simp: add.assoc dest: spec [of _ "length xs + i"])
  with r show "reads m pt a xs \<and> reads m pt (a + length xs) ys"
    unfolding reads_def by (auto simp: nth_append)
next
  assume r: "reads m pt a xs \<and> reads m pt (a + length xs) ys"
  have "umem m pt (a + i) = Some (ys ! (i - length xs))" if "\<not> i < length xs" "i < length xs + length ys" for i
    using r that unfolding reads_def by (auto simp: add.assoc dest: spec [of _ "i - length xs"])
  with r show "reads m pt a (xs @ ys)" unfolding reads_def by (auto simp: nth_append)
qed

lemma chunk_eq: "chunk va n = min (PGSIZE - unat va mod PGSIZE) n"
  by (simp add: chunk_def page_split(1))

lemma chunk_in: "i < chunk va n \<Longrightarrow> unat va mod PGSIZE + i < PGSIZE"
  unfolding chunk_eq by linarith

lemma mapped_low: "uaddr m pt (PGROUNDDOWN va) \<noteq> 0 \<Longrightarrow> va < MAXVA"
  using uaddr_top round_top by blast

lemma next_page:
  assumes "uaddr m pt (PGROUNDDOWN va) \<noteq> 0" and "n \<noteq> chunk va n"
  shows "unat (PGROUNDDOWN va + 4096) = unat va + chunk va n"
proof -
  have "unat va mod PGSIZE < PGSIZE" by (simp add: PGSIZE_def)
  moreover have "unat va = vpn va * PGSIZE + unat va mod PGSIZE" by (simp add: vpn_def)
  ultimately have "vpn va * PGSIZE + PGSIZE = unat va + (PGSIZE - unat va mod PGSIZE)" by linarith
  then show ?thesis using page_split(3) [OF mapped_low [OF assms(1)]] assms(2)
    by (simp add: chunk_eq min_def split: if_splits)
qed

lemma unmapped: "uaddr m pt (PGROUNDDOWN va) = 0 \<Longrightarrow> umem m pt (unat va) = None"
  using umem_at [of va 0 m pt] by (simp add: PGSIZE_def)

lemma reads_page:
  assumes "uaddr m pt (PGROUNDDOWN va) \<noteq> 0"
  shows "reads m pt (unat va) (upage m pt va n)"
  unfolding reads_def upage_def using assms by (simp add: umem_at chunk_in)

lemma copyin_reads:
  "\<exists>r bs. copyin pt va n s = Ok ((r, bs), s) \<and> reads (pmem s) pt (unat va) bs
     \<and> (r = 0 \<and> length bs = n \<or> r = -1 \<and> length bs < n \<and> umem (pmem s) pt (unat va + length bs) = None)"
proof (induction va n rule: copyin_induct)
  case (step va n)
  let ?k = "chunk va n" and ?m = "pmem s"
  consider "n = 0" | "n \<noteq> 0" "uaddr ?m pt (PGROUNDDOWN va) = 0" | "n \<noteq> 0" "uaddr ?m pt (PGROUNDDOWN va) \<noteq> 0" by blast
  then show ?case
  proof cases
    case 1
    then show ?thesis by (subst copyin.simps) simp
  next
    case 2
    then show ?thesis by (subst copyin.simps) (simp add: bnd_apply walkaddr_eq Let_def unmapped)
  next
    case 3
    obtain r bs where c: "copyin pt (PGROUNDDOWN va + 4096) (n - ?k) s = Ok ((r, bs), s)"
        "reads ?m pt (unat (PGROUNDDOWN va + 4096)) bs" "r = 0 \<and> length bs = n - ?k \<or>
          r = -1 \<and> length bs < n - ?k \<and> umem ?m pt (unat (PGROUNDDOWN va + 4096) + length bs) = None"
      using step.IH 3 by blast
    have len: "length (upage ?m pt va n) = ?k" "?k \<le> n" by (simp_all add: upage_def chunk_eq)
    have "copyin pt va n s = Ok ((r, upage ?m pt va n @ bs), s)"
      using 3 c(1) by (subst copyin.simps) (simp add: bnd_apply walkaddr_eq Let_def upage_def)
    moreover have "bs = [] \<and> r = 0 \<or> unat (PGROUNDDOWN va + 4096) = unat va + ?k"
      using next_page [OF 3(2), of n] c(3) by (cases "?k = n") auto
    ultimately show ?thesis using reads_page [OF 3(2), of n] c(2,3) len
      by (auto simp: reads_append add.assoc)
  qed
qed

lemma copyinstr_reads:
  "\<exists>r bs. copyinstr pt va n s = Ok ((r, bs), s) \<and> reads (pmem s) pt (unat va) bs
     \<and> (r = 0 \<and> (\<exists>cs. bs = cs @ [0] \<and> 0 \<notin> set cs \<and> length cs < n)
        \<or> r = -1 \<and> 0 \<notin> set bs \<and> (length bs = n \<or> length bs < n \<and> umem (pmem s) pt (unat va + length bs) = None))"
proof (induction va n rule: copyin_induct)
  case (step va n)
  let ?m = "pmem s" and ?k = "chunk va n"
  let ?bs = "upage ?m pt va n"
  have len: "length ?bs = ?k" "?k \<le> n" by (simp_all add: upage_def chunk_eq)
  consider "n = 0" | "n \<noteq> 0" "uaddr ?m pt (PGROUNDDOWN va) = 0"
    | "n \<noteq> 0" "uaddr ?m pt (PGROUNDDOWN va) \<noteq> 0" "0 \<in> set ?bs"
    | "n \<noteq> 0" "uaddr ?m pt (PGROUNDDOWN va) \<noteq> 0" "0 \<notin> set ?bs" by blast
  then show ?case
  proof cases
    case 1
    then show ?thesis by (simp add: copyinstr_stop)
  next
    case 2
    then show ?thesis by (simp add: copyinstr_stop unmapped)
  next
    case 3
    let ?cs = "takeWhile (\<lambda>c. c \<noteq> 0) ?bs"
    have less: "length ?cs < length ?bs" using takeWhile_shorter [OF 3(3)] by simp
    have "?cs @ [0] = take (Suc (length ?cs)) ?bs"
      using takeWhile_eq_take [of "\<lambda>c. c \<noteq> 0" ?bs] nth_length_takeWhile [of "\<lambda>c. c \<noteq> 0" ?bs] less
      by (simp add: take_Suc_conv_app_nth)
    moreover have "reads ?m pt (unat va) (take i ?bs)" for i
      using reads_page [OF 3(2), of n] by (auto simp: reads_def)
    ultimately have "reads ?m pt (unat va) (?cs @ [0])" by (simp only:)
    moreover have "0 \<notin> set ?cs" by (auto dest: set_takeWhileD)
    moreover have "length ?cs < n" using less len by simp
    ultimately show ?thesis using copyinstr_found [OF 3] by blast
  next
    case 4
    obtain r bs where c: "copyinstr pt (PGROUNDDOWN va + 4096) (n - ?k) s = Ok ((r, bs), s)"
        "reads ?m pt (unat (PGROUNDDOWN va + 4096)) bs" "r = 0 \<and> (\<exists>cs. bs = cs @ [0] \<and> 0 \<notin> set cs \<and> length cs < n - ?k)
        \<or> r = -1 \<and> 0 \<notin> set bs \<and> (length bs = n - ?k \<or> length bs < n - ?k \<and>
             umem ?m pt (unat (PGROUNDDOWN va + 4096) + length bs) = None)"
      using step.IH 4(1) by blast
    have "bs = [] \<and> r = -1 \<and> n = ?k \<or> unat (PGROUNDDOWN va + 4096) = unat va + ?k"
      using next_page [OF 4(2), of n] c(3) by (cases "?k = n") auto
    moreover have "\<exists>cs'. ?bs @ cs @ [0] = cs' @ [0] \<and> 0 \<notin> set cs' \<and> length cs' < n"
      if "0 \<notin> set cs" "length cs < n - ?k" for cs
      by (rule exI [of _ "?bs @ cs"]) (use that 4(3) len in auto)
    ultimately show ?thesis using copyinstr_next [OF 4 c(1)] reads_page [OF 4(2), of n] c(2,3) len 4(3)
      by (auto simp: reads_append add.assoc)
  qed
qed

section \<open>Address spaces\<close>

text \<open>
  \<open>uspace A pt ps s\<close>: the pages whose numbers are in \<open>A\<close> are mapped to pages of their own, which are
  neither tables nor free, and the process can touch no page beyond them.
\<close>

definition pg :: "bytes \<Rightarrow> u64 \<Rightarrow> nat \<Rightarrow> u64" where
  "pg m pt k = PTE2PA (ptab m pt k)"

definition uspace :: "nat set \<Rightarrow> u64 \<Rightarrow> u64 list \<Rightarrow> 'a kmem_st_scheme \<Rightarrow> bool" where
  "uspace A pt ps s \<longleftrightarrow> ptv 2 pt ps s \<and> A \<subseteq> {..<2 ^ 26}
     \<and> (\<forall>k \<in> A. valid (ptab (pmem s) pt k) \<and> PTE_FLAGS (ptab (pmem s) pt k) \<noteq> PTE_V
          \<and> page_ok (kernel_end s) (pg (pmem s) pt k) \<and> pg (pmem s) pt k \<notin> tset (pmem s) 2 pt \<union> set ps)
     \<and> inj_on (pg (pmem s) pt) A
     \<and> (\<forall>k. k < 2 ^ 26 \<longrightarrow> k \<notin> A \<longrightarrow> frame (pmem s) pt k = 0)"

lemma uspaceD:
  assumes "uspace A pt ps s"
  shows "ptv 2 pt ps s" "A \<subseteq> {..<2 ^ 26}" "k \<in> A \<Longrightarrow> valid (ptab (pmem s) pt k)"
    "k \<in> A \<Longrightarrow> PTE_FLAGS (ptab (pmem s) pt k) \<noteq> PTE_V" "k \<in> A \<Longrightarrow> page_ok (kernel_end s) (pg (pmem s) pt k)"
    "k \<in> A \<Longrightarrow> pg (pmem s) pt k \<notin> tset (pmem s) 2 pt" "k \<in> A \<Longrightarrow> pg (pmem s) pt k \<notin> set ps"
    "inj_on (pg (pmem s) pt) A" "k < 2 ^ 26 \<Longrightarrow> k \<notin> A \<Longrightarrow> frame (pmem s) pt k = 0"
  using assms unfolding uspace_def by blast+

lemma umem_frame:
  assumes "ptv 2 pt ps s"
  shows "umem (pmem s) pt a = (if a \<ge> 2 ^ 38 \<or> frame (pmem s) pt (a div PGSIZE) = 0 then None
     else Some (pmem s (unat (frame (pmem s) pt (a div PGSIZE)) + a mod PGSIZE)))"
proof (cases "a < 2 ^ 38")
  case True
  then have k: "a div PGSIZE < 2 ^ 26" by (simp add: PGSIZE_def)
  then have u: "unat (of_nat (a div PGSIZE * PGSIZE) :: u64) = a div PGSIZE * PGSIZE"
    by (simp add: unsigned_of_nat take_bit_nat_eq_self PGSIZE_def del: of_nat_mult)
  have "(of_nat (a div PGSIZE * PGSIZE) :: u64) < MAXVA"
    unfolding word_less_nat_alt unat_MAXVA u using k by (simp add: PGSIZE_def)
  moreover have "vpn (of_nat (a div PGSIZE * PGSIZE)) = a div PGSIZE" using k by (intro vpn_page) simp
  ultimately show ?thesis using True uaddr_frame [OF assms] by (simp add: umem_def Let_def del: of_nat_mult)
qed (simp add: umem_def)

lemma frame_pg: "frame m pt k \<noteq> 0 \<Longrightarrow> frame m pt k = pg m pt k"
  by (simp add: frame_def pg_def Let_def split: if_splits)

lemma frame_low: "uspace A pt ps s \<Longrightarrow> k < 2 ^ 26 \<Longrightarrow> frame (pmem s) pt k \<noteq> 0 \<Longrightarrow> k \<in> A"
  using uspaceD(9) by blast

text \<open>Memory that has changed only in the pages of the process.\<close>

definition utouch :: "nat set \<Rightarrow> u64 \<Rightarrow> bytes \<Rightarrow> bytes \<Rightarrow> bool" where
  "utouch A pt m m' \<longleftrightarrow> (\<forall>k. ptab m' pt k = ptab m pt k) \<and> tset m' 2 pt = tset m 2 pt
     \<and> (\<forall>q. pal q \<longrightarrow> q \<notin> pg m pt ` A \<longrightarrow> same_page m m' q)"

lemma utouch_refl [simp]: "utouch A pt m m"
  by (simp add: utouch_def)

lemma utouch_trans: "utouch A pt m m1 \<Longrightarrow> utouch A pt m1 m2 \<Longrightarrow> utouch A pt m m2"
proof -
  assume a: "utouch A pt m m1" "utouch A pt m1 m2"
  then have "pg m1 pt = pg m pt" by (simp add: utouch_def pg_def fun_eq_iff)
  then have "same_page m m2 q" if "pal q" "q \<notin> pg m pt ` A" for q
    using a that same_page_trans [of m m1 q m2] by (simp add: utouch_def)
  with a show ?thesis by (simp add: utouch_def)
qed

lemma write_page:
  assumes u: "uspace A pt ps s" and k: "k \<in> A" and b: "off + length bs \<le> PGSIZE"
    and m': "m' = wr (pmem s) (unat (pg (pmem s) pt k) + off) bs"
  shows "utouch A pt (pmem s) m'" and "uspace A pt ps (s\<lparr>pmem := m'\<rparr>)"
proof -
  note d = uspaceD [OF u]
  have al: "pal (pg (pmem s) pt k)" by (simp add: pg_def PTE2PA_pal)
  have same: "same_page (pmem s) m' q" if "pal q" "q \<noteq> pg (pmem s) pt k" for q
    unfolding m' by (rule same_page_wr [OF that(1) al that(2)]) (use b in simp_all)
  have "\<forall>q \<in> tset (pmem s) 2 pt. same_page (pmem s) m' q"
    using ptvD(5) [OF d(1)] d(6) [OF k] same by blast
  note t = tree_frame [OF this]
  have pt: "ptab m' pt j = ptab (pmem s) pt j" for j using t by (simp add: ptab_def)
  show "utouch A pt (pmem s) m'" using pt t same k unfolding utouch_def by blast
  have "kpages (s\<lparr>pmem := m'\<rparr>) ps"
    unfolding m' by (rule kpages_wr [OF ptvD(1) [OF d(1)] d(7) [OF k] al]) (use b in simp_all)
  then have "ptv 2 pt ps (s\<lparr>pmem := m'\<rparr>)" using d(1) t by (simp add: ptv_def)
  with u t pt show "uspace A pt ps (s\<lparr>pmem := m'\<rparr>)"
    by (simp add: uspace_def pg_def frame_def Let_def inj_on_def)
qed

lemma umem_write:
  assumes u: "uspace A pt ps s" and f: "frame (pmem s) pt k \<noteq> 0" "k < 2 ^ 26" and b: "off + length bs \<le> PGSIZE"
    and m': "m' = wr (pmem s) (unat (pg (pmem s) pt k) + off) bs"
  shows "umem m' pt a = (if k * PGSIZE + off \<le> a \<and> a < k * PGSIZE + off + length bs
     then Some (bs ! (a - (k * PGSIZE + off))) else umem (pmem s) pt a)"
proof -
  note d = uspaceD [OF u]
  have kn: "k \<in> A" by (rule frame_low [OF u f(2,1)])
  note w = write_page [OF u kn b m']
  have fr: "frame m' pt j = frame (pmem s) pt j" for j using w(1) by (simp add: utouch_def frame_def)
  have um: "umem m' pt a = (if a \<ge> 2 ^ 38 \<or> frame (pmem s) pt (a div PGSIZE) = 0 then None
     else Some (m' (unat (frame (pmem s) pt (a div PGSIZE)) + a mod PGSIZE)))"
    using umem_frame [OF uspaceD(1) [OF w(2)], of a] by (simp add: fr)
  have mod: "a mod PGSIZE < PGSIZE" by (simp add: PGSIZE_def)
  have a: "a = a div PGSIZE * PGSIZE + a mod PGSIZE" by simp
  show ?thesis
  proof (cases "a div PGSIZE = k")
    case True
    have "a < 2 ^ 38" using True f(2) by (simp add: PGSIZE_def)
    moreover have "m' (unat (pg (pmem s) pt k) + a mod PGSIZE)
       = (if off \<le> a mod PGSIZE \<and> a mod PGSIZE < off + length bs then bs ! (a mod PGSIZE - off)
          else pmem s (unat (pg (pmem s) pt k) + a mod PGSIZE))"
      by (simp add: m' wr_def)
    moreover have "k * PGSIZE + off \<le> a \<longleftrightarrow> off \<le> a mod PGSIZE"
        "a < k * PGSIZE + off + length bs \<longleftrightarrow> a mod PGSIZE < off + length bs" "a - (k * PGSIZE + off) = a mod PGSIZE - off"
      using a unfolding True by linarith+
    ultimately show ?thesis using um umem_frame [OF d(1), of a] f(1) frame_pg [OF f(1)] True by simp
  next
    case False
    have out: "\<not> (k * PGSIZE + off \<le> a \<and> a < k * PGSIZE + off + length bs)"
      using False b div_nat_eqI [of PGSIZE k a] by (auto simp: mult.commute)
    show ?thesis
    proof (cases "a \<ge> 2 ^ 38 \<or> frame (pmem s) pt (a div PGSIZE) = 0")
      case True
      then show ?thesis using um umem_frame [OF d(1), of a] out by auto
    next
      case mp: False
      then have "a < 2 ^ 38" by simp
      then have "a div PGSIZE < 2 ^ 26" by (simp add: PGSIZE_def)
      then have j: "a div PGSIZE \<in> A" using frame_low [OF u] mp by blast
      have "pg (pmem s) pt (a div PGSIZE) \<noteq> pg (pmem s) pt k"
        using d(8) j kn False by (auto simp: inj_on_def)
      then have "same_page (pmem s) m' (pg (pmem s) pt (a div PGSIZE))"
        unfolding m' by (intro same_page_wr [where p = "pg (pmem s) pt k"]) (use b in \<open>simp_all add: pg_def PTE2PA_pal\<close>)
      then have "m' (unat (pg (pmem s) pt (a div PGSIZE)) + a mod PGSIZE)
          = pmem s (unat (pg (pmem s) pt (a div PGSIZE)) + a mod PGSIZE)" using mod by (simp add: same_page_def)
      then show ?thesis using um umem_frame [OF d(1), of a] out mp frame_pg [of "pmem s" pt "a div PGSIZE"] by auto
    qed
  qed
qed


section \<open>Writing user memory\<close>

lemma copyout_writes:
  assumes "uspace A pt ps s"
  shows "\<exists>r m' j. copyout pt va bs s = Ok (r, s\<lparr>pmem := m'\<rparr>) \<and> uspace A pt ps (s\<lparr>pmem := m'\<rparr>)
     \<and> utouch A pt (pmem s) m' \<and> j \<le> length bs
     \<and> (\<forall>a. umem m' pt a = (if unat va \<le> a \<and> a < unat va + j then Some (bs ! (a - unat va)) else umem (pmem s) pt a))
     \<and> (r = 0 \<and> j = length bs \<or> r = -1 \<and> j < length bs \<and> umem (pmem s) pt (unat va + j) = None)"
  using assms
proof (induction va bs arbitrary: s rule: copyout_induct)
  case (step va bs)
  let ?m = "pmem s" and ?k = "chunk va (length bs)" and ?o = "unat va mod PGSIZE"
  consider "bs = []" | "bs \<noteq> []" "uaddr ?m pt (PGROUNDDOWN va) = 0"
    | "bs \<noteq> []" "uaddr ?m pt (PGROUNDDOWN va) \<noteq> 0" by blast
  then show ?case
  proof cases
    case 1
    then show ?thesis using step.prems by (subst copyout.simps) (auto intro: exI [of _ "pmem s"])
  next
    case 2
    have "copyout pt va bs s = Ok (-1, s\<lparr>pmem := ?m\<rparr>)"
      using 2 by (subst copyout.simps) (simp add: bnd_apply walkaddr_eq Let_def)
    then show ?thesis using 2 unmapped [OF 2(2)] step.prems
      by (intro exI [of _ "-1"] exI [of _ ?m] exI [of _ 0]) auto
  next
    case 3
    have va: "va < MAXVA" by (rule mapped_low [OF 3(2)])
    note sp = page_split(3) [OF va]
    have fr: "uaddr ?m pt (PGROUNDDOWN va) = frame ?m pt (vpn va)"
      using uaddr_frame [OF uspaceD(1) [OF step.prems], of "PGROUNDDOWN va"] sp by simp
    with 3(2) have f: "frame ?m pt (vpn va) \<noteq> 0" by simp
    have v26: "vpn va < 2 ^ 26" by (rule vpn_less [OF va])
    have len: "?o + length (take ?k bs) \<le> PGSIZE" "?k \<le> length bs" by (simp_all add: chunk_eq PGSIZE_def)
    let ?m1 = "wr ?m (unat (pg ?m pt (vpn va)) + ?o) (take ?k bs)"
    have a: "unat (uaddr ?m pt (PGROUNDDOWN va) + (va - PGROUNDDOWN va)) = unat (pg ?m pt (vpn va)) + ?o"
      using page_offset [OF uaddr_pal [of ?m pt "PGROUNDDOWN va"], of "va - PGROUNDDOWN va"]
      by (simp add: page_split(1) PGSIZE_def fr frame_pg [OF f])
    note w = write_page [OF step.prems frame_low [OF step.prems v26 f] len(1) refl]
    have va': "vpn va * PGSIZE + ?o = unat va" by (simp add: vpn_def)
    have u1: "umem ?m1 pt a = (if unat va \<le> a \<and> a < unat va + ?k then Some (bs ! (a - unat va)) else umem ?m pt a)" for a
      using umem_write [OF step.prems f v26 len(1) refl, of a] len(2) unfolding va' by auto
    have sel: "pmem (s\<lparr>pmem := x\<rparr>) = x" and upd: "s\<lparr>pmem := x, pmem := y\<rparr> = s\<lparr>pmem := y\<rparr>" for x y by simp_all
    obtain r m' j where c: "copyout pt (PGROUNDDOWN va + 4096) (drop ?k bs) (s\<lparr>pmem := ?m1\<rparr>) = Ok (r, s\<lparr>pmem := m'\<rparr>)"
        "uspace A pt ps (s\<lparr>pmem := m'\<rparr>)" "utouch A pt ?m1 m'" "j \<le> length (drop ?k bs)"
        "\<forall>a. umem m' pt a = (if unat (PGROUNDDOWN va + 4096) \<le> a \<and> a < unat (PGROUNDDOWN va + 4096) + j
            then Some (drop ?k bs ! (a - unat (PGROUNDDOWN va + 4096))) else umem ?m1 pt a)"
        "r = 0 \<and> j = length (drop ?k bs) \<or> r = -1 \<and> j < length (drop ?k bs) \<and>
            umem ?m1 pt (unat (PGROUNDDOWN va + 4096) + j) = None"
      using step.IH [OF 3(1) w(2)] unfolding sel upd by blast
    have nx: "j = 0 \<and> r = 0 \<and> ?k = length bs \<or> unat (PGROUNDDOWN va + 4096) = unat va + ?k"
      using next_page [OF 3(2), of "length bs"] c(4,6) by (cases "?k = length bs") auto
    have "copyout pt va bs s = Ok (r, s\<lparr>pmem := m'\<rparr>)"
      using 3 c(1) a by (subst copyout.simps) (simp add: bnd_apply walkaddr_eq Let_def)
    moreover have "umem m' pt a = (if unat va \<le> a \<and> a < unat va + (?k + j) then Some (bs ! (a - unat va)) else umem ?m pt a)" for a
      using nx c(4) spec [OF c(5), of a] u1 [of a] len(2) by (auto simp: not_less add.assoc)
    moreover have "r = 0 \<and> ?k + j = length bs \<or> r = -1 \<and> ?k + j < length bs \<and> umem ?m pt (unat va + (?k + j)) = None"
      using nx c(6) u1 len(2) by (auto simp: add.assoc)
    ultimately show ?thesis using c(2,4) utouch_trans [OF w(1) c(3)] len(2)
      by (intro exI [of _ r] exI [of _ m'] exI [of _ "?k + j"]) auto
  qed
qed

end
