(* ===== verification/Uspace.thy ===== *)
theory Uspace
  imports Uvm
begin

text \<open>
  Growing, shrinking, copying and freeing a user address space. Every operation conserves the
  pages: what the free list loses, the tables and the pages of the process gain, and conversely.
\<close>

section \<open>Changes of an address space\<close>

text \<open>The pages an address space and the free list hold together.\<close>

definition pool :: "nat set \<Rightarrow> u64 \<Rightarrow> u64 list \<Rightarrow> 'a kmem_st_scheme \<Rightarrow> u64 set" where
  "pool A pt ps s = set ps \<union> tset (pmem s) 2 pt \<union> pg (pmem s) pt ` A"

text \<open>The pages of \<open>A\<close> have become those of \<open>B\<close>: pages in both keep their contents, no page of memory is
  lost, and no page outside the pool is touched.\<close>

definition uchg :: "u64 \<Rightarrow> nat set \<Rightarrow> u64 list \<Rightarrow> 'a kmem_st_scheme \<Rightarrow> nat set \<Rightarrow> u64 list \<Rightarrow> 'a kmem_st_scheme \<Rightarrow> bool" where
  "uchg pt A ps s B ps' s' \<longleftrightarrow> uspace B pt ps' s' \<and> only_mem s s' \<and> pool B pt ps' s' = pool A pt ps s
     \<and> (\<forall>k < 2 ^ 27. k \<in> A \<inter> B \<or> k \<notin> A \<union> B \<longrightarrow> ptab (pmem s') pt k = ptab (pmem s) pt k)
     \<and> (\<forall>k \<in> A \<inter> B. same_page (pmem s) (pmem s') (pg (pmem s) pt k))
     \<and> (\<forall>k \<in> A - B. ptab (pmem s') pt k = 0)
     \<and> (\<forall>q. pal q \<longrightarrow> q \<notin> pool A pt ps s \<longrightarrow> same_page (pmem s) (pmem s') q)"

lemma uchg_refl: "uspace A pt ps s \<Longrightarrow> uchg pt A ps s A ps s"
  by (auto simp: uchg_def)

lemma pg_pal [simp]: "pal (pg m pt k)"
  by (simp add: pg_def PTE2PA_pal)

lemma uspace_27: "uspace A pt ps s \<Longrightarrow> k \<in> A \<Longrightarrow> k < 2 ^ 27"
  using uspaceD(2) by fastforce

lemma uchg_trans:
  assumes a: "uspace A pt ps s" and ab: "uchg pt A ps s B ps1 s1" and bc: "uchg pt B ps1 s1 C ps2 s2"
    and sub: "A \<inter> C \<subseteq> B" and out: "B \<subseteq> A \<union> C \<or> (\<forall>k \<in> B - A. ptab (pmem s) pt k = 0)"
  shows "uchg pt A ps s C ps2 s2"
proof -
  have pgs: "pg (pmem s1) pt k = pg (pmem s) pt k" if "k \<in> A \<inter> B" for k
    using ab uspace_27 [OF a] that by (auto simp: uchg_def pg_def)
  have "ptab (pmem s2) pt k = ptab (pmem s) pt k" if k: "k < 2 ^ 27" "k \<in> A \<inter> C \<or> k \<notin> A \<union> C" for k
  proof (cases "k \<in> B")
    case True
    show ?thesis
    proof (cases "k \<in> A")
      case True
      then show ?thesis using ab bc k \<open>k \<in> B\<close> by (auto simp: uchg_def)
    next
      case False
      then have "ptab (pmem s) pt k = 0" using out k(2) True by blast
      moreover have "ptab (pmem s2) pt k = 0" using bc False k(2) True by (auto simp: uchg_def)
      ultimately show ?thesis by simp
    qed
  next
    case False
    then have "k \<notin> A" using sub k(2) by blast
    then show ?thesis using ab bc k False by (auto simp: uchg_def)
  qed
  moreover have "same_page (pmem s) (pmem s2) (pg (pmem s) pt k)" if "k \<in> A \<inter> C" for k
  proof -
    have "k \<in> A \<inter> B" "k \<in> B \<inter> C" using that sub by auto
    then show ?thesis using ab bc pgs [of k] same_page_trans unfolding uchg_def by metis
  qed
  moreover have "ptab (pmem s2) pt k = 0" if "k \<in> A - C" for k
    using ab bc that uspace_27 [OF a, of k] by (cases "k \<in> B") (auto simp: uchg_def)
  moreover have "same_page (pmem s) (pmem s2) q" if "pal q" "q \<notin> pool A pt ps s" for q
    using ab bc that same_page_trans unfolding uchg_def by metis
  ultimately show ?thesis using ab bc only_mem_trans unfolding uchg_def by auto
qed

section \<open>Unmapping\<close>

lemma kfree_page:
  assumes "kpages s ps" "page_ok (kernel_end s) p" "p \<notin> set ps"
  shows "\<exists>m. kfree p s = Ok ((), s\<lparr>pmem := m, freelist := p\<rparr>) \<and> kpages (s\<lparr>pmem := m, freelist := p\<rparr>) (p # ps)
     \<and> (\<forall>q. pal q \<longrightarrow> q \<noteq> p \<longrightarrow> same_page (pmem s) m q)"
proof -
  let ?m = "st64 (memset (pmem s) (unat p) 1 PGSIZE) (unat p) (freelist s)"
  have c: "cpu_ok s" "lfree LKmem s" using assms(1) by (simp_all add: kpages_def)
  have eq: "kfree p s = Ok ((), s\<lparr>pmem := ?m, freelist := p\<rparr>)" by (rule kfree_eq [OF c assms(2)])
  moreover have "kpages (s\<lparr>pmem := ?m, freelist := p\<rparr>) (p # ps)"
    using km.free_push [OF assms(1), of p] assms(2,3) eq by (auto simp: kpage_def)
  moreover have "same_page (pmem s) ?m q" if "pal q" "q \<noteq> p" for q
  proof -
    have "pal p" using assms(2) by (rule page_ok_pal)
    then show ?thesis unfolding st64_def memset_eq
      using same_page_trans [OF same_page_wr [OF that(1) _ that(2)] same_page_wr [OF that(1) _ that(2)]]
      by (simp add: PGSIZE_def)
  qed
  ultimately show ?thesis by blast
qed

lemma ptv_mem:
  assumes v: "ptv 2 pt ps s" and same: "\<And>q. q \<in> tset (pmem s) 2 pt \<Longrightarrow> same_page (pmem s) (pmem s') q"
    and k: "kpages s' qs" "set qs \<inter> tset (pmem s) 2 pt = {}" and om: "only_mem s s'"
  shows "ptv 2 pt qs s'" and "tset (pmem s') 2 pt = tset (pmem s) 2 pt" and "ptab (pmem s') pt = ptab (pmem s) pt"
    and "ltab (pmem s') 2 pt va = ltab (pmem s) 2 pt va"
proof -
  have "\<forall>q \<in> tset (pmem s) 2 pt. same_page (pmem s) (pmem s') q" using same by blast
  note t = tree_frame [OF this]
  show "tset (pmem s') 2 pt = tset (pmem s) 2 pt" "ptab (pmem s') pt = ptab (pmem s) pt"
    "ltab (pmem s') 2 pt va = ltab (pmem s) 2 pt va"
    using t by (auto simp: ptab_def fun_eq_iff)
  show "ptv 2 pt qs s'" using v t k only_mem_end [OF om] by (auto simp: ptv_def)
qed

lemma frame_ptab: "ptab m' pt k = ptab m pt k \<Longrightarrow> frame m' pt k = frame m pt k"
  by (simp add: frame_def)

lemma uspace_ptv: 
  assumes u: "uspace A pt ps s" and v: "ptv 2 pt ps' s'" and om: "only_mem s s'" and B: "B \<subseteq> A"
    and keep: "\<And>k. k \<in> B \<Longrightarrow> ptab (pmem s') pt k = ptab (pmem s) pt k"
    and own: "\<And>k. k \<in> B \<Longrightarrow> pg (pmem s) pt k \<notin> tset (pmem s') 2 pt \<union> set ps'"
    and out: "\<And>k. k < 2 ^ 26 \<Longrightarrow> k \<notin> B \<Longrightarrow> frame (pmem s') pt k = 0"
  shows "uspace B pt ps' s'"
proof -
  note d = uspaceD [OF u]
  have pgs: "pg (pmem s') pt k = pg (pmem s) pt k" if "k \<in> B" for k using keep [OF that] by (simp add: pg_def)
  then have "inj_on (pg (pmem s') pt) B" using d(8) B by (auto simp: inj_on_def)
  then show ?thesis
    unfolding uspace_def using v d(2,3,4,5) B keep own out pgs only_mem_end [OF om] by (auto 0 3)
qed


lemma ltab_valid:
  assumes v: "ptv 2 pt ps s" and a: "a < MAXVA" and e: "valid (ptab (pmem s) pt (vpn a))"
  obtains t where "ltab (pmem s) 2 pt a = Some t" and "pte_addr (pmem s) 2 pt a = t + 8 * PX 0 a"
    and "t + 8 * PX 0 a \<noteq> 0" and "ld64 (pmem s) (unat (t + 8 * PX 0 a)) = ptab (pmem s) pt (vpn a)"
proof -
  note d = ptvD [OF v]
  have k: "vpn a < 2 ^ 27" using vpn_less [OF a] by simp
  obtain t where t: "ltab (pmem s) 2 pt a = Some t"
    using e leaf_ptab [OF k, of "pmem s" pt] by (cases "ltab (pmem s) 2 pt a") (auto simp: leaf_ltab)
  show ?thesis
  proof (rule that [OF t])
    show "pte_addr (pmem s) 2 pt a = t + 8 * PX 0 a" using pte_addr_ltab [of "pmem s" 2 pt _ a] d(3) t by fastforce
    show "t + 8 * PX 0 a \<noteq> 0" by (rule slot_nonnull [OF d(1) d(3) [OF ltab_tset [OF t]]])
    show "ld64 (pmem s) (unat (t + 8 * PX 0 a)) = ptab (pmem s) pt (vpn a)" by (rule pte_load [OF v t k])
  qed
qed

lemma unmap_page_rule:
  assumes u: "uspace A pt ps s" and a: "a < MAXVA" and k: "vpn a \<in> A"
  shows "runs (unmap_page pt a True s) (\<lambda>_ s'. uchg pt A ps s (A - {vpn a}) (pg (pmem s) pt (vpn a) # ps) s')"
proof -
  note d = uspaceD [OF u]
  let ?k = "vpn a" and ?m = "pmem s"
  let ?p = "pg ?m pt ?k"
  have k27: "?k < 2 ^ 27" using vpn_less [OF a] by simp
  obtain t where t: "ltab ?m 2 pt a = Some t" "pte_addr ?m 2 pt a = t + 8 * PX 0 a" "t + 8 * PX 0 a \<noteq> 0"
      "ld64 ?m (unat (t + 8 * PX 0 a)) = ptab ?m pt ?k"
    using ltab_valid [OF d(1) a d(3) [OF k]] by blast
  obtain m1 where f: "kfree ?p s = Ok ((), s\<lparr>pmem := m1, freelist := ?p\<rparr>)"
      "kpages (s\<lparr>pmem := m1, freelist := ?p\<rparr>) (?p # ps)" "\<And>q. pal q \<Longrightarrow> q \<noteq> ?p \<Longrightarrow> same_page ?m m1 q"
    using kfree_page [OF ptvD(1) [OF d(1)] d(5) [OF k] d(7) [OF k]] by blast
  let ?s1 = "s\<lparr>pmem := m1, freelist := ?p\<rparr>"
  have om: "only_mem s ?s1" by (simp add: only_mem_def)
  have v1: "ptv 2 pt (?p # ps) ?s1" "tset m1 2 pt = tset ?m 2 pt" "ptab m1 pt = ptab ?m pt" "ltab m1 2 pt a = Some t"
    using ptv_mem(1-3) [OF d(1), of ?s1 "?p # ps"] ptv_mem(4) [OF d(1), of ?s1 "?p # ps" a] f(2,3) om d(6) [OF k] ptvD(4,5) [OF d(1)] t(1) by auto
  let ?s2 = "?s1\<lparr>pmem := st64 (pmem ?s1) (unat (t + 8 * PX 0 a)) 0\<rparr>"
  have up: "ptupd pt (?p # ps) ?s1 ((ptab ?m pt)(?k := 0)) (?p # ps) ?s2"
    using store_pte [OF v1(1), of a t 0] v1(3,4) k27 by simp
  have tab: "ptab (pmem ?s2) pt j = (if j = ?k then 0 else ptab ?m pt j)" if "j < 2 ^ 27" for j
    using up that unfolding ptupd_def by simp
  have ts: "tset (pmem ?s2) 2 pt = tset ?m 2 pt" using up v1(2) unfolding ptupd_def by simp
  have om2: "only_mem s ?s2" by (simp add: only_mem_def)
  have pgs: "pg (pmem ?s2) pt j = pg ?m pt j" if "j \<in> A - {?k}" for j
    using tab [of j] that uspace_27 [OF u] by (simp add: pg_def)
  have sp: "same_page ?m (pmem ?s2) q" if "pal q" "q \<noteq> ?p" "q \<notin> tset ?m 2 pt \<union> set ps" for q
    using f(3) [OF that(1,2)] up that v1(2) same_page_trans [of ?m m1 q] unfolding ptupd_def by simp
  have "uspace (A - {?k}) pt (?p # ps) ?s2"
  proof (rule uspace_ptv [OF u _ om2])
    show "ptv 2 pt (?p # ps) ?s2" using up unfolding ptupd_def by simp
    show "ptab (pmem ?s2) pt j = ptab ?m pt j" if "j \<in> A - {?k}" for j using tab [of j] that uspace_27 [OF u] by simp
    show "pg ?m pt j \<notin> tset (pmem ?s2) 2 pt \<union> set (?p # ps)" if "j \<in> A - {?k}" for j
      using that d(6,7,8) k unfolding ts by (auto simp: inj_on_def)
    show "frame (pmem ?s2) pt j = 0" if "j < 2 ^ 26" "j \<notin> A - {?k}" for j
      using tab [of j] that d(9) [of j] by (auto simp: frame_def)
  qed auto
  moreover have "pool (A - {?k}) pt (?p # ps) ?s2 = pool A pt ps s"
  proof -
    have "pg (pmem ?s2) pt ` (A - {?k}) = pg ?m pt ` (A - {?k})" using pgs by (rule image_cong [OF refl])
    then show ?thesis unfolding pool_def ts using k by auto
  qed
  moreover have "\<forall>j \<in> A \<inter> (A - {?k}). same_page ?m (pmem ?s2) (pg ?m pt j)"
  proof
    fix j
    assume j: "j \<in> A \<inter> (A - {?k})"
    then have "pg ?m pt j \<noteq> ?p" using d(8) k by (auto simp: inj_on_def)
    then show "same_page ?m (pmem ?s2) (pg ?m pt j)" using j d(6,7) [of j] by (intro sp) auto
  qed
  moreover have "same_page ?m (pmem ?s2) q" if "pal q" "q \<notin> pool A pt ps s" for q
    by (rule sp) (use that k in \<open>auto simp: pool_def\<close>)
  ultimately have "uchg pt A ps s (A - {?k}) (?p # ps) ?s2"
    unfolding uchg_def using tab om2 k27 k by auto
  moreover have "\<not> MAXVA \<le> a" using a by simp
  ultimately show ?thesis
    unfolding unmap_page_def using t d(3,4) [OF k] f(1)
    by (simp add: runs_bnd walk_ro ldpte_def stpte_def pg_def)
qed

lemma page_addr:
  assumes "vpn va * PGSIZE = unat va" and "vpn va + i < 2 ^ 26"
  shows "vpn (va + of_nat (i * PGSIZE)) = vpn va + i" and "va + of_nat (i * PGSIZE) < MAXVA"
    and "unat (va + of_nat (i * PGSIZE)) = (vpn va + i) * PGSIZE"
proof -
  have i: "unat (of_nat (i * PGSIZE) :: u64) = i * PGSIZE"
    using assms(2) by (simp add: unsigned_of_nat take_bit_nat_eq_self PGSIZE_def del: of_nat_mult)
  have "vpn va * PGSIZE + i * PGSIZE < 2 ^ 38" using assms(2) by (simp add: PGSIZE_def)
  then show u: "unat (va + of_nat (i * PGSIZE)) = (vpn va + i) * PGSIZE"
    unfolding unat_word_ariths i assms(1) by (simp add: assms(1) distrib_right)
  show "vpn (va + of_nat (i * PGSIZE)) = vpn va + i" unfolding vpn_def u by (simp add: vpn_def PGSIZE_def)
  show "va + of_nat (i * PGSIZE) < MAXVA" unfolding word_less_nat_alt u unat_MAXVA using assms(2) by (simp add: PGSIZE_def)
qed

lemma uvmunmap_rule:
  assumes u: "uspace A pt ps s" and va: "pal va" "unat va + unat n * PGSIZE \<le> 2 ^ 38"
    and A: "{vpn va..<vpn va + unat n} \<subseteq> A"
  shows "runs (uvmunmap pt va n True s) (\<lambda>_ s'. \<exists>qs. uchg pt A ps s (A - {vpn va..<vpn va + unat n}) qs s')"
proof -
  have mul: "vpn va * PGSIZE = unat va" using va(1) by (auto simp: vpn_def pal_def page_aligned)
  have "unat (n * 4096) = unat n * PGSIZE" using va(2) by (simp add: unat_word_ariths PGSIZE_def)
  then have "unat (va + n * 4096) = unat va + unat n * PGSIZE" using va(2) by (simp add: unat_word_ariths)
  then have rounds: "page_rounds va (va + n * 4096) = unat n" by (simp add: page_rounds_def PGSIZE_def)
  have "runs (forK (\<lambda>i. unmap_page pt (va + of_nat (i * PGSIZE)) True) [0..<unat n] s)
     (\<lambda>_ t. \<exists>qs. uchg pt A ps s (A - {vpn va..<vpn va + unat n}) qs t)"
  proof (rule runs_forK [where P = "\<lambda>i t. \<exists>qs. uchg pt A ps s (A - {vpn va..<vpn va + i}) qs t"])
    show "\<exists>qs. uchg pt A ps s (A - {vpn va..<vpn va + 0}) qs s" using uchg_refl [OF u] by auto
    fix i t
    assume i: "i < unat n" and "\<exists>qs. uchg pt A ps s (A - {vpn va..<vpn va + i}) qs t"
    then obtain qs where c: "uchg pt A ps s (A - {vpn va..<vpn va + i}) qs t" by blast
    have "vpn va + i \<in> A" using A i by auto
    then have "vpn va + i < 2 ^ 26" using uspaceD(2) [OF u] by blast
    note a = page_addr [OF mul this]
    have k: "vpn (va + of_nat (i * PGSIZE)) \<in> A - {vpn va..<vpn va + i}" unfolding a(1) using A i by auto
    have u1: "uspace (A - {vpn va..<vpn va + i}) pt qs t" using c by (simp add: uchg_def)
    have set: "A - {vpn va..<vpn va + i} - {vpn va + i} = A - {vpn va..<vpn va + Suc i}" by auto
    show "runs (unmap_page pt (va + of_nat (i * PGSIZE)) True t) (\<lambda>_ t'. \<exists>qs. uchg pt A ps s (A - {vpn va..<vpn va + Suc i}) qs t')"
      by (rule runs_mono [OF unmap_page_rule [OF u1 a(2) k]], unfold a(1) set, rule exI, erule uchg_trans [OF u c]) auto
  qed
  moreover have "va mod 4096 = 0" using va(1) by (simp only: pal_def)
  ultimately show ?thesis unfolding uvmunmap_def rounds by simp
qed

text \<open>The number of pages of an address space of \<open>sz\<close> bytes.\<close>

definition pgs :: "u64 \<Rightarrow> nat" where
  "pgs sz = vpn (PGROUNDUP sz)"

lemma PGROUNDUP_pgs:
  assumes "unat sz \<le> 2 ^ 38"
  shows "unat (PGROUNDUP sz) = pgs sz * PGSIZE" and "pgs sz = (unat sz + 4095) div PGSIZE" and "pgs sz \<le> 2 ^ 26"
    and "pal (PGROUNDUP sz)"
proof -
  have "unat (PGROUNDUP sz) = PGSIZE * ((unat sz + 4095) div PGSIZE)" by (rule unat_PGROUNDUP) (use assms in simp)
  then show "unat (PGROUNDUP sz) = pgs sz * PGSIZE" "pgs sz = (unat sz + 4095) div PGSIZE"
    by (simp_all add: pgs_def vpn_def PGSIZE_def)
  then show "pgs sz \<le> 2 ^ 26" using assms by (simp add: PGSIZE_def)
  show "pal (PGROUNDUP sz)" using PGROUNDUP_aligned by (simp only: pal_def)
qed

lemma pgs_vpn:
  assumes "pal a" and "unat a \<le> 2 ^ 38"
  shows "pgs a = vpn a"
proof -
  have "unat a = vpn a * PGSIZE" using assms(1) by (auto simp: vpn_def pal_def page_aligned)
  then have "(unat a + 4095) div PGSIZE = vpn a" by (simp add: PGSIZE_def)
  then show ?thesis using PGROUNDUP_pgs(2) [OF assms(2)] by simp
qed

lemma pgs_mono: "a \<le> b \<Longrightarrow> unat b \<le> 2 ^ 38 \<Longrightarrow> pgs a \<le> pgs b"
  using PGROUNDUP_pgs(2) [of a] PGROUNDUP_pgs(2) [of b] by (simp add: word_le_nat_alt div_le_mono)

lemma scast_int: "unat n < 2 ^ 31 \<Longrightarrow> scast (ucast (n :: u64) :: u32) = n"
proof -
  assume "unat n < 2 ^ 31"
  then have t: "take_bit 31 (unat n) = unat n" by (rule take_bit_nat_eq_self)
  have nb: "\<not> bit n i" if "31 \<le> i" for i
  proof -
    have "bit n i \<Longrightarrow> bit (unat n) i" by (simp add: bit_unsigned_iff bit_imp_le_length)
    moreover have "\<not> bit (unat n) i" using that by (subst t [symmetric]) (simp add: bit_take_bit_iff)
    ultimately show ?thesis by blast
  qed
  show ?thesis
  proof (rule bit_word_eqI)
    fix i :: nat
    assume "i < LENGTH(64)"
    then show "bit (scast (ucast n :: u32) :: u64) i = bit n i"
      using nb [of i] nb [of 31] by (cases "i < 31") (auto simp: bit_signed_iff bit_unsigned_iff min_def)
  qed
qed

lemma uvmdealloc_rule:
  assumes u: "uspace A pt ps s" and sz: "unat oldsz \<le> 2 ^ 38" and A: "{pgs newsz..<pgs oldsz} \<subseteq> A"
  shows "runs (uvmdealloc pt oldsz newsz s) (\<lambda>r s'. r = min oldsz newsz \<and>
     (\<exists>qs. uchg pt A ps s (if newsz < oldsz then A - {pgs newsz..<pgs oldsz} else A) qs s'))"
proof (cases "newsz < oldsz")
  case False
  then show ?thesis using uchg_refl [OF u] by (auto simp: uvmdealloc_def not_less min_def)
next
  case True
  then have new: "unat newsz \<le> 2 ^ 38" and "newsz \<le> oldsz" using sz by (simp_all add: word_less_nat_alt word_le_nat_alt)
  note n = PGROUNDUP_pgs [OF new] and o = PGROUNDUP_pgs [OF sz]
  have mono: "pgs newsz \<le> pgs oldsz" by (rule pgs_mono [OF \<open>newsz \<le> oldsz\<close> sz])
  have lt: "PGROUNDUP newsz < PGROUNDUP oldsz \<longleftrightarrow> pgs newsz < pgs oldsz"
    by (simp add: word_less_nat_alt n(1) o(1) PGSIZE_def)
  have min: "min oldsz newsz = newsz" using True by (simp add: min_def not_le [symmetric])
  have le: "\<not> oldsz \<le> newsz" using True by simp
  show ?thesis
  proof (cases "pgs newsz < pgs oldsz")
    case False
    then show ?thesis using uchg_refl [OF u] True le by (auto simp: uvmdealloc_def lt min)
  next
    case lt': True
    let ?n = "scast (ucast ((PGROUNDUP oldsz - PGROUNDUP newsz) div 4096) :: u32) :: u64"
    have "PGROUNDUP newsz \<le> PGROUNDUP oldsz" using lt lt' by simp
    then have "unat (PGROUNDUP oldsz - PGROUNDUP newsz) = (pgs oldsz - pgs newsz) * PGSIZE"
      by (simp add: unat_sub n(1) o(1) diff_mult_distrib)
    then have "unat ((PGROUNDUP oldsz - PGROUNDUP newsz) div 4096) = pgs oldsz - pgs newsz" by (simp add: unat_div PGSIZE_def)
    then have un: "unat ?n = pgs oldsz - pgs newsz" using o(3) by (subst scast_int) simp_all
    have v: "vpn (PGROUNDUP newsz) + unat ?n = pgs oldsz" using un mono by (simp add: pgs_def)
    have "runs (uvmunmap pt (PGROUNDUP newsz) ?n True s)
       (\<lambda>_ s'. \<exists>qs. uchg pt A ps s (A - {vpn (PGROUNDUP newsz)..<vpn (PGROUNDUP newsz) + unat ?n}) qs s')"
    proof (rule uvmunmap_rule [OF u n(4)])
      have "unat (PGROUNDUP newsz) + unat ?n * PGSIZE = pgs oldsz * PGSIZE"
        unfolding un n(1) using mono by (simp add: distrib_right [symmetric])
      then show "unat (PGROUNDUP newsz) + unat ?n * PGSIZE \<le> 2 ^ 38" using o(3) by (simp add: PGSIZE_def)
    qed (use A v in \<open>simp add: pgs_def\<close>)
    then show ?thesis
      using True le lt lt' unfolding v uvmdealloc_def by (simp add: runs_bnd Let_def min pgs_def [symmetric])
  qed
qed


section \<open>Growing\<close>

text \<open>What a process sees after a change.\<close>

lemma uchg_umem:
  assumes u: "uspace A pt ps s" and c: "uchg pt A ps s B ps' s'"
  shows "a div PGSIZE \<in> A \<inter> B \<Longrightarrow> umem (pmem s') pt a = umem (pmem s) pt a"
    and "a div PGSIZE \<notin> B \<Longrightarrow> umem (pmem s') pt a = None"
proof -
  have u': "uspace B pt ps' s'" using c by (simp add: uchg_def)
  note um = umem_frame [OF uspaceD(1) [OF u], of a] and um' = umem_frame [OF uspaceD(1) [OF u'], of a]
  let ?k = "a div PGSIZE"
  show "umem (pmem s') pt a = umem (pmem s) pt a" if k: "?k \<in> A \<inter> B"
  proof -
    have "ptab (pmem s') pt ?k = ptab (pmem s) pt ?k" using c k uspace_27 [OF u, of ?k] by (auto simp: uchg_def)
    then have fr: "frame (pmem s') pt ?k = frame (pmem s) pt ?k" by (rule frame_ptab)
    have "same_page (pmem s) (pmem s') (pg (pmem s) pt ?k)" using c k by (auto simp: uchg_def)
    then have "pmem s' (unat (pg (pmem s) pt ?k) + a mod PGSIZE) = pmem s (unat (pg (pmem s) pt ?k) + a mod PGSIZE)"
      by (simp add: same_page_def PGSIZE_def)
    then show ?thesis unfolding um um' fr using frame_pg [of "pmem s" pt ?k] by auto
  qed
  show "umem (pmem s') pt a = None" if k: "?k \<notin> B"
  proof (cases "a < 2 ^ 38")
    case True
    then have "?k < 2 ^ 26" by (simp add: PGSIZE_def)
    then show ?thesis unfolding um' using uspaceD(9) [OF u' _ k] by simp
  qed (simp add: um')
qed

text \<open>A step that only adds tables, and one that also maps the page \<open>p\<close>.\<close>

lemma ptupd_same:
  assumes u: "uspace A pt ps s" and up: "ptupd pt ps s (ptab (pmem s) pt) ps' s'"
  shows "uchg pt A ps s A ps' s'"
proof -
  note d = uspaceD [OF u]
  have sub: "set ps' \<subseteq> set ps" using up by (auto simp: ptupd_def set_mono_suffix)
  have tab: "ptab (pmem s') pt k = ptab (pmem s) pt k" if "k < 2 ^ 27" for k using up that by (simp add: ptupd_def)
  have ts: "tset (pmem s') 2 pt = tset (pmem s) 2 pt \<union> (set ps - set ps')" using up by (simp add: ptupd_def)
  have sp: "same_page (pmem s) (pmem s') q" if "pal q" "q \<notin> tset (pmem s) 2 pt \<union> set ps" for q
    using up that unfolding ptupd_def by blast
  have om: "only_mem s s'" using up by (simp add: ptupd_def)
  have "uspace A pt ps' s'"
  proof (rule uspace_ptv [OF u _ om])
    show "ptv 2 pt ps' s'" using up by (simp add: ptupd_def)
    show "ptab (pmem s') pt k = ptab (pmem s) pt k" if "k \<in> A" for k using tab uspace_27 [OF u that] by blast
    show "pg (pmem s) pt k \<notin> tset (pmem s') 2 pt \<union> set ps'" if "k \<in> A" for k
      using d(6,7) [OF that] ts sub by auto
    show "frame (pmem s') pt k = 0" if "k < 2 ^ 26" "k \<notin> A" for k
      using tab [of k] d(9) [OF that] that by (simp add: frame_def)
  qed simp
  moreover have "pg (pmem s') pt ` A = pg (pmem s) pt ` A"
    by (rule image_cong) (auto simp: pg_def dest!: tab [OF uspace_27 [OF u]])
  then have "pool A pt ps' s' = pool A pt ps s" unfolding pool_def ts using sub by auto
  ultimately show ?thesis
    unfolding uchg_def using tab om sp d(6,7) by (auto simp: pool_def)
qed

lemma ptupd_new:
  assumes u: "uspace A pt ps s" and up: "ptupd pt ps s ((ptab (pmem s) pt)(k := PA2PTE p OR f)) ps' s'"
    and k: "k < 2 ^ 26" "k \<notin> A" and p: "page_ok (kernel_end s) p" "p \<notin> pool A pt ps s"
    and f: "drop_bit 10 f = 0" "valid f" "f \<noteq> PTE_V"
  shows "uspace (insert k A) pt ps' s' \<and> only_mem s s' \<and> pool (insert k A) pt ps' s' = insert p (pool A pt ps s)
     \<and> (\<forall>j < 2 ^ 27. ptab (pmem s') pt j = (if j = k then PA2PTE p OR f else ptab (pmem s) pt j))
     \<and> (\<forall>q. pal q \<longrightarrow> q \<notin> tset (pmem s) 2 pt \<union> set ps \<longrightarrow> same_page (pmem s) (pmem s') q)"
proof -
  note d = uspaceD [OF u]
  have sub: "set ps' \<subseteq> set ps" using up by (auto simp: ptupd_def set_mono_suffix)
  have tab: "ptab (pmem s') pt j = (if j = k then PA2PTE p OR f else ptab (pmem s) pt j)" if "j < 2 ^ 27" for j
    using up that by (simp add: ptupd_def)
  have ts: "tset (pmem s') 2 pt = tset (pmem s) 2 pt \<union> (set ps - set ps')" using up by (simp add: ptupd_def)
  have om: "only_mem s s'" using up by (simp add: ptupd_def)
  note mk = PTE2PA_make [of p, OF _ f(1)]
  have pal: "p mod 4096 = 0" using page_ok_pal [OF p(1)] by (simp add: pal_def)
  have k27: "k < 2 ^ 27" using k(1) by simp
  have pgk: "pg (pmem s') pt k = p" using tab [OF k27] mk(1) [OF pal] by (simp add: pg_def)
  have pgj: "pg (pmem s') pt j = pg (pmem s) pt j" if "j \<in> A" for j
    using tab [OF uspace_27 [OF u that]] k(2) that by (auto simp: pg_def)
  have "uspace (insert k A) pt ps' s'"
    unfolding uspace_def
  proof (intro conjI ballI allI impI)
    show "ptv 2 pt ps' s'" using up by (simp add: ptupd_def)
    show "insert k A \<subseteq> {..<2 ^ 26}" using k(1) d(2) by simp
    fix j
    assume j: "j \<in> insert k A"
    then have j27: "j < 2 ^ 27" using k27 uspace_27 [OF u] by blast
    show "valid (ptab (pmem s') pt j)" "PTE_FLAGS (ptab (pmem s') pt j) \<noteq> PTE_V"
      using tab [OF j27] j mk(2,4) [OF pal] f(2,3) d(3,4) by auto
    show "page_ok (kernel_end s') (pg (pmem s') pt j)"
      using j pgk pgj d(5) p(1) only_mem_end [OF om] by auto
    show "pg (pmem s') pt j \<notin> tset (pmem s') 2 pt \<union> set ps'"
      using j pgk pgj d(6,7) p(2) sub unfolding ts pool_def by auto
  next
    have "p \<notin> pg (pmem s) pt ` A" using p(2) by (simp add: pool_def)
    then show "inj_on (pg (pmem s') pt) (insert k A)"
      using d(8) k(2) pgk pgj by (auto simp: inj_on_def image_iff)
    show "frame (pmem s') pt j = 0" if "j < 2 ^ 26" "j \<notin> insert k A" for j
      using tab [of j] d(9) [of j] that by (simp add: frame_def)
  qed
  moreover have "pg (pmem s') pt ` insert k A = insert p (pg (pmem s) pt ` A)" using pgk pgj by auto
  then have "pool (insert k A) pt ps' s' = insert p (pool A pt ps s)" unfolding pool_def ts using sub by auto
  ultimately show ?thesis using tab om up unfolding ptupd_def by blast
qed

text \<open>The page \<open>p\<close> has been taken from the free list and filled, and is in nobody's hands yet.\<close>

definition taken :: "nat set \<Rightarrow> u64 \<Rightarrow> u64 \<Rightarrow> u64 list \<Rightarrow> 'a kmem_st_scheme \<Rightarrow> 'a kmem_st_scheme \<Rightarrow> bool" where
  "taken A pt p ps s t \<longleftrightarrow> uspace A pt (p # ps) s \<and> uspace A pt ps t \<and> only_mem s t
     \<and> tset (pmem t) 2 pt = tset (pmem s) 2 pt \<and> ptab (pmem t) pt = ptab (pmem s) pt
     \<and> (\<forall>q. pal q \<longrightarrow> q \<noteq> p \<longrightarrow> same_page (pmem s) (pmem t) q)"

lemma take_page:
  assumes u: "uspace A pt (p # ps) s" and k: "kpages t ps" and om: "only_mem s t"
    and same: "\<And>q. pal q \<Longrightarrow> q \<noteq> p \<Longrightarrow> same_page (pmem s) (pmem t) q"
  shows "taken A pt p ps s t"
proof -
  note d = uspaceD [OF u]
  note v = ptvD [OF d(1)]
  have p: "p \<notin> tset (pmem s) 2 pt" using v(4) by auto
  have in_t: "same_page (pmem s) (pmem t) q" if "q \<in> tset (pmem s) 2 pt" for q
    using same [OF v(5) [OF that]] that p by auto
  have disj: "set ps \<inter> tset (pmem s) 2 pt = {}" using v(4) by auto
  note m = ptv_mem(1-3) [OF d(1) in_t k disj om]
  have "uspace A pt ps t"
    by (rule uspace_ptv [OF u m(1) om]) (use m(2,3) d(6,7,9) in \<open>auto simp: frame_def\<close>)
  with u om m(2,3) same show ?thesis by (simp add: taken_def)
qed

lemma takenD:
  assumes t: "taken A pt p ps s t"
  shows "page_ok (kernel_end t) p" "pal p" "p \<notin> pool A pt ps t" "insert p (pool A pt ps t) = pool A pt (p # ps) s"
    "\<And>j. j \<in> A \<Longrightarrow> pg (pmem s) pt j \<noteq> p" "\<And>j. pg (pmem t) pt j = pg (pmem s) pt j"
proof -
  have u: "uspace A pt (p # ps) s" using t by (simp add: taken_def)
  note d = uspaceD [OF u]
  note v = ptvD [OF d(1)]
  have om: "only_mem s t" using t by (simp add: taken_def)
  show "page_ok (kernel_end t) p" using kpages_ok [OF v(1), of p] by (simp add: only_mem_end [OF om])
  then show "pal p" by (rule page_ok_pal)
  show "pg (pmem s) pt j \<noteq> p" if "j \<in> A" for j using d(7) [OF that] by auto
  show pgs: "pg (pmem t) pt j = pg (pmem s) pt j" for j using t by (simp add: taken_def pg_def)
  have "p \<notin> set ps" using km.pages_distinct [OF v(1)] by simp
  then show "p \<notin> pool A pt ps t" "insert p (pool A pt ps t) = pool A pt (p # ps) s"
    using d(7) v(4) t unfolding pool_def taken_def by (auto simp: pgs)
qed

text \<open>Giving a page back.\<close>

lemma give_page:
  assumes u: "uspace A pt ps s" and p: "page_ok (kernel_end s) p" "p \<notin> pool A pt ps s"
  shows "runs (kfree p s) (\<lambda>_ s'. uspace A pt (p # ps) s' \<and> only_mem s s' \<and> pool A pt (p # ps) s' = insert p (pool A pt ps s)
     \<and> ptab (pmem s') pt = ptab (pmem s) pt \<and> (\<forall>q. pal q \<longrightarrow> q \<noteq> p \<longrightarrow> same_page (pmem s) (pmem s') q))"
proof -
  note d = uspaceD [OF u]
  note v = ptvD [OF d(1)]
  have pn: "p \<notin> set ps" "p \<notin> tset (pmem s) 2 pt" "p \<notin> pg (pmem s) pt ` A" using p(2) by (auto simp: pool_def)
  obtain m where f: "kfree p s = Ok ((), s\<lparr>pmem := m, freelist := p\<rparr>)"
      "kpages (s\<lparr>pmem := m, freelist := p\<rparr>) (p # ps)" "\<And>q. pal q \<Longrightarrow> q \<noteq> p \<Longrightarrow> same_page (pmem s) m q"
    using kfree_page [OF v(1) p(1) pn(1)] by blast
  let ?t = "s\<lparr>pmem := m, freelist := p\<rparr>"
  have om: "only_mem s ?t" by (simp add: only_mem_def)
  have in_t: "same_page (pmem s) (pmem ?t) q" if "q \<in> tset (pmem s) 2 pt" for q
    using f(3) [OF v(5) [OF that]] that pn(2) by auto
  have disj: "set (p # ps) \<inter> tset (pmem s) 2 pt = {}" using v(4) pn(2) by auto
  note m = ptv_mem(1-3) [OF d(1) in_t f(2) disj om]
  have "uspace A pt (p # ps) ?t"
    by (rule uspace_ptv [OF u m(1) om]) (use m(2,3) d(6,7,9) pn(3) in \<open>auto simp: frame_def\<close>)
  moreover have "pg (pmem ?t) pt = pg (pmem s) pt" using m(3) by (simp add: pg_def fun_eq_iff)
  then have "pool A pt (p # ps) ?t = insert p (pool A pt ps s)" using m(2) by (simp add: pool_def)
  ultimately show ?thesis using f(1,3) om m(3) by simp
qed

text \<open>The page is mapped, or there was no memory for a table and the page goes back.\<close>

lemma taken_map:
  assumes t: "taken A pt p ps s t" and up: "ptupd pt ps t ((ptab (pmem t) pt)(k := PA2PTE p OR f)) ps' s'"
    and k: "k < 2 ^ 26" "k \<notin> A" and f: "drop_bit 10 f = 0" "valid f" "f \<noteq> PTE_V"
  shows "uchg pt A (p # ps) s (insert k A) ps' s' \<and> ptab (pmem s') pt k = PA2PTE p OR f \<and> pg (pmem s') pt k = p
     \<and> same_page (pmem t) (pmem s') p"
proof -
  have us: "uspace A pt (p # ps) s" and ut: "uspace A pt ps t" and om: "only_mem s t"
    and ts: "tset (pmem t) 2 pt = tset (pmem s) 2 pt" and tb: "ptab (pmem t) pt = ptab (pmem s) pt"
    and st: "\<And>q. pal q \<Longrightarrow> q \<noteq> p \<Longrightarrow> same_page (pmem s) (pmem t) q"
    using t by (auto simp: taken_def)
  note d = uspaceD [OF us] and td = takenD [OF t]
  note n = ptupd_new [OF ut up k td(1,3) f]
  have tab: "ptab (pmem s') pt j = (if j = k then PA2PTE p OR f else ptab (pmem s) pt j)" if "j < 2 ^ 27" for j
    using n that by (simp add: tb)
  have sp: "same_page (pmem t) (pmem s') q" if "pal q" "q \<notin> tset (pmem s) 2 pt \<union> set ps" for q
    using n that by (simp add: ts)
  have same: "same_page (pmem s) (pmem s') q" if "pal q" "q \<noteq> p" "q \<notin> tset (pmem s) 2 pt \<union> set ps" for q
    using same_page_trans [OF st [OF that(1,2)] sp [OF that(1,3)]] .
  have k27: "k < 2 ^ 27" using k(1) by simp
  have "uchg pt A (p # ps) s (insert k A) ps' s'"
    unfolding uchg_def
  proof (intro conjI allI ballI impI)
    show "uspace (insert k A) pt ps' s'" "only_mem s s'" "pool (insert k A) pt ps' s' = pool A pt (p # ps) s"
      using n td(4) only_mem_trans [OF om] by auto
    show "ptab (pmem s') pt j = ptab (pmem s) pt j" if "j < 2 ^ 27" "j \<in> A \<inter> insert k A \<or> j \<notin> A \<union> insert k A" for j
      using tab [OF that(1)] that(2) k(2) by auto
    show "same_page (pmem s) (pmem s') (pg (pmem s) pt j)" if "j \<in> A \<inter> insert k A" for j
      using td(5) [of j] d(6,7) [of j] that by (intro same) auto
    show "ptab (pmem s') pt j = 0" if "j \<in> A - insert k A" for j using that by auto
    show "same_page (pmem s) (pmem s') q" if "pal q" "q \<notin> pool A pt (p # ps) s" for q
      using that by (intro same) (auto simp: pool_def)
  qed
  moreover have "pg (pmem s') pt k = p"
    using tab [OF k27] PTE2PA_make(1) [OF td(2) [unfolded pal_def] f(1)] by (simp add: pg_def)
  moreover have "same_page (pmem t) (pmem s') p" using td(2,3) by (intro sp) (auto simp: pool_def ts)
  ultimately show ?thesis using tab [OF k27] by simp
qed

lemma taken_back:
  assumes t: "taken A pt p ps s t" and c: "uchg pt A ps t A ps' s'"
  shows "runs (kfree p s') (\<lambda>_ s''. uchg pt A (p # ps) s A (p # ps') s'')"
proof -
  have om: "only_mem s t" and tb: "ptab (pmem t) pt = ptab (pmem s) pt"
    and st: "\<And>q. pal q \<Longrightarrow> q \<noteq> p \<Longrightarrow> same_page (pmem s) (pmem t) q"
    using t by (auto simp: taken_def)
  note td = takenD [OF t]
  have u': "uspace A pt ps' s'" and om': "only_mem t s'" and po: "pool A pt ps' s' = pool A pt ps t"
    using c by (simp_all add: uchg_def)
  have p': "page_ok (kernel_end s') p" "p \<notin> pool A pt ps' s'" using td(1,3) po only_mem_end [OF om'] by simp_all
  show ?thesis
  proof (rule runs_mono [OF give_page [OF u' p']], elim conjE)
    fix x s''
    assume g: "uspace A pt (p # ps') s''" "only_mem s' s''" "pool A pt (p # ps') s'' = insert p (pool A pt ps' s')"
      "ptab (pmem s'') pt = ptab (pmem s') pt" "\<forall>q. pal q \<longrightarrow> q \<noteq> p \<longrightarrow> same_page (pmem s') (pmem s'') q"
    have sp: "same_page (pmem s) (pmem s'') q" if "pal q" "q \<noteq> p" "same_page (pmem t) (pmem s') q" for q
      using same_page_trans [OF same_page_trans [OF st [OF that(1,2)] that(3)]] g(5) that(1,2) by blast
    have "same_page (pmem s) (pmem s'') (pg (pmem s) pt j)" if "j \<in> A" for j
    proof (rule sp [OF pg_pal td(5) [OF that]])
      have "same_page (pmem t) (pmem s') (pg (pmem t) pt j)" using c that by (simp add: uchg_def)
      then show "same_page (pmem t) (pmem s') (pg (pmem s) pt j)" by (simp add: td(6))
    qed
    moreover have "same_page (pmem s) (pmem s'') q" if "pal q" "q \<notin> pool A pt (p # ps) s" for q
      using c that td(4) unfolding uchg_def by (intro sp) (auto simp: pool_def)
    moreover have "ptab (pmem s'') pt j = ptab (pmem s) pt j" if "j < 2 ^ 27" for j
      using c that g(4) tb by (auto simp: uchg_def)
    ultimately show "uchg pt A (p # ps) s A (p # ps') s''"
      using g(1,3) po td(4) only_mem_trans [OF only_mem_trans [OF om om'] g(2)] by (simp add: uchg_def)
  qed
qed

lemma flags_V: "drop_bit 10 PTE_V = 0" "valid (f OR PTE_V)"
proof -
  show "drop_bit 10 PTE_V = 0" by (simp add: PTE_V_def drop_bit_eq_div)
  have "bit ((f OR PTE_V) AND PTE_V) 0" by (simp add: PTE_V_def bit_simps)
  then show "valid (f OR PTE_V)" by auto
qed

lemma mappages_one:
  assumes v: "ptv 2 pt ps t" and a: "a < MAXVA" "pal a" "ptab (pmem t) pt (vpn a) = 0"
  shows "runs (mappages pt a 4096 p perm t) (\<lambda>r s'. \<exists>ps'.
     r = 0 \<and> ptupd pt ps t ((ptab (pmem t) pt)(vpn a := PA2PTE p OR (perm OR PTE_V))) ps' s' \<or>
     r = -1 \<and> ptupd pt ps t (ptab (pmem t) pt) ps' s')"
proof -
  let ?k = "vpn a"
  have mul: "?k * PGSIZE = unat a" using a(2) by (auto simp: vpn_def pal_def page_aligned)
  have "unat (a + 4096 - 1) = unat a + 4095" using a(1) by (simp add: unat_word_ariths word_less_nat_alt unat_MAXVA)
  then have "vpn (a + 4096 - 1) = (?k * PGSIZE + 4095) div PGSIZE" unfolding vpn_def [of "a + 4096 - 1"] mul by simp
  also have "\<dots> = ?k" by (simp add: PGSIZE_def)
  finally have np: "npages a 4096 = 1" by (simp add: npages_def)
  have sz: "unat a + unat (4096 :: u64) \<le> 2 ^ 38" using vpn_less [OF a(1)] mul by (simp add: PGSIZE_def)
  have fn: "mapfn (ptab (pmem t) pt) ?k 1 p perm = (ptab (pmem t) pt)(?k := PA2PTE p OR (perm OR PTE_V))"
    using mapfn_Suc [of "ptab (pmem t) pt" ?k 0 p perm] by (simp add: or.assoc)
  have free: "\<not> valid (ptab (pmem t) pt j)" if "?k \<le> j" "j < ?k + npages a 4096" for j
  proof -
    have "j = ?k" using that np by simp
    then show ?thesis using a(3) by simp
  qed
  show ?thesis by (rule runs_mono [OF mappages_rule [OF v _ sz free, of p perm]]) (use np fn in auto)
qed

lemma taken_mappages:
  assumes t: "taken A pt p ps s t" and a: "a < MAXVA" "pal a" and k: "vpn a \<notin> A" "ptab (pmem s) pt (vpn a) = 0"
    and f: "drop_bit 10 perm = 0" "perm OR PTE_V \<noteq> PTE_V"
  shows "runs (mappages pt a 4096 p perm t) (\<lambda>r s'.
       r = 0 \<and> (\<exists>qs. uchg pt A (p # ps) s (insert (vpn a) A) qs s' \<and> ptab (pmem s') pt (vpn a) = PA2PTE p OR (perm OR PTE_V)
            \<and> pg (pmem s') pt (vpn a) = p \<and> same_page (pmem t) (pmem s') p)
     \<or> r = -1 \<and> runs (kfree p s') (\<lambda>_ s''. \<exists>qs. uchg pt A (p # ps) s A qs s''))"
proof -
  have ut: "uspace A pt ps t" and tb: "ptab (pmem t) pt (vpn a) = 0" using t k(2) by (simp_all add: taken_def)
  have fl: "drop_bit 10 (perm OR PTE_V) = 0" using f(1) by (simp add: flags_V(1))
  show ?thesis
  proof (rule runs_mono [OF mappages_one [OF uspaceD(1) [OF ut] a tb, of p perm]], elim exE, rule disj_forward, assumption)
    fix r :: int and s' ps'
    show "r = 0 \<and> (\<exists>qs. uchg pt A (p # ps) s (insert (vpn a) A) qs s' \<and> ptab (pmem s') pt (vpn a) = PA2PTE p OR (perm OR PTE_V)
            \<and> pg (pmem s') pt (vpn a) = p \<and> same_page (pmem t) (pmem s') p)"
      if "r = 0 \<and> ptupd pt ps t ((ptab (pmem t) pt)(vpn a := PA2PTE p OR (perm OR PTE_V))) ps' s'"
      using taken_map [OF t conjunct2 [OF that] vpn_less [OF a(1)] k(1) fl flags_V(2) f(2)] that by blast
    show "r = -1 \<and> runs (kfree p s') (\<lambda>_ s''. \<exists>qs. uchg pt A (p # ps) s A qs s'')"
      if "r = -1 \<and> ptupd pt ps t (ptab (pmem t) pt) ps' s'"
      by (rule conjI [OF conjunct1 [OF that] runs_mono [OF taken_back [OF t ptupd_same [OF ut conjunct2 [OF that]]]]])
        (rule exI)
  qed
qed

text \<open>A page that has just been mapped: its entry and its zeroes.\<close>

definition fresh :: "bytes \<Rightarrow> u64 \<Rightarrow> u64 \<Rightarrow> nat \<Rightarrow> bool" where
  "fresh m pt f k \<longleftrightarrow> ptab m pt k = PA2PTE (pg m pt k) OR f \<and> rd m (unat (pg m pt k)) PGSIZE = replicate PGSIZE 0"

lemma rd_same_page: "same_page m m' q \<Longrightarrow> rd m' (unat q) PGSIZE = rd m (unat q) PGSIZE"
  by (intro nth_equalityI) (simp_all add: same_page_def)

lemma uchg_fresh:
  assumes u: "uspace A pt ps s" and c: "uchg pt A ps s B qs s'" and k: "k \<in> A \<inter> B" and f: "fresh (pmem s) pt g k"
  shows "fresh (pmem s') pt g k"
proof -
  have t: "ptab (pmem s') pt k = ptab (pmem s) pt k" and p: "same_page (pmem s) (pmem s') (pg (pmem s) pt k)"
    using c k uspace_27 [OF u, of k] by (auto simp: uchg_def)
  then show ?thesis using f rd_same_page [OF p] by (simp add: fresh_def pg_def)
qed

lemma uvm_perm:
  assumes "drop_bit 10 xperm = 0"
  shows "drop_bit 10 (PTE_R OR PTE_U OR xperm) = 0" and "PTE_R OR PTE_U OR xperm OR PTE_V \<noteq> PTE_V"
proof -
  show "drop_bit 10 (PTE_R OR PTE_U OR xperm) = 0" using assms by (simp add: PTE_R_def PTE_U_def)
  have "bit (PTE_R OR PTE_U OR xperm OR PTE_V) 1" "\<not> bit PTE_V 1" by (simp_all add: PTE_R_def PTE_V_def bit_simps)
  then show "PTE_R OR PTE_U OR xperm OR PTE_V \<noteq> PTE_V" by auto
qed

text \<open>One round of \<open>uvmalloc\<close>.\<close>

lemma uvm_round:
  assumes u: "uspace A pt ps s" and a: "a < MAXVA" "pal a" and k: "vpn a \<notin> A" "ptab (pmem s) pt (vpn a) = 0"
    and f: "drop_bit 10 xperm = 0"
    and undone: "\<And>qs s'. uchg pt A ps s A qs s' \<Longrightarrow> runs (uvmdealloc pt a st s') (\<lambda>_. Q (Some 0))"
    and map: "\<And>qs s'. uchg pt A ps s (insert (vpn a) A) qs s' \<Longrightarrow> fresh (pmem s') pt (PTE_R OR PTE_U OR xperm OR PTE_V) (vpn a) \<Longrightarrow> Q None s'"
  shows "runs (grow_page pt st xperm a s) Q"
proof (cases ps)
  case Nil
  have "kalloc s = Ok (0, s)" using km.alloc_Nil ptvD(1) [OF uspaceD(1) [OF u]] Nil by blast
  then show ?thesis using undone [OF uchg_refl [OF u]] by (simp add: grow_page_def runs_bnd)
next
  case (Cons p qs)
  note u' = u [unfolded Cons]
  let ?perm = "PTE_R OR PTE_U OR xperm" and ?undo = "bnd (uvmdealloc pt a st) (\<lambda>_. ret (Some 0))"
  have f': "drop_bit 10 ?perm = 0" "?perm OR PTE_V \<noteq> PTE_V" using uvm_perm [OF f] by (simp_all add: or.assoc)
  note v = ptvD [OF uspaceD(1) [OF u']]
  let ?t = "s\<lparr>freelist := ld64 (pmem s) (unat p), pmem := memset (memset (pmem s) (unat p) 5 PGSIZE) (unat p) 0 PGSIZE\<rparr>"
  note kz = kalloc_zero [OF v(1)]
  have al: "pal p" using kpages_ok [OF v(1), of p] by (simp add: page_ok_pal)
  have t: "taken A pt p qs s ?t"
    by (rule take_page [OF u' kz(3)]) (use zero_page_mem(2) [OF al refl, of _ "pmem s"] in \<open>simp_all add: only_mem_def\<close>)
  have z: "rd (pmem ?t) (unat p) PGSIZE = replicate PGSIZE 0" using zero_page_mem(3) [OF al refl, of "pmem s"] by simp
  have "runs (mappages pt a 4096 p ?perm ?t) (\<lambda>r s1. runs ((if r \<noteq> 0 then bnd (kfree p) (\<lambda>_. ?undo) else ret None) s1) Q)"
  proof (rule runs_mono [OF taken_mappages [OF t a k f']], elim disjE conjE exE)
    fix r :: int and s1 rs
    assume r: "r = 0" and c: "uchg pt A (p # qs) s (insert (vpn a) A) rs s1"
      "ptab (pmem s1) pt (vpn a) = PA2PTE p OR (?perm OR PTE_V)" "pg (pmem s1) pt (vpn a) = p" "same_page (pmem ?t) (pmem s1) p"
    have "fresh (pmem s1) pt (?perm OR PTE_V) (vpn a)" using c(2,3) rd_same_page [OF c(4)] z by (simp add: fresh_def)
    then show "runs ((if r \<noteq> 0 then bnd (kfree p) (\<lambda>_. ?undo) else ret None) s1) Q" using map c(1) Cons r by (auto simp: or.assoc)
  next
    fix r :: int and s1
    assume r: "r = -1" and b: "runs (kfree p s1) (\<lambda>_ s''. \<exists>qs'. uchg pt A (p # qs) s A qs' s'')"
    show "runs ((if r \<noteq> 0 then bnd (kfree p) (\<lambda>_. ?undo) else ret None) s1) Q"
      using r runs_mono [OF b, of "\<lambda>_ t. runs (?undo t) Q"] undone Cons by (auto simp: runs_bnd)
  qed
  then show ?thesis using kz(1,2) by (simp add: grow_page_def runs_bnd zero_page_def)
qed

lemma page_rounds_pgs:
  assumes "oldsz \<le> newsz" and "unat newsz \<le> 2 ^ 38"
  shows "page_rounds (PGROUNDUP oldsz) newsz = pgs newsz - pgs oldsz" and "pgs oldsz \<le> pgs newsz"
proof -
  have old: "unat oldsz \<le> 2 ^ 38" using assms by (simp add: word_le_nat_alt)
  note o = PGROUNDUP_pgs [OF old] and n = PGROUNDUP_pgs(2) [OF assms(2)]
  show mono: "pgs oldsz \<le> pgs newsz" by (rule pgs_mono [OF assms])
  show "page_rounds (PGROUNDUP oldsz) newsz = pgs newsz - pgs oldsz"
  proof (cases "pgs oldsz * PGSIZE \<le> unat newsz")
    case True
    then have "unat newsz + 4095 = (unat newsz - pgs oldsz * PGSIZE + 4095) + pgs oldsz * PGSIZE" by simp
    then have "pgs newsz = (unat newsz - pgs oldsz * PGSIZE + 4095) div PGSIZE + pgs oldsz"
      unfolding n by (simp only: div_mult_self1 PGSIZE_def)
    then show ?thesis by (simp add: page_rounds_def o(1) PGSIZE_def)
  next
    case False
    then have "pgs newsz \<le> pgs oldsz" unfolding n by (simp add: PGSIZE_def)
    then show ?thesis using False by (simp add: page_rounds_def o(1) PGSIZE_def)
  qed
qed

lemma uvm_undo:
  assumes u: "uspace A pt ps s" and c: "uchg pt A ps s (A \<union> {pgs oldsz..<pgs oldsz + i}) rs t"
    and old: "unat oldsz \<le> 2 ^ 38" and i: "pgs oldsz + i < 2 ^ 26" and A: "A \<inter> {pgs oldsz..<pgs oldsz + i} = {}"
    and free: "\<And>k. k \<in> {pgs oldsz..<pgs oldsz + i} \<Longrightarrow> ptab (pmem s) pt k = 0"
  shows "runs (uvmdealloc pt (PGROUNDUP oldsz + of_nat (i * PGSIZE)) (PGROUNDUP oldsz) t)
     (\<lambda>_ t'. \<exists>qs. uchg pt A ps s A qs t')"
proof -
  let ?v = "pgs oldsz" and ?st = "PGROUNDUP oldsz"
  let ?A = "A \<union> {?v..<?v + i}" and ?a = "?st + of_nat (i * PGSIZE)"
  note o = PGROUNDUP_pgs [OF old]
  have mul: "vpn ?st * PGSIZE = unat ?st" by (simp add: o(1) pgs_def)
  note a = page_addr [OF mul i [unfolded pgs_def], folded pgs_def]
  have pal: "pal ?a" by (simp only: pal_def page_aligned a(3) mod_mult_self2_is_0)
  have u': "uspace ?A pt rs t" using c by (simp add: uchg_def)
  have ua: "unat ?a \<le> 2 ^ 38" and us: "unat ?st \<le> 2 ^ 38"
    unfolding a(3) o(1) using i by (simp_all add: PGSIZE_def)
  have pa: "pgs ?a = ?v + i" and pst: "pgs ?st = ?v"
    using pgs_vpn [OF pal ua] pgs_vpn [OF o(4) us] a(1) by (simp_all add: pgs_def)
  have lt: "?st < ?a \<longleftrightarrow> 0 < i" unfolding word_less_nat_alt a(3) o(1) by (simp add: PGSIZE_def)
  show ?thesis
  proof (rule runs_mono [OF uvmdealloc_rule [OF u' ua, of ?st, unfolded pa pst]], simp, elim conjE exE)
    fix x t2 rs2
    assume e: "uchg pt ?A rs t (if ?st < ?a then ?A - {?v..<?v + i} else ?A) rs2 t2"
    have "(if ?st < ?a then ?A - {?v..<?v + i} else ?A) = A" using A unfolding lt by (cases "i = 0") auto
    with e have "uchg pt ?A rs t A rs2 t2" by simp
    then have "uchg pt A ps s A rs2 t2" by (rule uchg_trans [OF u c]) (use free in auto)
    then show "\<exists>qs. uchg pt A ps s A qs t2" by blast
  qed
qed

lemma uvmalloc_rule:
  assumes u: "uspace A pt ps s" and sz: "oldsz \<le> newsz" "unat newsz \<le> 2 ^ 38"
    and A: "A \<inter> {pgs oldsz..<pgs newsz} = {}" and free: "\<And>k. k \<in> {pgs oldsz..<pgs newsz} \<Longrightarrow> ptab (pmem s) pt k = 0"
    and x: "drop_bit 10 xperm = 0"
  shows "runs (uvmalloc pt oldsz newsz xperm s) (\<lambda>r s'. \<exists>qs.
     r = newsz \<and> uchg pt A ps s (A \<union> {pgs oldsz..<pgs newsz}) qs s'
       \<and> (\<forall>k \<in> {pgs oldsz..<pgs newsz}. fresh (pmem s') pt (PTE_R OR PTE_U OR xperm OR PTE_V) k)
     \<or> r = 0 \<and> uchg pt A ps s A qs s')"
proof -
  let ?v = "pgs oldsz" and ?w = "pgs newsz" and ?st = "PGROUNDUP oldsz"
  let ?F = "\<lambda>t k. fresh (pmem t) pt (PTE_R OR PTE_U OR xperm OR PTE_V) k"
  have old: "unat oldsz \<le> 2 ^ 38" using sz by (simp add: word_le_nat_alt)
  note o = PGROUNDUP_pgs [OF old] and n = PGROUNDUP_pgs [OF sz(2)] and pr = page_rounds_pgs [OF sz]
  have mul: "vpn ?st * PGSIZE = unat ?st" by (simp add: o(1) pgs_def)
  let ?P = "\<lambda>i t. \<exists>qs. uchg pt A ps s (A \<union> {?v..<?v + i}) qs t \<and> (\<forall>k \<in> {?v..<?v + i}. ?F t k)"
  let ?Q = "\<lambda>x t. x = 0 \<and> (\<exists>qs. uchg pt A ps s A qs t)"
  let ?C = "\<lambda>i r t. case r of None \<Rightarrow> ?P i t | Some y \<Rightarrow> ?Q y t"
  have "\<not> newsz < oldsz" using sz(1) by simp
  then show ?thesis
    unfolding uvmalloc_def Let_def pr(1) if_not_P [OF \<open>\<not> newsz < oldsz\<close>]
  proof (intro runs_bndI [where R = "?C (?w - ?v)"] runs_untilK [where P = ?P and Q = ?Q])
    show "?P 0 s" using uchg_refl [OF u] by auto
    show "runs ((case r of None \<Rightarrow> ret newsz | Some x \<Rightarrow> ret x) t) (\<lambda>r s'. \<exists>qs.
       r = newsz \<and> uchg pt A ps s (A \<union> {?v..<?w}) qs s' \<and> (\<forall>k \<in> {?v..<?w}. ?F s' k)
       \<or> r = 0 \<and> uchg pt A ps s A qs s')" if "?C (?w - ?v) r t" for r t
      using that pr(2) by (auto split: option.splits)
    fix i t
    assume i: "i < ?w - ?v" and "?P i t"
    then obtain qs where c: "uchg pt A ps s (A \<union> {?v..<?v + i}) qs t" "\<forall>k \<in> {?v..<?v + i}. ?F t k" by blast
    let ?A = "A \<union> {?v..<?v + i}" and ?a = "?st + of_nat (i * PGSIZE)"
    have i26: "?v + i < 2 ^ 26" using i n(3) by simp
    note a = page_addr [OF mul i26 [unfolded pgs_def], folded pgs_def]
    have pal: "pal ?a" by (simp only: pal_def page_aligned a(3) mod_mult_self2_is_0)
    have ut: "uspace ?A pt qs t" using c(1) by (simp add: uchg_def)
    have ns: "?v + i \<notin> ?A" and "{?v..<?v + i} \<subseteq> {?v..<?w}" using A i by auto
    then have dis: "A \<inter> {?v..<?v + i} = {}" using A by blast
    have "ptab (pmem t) pt (?v + i) = ptab (pmem s) pt (?v + i)" using c(1) i26 ns by (simp add: uchg_def)
    then have tab: "ptab (pmem t) pt (?v + i) = 0" using free [of "?v + i"] i by simp
    show "runs (grow_page pt ?st xperm ?a t) (?C (Suc i))"
    proof (rule uvm_round [OF ut a(2) pal _ _ x], unfold a(1))
      show "?v + i \<notin> ?A" "ptab (pmem t) pt (?v + i) = 0" by (rule ns, rule tab)
      show "?C (Suc i) None t'"
        if m: "uchg pt ?A qs t (insert (?v + i) ?A) rs t'" "?F t' (?v + i)" for rs t'
      proof -
        have set: "insert (?v + i) ?A = A \<union> {?v..<?v + Suc i}" by auto
        have "uchg pt A ps s (insert (?v + i) ?A) rs t'" by (rule uchg_trans [OF u c(1) m(1)]) auto
        moreover have "?F t' k" if "k \<in> {?v..<?v + Suc i}" for k
          using that m(2) uchg_fresh [OF ut m(1), of k] c(2) by (cases "k = ?v + i") auto
        ultimately show ?thesis unfolding set by auto
      qed
      show "runs (uvmdealloc pt ?a ?st t') (\<lambda>_. ?C (Suc i) (Some 0))" if m: "uchg pt ?A qs t ?A rs t'" for rs t'
      proof (rule runs_mono [OF uvm_undo [OF u _ old i26 dis]])
        show "uchg pt A ps s ?A rs t'" by (rule uchg_trans [OF u c(1) m]) auto
      qed (use free i in auto)
    qed
  qed simp
qed


section \<open>Two address spaces\<close>

text \<open>The pages of the one are not the pages of the other.\<close>

definition apart :: "nat set \<Rightarrow> u64 \<Rightarrow> nat set \<Rightarrow> u64 \<Rightarrow> bytes \<Rightarrow> bool" where
  "apart A old B new m \<longleftrightarrow> (tset m 2 old \<union> pg m old ` A) \<inter> (tset m 2 new \<union> pg m new ` B) = {}"

lemma other_space:
  assumes uo: "uspace A old ps s" and un: "uspace B new ps s" and ap: "apart A old B new (pmem s)"
    and c: "uchg new B ps s C qs t"
  shows "uspace A old qs t" and "ptab (pmem t) old = ptab (pmem s) old" and "apart A old C new (pmem t)"
    and "q \<in> tset (pmem s) 2 old \<union> pg (pmem s) old ` A \<Longrightarrow> same_page (pmem s) (pmem t) q"
proof -
  note d = uspaceD [OF uo]
  note v = ptvD [OF d(1)]
  have om: "only_mem s t" and ut: "uspace C new qs t" and po: "pool C new qs t = pool B new ps s"
    using c by (simp_all add: uchg_def)
  have out: "q \<notin> pool B new ps s \<and> pal q" if "q \<in> tset (pmem s) 2 old \<union> pg (pmem s) old ` A" for q
    using that ap v(4,5) d(7) unfolding apart_def pool_def by auto
  then show same: "same_page (pmem s) (pmem t) q" if "q \<in> tset (pmem s) 2 old \<union> pg (pmem s) old ` A" for q
    using c that unfolding uchg_def by blast
  have disj: "set qs \<inter> tset (pmem s) 2 old = {}" using out po unfolding pool_def by blast
  have in_t: "\<And>q. q \<in> tset (pmem s) 2 old \<Longrightarrow> same_page (pmem s) (pmem t) q" using same by blast
  note m = ptv_mem(1-3) [OF d(1) in_t ptvD(1) [OF uspaceD(1) [OF ut]] disj om]
  show "ptab (pmem t) old = ptab (pmem s) old" by (rule m(3))
  have nq: "pg (pmem s) old k \<notin> set qs" if "k \<in> A" for k using out po that unfolding pool_def by blast
  show "uspace A old qs t"
    by (rule uspace_ptv [OF uo m(1) om]) (use m(2,3) d(6,9) nq in \<open>auto simp: frame_def\<close>)
  have "pg (pmem t) old = pg (pmem s) old" using m(3) by (simp add: pg_def fun_eq_iff)
  then have eq: "tset (pmem t) 2 old \<union> pg (pmem t) old ` A = tset (pmem s) 2 old \<union> pg (pmem s) old ` A" using m(2) by simp
  have "tset (pmem t) 2 new \<union> pg (pmem t) new ` C \<subseteq> pool B new ps s" using po unfolding pool_def by blast
  then show "apart A old C new (pmem t)" unfolding apart_def eq using out by blast
qed

text \<open>The page \<open>k\<close> of \<open>new\<close> is a copy of what the page \<open>k\<close> of \<open>old\<close> was.\<close>

definition copied :: "bytes \<Rightarrow> u64 \<Rightarrow> u64 \<Rightarrow> nat \<Rightarrow> bytes \<Rightarrow> bool" where
  "copied m old new k m' \<longleftrightarrow> ptab m' new k = PA2PTE (pg m' new k) OR PTE_FLAGS (ptab m old k)
     \<and> rd m' (unat (pg m' new k)) PGSIZE = rd m (unat (pg m old k)) PGSIZE"

lemma flags_valid:
  assumes "valid e"
  shows "drop_bit 10 (PTE_FLAGS e) = 0" and "PTE_FLAGS e OR PTE_V = PTE_FLAGS e"
proof -
  have e: "PTE_FLAGS e = take_bit 10 e" by (simp add: PTE_FLAGS_def take_bit_eq_mask mask_eq_exp_minus_1)
  show "drop_bit 10 (PTE_FLAGS e) = 0" unfolding e by (intro bit_word_eqI) (simp add: bit_simps)
  have V: "bit PTE_V i \<longleftrightarrow> i = 0" for i by (simp add: PTE_V_def bit_1_iff)
  have "bit e 0"
  proof (rule ccontr)
    assume "\<not> bit e 0"
    then have "\<not> bit (e AND PTE_V) i" for i by (cases "i = 0") (simp_all add: bit_and_iff V)
    then have "e AND PTE_V = 0" by (intro bit_word_eqI) simp
    with assms show False by simp
  qed
  then have "bit (take_bit 10 e OR PTE_V) n = bit (take_bit 10 e) n" for n
    by (cases "n = 0") (simp_all add: bit_or_iff bit_take_bit_iff V)
  then show "PTE_FLAGS e OR PTE_V = PTE_FLAGS e" unfolding e by (intro bit_word_eqI)
qed

text \<open>Taking a page and filling it with a copy.\<close>

lemma take_copy:
  assumes u: "uspace C new (p # qs) s" and src: "pal q" "q \<noteq> p"
  defines "s1 \<equiv> s\<lparr>freelist := ld64 (pmem s) (unat p), pmem := memset (pmem s) (unat p) 5 PGSIZE\<rparr>"
  defines "t \<equiv> s1\<lparr>pmem := memmove (pmem s1) (unat p) (unat q) PGSIZE\<rparr>"
  shows "kalloc s = Ok (p, s1)" and "p \<noteq> 0" and "taken C new p qs s t"
    and "rd (pmem t) (unat p) PGSIZE = rd (pmem s) (unat q) PGSIZE"
proof -
  note v = ptvD [OF uspaceD(1) [OF u]]
  have al: "pal p" using kpages_ok [OF v(1), of p] by (simp add: page_ok_pal)
  note kz = kalloc_zero [OF v(1)]
  then show ka: "kalloc s = Ok (p, s1)" and "p \<noteq> 0" by (simp_all add: s1_def)
  then have k1: "kpages s1 qs" using km.alloc_Cons [OF v(1)] by auto
  have m1: "pmem s1 = wr (pmem s) (unat p) (replicate PGSIZE 5)" by (simp add: s1_def memset_eq)
  have mt: "pmem t = wr (pmem s1) (unat p) (rd (pmem s1) (unat q) PGSIZE)" by (simp add: t_def memmove_eq)
  have "p \<notin> set qs" using km.pages_distinct [OF v(1)] by simp
  then have "kpages t qs" unfolding t_def memmove_eq by (intro kpages_wr [OF k1 _ al]) simp_all
  moreover have "same_page (pmem s) (pmem t) r" if "pal r" "r \<noteq> p" for r
    unfolding mt m1 by (rule same_page_trans [OF same_page_wr [OF that(1) al that(2)] same_page_wr [OF that(1) al that(2)]]) simp_all
  moreover have "only_mem s t" by (simp add: t_def s1_def only_mem_def)
  ultimately show "taken C new p qs s t" by (intro take_page [OF u])
  have "same_page (pmem s) (pmem s1) q" unfolding m1 by (rule same_page_wr [OF src(1) al src(2)]) simp_all
  from rd_same_page [OF this] show "rd (pmem t) (unat p) PGSIZE = rd (pmem s) (unat q) PGSIZE" by (simp add: mt)
qed

section \<open>Copying an address space\<close>

lemma copy_round:
  assumes uo: "uspace A old ps s" and un: "uspace C new ps s" and k: "k \<in> A" "k \<notin> C" "ptab (pmem s) new k = 0"
  shows "runs (copy_page old new (of_nat (k * PGSIZE)) s)
     (\<lambda>r t. \<exists>qs. case r of None \<Rightarrow> uchg new C ps s (insert k C) qs t \<and> copied (pmem s) old new k (pmem t)
        | Some x \<Rightarrow> x = of_nat (k * PGSIZE) \<and> uchg new C ps s C qs t)"
proof -
  note d = uspaceD [OF uo]
  let ?a = "of_nat (k * PGSIZE) :: u64" and ?e = "ptab (pmem s) old k"
  have k26: "k < 2 ^ 26" using d(2) k(1) by blast
  then have va: "vpn ?a = k" by (intro vpn_page) simp
  have "unat ?a = k * PGSIZE" using k26 by (simp add: unsigned_of_nat take_bit_nat_eq_self PGSIZE_def del: of_nat_mult)
  then have a: "?a < MAXVA" "pal ?a" using k26
    by (simp_all add: word_less_nat_alt unat_MAXVA pal_def page_aligned PGSIZE_def del: of_nat_mult)
  have e: "valid ?e" "PTE_FLAGS ?e \<noteq> PTE_V" using d(3,4) [OF k(1)] by simp_all
  obtain t where t: "pte_addr (pmem s) 2 old ?a = t + 8 * PX 0 ?a" "t + 8 * PX 0 ?a \<noteq> 0"
      "ld64 (pmem s) (unat (t + 8 * PX 0 ?a)) = ?e"
    using ltab_valid [OF d(1) a(1)] e(1) va by metis
  have w: "walk old ?a False s = Ok (t + 8 * PX 0 ?a, s)" using a(1) t(1) by (simp add: walk_ro not_le [symmetric] del: of_nat_mult)
  have fl: "drop_bit 10 (PTE_FLAGS ?e) = 0" "PTE_FLAGS ?e OR PTE_V \<noteq> PTE_V" using flags_valid [OF e(1)] e(2) by simp_all
  show ?thesis
  proof (cases ps)
    case Nil
    have "kalloc s = Ok (0, s)" using km.alloc_Nil ptvD(1) [OF d(1)] Nil by blast
    then show ?thesis using w t e uchg_refl [OF un] by (auto simp: copy_page_def runs_bnd ldpte_def simp del: of_nat_mult)
  next
    case (Cons p qs)
    have src: "pg (pmem s) old k \<noteq> p" using d(7) [OF k(1)] Cons by auto
    note tc = take_copy [OF un [unfolded Cons] pg_pal src]
    let ?s1 = "s\<lparr>freelist := ld64 (pmem s) (unat p), pmem := memset (pmem s) (unat p) 5 PGSIZE\<rparr>"
    let ?t = "?s1\<lparr>pmem := memmove (pmem ?s1) (unat p) (unat (pg (pmem s) old k)) PGSIZE\<rparr>"
    let ?R = "\<lambda>r t. \<exists>qs. case r of None \<Rightarrow> uchg new C ps s (insert k C) qs t \<and> copied (pmem s) old new k (pmem t)
        | Some x \<Rightarrow> x = ?a \<and> uchg new C ps s C qs t"
    have "runs (mappages new ?a 4096 p (PTE_FLAGS ?e) ?t)
       (\<lambda>r u. runs ((if r \<noteq> 0 then bnd (kfree p) (\<lambda>_. ret (Some ?a)) else ret None) u) ?R)"
    proof (rule runs_mono [OF taken_mappages [OF tc(3) a _ _ fl, unfolded va, OF k(2,3)]], elim disjE conjE exE)
      fix r :: int and u rs
      assume r: "r = 0" and c: "uchg new C (p # qs) s (insert k C) rs u" "ptab (pmem u) new k = PA2PTE p OR (PTE_FLAGS ?e OR PTE_V)"
        "pg (pmem u) new k = p" "same_page (pmem ?t) (pmem u) p"
      have "copied (pmem s) old new k (pmem u)"
        using c(2,3) rd_same_page [OF c(4)] tc(4) flags_valid(2) [OF e(1)] by (simp add: copied_def)
      then show "runs ((if r \<noteq> 0 then bnd (kfree p) (\<lambda>_. ret (Some ?a)) else ret None) u) ?R" using c(1) Cons r by auto
    next
      fix r :: int and u
      assume r: "r = -1" and b: "runs (kfree p u) (\<lambda>_ s''. \<exists>qs'. uchg new C (p # qs) s C qs' s'')"
      show "runs ((if r \<noteq> 0 then bnd (kfree p) (\<lambda>_. ret (Some ?a)) else ret None) u) ?R"
        using r runs_mono [OF b, of "\<lambda>_ t. runs (ret (Some ?a) t) ?R"] Cons by (auto simp: runs_bnd)
    qed
    then show ?thesis using w t e tc(1,2) by (simp add: copy_page_def runs_bnd ldpte_def pg_def del: of_nat_mult)
  qed
qed

lemma copied_base:
  assumes "ptab m old k = ptab m0 old k" and "same_page m0 m (pg m0 old k)" and "copied m old new k m'"
  shows "copied m0 old new k m'"
  using assms(1,3) rd_same_page [OF assms(2)] by (simp add: copied_def pg_def)

lemma copied_uchg:
  assumes "uspace C new ps t" and "uchg new C ps t D qs u" and "k \<in> C \<inter> D" and "copied m old new k (pmem t)"
  shows "copied m old new k (pmem u)"
proof -
  have "ptab (pmem u) new k = ptab (pmem t) new k" and p: "same_page (pmem t) (pmem u) (pg (pmem t) new k)"
    using assms(2,3) uspace_27 [OF assms(1), of k] by (auto simp: uchg_def)
  then show ?thesis using assms(4) rd_same_page [OF p] by (simp add: copied_def pg_def)
qed

lemma uvmcopy_rule:
  assumes uo: "uspace A old ps s" and un: "uspace B new ps s" and ap: "apart A old B new (pmem s)"
    and sz: "unat sz \<le> 2 ^ 38" and A: "{..<pgs sz} \<subseteq> A" and B: "B \<inter> {..<pgs sz} = {}"
    and free: "\<And>k. k < pgs sz \<Longrightarrow> ptab (pmem s) new k = 0"
  shows "runs (uvmcopy old new sz s) (\<lambda>r s'. \<exists>qs.
     r = 0 \<and> uchg new B ps s (B \<union> {..<pgs sz}) qs s' \<and> (\<forall>k < pgs sz. copied (pmem s) old new k (pmem s'))
     \<or> r = -1 \<and> uchg new B ps s B qs s')"
proof -
  let ?n = "pgs sz" and ?C = "\<lambda>i. B \<union> {..<i}"
  note n = PGROUNDUP_pgs [OF sz]
  have rounds: "page_rounds 0 sz = ?n" by (simp add: page_rounds_def n(2) PGSIZE_def)
  let ?P = "\<lambda>i t. \<exists>qs. uchg new B ps s (?C i) qs t \<and> (\<forall>k < i. copied (pmem s) old new k (pmem t))"
  let ?Q = "\<lambda>(x :: u64) t. \<exists>qs k. k < ?n \<and> x = of_nat (k * PGSIZE) \<and> uchg new B ps s (?C k) qs t"
  show ?thesis
    unfolding uvmcopy_def Let_def rounds
  proof (rule runs_bndI, rule runs_untilK [where P = ?P and Q = ?Q])
    show "?P 0 s" using uchg_refl [OF un] by auto
    fix i t
    assume i: "i < ?n" and "?P i t"
    then obtain qs where c: "uchg new B ps s (?C i) qs t" "\<forall>k < i. copied (pmem s) old new k (pmem t)" by blast
    have ut: "uspace (?C i) new qs t" using c(1) by (simp add: uchg_def)
    note os = other_space [OF uo un ap c(1)]
    have iA: "i \<in> A" and iB: "i \<notin> ?C i" using A B i by auto
    have i27: "i < 2 ^ 27" using i n(3) by simp
    have "ptab (pmem t) new i = ptab (pmem s) new i" using c(1) i27 iB by (simp add: uchg_def)
    then have tab: "ptab (pmem t) new i = 0" using free [OF i] by simp
    have eq: "insert i (?C i) = ?C (Suc i)" by auto
    have same: "ptab (pmem t) old i = ptab (pmem s) old i" "same_page (pmem s) (pmem t) (pg (pmem s) old i)"
      using os(2,4) iA by auto
    have tr: "uchg new B ps s D rs u" if "uchg new (?C i) qs t D rs u" "B \<subseteq> D" for D rs u
      by (rule uchg_trans [OF un c(1) that(1)]) (use free i that(2) in auto)
    show "runs (copy_page old new (of_nat (i * PGSIZE)) t)
        (\<lambda>r u. case r of None \<Rightarrow> ?P (Suc i) u | Some x \<Rightarrow> ?Q x u)"
    proof (rule runs_mono [OF copy_round [OF os(1) ut iA iB tab]], elim exE)
      fix r :: "u64 option" and u rs
      assume r: "case r of None \<Rightarrow> uchg new (?C i) qs t (insert i (?C i)) rs u \<and> copied (pmem t) old new i (pmem u)
        | Some x \<Rightarrow> x = of_nat (i * PGSIZE) \<and> uchg new (?C i) qs t (?C i) rs u"
      show "case r of None \<Rightarrow> ?P (Suc i) u | Some x \<Rightarrow> ?Q x u"
      proof (cases r)
        case None
        with r have m: "uchg new (?C i) qs t (insert i (?C i)) rs u" "copied (pmem t) old new i (pmem u)" by simp_all
        have "copied (pmem s) old new k (pmem u)" if "k < Suc i" for k
          using that copied_base [OF same m(2)] copied_uchg [OF ut m(1), of k] c(2) by (cases "k = i") auto
        moreover have "uchg new B ps s (?C (Suc i)) rs u" using tr [OF m(1)] unfolding eq by auto
        ultimately show ?thesis using None by auto
      next
        case (Some x)
        with r have "x = of_nat (i * PGSIZE)" "uchg new B ps s (?C i) rs u" using tr by auto
        with Some i show ?thesis by auto
      qed
    qed
  next
    fix r :: "u64 option" and t
    assume r: "case r of None \<Rightarrow> ?P ?n t | Some x \<Rightarrow> ?Q x t"
    show "runs ((case r of None \<Rightarrow> ret 0 | Some i \<Rightarrow> bnd (uvmunmap new 0 (i div 4096) True) (\<lambda>_. ret (-1))) t) (\<lambda>r s'. \<exists>qs.
       r = 0 \<and> uchg new B ps s (?C ?n) qs s' \<and> (\<forall>k < ?n. copied (pmem s) old new k (pmem s')) \<or> r = -1 \<and> uchg new B ps s B qs s')"
    proof (cases r)
      case None
      then show ?thesis using r by auto
    next
      case (Some x)
      then obtain qs k where k: "k < ?n" "x = of_nat (k * PGSIZE)" and c: "uchg new B ps s (?C k) qs t" using r by auto
      have ux: "unat (x div 4096) = k"
        using k n(3) vpn_page [of k] by (simp add: unat_div vpn_def PGSIZE_def del: of_nat_mult)
      have ut: "uspace (?C k) new qs t" using c by (simp add: uchg_def)
      have um: "runs (uvmunmap new 0 (x div 4096) True t) (\<lambda>_ t'. \<exists>rs. uchg new (?C k) qs t (?C k - {0..<k}) rs t')"
        using uvmunmap_rule [OF ut, of 0 "x div 4096", unfolded ux] k(1) n(3) by (simp add: vpn_def PGSIZE_def lessThan_atLeast0)
      have eq: "?C k - {0..<k} = B" using B k(1) by auto
      show ?thesis
        unfolding Some option.case
      proof (rule runs_bndI, rule um [unfolded eq], elim exE)
        fix y t' rs
        assume "uchg new (?C k) qs t B rs t'"
        then have "uchg new B ps s B rs t'" by (rule uchg_trans [OF un c]) (use free k(1) in auto)
        then show "runs (ret (-1) t') (\<lambda>r s'. \<exists>qs. r = 0 \<and> uchg new B ps s (?C ?n) qs s'
          \<and> (\<forall>k < ?n. copied (pmem s) old new k (pmem s')) \<or> r = -1 \<and> uchg new B ps s B qs s')" by auto
      qed
    qed
  qed simp
qed

section \<open>Freeing the tables\<close>

text \<open>No entry of a lowest-level table is valid.\<close>

primrec no_leaf :: "bytes \<Rightarrow> nat \<Rightarrow> u64 \<Rightarrow> bool" where
  "no_leaf m 0 pt \<longleftrightarrow> kids m pt = {}"
| "no_leaf m (Suc l) pt \<longleftrightarrow> (\<forall>k \<in> kids m pt. no_leaf m l (kid m pt k))"

lemma no_leaf_frame:
  "\<forall>q \<in> tset m l pt. same_page m m' q \<Longrightarrow> no_leaf m' l pt = no_leaf m l pt"
proof (induction l arbitrary: pt)
  case 0
  then show ?case using same_page_kids [of m m' pt] by simp
next
  case (Suc l)
  then have pt: "kids m' pt = kids m pt" "\<And>k. k < 512 \<Longrightarrow> kid m' pt k = kid m pt k"
    using same_page_kids [of m m' pt] by auto
  have "no_leaf m' l (kid m pt k) = no_leaf m l (kid m pt k)" if "k \<in> kids m pt" for k
    by (rule Suc.IH) (use Suc.prems that in auto)
  then show ?case using pt by (auto simp: kids_def)
qed

text \<open>The pages of \<open>T\<close> have gone to the free list, and of the others only those of \<open>W\<close> have changed.\<close>

definition gaveback :: "u64 set \<Rightarrow> u64 set \<Rightarrow> u64 list \<Rightarrow> 'a kmem_st_scheme \<Rightarrow> 'a kmem_st_scheme \<Rightarrow> bool" where
  "gaveback T W ps s s' \<longleftrightarrow> (\<exists>qs. kpages s' qs \<and> set qs = set ps \<union> T) \<and> only_mem s s'
     \<and> (\<forall>q. pal q \<longrightarrow> q \<notin> set ps \<union> T \<union> W \<longrightarrow> same_page (pmem s) (pmem s') q)"

lemma gaveback_trans:
  assumes "gaveback T W ps s t" and "set qs = set ps \<union> T" and "gaveback T' W qs t u"
  shows "gaveback (T \<union> T') W ps s u"
proof -
  have "same_page (pmem s) (pmem u) q" if "pal q" "q \<notin> set ps \<union> (T \<union> T') \<union> W" for q
    using assms that same_page_trans [of "pmem s" "pmem t" q "pmem u"] by (auto simp: gaveback_def)
  then show ?thesis using assms only_mem_trans unfolding gaveback_def by (auto simp: Un_assoc)
qed

lemma gaveback_mono: "gaveback T W ps s t \<Longrightarrow> W \<subseteq> W' \<Longrightarrow> gaveback T W' ps s t"
  by (auto simp: gaveback_def)

lemma gaveback_kfree:
  assumes g: "gaveback T {p} ps s t" and p: "page_ok (kernel_end s) p" "p \<notin> set ps \<union> T"
  shows "runs (kfree p t) (\<lambda>_. gaveback (insert p T) {} ps s)"
proof -
  obtain qs where qs: "kpages t qs" "set qs = set ps \<union> T" and om: "only_mem s t" using g by (auto simp: gaveback_def)
  obtain m where f: "kfree p t = Ok ((), t\<lparr>pmem := m, freelist := p\<rparr>)"
      "kpages (t\<lparr>pmem := m, freelist := p\<rparr>) (p # qs)" "\<forall>q. pal q \<longrightarrow> q \<noteq> p \<longrightarrow> same_page (pmem t) m q"
    using kfree_page [OF qs(1), of p] p qs(2) only_mem_end [OF om] by auto
  let ?u = "t\<lparr>pmem := m, freelist := p\<rparr>"
  have "same_page (pmem s) m q" if "pal q" "q \<notin> set ps \<union> insert p T" for q
    using g f(3) that same_page_trans [of "pmem s" "pmem t" q m] by (auto simp: gaveback_def)
  moreover have "only_mem s ?u" using only_mem_trans [OF om, of ?u] by (simp add: only_mem_def)
  ultimately have "gaveback (insert p T) {} ps s ?u" using f(2) qs(2) unfolding gaveback_def by (intro conjI exI [of _ "p # qs"]) auto
  then show ?thesis using f(1) by simp
qed

lemma gaveback_store:
  assumes g: "gaveback T {p} ps s t" and p: "pal p" "p \<notin> set ps \<union> T" and k: "k < 512"
  shows "gaveback T {p} ps s (t\<lparr>pmem := st64 (pmem t) (unat p + 8 * k) v\<rparr>)"
proof -
  obtain qs where qs: "kpages t qs" "set qs = set ps \<union> T" and om: "only_mem s t" using g by (auto simp: gaveback_def)
  let ?m = "st64 (pmem t) (unat p + 8 * k) v"
  have "kpages (t\<lparr>pmem := ?m\<rparr>) qs"
    unfolding st64_def by (rule kpages_wr [OF qs(1), of p]) (use p qs(2) k in \<open>auto simp: PGSIZE_def\<close>)
  moreover have "same_page (pmem s) ?m q" if "pal q" "q \<notin> set ps \<union> T \<union> {p}" for q
    using g that same_page_st [OF p(1) that(1) _ k, of "pmem t" v] same_page_trans [of "pmem s" "pmem t" q ?m]
    by (auto simp: gaveback_def)
  moreover have "only_mem s (t\<lparr>pmem := ?m\<rparr>)" using only_mem_trans [OF om] by simp
  ultimately show ?thesis using qs(2) by (auto simp: gaveback_def)
qed

lemma freewalk_rule:
  assumes "ptv l pt ps s" and "no_leaf (pmem s) l pt"
  shows "runs (freewalk (Suc l) pt s) (\<lambda>_. gaveback (tset (pmem s) l pt) {} ps s)"
  using assms
proof (induction l arbitrary: pt ps s)
  case 0
  note d = ptvD [OF 0(1)]
  have pt: "page_ok (kernel_end s) pt" "pt \<notin> set ps" using d(3,4) by auto
  have "\<not> valid (ld64 (pmem s) (unat (pt + 8 * of_nat i)))" if "i < 512" for i
    using 0(2) that by (simp add: kids_def ent_def pte_slot [OF pt(1) that])
  then have "runs (forK (free_entry (freewalk 0) pt) [0..<512] s) (\<lambda>_ t. t = s)"
    by (intro runs_forK [where P = "\<lambda>_ t. t = s"]) (simp_all add: free_entry_def ldpte_def)
  moreover have "gaveback {} {pt} ps s s" using d(1) by (auto simp: gaveback_def)
  ultimately show ?case
    using gaveback_kfree [of "{}" pt ps s s] pt unfolding freewalk.simps(2) by (auto simp: runs_bnd elim: runs_mono)
next
  case (Suc l)
  let ?m = "pmem s" and ?K = "kids (pmem s) pt" and ?c = "kid (pmem s) pt"
  let ?T = "\<lambda>i. \<Union>k \<in> ?K \<inter> {..<i}. tset ?m l (?c k)"
  note d = ptvD [OF Suc.prems(1)]
  have pt: "page_ok (kernel_end s) pt" "pt \<notin> set ps" "pal pt" using d(3,4,5) by auto
  have ptT: "pt \<notin> ?T i" for i using d(2) by auto
  let ?P = "\<lambda>i t. gaveback (?T i) {pt} ps s t \<and> (\<forall>k. i \<le> k \<longrightarrow> k < 512 \<longrightarrow> ent (pmem t) pt k = ent ?m pt k)"
  have "runs (forK (free_entry (freewalk (Suc l)) pt) [0..<512] s) (\<lambda>_. ?P 512)"
  proof (rule runs_forK [where P = ?P])
    show "?P 0 s" using d(1) by (auto simp: gaveback_def)
    fix i t
    assume i: "i < 512" and P: "?P i t"
    obtain qs where qs: "kpages t qs" "set qs = set ps \<union> ?T i" and om: "only_mem s t" using P by (auto simp: gaveback_def)
    have e: "ld64 (pmem t) (unat (pt + 8 * of_nat i)) = ent ?m pt i"
      using P i by (simp add: pte_slot [OF pt(1) i] flip: ent_def)
    show "runs (free_entry (freewalk (Suc l)) pt i t) (\<lambda>_. ?P (Suc i))"
    proof (cases "i \<in> ?K")
      case False
      then have "?T (Suc i) = ?T i" by (auto simp: less_Suc_eq)
      with P i False show ?thesis by (simp add: free_entry_def ldpte_def e kids_def)
    next
      case True
      then have v: "valid (ent ?m pt i)" "ent ?m pt i AND (PTE_R OR PTE_W OR PTE_X) = 0"
        using d(2) by (auto simp: kids_def dirp_def)
      have Ti: "?T (Suc i) = ?T i \<union> tset ?m l (?c i)" using True by (auto simp: less_Suc_eq)
      have dis: "tset ?m l (?c i) \<inter> (set ps \<union> ?T i \<union> {pt}) = {}"
      proof -
        have "tset ?m l (?c k) \<inter> tset ?m l (?c i) = {}" if "k \<in> ?K" "k < i" for k using d(2) True that by simp
        then have "tset ?m l (?c i) \<inter> ?T i = {}" by fast
        moreover have "tset ?m l (?c i) \<subseteq> tset ?m (Suc l) pt" using True by auto
        then have "tset ?m l (?c i) \<inter> set ps = {}" using d(4) by fast
        moreover have "pt \<notin> tset ?m l (?c i)" using d(2) True by simp
        ultimately show ?thesis by fast
      qed
      have "\<forall>q \<in> tset ?m l (?c i). same_page ?m (pmem t) q"
      proof
        fix q
        assume q: "q \<in> tset ?m l (?c i)"
        then have "pal q" using d(5) True by auto
        moreover have "q \<notin> set ps \<union> ?T i \<union> {pt}" using dis q by fast
        ultimately show "same_page ?m (pmem t) q" using P unfolding gaveback_def by blast
      qed
      note tf = tree_frame [OF this] no_leaf_frame [OF this]
      have "tset ?m l (?c i) \<inter> set qs = {}" unfolding qs(2) using dis by fast
      moreover have "ptwf ?m l (?c i)" "\<forall>q \<in> tset ?m l (?c i). page_ok (kernel_end t) q"
        using d(2,3) True only_mem_end [OF om] by auto
      ultimately have "ptv l (?c i) qs t" using qs(1) tf(1) unfolding ptv_def by auto
      moreover have "no_leaf (pmem t) l (?c i)" using Suc.prems(2) True tf(2) by simp
      ultimately have r: "runs (freewalk (Suc l) (?c i) t) (\<lambda>_. gaveback (tset ?m l (?c i)) {} qs t)"
        using Suc.IH [of "?c i" qs t] tf(1) by simp
      have "runs (freewalk (Suc l) (?c i) t) (\<lambda>_ u. ?P (Suc i) (u\<lparr>pmem := st64 (pmem u) (unat pt + 8 * i) 0\<rparr>))"
      proof (rule runs_mono [OF r])
        fix x u
        assume g: "gaveback (tset ?m l (?c i)) {} qs t u"
        have g': "gaveback (?T (Suc i)) {pt} ps s u"
          unfolding Ti using gaveback_trans [OF conjunct1 [OF P] qs(2) gaveback_mono [OF g]] by simp
        have "pt \<notin> set ps \<union> ?T (Suc i)" using pt(2) ptT by blast
        note st = gaveback_store [OF g' pt(3) this i, of 0]
        have "same_page (pmem t) (pmem u) pt"
        proof -
          have "pt \<notin> set qs" unfolding qs(2) using pt(2) ptT [of i] by simp
          moreover have "pt \<notin> tset ?m l (?c i)" using d(2) True by simp
          ultimately have "pt \<notin> set qs \<union> tset ?m l (?c i) \<union> {}" by simp
          then show ?thesis using g pt(3) unfolding gaveback_def by blast
        qed
        then have "ent (st64 (pmem u) (unat pt + 8 * i) 0) pt k = ent ?m pt k" if "Suc i \<le> k" "k < 512" for k
          using that P i by (subst ent_st [OF pt(3,3)]) (auto simp: same_page_ent)
        with st show "?P (Suc i) (u\<lparr>pmem := st64 (pmem u) (unat pt + 8 * i) 0\<rparr>)" by simp
      qed
      then show ?thesis using v
        unfolding free_entry_def ldpte_def stpte_def kid_def runs_gets e
        by (simp add: runs_bnd pte_slot [OF pt(1) i] del: freewalk.simps)
    qed
  qed
  note loop = this
  have all: "insert pt (?T 512) = tset ?m (Suc l) pt" by (auto simp: kids_def)
  show ?case
    unfolding freewalk.simps(2) [of "Suc l"]
  proof (rule runs_bndI, rule loop, elim conjE)
    fix x t
    assume "gaveback (?T 512) {pt} ps s t"
    moreover have "pt \<notin> set ps \<union> ?T 512" using pt(2) ptT by simp
    ultimately show "runs (kfree pt t) (\<lambda>_. gaveback (tset ?m (Suc l) pt) {} ps s)"
      unfolding all [symmetric] by (intro gaveback_kfree pt(1))
  qed
qed

text \<open>A table that maps nothing has no leaf.\<close>

lemma px_number: "i < 512 \<Longrightarrow> j < 512 \<Longrightarrow> k < 512 \<Longrightarrow> n = i * 262144 + j * 512 + k \<Longrightarrow>
   n < 2 ^ 27 \<and> px 2 (of_nat (n * PGSIZE)) = i \<and> px (Suc 0) (of_nat (n * PGSIZE)) = j \<and> px 0 (of_nat (n * PGSIZE)) = k"
proof -
  assume a: "i < 512" "j < 512" "k < 512" and n: "n = i * 262144 + j * 512 + k"
  have lt: "n < 2 ^ 27" using a n by simp
  have "n = k + 512 * (i * 512 + j)" using n by simp
  then have "n mod 512 = k" using a(3) by (simp only: mod_mult_self2 mod_less)
  moreover have "n div 512 = i * 512 + j" using a n by simp
  moreover have "n div 262144 = n div 512 div 512" by (simp flip: div_mult2_eq)
  ultimately show ?thesis
    using a n lt unfolding px_div vpn_page [OF lt] by (simp add: numeral_2_eq_2)
qed

lemma no_leaf_ptab:
  assumes "\<And>k. k < 2 ^ 27 \<Longrightarrow> \<not> valid (ptab m pt k)"
  shows "no_leaf m 2 pt"
proof -
  have False if i: "i \<in> kids m pt" and j: "j \<in> kids m (kid m pt i)" and k: "k \<in> kids m (kid m (kid m pt i) j)" for i j k
  proof -
    have "i < 512" "j < 512" "k < 512" using i j k by (simp_all add: kids_def)
    from px_number [OF this refl] obtain n where n: "n < 2 ^ 27" "px 2 (of_nat (n * PGSIZE)) = i"
        "px (Suc 0) (of_nat (n * PGSIZE)) = j" "px 0 (of_nat (n * PGSIZE)) = k" by blast
    then have "ptab m pt n = ent m (kid m (kid m pt i) j) k" using i j by (simp add: ptab_def numeral_2_eq_2 del: of_nat_mult)
    with assms [OF n(1)] k show False by (simp add: kids_def)
  qed
  then show ?thesis by (auto simp: numeral_2_eq_2)
qed

lemma uvmfree_rule:
  assumes u: "uspace {..<pgs sz} pt ps s" and sz: "unat sz \<le> 2 ^ 38"
    and rest: "\<And>k. pgs sz \<le> k \<Longrightarrow> k < 2 ^ 27 \<Longrightarrow> \<not> valid (ptab (pmem s) pt k)"
  shows "runs (uvmfree pt sz s) (\<lambda>_ s'. \<exists>qs. kpages s' qs \<and> set qs = pool {..<pgs sz} pt ps s \<and> only_mem s s'
     \<and> (\<forall>q. pal q \<longrightarrow> q \<notin> pool {..<pgs sz} pt ps s \<longrightarrow> same_page (pmem s) (pmem s') q))"
proof -
  note n = PGROUNDUP_pgs [OF sz]
  have "runs (whenK (sz > 0) (uvmunmap pt 0 (PGROUNDUP sz div 4096) True) s) (\<lambda>_ t. \<exists>qs. uchg pt {..<pgs sz} ps s {} qs t)"
  proof (cases "sz > 0")
    case True
    have un: "unat (PGROUNDUP sz div 4096) = pgs sz" by (simp add: unat_div n(1) PGSIZE_def)
    have "vpn 0 = 0" by (simp add: vpn_def)
    with uvmunmap_rule [OF u, of 0 "PGROUNDUP sz div 4096", unfolded un] n(3) True show ?thesis
      by (simp add: PGSIZE_def lessThan_atLeast0)
  next
    case False
    then have "sz = 0" by (simp add: word_neq_0_conv [symmetric])
    then have "pgs sz = 0" using n(2) by (simp add: PGSIZE_def)
    then show ?thesis using False uchg_refl [OF u] by auto
  qed
  then show ?thesis
    unfolding uvmfree_def
  proof (rule runs_bndI, elim exE)
    fix x t qs
    assume c: "uchg pt {..<pgs sz} ps s {} qs t"
    then have ut: "uspace {} pt qs t" and om: "only_mem s t" and po: "pool {} pt qs t = pool {..<pgs sz} pt ps s"
      by (simp_all add: uchg_def)
    have "\<not> valid (ptab (pmem t) pt k)" if "k < 2 ^ 27" for k
      using c rest that by (cases "k < pgs sz") (auto simp: uchg_def)
    from freewalk_rule [OF uspaceD(1) [OF ut] no_leaf_ptab [OF this]]
    have fw: "runs (freewalk 3 pt t) (\<lambda>_. gaveback (tset (pmem t) 2 pt) {} qs t)" by (simp add: numeral_3_eq_3 numeral_2_eq_2)
    have po': "pool {} pt qs t = set qs \<union> tset (pmem t) 2 pt" by (simp add: pool_def)
    show "runs (freewalk 3 pt t) (\<lambda>_ s'. \<exists>qs. kpages s' qs \<and> set qs = pool {..<pgs sz} pt ps s \<and> only_mem s s'
       \<and> (\<forall>q. pal q \<longrightarrow> q \<notin> pool {..<pgs sz} pt ps s \<longrightarrow> same_page (pmem s) (pmem s') q))"
    proof (rule runs_mono [OF fw])
      fix y u
      assume g: "gaveback (tset (pmem t) 2 pt) {} qs t u"
      have "same_page (pmem s) (pmem u) q" if "pal q" "q \<notin> pool {..<pgs sz} pt ps s" for q
        using c g that same_page_trans [of "pmem s" "pmem t" q "pmem u"] po po' unfolding uchg_def gaveback_def by auto
      with g show "\<exists>qs. kpages u qs \<and> set qs = pool {..<pgs sz} pt ps s \<and> only_mem s u
         \<and> (\<forall>q. pal q \<longrightarrow> q \<notin> pool {..<pgs sz} pt ps s \<longrightarrow> same_page (pmem s) (pmem u) q)"
        using po po' only_mem_trans [OF om] unfolding gaveback_def by auto
    qed
  qed
qed

end
