(* ===== verification/Vmspec.thy ===== *)
theory Vmspec
  imports Uspace
begin

text \<open>
  The properties of virtual memory: what mapping does to a page table, what the copying routines do
  to the memory a process sees, and that growing, copying and freeing an address space loses no page.
\<close>

section \<open>A concrete address space\<close>

text \<open>
  A table at \<open>0x80101000\<close> that maps the first page to \<open>0x80104000\<close>, an empty table at \<open>0x80105000\<close>,
  and free pages from \<open>0x80106000\<close> on. \<open>put\<close> stores the first word of a page.
\<close>

definition put :: "u64 \<Rightarrow> u64 \<Rightarrow> bytes \<Rightarrow> bytes" where
  "put p v m = st64 m (unat p) v"

lemma ent_put: "pal p \<Longrightarrow> pal q \<Longrightarrow> j < 512 \<Longrightarrow> ent (put p v m) q j = (if q = p \<and> j = 0 then v else ent m q j)"
  using ent_st [of p q 0 j m v] by (simp add: put_def)

definition vtabs :: bytes where
  "vtabs = put 0x80103000 (PA2PTE 0x80104000 OR (PTE_R OR PTE_W OR PTE_U OR PTE_V))
     (put 0x80102000 (PA2PTE 0x80103000 OR PTE_V) (put 0x80101000 (PA2PTE 0x80102000 OR PTE_V) (\<lambda>_. 0)))"

definition vfree :: "u64 list" where
  "vfree = [0x80106000, 0x80107000, 0x80108000, 0x80109000, 0x8010A000]"

definition vmem :: bytes where
  "vmem = put 0x80106000 0x80107000 (put 0x80107000 0x80108000 (put 0x80108000 0x80109000
     (put 0x80109000 0x8010A000 vtabs)))"

definition vm0 :: kmem_st where
  "vm0 = kmem_st0\<lparr>pmem := vmem, freelist := 0x80106000\<rparr>"

lemma vm0_sel [simp]: "pmem vm0 = vmem" "freelist vm0 = 0x80106000" "kernel_end vm0 = 0x80100000"
  by (simp_all add: vm0_def kmem_st0_def cpu_st0_def cpu_st.defs kmem_st.defs)

lemma ent_blank [simp]: "ent (\<lambda>_. 0) p k = 0"
proof -
  have "rd (\<lambda>_. 0 :: u8) a 8 = replicate 8 0" for a by (intro nth_equalityI) simp_all
  then show ?thesis by (simp add: ent_def ld64_def eval_nat_numeral)
qed

lemma pal_pages [simp]: "pal 0x80101000" "pal 0x80102000" "pal 0x80103000" "pal 0x80104000" "pal 0x80105000"
  "pal 0x80106000" "pal 0x80107000" "pal 0x80108000" "pal 0x80109000" "pal 0x8010A000"
  by (simp_all add: pal_def)

lemma ent_vmem [simp]: "pal q \<Longrightarrow> j < 512 \<Longrightarrow> ent vmem q j =
   (if j \<noteq> 0 then 0 else if q = 0x80101000 then PA2PTE 0x80102000 OR PTE_V
    else if q = 0x80102000 then PA2PTE 0x80103000 OR PTE_V
    else if q = 0x80103000 then PA2PTE 0x80104000 OR (PTE_R OR PTE_W OR PTE_U OR PTE_V)
    else if q \<in> {0x80106000, 0x80107000, 0x80108000, 0x80109000} then q + 0x1000 else 0)"
  unfolding vmem_def vtabs_def by (auto simp: ent_put)

lemma vm0_flags:
  "drop_bit 10 (PTE_R OR PTE_W OR PTE_U OR PTE_V) = 0" "valid (PTE_R OR PTE_W OR PTE_U OR PTE_V)"
  "(PTE_R OR PTE_W OR PTE_U OR PTE_V) AND PTE_U \<noteq> 0" "PTE_R OR PTE_W OR PTE_U OR PTE_V \<noteq> PTE_V"
  by (simp_all add: PTE_R_def PTE_W_def PTE_U_def PTE_V_def drop_bit_eq_div)

lemma vm0_user: "PTE2PA (PA2PTE 0x80104000 OR (PTE_R OR PTE_W OR PTE_U OR PTE_V)) = 0x80104000"
  "valid (PA2PTE 0x80104000 OR (PTE_R OR PTE_W OR PTE_U OR PTE_V))"
  "(PA2PTE 0x80104000 OR (PTE_R OR PTE_W OR PTE_U OR PTE_V)) AND PTE_U \<noteq> 0"
  "PTE_FLAGS (PA2PTE 0x80104000 OR (PTE_R OR PTE_W OR PTE_U OR PTE_V)) \<noteq> PTE_V"
  using PTE2PA_make [of "0x80104000", OF _ vm0_flags(1)] vm0_flags by simp_all

lemma vm0_dir: "pal p \<Longrightarrow> PTE2PA (PA2PTE p OR PTE_V) = p" "pal p \<Longrightarrow> valid (PA2PTE p OR PTE_V)"
  using PTE2PA_make [of p, OF _ flags_V(1)] flags_V(2) [of 0] by (simp_all add: pal_def)

lemma vm0_kids: "kids vmem 0x80101000 = {0}" "kids vmem 0x80102000 = {0}" "kids vmem 0x80103000 = {0}" "kids vmem 0x80105000 = {}"
  "kid vmem 0x80101000 0 = 0x80102000" "kid vmem 0x80102000 0 = 0x80103000" "kid vmem 0x80103000 0 = 0x80104000"
  using vm0_dir [of "0x80102000"] vm0_dir [of "0x80103000"] vm0_user by (auto simp: kids_def kid_def split: if_splits)

lemma lvl2: "ptwf m 2 = ptwf m (Suc (Suc 0))" "tset m 2 = tset m (Suc (Suc 0))" "leaf m 2 = leaf m (Suc (Suc 0))"
  "px 2 = px (Suc (Suc 0))" "same_px 2 = same_px (Suc (Suc 0))"
  by (simp_all only: numeral_2_eq_2)

lemma vm0_tset: "tset vmem 2 0x80101000 = {0x80101000, 0x80102000, 0x80103000}" "tset vmem 2 0x80105000 = {0x80105000}"
  by (simp_all add: lvl2 vm0_kids)

lemma vm0_kpages: "kpages vm0 vfree"
proof -
  have ld: "ld64 vmem (unat q) = ent vmem q 0" for q by (simp add: ent_def)
  have "cpu_ok vm0" "lfree LKmem vm0" using kpages_st0 by (simp_all add: vm0_def kpages_def)
  then show ?thesis
    using ld [of "0x80106000"] ld [of "0x80107000"] ld [of "0x80108000"] ld [of "0x80109000"] ld [of "0x8010A000"]
    by (simp add: kpages_def kinv_def vfree_def page_ok_def PHYSTOP_def KERNBASE_def)
qed

lemma vm0_ptv: "ptv 2 0x80101000 vfree vm0" "ptv 2 0x80105000 vfree vm0"
proof -
  have "dirp (ent vmem 0x80101000 0)" "dirp (ent vmem 0x80102000 0)" using dirp_make by simp_all
  then show "ptv 2 0x80101000 vfree vm0" "ptv 2 0x80105000 vfree vm0"
    unfolding ptv_def vm0_sel vm0_tset using vm0_kpages
    by (auto simp: lvl2 vm0_kids page_ok_def PHYSTOP_def KERNBASE_def vfree_def)
qed

lemma vm0_ptab: "k < 2 ^ 27 \<Longrightarrow> ptab vmem 0x80101000 k =
    (if k = 0 then PA2PTE 0x80104000 OR (PTE_R OR PTE_W OR PTE_U OR PTE_V) else 0)"
  "ptab vmem 0x80105000 k = 0"
proof -
  show "ptab vmem 0x80105000 k = 0" by (simp add: ptab_def lvl2 vm0_kids)
  assume k: "k < 2 ^ 27"
  have z: "vpn 0 = 0" by (simp add: vpn_def)
  let ?w = "of_nat (k * PGSIZE) :: u64"
  have "same_px 2 ?w 0 \<longleftrightarrow> k = 0" using same_px_vpn [of ?w 0] k by (simp add: vpn_page z del: of_nat_mult)
  moreover have "px l 0 = 0" for l by (simp add: px_div z)
  ultimately have "px 2 ?w = 0 \<and> px (Suc 0) ?w = 0 \<and> px 0 ?w = 0 \<longleftrightarrow> k = 0" by (simp add: lvl2 del: of_nat_mult)
  then show "ptab vmem 0x80101000 k = (if k = 0 then PA2PTE 0x80104000 OR (PTE_R OR PTE_W OR PTE_U OR PTE_V) else 0)"
    by (auto simp: ptab_def lvl2 vm0_kids simp del: of_nat_mult)
qed

lemma vm0_pgs: "pgs 4096 = 1" "pgs 8192 = 2"
  by (simp_all add: PGROUNDUP_pgs(2) PGSIZE_def)

lemma vm0_uspace: "uspace {..<1} 0x80101000 vfree vm0" "uspace {} 0x80105000 vfree vm0"
proof -
  show "uspace {} 0x80105000 vfree vm0" using vm0_ptv(2) by (simp add: uspace_def vm0_ptab frame_def)
  have "{..<1} = {0 :: nat}" by auto
  then show "uspace {..<1} 0x80101000 vfree vm0"
    using vm0_ptv(1) vm0_ptab(1) vm0_user
    by (simp add: uspace_def pg_def frame_def vm0_tset vfree_def page_ok_def PHYSTOP_def KERNBASE_def)
qed

lemma vm0_apart: "apart {..<1} 0x80101000 {} 0x80105000 (pmem vm0)"
proof -
  have "{..<1} = {0 :: nat}" by auto
  then show ?thesis using vm0_ptab(1) [of 0] vm0_user(1) by (simp add: apart_def vm0_tset pg_def)
qed

section \<open>What a process sees of its pages\<close>

lemma umem_page:
  assumes u: "uspace B pt qs s" and k: "a div PGSIZE \<in> B" and U: "ptab (pmem s) pt (a div PGSIZE) AND PTE_U \<noteq> 0"
  shows "umem (pmem s) pt a = Some (pmem s (unat (pg (pmem s) pt (a div PGSIZE)) + a mod PGSIZE))"
proof -
  let ?k = "a div PGSIZE"
  note d = uspaceD [OF u]
  have "?k < 2 ^ 26" using d(2) k by blast
  then have a: "a < 2 ^ 38" using div_mult_mod_eq [of a PGSIZE] by (simp add: PGSIZE_def)
  have "pg (pmem s) pt ?k \<noteq> 0" using d(5) [OF k] ptvD(1) [OF d(1)] by (auto simp: page_ok_def kpages_def kinv_def)
  moreover have "frame (pmem s) pt ?k = pg (pmem s) pt ?k" using d(3) [OF k] U by (simp add: frame_def pg_def Let_def)
  ultimately show ?thesis using umem_frame [OF d(1), of a] a by simp
qed

lemma umem_hidden:
  "ptv 2 pt qs s \<Longrightarrow> ptab (pmem s) pt (a div PGSIZE) AND PTE_U = 0 \<Longrightarrow> umem (pmem s) pt a = None"
  by (simp add: umem_frame frame_def)

lemma fresh_umem:
  assumes u: "uspace B pt qs s" and k: "a div PGSIZE \<in> B" and f: "fresh (pmem s) pt f (a div PGSIZE)"
    and fl: "drop_bit 10 f = 0" "f AND PTE_U \<noteq> 0"
  shows "umem (pmem s) pt a = Some 0"
proof -
  let ?k = "a div PGSIZE"
  have tab: "ptab (pmem s) pt ?k = PA2PTE (pg (pmem s) pt ?k) OR f" using f by (simp add: fresh_def)
  have "ptab (pmem s) pt ?k AND PTE_U \<noteq> 0"
    unfolding tab using PTE2PA_make(3) [OF pg_pal [unfolded pal_def] fl(1)] fl(2) by simp
  moreover have "rd (pmem s) (unat (pg (pmem s) pt ?k)) PGSIZE ! (a mod PGSIZE) = 0"
    using f by (simp add: fresh_def PGSIZE_def)
  ultimately show ?thesis using umem_page [OF u k] by (simp add: PGSIZE_def)
qed

lemma flags_U: "PTE_FLAGS e AND PTE_U = e AND PTE_U"
  by (simp add: PTE_FLAGS_def PTE_U_def and.assoc)

lemma copied_umem:
  assumes uo: "uspace A old ps s" and un: "uspace B new qs t" and k: "a div PGSIZE \<in> A \<inter> B"
    and c: "copied (pmem s) old new (a div PGSIZE) (pmem t)"
  shows "umem (pmem t) new a = umem (pmem s) old a"
proof -
  let ?k = "a div PGSIZE" and ?e = "ptab (pmem s) old (a div PGSIZE)"
  have v: "valid ?e" using uspaceD(3) [OF uo] k by blast
  have tab: "ptab (pmem t) new ?k = PA2PTE (pg (pmem t) new ?k) OR PTE_FLAGS ?e" using c by (simp add: copied_def)
  have U: "ptab (pmem t) new ?k AND PTE_U = ?e AND PTE_U"
    unfolding tab using PTE2PA_make(3) [OF pg_pal [unfolded pal_def] flags_valid(1) [OF v]] by (simp add: flags_U)
  have "rd (pmem t) (unat (pg (pmem t) new ?k)) PGSIZE ! (a mod PGSIZE) = rd (pmem s) (unat (pg (pmem s) old ?k)) PGSIZE ! (a mod PGSIZE)"
    using c by (simp add: copied_def)
  then have same: "pmem t (unat (pg (pmem t) new ?k) + a mod PGSIZE) = pmem s (unat (pg (pmem s) old ?k) + a mod PGSIZE)"
    by (simp add: PGSIZE_def)
  show ?thesis
  proof (cases "?e AND PTE_U = 0")
    case True
    then show ?thesis using umem_hidden [OF uspaceD(1) [OF uo]] umem_hidden [OF uspaceD(1) [OF un]] U by simp
  next
    case False
    then show ?thesis using umem_page [OF uo, of a] umem_page [OF un, of a] k U same by simp
  qed
qed

lemma umem_outside: "uspace A pt ps s \<Longrightarrow> a div PGSIZE \<notin> A \<Longrightarrow> umem (pmem s) pt a = None"
  using uchg_umem(2) [OF _ uchg_refl] by blast

lemma uchg_umem_same:
  assumes "uspace A pt ps s" and "uchg pt A ps s A qs s'"
  shows "umem (pmem s') pt a = umem (pmem s) pt a"
  using uchg_umem [OF assms, of a] umem_outside [OF assms(1), of a] by (cases "a div PGSIZE \<in> A") auto

lemma grown_umem:
  assumes u: "uspace {..<pgs oldsz} pt ps s" and sz: "oldsz \<le> newsz" "unat newsz \<le> 2 ^ 38"
    and c: "uchg pt {..<pgs oldsz} ps s {..<pgs newsz} qs s'" and x: "drop_bit 10 xperm = 0"
    and f: "\<forall>k \<in> {pgs oldsz..<pgs newsz}. fresh (pmem s') pt (PTE_R OR PTE_U OR xperm OR PTE_V) k"
  shows "umem (pmem s') pt a = (if a < pgs oldsz * PGSIZE then umem (pmem s) pt a
     else if a < pgs newsz * PGSIZE then Some 0 else None)"
proof -
  let ?f = "PTE_R OR PTE_U OR xperm OR PTE_V"
  have dv: "a < k * PGSIZE \<longleftrightarrow> a div PGSIZE < k" for k by (simp add: div_less_iff_less_mult PGSIZE_def)
  have u': "uspace {..<pgs newsz} pt qs s'" using c by (simp add: uchg_def)
  have fl: "drop_bit 10 ?f = 0" using x by (simp add: PTE_R_def PTE_U_def PTE_V_def)
  have "bit (?f AND PTE_U) 4" by (simp add: PTE_U_def bit_simps)
  then have U: "?f AND PTE_U \<noteq> 0" by auto
  have "umem (pmem s') pt a = Some 0" if "\<not> a div PGSIZE < pgs oldsz" "a div PGSIZE < pgs newsz"
    by (rule fresh_umem [OF u' _ _ fl U]) (use that f in auto)
  then show ?thesis using uchg_umem [OF u c, of a] pgs_mono [OF sz] unfolding dv by auto
qed

text \<open>An address space whose table and pages have not changed.\<close>

lemma other_umem:
  assumes u: "uspace A pt ps s" and u': "uspace A pt qs t" and tab: "ptab (pmem t) pt = ptab (pmem s) pt"
    and same: "\<And>q. q \<in> tset (pmem s) 2 pt \<union> pg (pmem s) pt ` A \<Longrightarrow> same_page (pmem s) (pmem t) q"
  shows "umem (pmem t) pt a = umem (pmem s) pt a"
proof (cases "a div PGSIZE \<in> A")
  case True
  then have "same_page (pmem s) (pmem t) (pg (pmem s) pt (a div PGSIZE))" using same by blast
  then have "pmem t (unat (pg (pmem s) pt (a div PGSIZE)) + a mod PGSIZE) = pmem s (unat (pg (pmem s) pt (a div PGSIZE)) + a mod PGSIZE)"
    by (simp add: same_page_def PGSIZE_def)
  then show ?thesis
    using umem_page [OF u True] umem_page [OF u' True] tab umem_hidden [OF uspaceD(1) [OF u], of a] umem_hidden [OF uspaceD(1) [OF u'], of a]
    by (cases "ptab (pmem s) pt (a div PGSIZE) AND PTE_U = 0") (simp_all add: pg_def)
next
  case False
  then show ?thesis using umem_outside [OF u] umem_outside [OF u'] by simp
qed

section \<open>Properties\<close>

text \<open>C5: \<open>mappages\<close> implements an update of the abstract page table. It maps exactly the pages of the
  range, to the physical pages from \<open>pa\<close> on with the given permissions, and no other translation
  changes; it fails only when the free list is exhausted, and then a prefix of the range is mapped.
  Tables are taken from the free pages only, and no other page of memory is written.\<close>

theorem mappages_refines:
  assumes "ptv 2 pt ps s" and "sz \<noteq> 0" and "unat va + unat sz \<le> 2 ^ 38"
    and "\<And>k. vpn va \<le> k \<Longrightarrow> k < vpn va + npages va sz \<Longrightarrow> \<not> valid (ptab (pmem s) pt k)"
  shows "runs (mappages pt va sz pa perm s) (\<lambda>r s'. \<exists>ps' n. ptv 2 pt ps' s' \<and> suffix ps' ps
     \<and> (r = 0 \<and> n = npages va sz \<or> r = -1 \<and> n < npages va sz \<and> ps' = [])
     \<and> (\<forall>k < 2 ^ 27. ptab (pmem s') pt k = mapfn (ptab (pmem s) pt) (vpn va) n pa perm k)
     \<and> (\<forall>q. pal q \<longrightarrow> q \<notin> tset (pmem s) 2 pt \<union> set ps \<longrightarrow> same_page (pmem s) (pmem s') q))"
  by (rule runs_mono [OF mappages_rule [OF assms]]) (auto simp: ptupd_def)

theorem mappages_refines_witness:
  "runs (mappages 0x80101000 4096 8192 0x80200000 PTE_R vm0) (\<lambda>r s'. r = 0 \<or> r = -1)"
proof (rule runs_mono [OF mappages_refines [OF vm0_ptv(1)]])
  have "vpn (4096 + 8192 - 1) = 2" "vpn 4096 = 1" by (simp_all add: vpn_def PGSIZE_def)
  then have "vpn 4096 + npages 4096 8192 = 3" "vpn 4096 = 1" by (simp_all add: npages_def)
  then show "\<not> valid (ptab (pmem vm0) 0x80101000 k)" if "vpn 4096 \<le> k" "k < vpn 4096 + npages 4096 8192" for k
    using that vm0_ptab(1) [of k] by simp
qed auto

text \<open>C6: \<open>copyout\<close> writes the memory of the process and nothing else. The bytes land at consecutive
  virtual addresses across page boundaries; the call fails only at an address the process may not
  touch, with the bytes before it written. No page that is not one of the process's own changes, so
  page tables, the free list and other processes are untouched.\<close>

theorem copyout_umem:
  assumes "uspace A pt ps s"
  shows "runs (copyout pt va bs s) (\<lambda>r s'. \<exists>n. uspace A pt ps s'
     \<and> (r = 0 \<and> n = length bs \<or> r = -1 \<and> n < length bs \<and> umem (pmem s) pt (unat va + n) = None)
     \<and> (\<forall>a. umem (pmem s') pt a = (if unat va \<le> a \<and> a < unat va + n then Some (bs ! (a - unat va)) else umem (pmem s) pt a))
     \<and> (\<forall>q. pal q \<longrightarrow> q \<notin> pg (pmem s) pt ` A \<longrightarrow> same_page (pmem s) (pmem s') q))"
  using copyout_writes [OF assms, of va bs] by (auto simp: runs_def utouch_def)

theorem copyout_umem_witness:
  "runs (copyout 0x80101000 4094 [1, 2, 3] vm0) (\<lambda>r s'. uspace {..<1} 0x80101000 vfree s')"
  by (rule runs_mono [OF copyout_umem [OF vm0_uspace(1)]]) blast

text \<open>C13: \<open>copyin\<close> and \<open>copyinstr\<close> read the memory of the process, change nothing, and always return.
  \<open>copyin\<close> delivers exactly the bytes at the consecutive virtual addresses and fails only at an address
  the process may not touch. \<open>copyinstr\<close> delivers the bytes up to and including the first NUL; it fails
  only if there is none among the first \<open>max\<close> bytes or before an address the process may not touch.\<close>

theorem copyin_umem:
  "(\<exists>r bs. copyin pt va n s = Ok ((r, bs), s) \<and> (\<forall>i < length bs. umem (pmem s) pt (unat va + i) = Some (bs ! i))
     \<and> (r = 0 \<and> length bs = n \<or> r = -1 \<and> length bs < n \<and> umem (pmem s) pt (unat va + length bs) = None))
   \<and> (\<exists>r bs. copyinstr pt va n s = Ok ((r, bs), s) \<and> (\<forall>i < length bs. umem (pmem s) pt (unat va + i) = Some (bs ! i))
     \<and> (r = 0 \<and> (\<exists>cs. bs = cs @ [0] \<and> 0 \<notin> set cs \<and> length cs < n)
        \<or> r = -1 \<and> 0 \<notin> set bs \<and> (length bs = n \<or> length bs < n \<and> umem (pmem s) pt (unat va + length bs) = None)))"
  using copyin_reads [of pt va n s] copyinstr_reads [of pt va n s] unfolding reads_def by blast

theorem copyin_umem_witness:
  "\<exists>r bs. copyin 0x80101000 4094 3 vm0 = Ok ((r, bs), vm0)
     \<and> (r = 0 \<and> length bs = 3 \<or> r = -1 \<and> length bs < 3 \<and> umem vmem 0x80101000 (4094 + length bs) = None)"
  using copyin_umem [of "0x80101000" 4094 3 vm0] by auto

text \<open>C7: \<open>uvmalloc\<close> is all or nothing. If it succeeds the process keeps its memory and sees zeroes in the
  new pages; if memory runs out it returns 0 and the process sees what it saw before. In both cases
  the pages of the process, its tables and the free list together are the same set of pages: none
  is lost and none is used twice.\<close>

theorem uvmalloc_grows:
  assumes u: "uspace {..<pgs oldsz} pt ps s" and sz: "oldsz \<le> newsz" "unat newsz \<le> 2 ^ 38"
    and free: "\<And>k. pgs oldsz \<le> k \<Longrightarrow> k < pgs newsz \<Longrightarrow> ptab (pmem s) pt k = 0" and x: "drop_bit 10 xperm = 0"
  shows "runs (uvmalloc pt oldsz newsz xperm s) (\<lambda>r s'. \<exists>qs.
     r = newsz \<and> uspace {..<pgs newsz} pt qs s' \<and> pool {..<pgs newsz} pt qs s' = pool {..<pgs oldsz} pt ps s
       \<and> (\<forall>a. umem (pmem s') pt a = (if a < pgs oldsz * PGSIZE then umem (pmem s) pt a
                                  else if a < pgs newsz * PGSIZE then Some 0 else None))
     \<or> r = 0 \<and> uspace {..<pgs oldsz} pt qs s' \<and> pool {..<pgs oldsz} pt qs s' = pool {..<pgs oldsz} pt ps s
       \<and> (\<forall>a. umem (pmem s') pt a = umem (pmem s) pt a))"
proof -
  have dis: "{..<pgs oldsz} \<inter> {pgs oldsz..<pgs newsz} = {}" by auto
  have fr: "ptab (pmem s) pt k = 0" if "k \<in> {pgs oldsz..<pgs newsz}" for k using that free by simp
  have B: "{..<pgs oldsz} \<union> {pgs oldsz..<pgs newsz} = {..<pgs newsz}" using pgs_mono [OF sz] by auto
  show ?thesis
  proof (rule runs_mono, rule uvmalloc_rule [OF u sz dis _ x, unfolded B], erule fr, elim exE)
    fix r s' qs
    assume "r = newsz \<and> uchg pt {..<pgs oldsz} ps s {..<pgs newsz} qs s'
       \<and> (\<forall>k \<in> {pgs oldsz..<pgs newsz}. fresh (pmem s') pt (PTE_R OR PTE_U OR xperm OR PTE_V) k)
     \<or> r = 0 \<and> uchg pt {..<pgs oldsz} ps s {..<pgs oldsz} qs s'"
    then show "\<exists>qs. r = newsz \<and> uspace {..<pgs newsz} pt qs s' \<and> pool {..<pgs newsz} pt qs s' = pool {..<pgs oldsz} pt ps s
       \<and> (\<forall>a. umem (pmem s') pt a = (if a < pgs oldsz * PGSIZE then umem (pmem s) pt a
                                  else if a < pgs newsz * PGSIZE then Some 0 else None))
     \<or> r = 0 \<and> uspace {..<pgs oldsz} pt qs s' \<and> pool {..<pgs oldsz} pt qs s' = pool {..<pgs oldsz} pt ps s
       \<and> (\<forall>a. umem (pmem s') pt a = umem (pmem s) pt a)"
      using grown_umem [OF u sz _ x, of qs s'] uchg_umem_same [OF u, of qs s'] by (auto simp: uchg_def)
  qed
qed

theorem uvmalloc_grows_witness:
  "runs (uvmalloc 0x80101000 4096 8192 PTE_W vm0) (\<lambda>r s'. r = 8192 \<or> r = 0)"
proof (rule runs_mono [OF uvmalloc_grows])
  show "uspace {..<pgs 4096} 0x80101000 vfree vm0" using vm0_uspace(1) by (simp only: vm0_pgs)
  show "ptab (pmem vm0) 0x80101000 k = 0" if "pgs 4096 \<le> k" "k < pgs 8192" for k
    using that vm0_ptab(1) [of k] by (simp only: vm0_pgs) simp
qed (auto simp: PTE_W_def drop_bit_eq_div)



text \<open>C8: \<open>uvmfree\<close> leaks nothing: it returns with every page of the process and every page of its
  three-level table on the free list, each once, and changes no other page.\<close>

theorem uvmfree_returns_all:
  assumes "uspace {..<pgs sz} pt ps s" and "unat sz \<le> 2 ^ 38"
    and "\<And>k. pgs sz \<le> k \<Longrightarrow> k < 2 ^ 27 \<Longrightarrow> \<not> valid (ptab (pmem s) pt k)"
  shows "runs (uvmfree pt sz s) (\<lambda>_ s'. \<exists>qs. kpages s' qs \<and> distinct qs
     \<and> set qs = set ps \<union> tset (pmem s) 2 pt \<union> pg (pmem s) pt ` {..<pgs sz}
     \<and> (\<forall>q. pal q \<longrightarrow> q \<notin> set qs \<longrightarrow> same_page (pmem s) (pmem s') q))"
  by (rule runs_mono [OF uvmfree_rule [OF assms]]) (auto simp: pool_def dest: km.pages_distinct)

theorem uvmfree_returns_all_witness:
  "runs (uvmfree 0x80101000 4096 vm0) (\<lambda>_ s'. \<exists>qs. kpages s' qs \<and> 0x80103000 \<in> set qs)"
proof (rule runs_mono [OF uvmfree_returns_all])
  show "uspace {..<pgs 4096} 0x80101000 vfree vm0" using vm0_uspace(1) by (simp only: vm0_pgs)
  show "\<not> valid (ptab (pmem vm0) 0x80101000 k)" if "pgs 4096 \<le> k" "k < 2 ^ 27" for k
    using that(1) vm0_ptab(1) [OF that(2)] by (simp only: vm0_pgs) simp
qed (auto simp: vm0_tset)

end
