(* ===== verification/Ring.thy ===== *)
theory Ring
  imports Prelude
begin

text \<open>
  The ring buffers of the kernel: an array of \<open>N\<close> bytes with two free-running counters, the
  reader's \<open>r\<close> and the writer's \<open>w\<close>, of which the low part is the index. The pipe, the transmit
  buffer of the UART and the input buffer of the console are such rings, with counters of 32 and
  64 bits. As \<open>N\<close> divides the range of the counters, wrapping round is harmless.
\<close>

definition ring :: "nat \<Rightarrow> bytes \<Rightarrow> 'w::len word \<Rightarrow> 'w word \<Rightarrow> u8 list" where
  "ring N d r w = map (\<lambda>i. d (unat (r + of_nat i) mod N)) [0..<unat (w - r)]"

definition ring_fits :: "nat \<Rightarrow> 'w::len itself \<Rightarrow> bool" where
  "ring_fits N w \<longleftrightarrow> 0 < N \<and> N < 2 ^ LENGTH('w) \<and> N dvd 2 ^ LENGTH('w)"

lemma ring_length [simp]: "length (ring N d r w) = unat (w - r)"
  by (simp add: ring_def)

lemma ring_empty [simp]: "ring N d r r = []"
  by (simp add: ring_def)

lemma ring_Nil_iff: "ring N d r w = [] \<longleftrightarrow> r = w"
  by (auto simp: ring_def unsigned_eq_0_iff)

lemma unat_add_mod:
  fixes r :: "'w::len word"
  assumes "ring_fits N TYPE('w)"
  shows "unat (r + of_nat i) mod N = (unat r + i) mod N"
proof -
  have "unat (r + of_nat i) mod N = ((unat r + i) mod 2 ^ LENGTH('w)) mod N"
    by (simp add: unat_word_ariths unsigned_of_nat take_bit_eq_mod mod_simps)
  also have "\<dots> = (unat r + i) mod N" using assms by (simp add: ring_fits_def mod_mod_cancel)
  finally show ?thesis .
qed

lemma mod_inj_le:
  fixes a i j N :: nat
  assumes "(a + j) mod N = (a + i) mod N" and "i \<le> j" and "j < N"
  shows "i = j"
proof -
  have "N dvd (a + j) - (a + i)" using assms by (subst mod_eq_dvd_iff_nat [symmetric]) simp_all
  then have "N dvd j - i" by simp
  then show ?thesis using assms nat_dvd_not_less [of "j - i" N] by (cases "i = j") auto
qed

lemma mod_inj_range:
  fixes a i j N :: nat
  assumes "(a + i) mod N = (a + j) mod N" and "i < N" and "j < N"
  shows "i = j"
  using mod_inj_le [of a j N i] mod_inj_le [of a i N j] assms by (cases "i \<le> j") auto

lemma ring_put:
  fixes r :: "'w::len word"
  assumes f: "ring_fits N TYPE('w)" and room: "unat (w - r) < N"
  shows "ring N (d(unat w mod N := c)) r (w + 1) = ring N d r w @ [c]"
proof -
  have len: "unat (w + 1 - r) = Suc (unat (w - r))"
  proof -
    have "unat (w - r) + 1 < 2 ^ LENGTH('w)" using f room by (simp add: ring_fits_def)
    then have "unat (w - r + 1) = unat (w - r) + 1" by (simp add: unat_word_ariths)
    then show ?thesis by (simp add: algebra_simps)
  qed
  have w: "w = r + of_nat (unat (w - r))" by simp
  have i: "unat w mod N = (unat r + unat (w - r)) mod N" using unat_add_mod [OF f, of r "unat (w - r)"] by simp
  have "unat (r + of_nat k) mod N \<noteq> unat w mod N" if "k < unat (w - r)" for k
    unfolding unat_add_mod [OF f] i using mod_inj_range [of "unat r" k N "unat (w - r)"] that room by auto
  then show ?thesis by (simp add: ring_def len)
qed

lemma ring_get:
  fixes r :: "'w::len word"
  assumes "r \<noteq> w"
  shows "ring N d r w = d (unat r mod N) # ring N d (r + 1) w"
proof -
  have p: "w - r \<noteq> 0" using assms by simp
  then have n: "unat (w - r) = Suc (unat (w - (r + 1)))"
    using unat_minus_one [OF p] p by (simp add: diff_diff_eq unat_gt_0)
  show ?thesis unfolding ring_def n by (simp add: upt_conv_Cons map_Suc_upt [symmetric] add.assoc del: upt_Suc)
qed

text \<open>Taking back the last byte, and moving the writer without touching what is before it.\<close>

lemma ring_unput:
  fixes r :: "'w::len word"
  assumes "r \<noteq> w"
  shows "ring N d r (w - 1) = butlast (ring N d r w)" and "last (ring N d r w) = d (unat (w - 1) mod N)"
proof -
  have p: "w - r \<noteq> 0" using assms by simp
  then have n: "unat (w - r) = Suc (unat (w - 1 - r))"
    using unat_minus_one [OF p] p by (simp add: diff_right_commute unat_gt_0)
  show "ring N d r (w - 1) = butlast (ring N d r w)" by (simp add: ring_def n butlast_append)
  show "last (ring N d r w) = d (unat (w - 1) mod N)" unfolding ring_def n by simp
qed

lemma ring_split:
  fixes r :: "'w::len word"
  assumes "unat (w - r) \<le> unat (e - r)"
  shows "ring N d r e = ring N d r w @ ring N d w e"
proof -
  have n: "unat (e - r) = unat (w - r) + unat (e - w)"
  proof -
    have "unat ((e - r) - (w - r)) = unat (e - r) - unat (w - r)"
      using assms by (simp only: unat_sub word_le_nat_alt)
    then have "unat (e - w) = unat (e - r) - unat (w - r)" by simp
    then show ?thesis using assms by simp
  qed
  have "w = r + of_nat (unat (w - r))" by simp
  then have "map (\<lambda>i. d (unat (r + of_nat (unat (w - r) + i)) mod N)) [0..<unat (e - w)] = ring N d w e"
    by (simp add: ring_def add.assoc [symmetric])
  moreover have "[k..<k + m] = map (\<lambda>i. k + i) [0..<m]" for k m
    using map_add_upt [of k m] by (simp add: add.commute)
  ultimately show ?thesis unfolding ring_def [of N d r] n upt_add_eq_append [OF le0] by (simp add: comp_def)
qed

end
