(* ===== verification/Chardev.thy ===== *)
theory Chardev
  imports Fileops Ring
begin

text \<open>
  What the character devices promise. The transmit side of the UART is a queue: what has gone out
  followed by what waits in the ring is what was written. The console input is a line editor.
\<close>

section \<open>The transmit queue\<close>

definition pend :: "'a cons_st_scheme \<Rightarrow> u8 list" where
  "pend s = ring UART_TX_BUF_SIZE (uart_tx_buf s) (uart_tx_r s) (uart_tx_w s)"

definition sent :: "'a cons_st_scheme \<Rightarrow> u8 list" where
  "sent s = map snd (filter (\<lambda>e. fst e = THR) (uart_log s))"

lemma acq_cons [simp]:
  "uart_lsr (acq l s) = uart_lsr s" "uart_log (acq l s) = uart_log s" "uart_tx_buf (acq l s) = uart_tx_buf s"
  "uart_tx_w (acq l s) = uart_tx_w s" "uart_tx_r (acq l s) = uart_tx_r s" "panicked (acq l s) = panicked s"
  "cons_buf (acq l s) = cons_buf s" "cons_r (acq l s) = cons_r s" "cons_w (acq l s) = cons_w s" "cons_e (acq l s) = cons_e s"
  "(acq l s)\<lparr>uart_lsr := a\<rparr> = acq l (s\<lparr>uart_lsr := a\<rparr>)" "(acq l s)\<lparr>uart_log := b\<rparr> = acq l (s\<lparr>uart_log := b\<rparr>)"
  "(acq l s)\<lparr>uart_tx_buf := c\<rparr> = acq l (s\<lparr>uart_tx_buf := c\<rparr>)" "(acq l s)\<lparr>uart_tx_w := d\<rparr> = acq l (s\<lparr>uart_tx_w := d\<rparr>)"
  "(acq l s)\<lparr>uart_tx_r := d\<rparr> = acq l (s\<lparr>uart_tx_r := d\<rparr>)" "(acq l s)\<lparr>cons_buf := c\<rparr> = acq l (s\<lparr>cons_buf := c\<rparr>)"
  "(acq l s)\<lparr>cons_r := e\<rparr> = acq l (s\<lparr>cons_r := e\<rparr>)" "(acq l s)\<lparr>cons_w := e\<rparr> = acq l (s\<lparr>cons_w := e\<rparr>)"
  "(acq l s)\<lparr>cons_e := e\<rparr> = acq l (s\<lparr>cons_e := e\<rparr>)"
  by (simp_all add: acq_def pushed_def ints_def)

lemma kctx_cons [simp]:
  "kctx (s\<lparr>uart_lsr := a\<rparr>) = kctx s" "kctx (s\<lparr>uart_log := b\<rparr>) = kctx s" "kctx (s\<lparr>uart_tx_buf := c\<rparr>) = kctx s"
  "kctx (s\<lparr>uart_tx_w := d\<rparr>) = kctx s" "kctx (s\<lparr>uart_tx_r := d\<rparr>) = kctx s" "kctx (s\<lparr>cons_buf := c\<rparr>) = kctx s"
  "kctx (s\<lparr>cons_r := e\<rparr>) = kctx s" "kctx (s\<lparr>cons_w := e\<rparr>) = kctx s" "kctx (s\<lparr>cons_e := e\<rparr>) = kctx s"
  "me (s\<lparr>uart_lsr := a\<rparr>) = me s" "me (s\<lparr>uart_log := b\<rparr>) = me s" "me (s\<lparr>uart_tx_buf := c\<rparr>) = me s"
  "me (s\<lparr>uart_tx_w := d\<rparr>) = me s" "me (s\<lparr>uart_tx_r := d\<rparr>) = me s" "me (s\<lparr>cons_buf := c\<rparr>) = me s"
  "me (s\<lparr>cons_r := e\<rparr>) = me s" "me (s\<lparr>cons_w := e\<rparr>) = me s" "me (s\<lparr>cons_e := e\<rparr>) = me s"
  "cpu_ok (s\<lparr>cons_e := e\<rparr>) = cpu_ok s"
  by (rule kctx_base; simp)+

text \<open>
  \<open>drained s s'\<close>: the transmitter has taken bytes from the head of the queue, until there were no
  more or it said it was busy; nothing else has changed but processes waiting for room.
\<close>

definition drained :: "'a cons_st_scheme \<Rightarrow> 'a cons_st_scheme \<Rightarrow> bool" where
  "drained s s' \<longleftrightarrow> (\<exists>us r ps l. s' = s\<lparr>uart_lsr := drop (length us) (uart_lsr s), uart_tx_r := r, procs := ps, uart_log := l\<rparr>
     \<and> us = take (length us) (uart_lsr s) \<and> length us \<le> length (pend s)
     \<and> (\<forall>i. ps i = procs s i \<or> ps i = wake_proc ChUart (procs s i))
     \<and> sent s' @ pend s' = sent s @ pend s \<and> length (pend s') \<le> length (pend s)
     \<and> (pend s' = [] \<or> us \<noteq> [] \<and> last us AND LSR_TX_IDLE = 0))"

lemma uartstart_done: "pend s = [] \<Longrightarrow> uartstart_one k (acq l s) = Ok (Some (), acq l s)"
  by (simp add: uartstart_one_def bnd_apply pend_def ring_Nil_iff)

lemma uartstart_busy:
  assumes "pend s \<noteq> []" and "uart_lsr s = v # vs" and "v AND LSR_TX_IDLE = 0"
  shows "uartstart_one k (acq l s) = Ok (Some (), acq l (s\<lparr>uart_lsr := vs\<rparr>))"
proof -
  have "uart_tx_w s \<noteq> uart_tx_r s" using assms(1) by (auto simp: pend_def ring_Nil_iff)
  with assms show ?thesis by (simp add: uartstart_one_def bnd_apply read_lsr_def)
qed

definition send1 :: "'a cons_st_scheme \<Rightarrow> 'a cons_st_scheme" where
  "send1 s = s\<lparr>uart_lsr := tl (uart_lsr s), uart_tx_r := uart_tx_r s + 1, procs := woken ChUart (me s) (procs s),
     uart_log := uart_log s @ [(THR, hd (pend s))]\<rparr>"

lemma uartstart_send:
  assumes "kctx s" and "pend s \<noteq> []" and "uart_lsr s = v # vs" and "v AND LSR_TX_IDLE \<noteq> 0" and "\<And>i. LProc i \<noteq> l"
  shows "uartstart_one k (acq l s) = Ok (None, acq l (send1 s))"
proof -
  have ne: "uart_tx_r s \<noteq> uart_tx_w s" using assms(2) by (simp add: pend_def ring_Nil_iff)
  moreover have "uart_tx_w s \<noteq> uart_tx_r s" using ne by simp
  moreover have "hd (pend s) = uart_tx_buf s (unat (uart_tx_r s) mod UART_TX_BUF_SIZE)" using ne by (simp add: pend_def ring_get)
  ultimately show ?thesis using assms
    by (simp add: uartstart_one_def bnd_apply read_lsr_def wakeup_acq WriteReg_def send1_def)
qed

lemma send1_simps:
  "kctx s \<Longrightarrow> kctx (send1 s)" "pend s \<noteq> [] \<Longrightarrow> pend (send1 s) = tl (pend s)" "sent (send1 s) = sent s @ [hd (pend s)]"
  "uart_lsr (send1 s) = tl (uart_lsr s)" "me (send1 s) = me s"
  by (simp_all add: send1_def sent_def) (simp add: pend_def ring_Nil_iff ring_get)

lemma wake_twice: "wake_proc ch (wake_proc ch p) = wake_proc ch p"
  by (simp add: wake_proc_def)

lemma drained_send:
  assumes "pend s \<noteq> []" and "uart_lsr s = v # vs" and d: "drained (send1 s) s'"
  shows "drained s s'"
proof -
  obtain us r ps l where s': "s' = (send1 s)\<lparr>uart_lsr := drop (length us) vs, uart_tx_r := r, procs := ps, uart_log := l\<rparr>"
    and us: "us = take (length us) vs" "length us \<le> length (tl (pend s))"
    and ps: "\<And>i. ps i = procs (send1 s) i \<or> ps i = wake_proc ChUart (procs (send1 s) i)"
    and out: "sent s' @ pend s' = (sent s @ [hd (pend s)]) @ tl (pend s)" "length (pend s') \<le> length (tl (pend s))"
    and fin: "pend s' = [] \<or> us \<noteq> [] \<and> last us AND LSR_TX_IDLE = 0"
    using d assms(1,2) by (auto simp: drained_def send1_simps)
  have "ps i = procs s i \<or> ps i = wake_proc ChUart (procs s i)" for i
    using ps [of i] by (auto simp: send1_def woken_def wake_twice split: if_splits)
  moreover have "s' = s\<lparr>uart_lsr := drop (length (v # us)) (uart_lsr s), uart_tx_r := r, procs := ps, uart_log := l\<rparr>"
    using assms(2) by (simp add: s' send1_def)
  moreover have "length (v # us) \<le> length (pend s)" using us(2) assms(1) by (cases "pend s") auto
  moreover have "length (pend s') \<le> length (pend s)" "sent s' @ pend s' = sent s @ pend s" using out assms(1) by auto
  ultimately show ?thesis unfolding drained_def
    using us(1) assms(2) fin by (intro exI [of _ "v # us"] exI [of _ r] exI [of _ ps] exI [of _ l]) auto
qed

lemma drained_done: "pend s = [] \<Longrightarrow> drained s s"
  unfolding drained_def by (intro exI [of _ "[]"] exI [of _ "uart_tx_r s"] exI [of _ "procs s"] exI [of _ "uart_log s"]) simp

lemma drained_busy:
  assumes "pend s \<noteq> []" and "uart_lsr s = v # vs" and "v AND LSR_TX_IDLE = 0"
  shows "drained s (s\<lparr>uart_lsr := vs\<rparr>)"
  unfolding drained_def using assms
  by (intro exI [of _ "[v]"] exI [of _ "uart_tx_r s"] exI [of _ "procs s"] exI [of _ "uart_log s"])
    (cases "pend s", simp_all add: pend_def sent_def)

lemma uartstart_loop:
  assumes "kctx s" and "length (pend s) \<le> length (uart_lsr s)" and "length (pend s) < length xs" and "\<And>i. LProc i \<noteq> l"
  shows "\<exists>s'. untilK uartstart_one xs (acq l s) = Ok (Some (), acq l s') \<and> drained s s'"
  using assms
proof (induction xs arbitrary: s)
  case (Cons x xs)
  consider "pend s = []" | v vs where "pend s \<noteq> []" "uart_lsr s = v # vs" "v AND LSR_TX_IDLE = 0"
    | v vs where "pend s \<noteq> []" "uart_lsr s = v # vs" "v AND LSR_TX_IDLE \<noteq> 0"
    using Cons.prems(2) by (cases "uart_lsr s") auto
  then show ?case
  proof cases
    case 1
    then show ?thesis using drained_done by (auto simp: bnd_apply uartstart_done)
  next
    case 2
    then show ?thesis using drained_busy by (auto simp: bnd_apply uartstart_busy)
  next
    case 3
    have "\<exists>s'. untilK uartstart_one xs (acq l (send1 s)) = Ok (Some (), acq l s') \<and> drained (send1 s) s'"
      using Cons.prems 3(1,2) by (intro Cons.IH; cases "pend s") (auto simp: send1_simps)
    then show ?thesis using drained_send [OF 3(1,2)] uartstart_send [OF Cons.prems(1) 3 Cons.prems(4)]
      by (auto simp: bnd_apply)
  qed
qed simp

lemma uartstart_rule:
  assumes "kctx s" and "length (pend s) \<le> length (uart_lsr s)" and "\<And>i. LProc i \<noteq> l"
  shows "\<exists>s'. uartstart (acq l s) = Ok ((), acq l s') \<and> drained s s'"
proof -
  have "\<exists>s'. untilK uartstart_one [0..<Suc (length (pend s))] (acq l s) = Ok (Some (), acq l s') \<and> drained s s'"
    by (rule uartstart_loop) (use assms in simp_all)
  moreover have "length (pend s) = unat (uart_tx_w s - uart_tx_r s)" by (simp add: pend_def)
  ultimately show ?thesis by (auto simp: uartstart_def bnd_apply simp del: upt_Suc)
qed

lemma drained_kctx: "drained s s' \<Longrightarrow> kctx s \<Longrightarrow> kctx s'"
  by (auto simp: drained_def)

lemma tx_fits: "ring_fits UART_TX_BUF_SIZE TYPE(64)"
  by (simp add: ring_fits_def UART_TX_BUF_SIZE_def)

definition queued :: "u8 \<Rightarrow> 'a cons_st_scheme \<Rightarrow> 'a cons_st_scheme" where
  "queued c s = s\<lparr>uart_tx_buf := (uart_tx_buf s)(unat (uart_tx_w s) mod UART_TX_BUF_SIZE := c), uart_tx_w := uart_tx_w s + 1\<rparr>"

lemma queued_simps:
  "length (pend s) < UART_TX_BUF_SIZE \<Longrightarrow> pend (queued c s) = pend s @ [c]" "sent (queued c s) = sent s"
  "kctx (queued c s) = kctx s" "uart_lsr (queued c s) = uart_lsr s"
  by (simp_all add: pend_def queued_def sent_def ring_put tx_fits)

lemma uartputc_rule:
  assumes k: "kctx s" and np: "\<not> panicked s" and room: "length (pend s) < UART_TX_BUF_SIZE"
    and lsr: "length (pend s) < length (uart_lsr s)"
  shows "\<exists>s'. uartputc c s = Ok ((), s') \<and> drained (queued c s) s' \<and> kctx s'"
proof -
  have nf: "uart_tx_w s \<noteq> uart_tx_r s + of_nat UART_TX_BUF_SIZE"
    using room by (auto simp: pend_def UART_TX_BUF_SIZE_def)
  obtain s' where s': "uartstart (acq LUart (queued c s)) = Ok ((), acq LUart s')" and d: "drained (queued c s) s'"
    using uartstart_rule [of "queued c s" LUart] k room lsr by (auto simp: queued_simps)
  have k': "kctx s'" using drained_kctx [OF d] k by (simp add: queued_simps)
  have "uartputc c s = Ok ((), s')"
    using k np nf s' k' unfolding queued_def by (simp add: uartputc_def bnd_apply acquire_eq release_acq)
  then show ?thesis using d k' by blast
qed

lemma uartputc_full:
  assumes "kctx s" and "\<not> panicked s" and "uart_tx_w s = uart_tx_r s + of_nat UART_TX_BUF_SIZE"
  shows "uartputc c s = Blocked"
  using assms by (simp add: uartputc_def bnd_apply acquire_eq sleep_blocks)

section \<open>The console: echo\<close>

definition idle :: "nat \<Rightarrow> 'a cons_st_scheme \<Rightarrow> bool" where
  "idle n s \<longleftrightarrow> n \<le> length (uart_lsr s) \<and> (\<forall>i < n. uart_lsr s ! i AND LSR_TX_IDLE \<noteq> 0)"

definition echoed :: "u8 list \<Rightarrow> 'a cons_st_scheme \<Rightarrow> 'a cons_st_scheme" where
  "echoed cs s = s\<lparr>uart_lsr := drop (length cs) (uart_lsr s), uart_log := uart_log s @ map (Pair THR) cs\<rparr>"

lemma echoed_simps [simp]:
  "cpu_ok (echoed cs s) = cpu_ok s" "panicked (echoed cs s) = panicked s" "kctx (echoed cs s) = kctx s"
  "cons_buf (echoed cs s) = cons_buf s" "cons_r (echoed cs s) = cons_r s" "cons_w (echoed cs s) = cons_w s"
  "cons_e (echoed cs s) = cons_e s" "me (echoed cs s) = me s" "procs (echoed cs s) = procs s"
  "echoed [] s = s" "echoed ds (echoed cs s) = echoed (cs @ ds) s" "echoed cs (acq l s) = acq l (echoed cs s)"
  "(echoed cs s)\<lparr>cons_w := e\<rparr> = echoed cs (s\<lparr>cons_w := e\<rparr>)" "(echoed cs s)\<lparr>procs := p\<rparr> = echoed cs (s\<lparr>procs := p\<rparr>)"
  "(echoed cs s)\<lparr>cons_e := e\<rparr> = echoed cs (s\<lparr>cons_e := e\<rparr>)"
  "(echoed cs s)\<lparr>cons_buf := b\<rparr> = echoed cs (s\<lparr>cons_buf := b\<rparr>)"
  by (simp_all add: echoed_def cpu_ok_def ints_def add.commute)

lemma idle_echoed: "idle (length cs + n) s \<Longrightarrow> idle n (echoed cs s)"
  unfolding idle_def echoed_def by (auto simp: add.commute)

lemma idle_upd [simp]: "idle n (s\<lparr>cons_e := e\<rparr>) = idle n s" "idle n (acq l s) = idle n s"
  by (simp_all add: idle_def)

lemma pushed_cons:
  "uart_lsr (pushed s) = uart_lsr s" "uart_log (pushed s) = uart_log s" "panicked (pushed s) = panicked s"
  "(pushed s)\<lparr>uart_lsr := a\<rparr> = pushed (s\<lparr>uart_lsr := a\<rparr>)" "(pushed s)\<lparr>uart_log := b\<rparr> = pushed (s\<lparr>uart_log := b\<rparr>)"
  by (simp_all add: pushed_def ints_def)

lemma uartputc_sync_eq:
  assumes "cpu_ok s" and "\<not> panicked s" and "idle 1 s"
  shows "uartputc_sync c s = Ok ((), echoed [c] s)"
proof -
  obtain v vs where q: "uart_lsr s = v # vs" "v AND LSR_TX_IDLE \<noteq> 0"
    using assms(3) by (cases "uart_lsr s") (auto simp: idle_def)
  have ok: "cpu_ok (s\<lparr>uart_lsr := vs, uart_log := uart_log s @ [(THR, c)]\<rparr>)" using assms(1) by (simp add: cpu_ok_def ints_def)
  show ?thesis using assms q pop_off_pushed [OF ok]
    by (simp add: uartputc_sync_def bnd_apply push_off_eq read_lsr_def WriteReg_def pushed_cons echoed_def)
qed

lemma consputc_eq:
  assumes "cpu_ok s" and "\<not> panicked s" and "idle 1 s"
  shows "consputc (uint (c :: u8)) s = Ok ((), echoed [c] s)"
proof -
  have "uint c \<noteq> 0x100" using uint_lt2p [of c] by simp
  then show ?thesis using uartputc_sync_eq [OF assms] by (simp add: consputc_def BACKSPACE_def)
qed

lemma backspace_eq:
  assumes "cpu_ok s" and "\<not> panicked s" and "idle 3 s"
  shows "consputc BACKSPACE s = Ok ((), echoed [8, 32, 8] s)"
proof -
  have i: "idle 1 s" "idle 1 (echoed [8] s)" "idle 1 (echoed [8, 32] s)"
    using assms(3) by (auto simp: idle_def echoed_def)
  show ?thesis using assms(1,2) i by (simp add: consputc_def bnd_apply uartputc_sync_eq)
qed

section \<open>The console: the line editor\<close>

text \<open>
  The input buffer holds committed characters, which readers may take, and the line being edited.
  \<open>line_edit\<close> says what one typed character does to the two.
\<close>

definition committed :: "'a cons_st_scheme \<Rightarrow> u8 list" where
  "committed s = ring INPUT_BUF_SIZE (cons_buf s) (cons_r s) (cons_w s)"

definition editing :: "'a cons_st_scheme \<Rightarrow> u8 list" where
  "editing s = ring INPUT_BUF_SIZE (cons_buf s) (cons_w s) (cons_e s)"

definition cons_ok :: "'a cons_st_scheme \<Rightarrow> bool" where
  "cons_ok s \<longleftrightarrow> unat (cons_w s - cons_r s) \<le> unat (cons_e s - cons_r s)
     \<and> unat (cons_e s - cons_r s) \<le> INPUT_BUF_SIZE \<and> 10 \<notin> set (editing s) \<and> 4 \<notin> set (editing s)"

definition line_edit :: "u8 \<Rightarrow> u8 list \<times> u8 list \<Rightarrow> u8 list \<times> u8 list" where
  "line_edit c = (\<lambda>(xs, ed).
     if c = 21 then (xs, [])
     else if c = 8 \<or> c = 127 then (xs, butlast ed)
     else if c = 0 \<or> INPUT_BUF_SIZE \<le> length xs + length ed then (xs, ed)
     else let c = (if c = 13 then 10 else c); ed = ed @ [c]
       in if c = 10 \<or> c = 4 \<or> length xs + length ed = INPUT_BUF_SIZE then (xs @ ed, []) else (xs, ed))"

definition inbuf :: "'a cons_st_scheme \<Rightarrow> u8 list" where
  "inbuf s = ring INPUT_BUF_SIZE (cons_buf s) (cons_r s) (cons_e s)"

lemma cons_fits: "ring_fits INPUT_BUF_SIZE TYPE(32)"
  by (simp add: ring_fits_def INPUT_BUF_SIZE_def)

lemma inbuf_split:
  assumes "unat (cons_w s - cons_r s) \<le> unat (cons_e s - cons_r s)"
  shows "inbuf s = committed s @ editing s"
  unfolding inbuf_def committed_def editing_def by (rule ring_split [OF assms])

lemma inbuf_eqD:
  assumes "unat (cons_w s - cons_r s) \<le> unat (cons_e s - cons_r s)" and "inbuf s = xs @ ys"
    and "length xs = unat (cons_w s - cons_r s)"
  shows "committed s = xs" and "editing s = ys"
  using inbuf_split [OF assms(1)] assms(2,3) by (auto simp: committed_def)

lemma cons_len:
  assumes "cons_ok s"
  shows "unat (cons_e s - cons_r s) = length (committed s) + length (editing s)"
proof -
  have "length (inbuf s) = length (committed s) + length (editing s)"
    using assms by (simp add: inbuf_split cons_ok_def)
  then show ?thesis by (simp add: inbuf_def)
qed

lemma cons_okI:
  assumes "unat (cons_w s - cons_r s) \<le> unat (cons_e s - cons_r s)" and "unat (cons_e s - cons_r s) \<le> INPUT_BUF_SIZE"
    and "10 \<notin> set (editing s)" and "4 \<notin> set (editing s)"
  shows "cons_ok s"
  using assms by (simp add: cons_ok_def)

lemma erase_one:
  assumes ok: "cons_ok s" and ne: "cons_e s \<noteq> cons_w s"
  defines "t \<equiv> s\<lparr>cons_e := cons_e s - 1\<rparr>"
  shows "cons_ok t" and "committed t = committed s" and "editing t = butlast (editing s)"
proof -
  have ed: "editing s \<noteq> []" using ne by (auto simp: editing_def ring_Nil_iff)
  have er: "cons_r s \<noteq> cons_e s" using cons_len [OF ok] ed by auto
  have b: "editing t = butlast (editing s)" using ne ring_unput(1) [of "cons_w s" "cons_e s"] by (auto simp: editing_def t_def)
  have "inbuf t = butlast (inbuf s)" using ring_unput(1) [OF er] by (simp add: inbuf_def t_def)
  then have "length (inbuf t) = length (inbuf s) - 1" by simp
  then have l: "unat (cons_e t - cons_r s) = unat (cons_e s - cons_r s) - 1" by (simp add: inbuf_def t_def)
  show "committed t = committed s" by (simp add: committed_def t_def)
  show "editing t = butlast (editing s)" by (rule b)
  show "cons_ok t"
  proof (rule cons_okI)
    show "unat (cons_w t - cons_r t) \<le> unat (cons_e t - cons_r t)" "unat (cons_e t - cons_r t) \<le> INPUT_BUF_SIZE"
      using l cons_len [OF ok] ed ok by (auto simp: t_def cons_ok_def committed_def neq_Nil_conv)
    show "10 \<notin> set (editing t)" "4 \<notin> set (editing t)"
      using ok unfolding b cons_ok_def by (auto dest: in_set_butlastD)
  qed
qed

lemma store_one:
  fixes s :: "'a cons_st_scheme" and c :: u8
  assumes ok: "cons_ok s" and room: "unat (cons_e s - cons_r s) < INPUT_BUF_SIZE"
  defines "t \<equiv> s\<lparr>cons_buf := (cons_buf s)(unat (cons_e s) mod INPUT_BUF_SIZE := c), cons_e := cons_e s + 1\<rparr>"
  shows "committed t = committed s" and "editing t = editing s @ [c]"
    and "unat (cons_w t - cons_r t) \<le> unat (cons_e t - cons_r t)"
    and "unat (cons_e t - cons_r t) = Suc (unat (cons_e s - cons_r s))" and "inbuf t = inbuf s @ [c]"
proof -
  show i: "inbuf t = inbuf s @ [c]" using ring_put [OF cons_fits room] by (simp add: inbuf_def t_def)
  have "length (inbuf t) = Suc (length (inbuf s))" by (simp add: i)
  then show l: "unat (cons_e t - cons_r t) = Suc (unat (cons_e s - cons_r s))" by (simp add: inbuf_def t_def)
  then show le: "unat (cons_w t - cons_r t) \<le> unat (cons_e t - cons_r t)" using ok by (simp add: t_def cons_ok_def)
  have "inbuf t = committed s @ (editing s @ [c])" using ok i by (simp add: inbuf_split cons_ok_def)
  then show "committed t = committed s" "editing t = editing s @ [c]"
    using inbuf_eqD [OF le] by (simp_all add: committed_def t_def)
qed

lemma cons_views [simp]:
  "committed (echoed cs s) = committed s" "editing (echoed cs s) = editing s" "cons_ok (echoed cs s) = cons_ok s"
  "committed (acq l s) = committed s" "editing (acq l s) = editing s" "cons_ok (acq l s) = cons_ok s"
  "committed (s\<lparr>procs := ps\<rparr>) = committed s" "editing (s\<lparr>procs := ps\<rparr>) = editing s" "cons_ok (s\<lparr>procs := ps\<rparr>) = cons_ok s"
  by (simp_all add: committed_def editing_def cons_ok_def)

lemma killline_one_eq:
  assumes "cpu_ok s" and "\<not> panicked s" and "cons_ok s" and "cons_e s \<noteq> cons_w s" and "idle 3 s"
  shows "killline_one k s = Ok (None, echoed [8, 32, 8] (s\<lparr>cons_e := cons_e s - 1\<rparr>))"
proof -
  have "editing s \<noteq> []" and l: "last (editing s) = cons_buf s (unat (cons_e s - 1) mod INPUT_BUF_SIZE)"
    using assms(4) ring_unput(2) [of "cons_w s" "cons_e s"] by (auto simp: editing_def ring_Nil_iff)
  then have "cons_buf s (unat (cons_e s - 1) mod INPUT_BUF_SIZE) \<noteq> 10"
    using assms(3) last_in_set [of "editing s"] unfolding cons_ok_def by (metis l)
  then show ?thesis using assms by (simp add: killline_one_def bnd_apply backspace_eq)
qed

lemma killline_rule:
  assumes "cpu_ok s" and "\<not> panicked s" and "cons_ok s" and "length xs = length (editing s)" and "idle (3 * length xs) s"
  shows "\<exists>bs. untilK killline_one xs s = Ok (None, echoed bs (s\<lparr>cons_e := cons_w s\<rparr>))"
  using assms
proof (induction xs arbitrary: s)
  case Nil
  then have "cons_e s = cons_w s" by (simp add: editing_def unsigned_eq_0_iff)
  then show ?case by (intro exI [of _ "[]"]) (simp flip: \<open>cons_e s = cons_w s\<close>)
next
  case (Cons x xs)
  let ?t = "echoed [8, 32, 8] (s\<lparr>cons_e := cons_e s - 1\<rparr>)"
  have ne: "cons_e s \<noteq> cons_w s" using Cons.prems(4) by (auto simp: editing_def)
  note e = erase_one [OF Cons.prems(3) ne]
  have "\<exists>bs. untilK killline_one xs ?t = Ok (None, echoed bs (?t\<lparr>cons_e := cons_w ?t\<rparr>))"
  proof (rule Cons.IH)
    show "idle (3 * length xs) ?t" using Cons.prems(5) by (intro idle_echoed) (simp add: eval_nat_numeral)
  qed (use Cons.prems e in simp_all)
  moreover have "idle 3 s" using Cons.prems(5) by (auto simp: idle_def)
  ultimately show ?case using killline_one_eq [OF Cons.prems(1-3) ne] by (auto simp: bnd_apply)
qed

text \<open>\<open>typed c s s'\<close>: the effect of the character \<open>c\<close> on the console, its echo and its waiting readers.\<close>

definition typed :: "u8 \<Rightarrow> 'a cons_st_scheme \<Rightarrow> 'a cons_st_scheme \<Rightarrow> bool" where
  "typed c s s' \<longleftrightarrow> cons_ok s' \<and> (committed s', editing s') = line_edit c (committed s, editing s)
     \<and> procs s' = (if committed s' = committed s then procs s else woken ChCons (me s) (procs s))
     \<and> s' = s\<lparr>uart_lsr := uart_lsr s', uart_log := uart_log s', cons_buf := cons_buf s', cons_w := cons_w s',
          cons_e := cons_e s', procs := procs s'\<rparr>"

lemma typedI:
  assumes "cons_ok t" and "(committed t, editing t) = line_edit c (committed s, editing s)"
    and "procs t = (if committed t = committed s then procs s else woken ChCons (me s) (procs s))"
    and t: "t = s\<lparr>cons_buf := b, cons_w := w, cons_e := e, procs := p\<rparr>"
  shows "typed c s (echoed bs t)"
proof -
  have "echoed bs t = s\<lparr>uart_lsr := uart_lsr (echoed bs t), uart_log := uart_log (echoed bs t), cons_buf := cons_buf (echoed bs t),
      cons_w := cons_w (echoed bs t), cons_e := cons_e (echoed bs t), procs := procs (echoed bs t)\<rparr>"
    unfolding t by (simp add: echoed_def)
  then show ?thesis unfolding typed_def using assms(1-3) by simp
qed

lemma typed_kill:
  assumes "cons_ok s"
  shows "typed 21 s (echoed bs (s\<lparr>cons_e := cons_w s\<rparr>))"
proof -
  have "editing (s\<lparr>cons_e := cons_w s\<rparr>) = []" "committed (s\<lparr>cons_e := cons_w s\<rparr>) = committed s"
    by (simp_all add: editing_def committed_def)
  moreover then have "cons_ok (s\<lparr>cons_e := cons_w s\<rparr>)" using assms by (simp add: cons_ok_def)
  ultimately show ?thesis
    by (intro typedI [where b = "cons_buf s" and w = "cons_w s" and e = "cons_w s" and p = "procs s"]) (simp_all add: line_edit_def)
qed

lemma typed_erase:
  assumes "cons_ok s" and "cons_e s \<noteq> cons_w s" and "c = 8 \<or> c = 127"
  shows "typed c s (echoed bs (s\<lparr>cons_e := cons_e s - 1\<rparr>))"
  using erase_one [OF assms(1,2)] assms(3)
  by (intro typedI [where b = "cons_buf s" and w = "cons_w s" and e = "cons_e s - 1" and p = "procs s"]) (auto simp: line_edit_def)

lemma typed_none:
  assumes "cons_ok s" and "line_edit c (committed s, editing s) = (committed s, editing s)"
  shows "typed c s s"
  using assms unfolding typed_def by auto

lemma commit_one:
  assumes "unat (cons_w s - cons_r s) \<le> unat (cons_e s - cons_r s)" and "unat (cons_e s - cons_r s) \<le> INPUT_BUF_SIZE"
  defines "t \<equiv> s\<lparr>cons_w := cons_e s\<rparr>"
  shows "cons_ok t" and "committed t = committed s @ editing s" and "editing t = []"
proof -
  show "editing t = []" by (simp add: editing_def t_def)
  then show "cons_ok t" using assms by (simp add: cons_ok_def)
  have "committed t = inbuf s" by (simp add: committed_def inbuf_def t_def)
  then show "committed t = committed s @ editing s" using inbuf_split [OF assms(1)] by simp
qed

lemma cons_store_rule:
  assumes k: "kctx s" and np: "\<not> panicked s" and ok: "cons_ok s" and i: "idle 1 s" and c: "c \<notin> {8, 21, 127}"
  shows "\<exists>s'. cons_store c (acq LCons s) = Ok ((), acq LCons s') \<and> typed c s s'"
proof (cases "c \<noteq> 0 \<and> unat (cons_e s - cons_r s) < INPUT_BUF_SIZE")
  case False
  then have "line_edit c (committed s, editing s) = (committed s, editing s)"
    using c cons_len [OF ok] by (auto simp: line_edit_def)
  then show ?thesis using False typed_none [OF ok] by (auto simp: cons_store_def bnd_apply)
next
  case True
  define d where "d = (if c = 13 then 10 else c)"
  define t where "t = s\<lparr>cons_buf := (cons_buf s)(unat (cons_e s) mod INPUT_BUF_SIZE := d), cons_e := cons_e s + 1\<rparr>"
  define go where "go \<longleftrightarrow> d = 10 \<or> d = 4 \<or> unat (cons_e t - cons_r t) = INPUT_BUF_SIZE"
  define u where "u = (if go then t\<lparr>cons_w := cons_e t, procs := woken ChCons (me s) (procs s)\<rparr> else t)"
  note st = store_one [OF ok conjunct2 [OF True], of d, folded t_def]
  have run: "cons_store c (acq LCons s) = Ok ((), acq LCons (echoed [d] u))"
    using True k np i unfolding u_def go_def t_def d_def
    by (simp add: cons_store_def bnd_apply consputc_eq Let_def wakeup_acq whenK_def)
  have le: "unat (cons_w t - cons_r t) \<le> unat (cons_e t - cons_r t)" "unat (cons_e t - cons_r t) \<le> INPUT_BUF_SIZE"
    using st(3,4) True by simp_all
  have len: "unat (cons_e t - cons_r t) = length (committed s) + Suc (length (editing s))"
    using cons_len [OF ok] st(4) by simp
  have edit: "line_edit c (committed s, editing s) =
      (if go then (committed s @ editing s @ [d], []) else (committed s, editing s @ [d]))"
    using True c cons_len [OF ok] len unfolding go_def d_def by (auto simp: line_edit_def Let_def)
  have "typed c s (echoed [d] u)"
  proof (rule typedI)
    show "u = s\<lparr>cons_buf := cons_buf t, cons_w := if go then cons_e t else cons_w s, cons_e := cons_e t,
        procs := if go then woken ChCons (me s) (procs s) else procs s\<rparr>" by (simp add: u_def t_def)
    show "cons_ok u" using commit_one(1) [OF le] le st(2) ok
      unfolding u_def go_def by (auto simp: cons_ok_def editing_def)
    show "(committed u, editing u) = line_edit c (committed s, editing s)"
      unfolding edit u_def using commit_one(2,3) [OF le] st(1,2) by simp
    then show "procs u = (if committed u = committed s then procs s else woken ChCons (me s) (procs s))"
      unfolding edit u_def by (simp add: t_def split: if_splits)
  qed
  with run show ?thesis by blast
qed

lemma typed_frame:
  assumes "typed c s s'" and "kctx s"
  shows "kctx s'" and "pmem s' = pmem s" and "panicked s' = panicked s" and "me s' = me s"
    and "cons_r s' = cons_r s"
proof -
  have *: "s' = s\<lparr>uart_lsr := uart_lsr s', uart_log := uart_log s', cons_buf := cons_buf s', cons_w := cons_w s',
      cons_e := cons_e s', procs := procs s'\<rparr>" using assms(1) unfolding typed_def by blast
  show "kctx s'" by (subst *) (simp add: assms(2))
  show "pmem s' = pmem s" by (subst *) simp
  show "panicked s' = panicked s" by (subst *) simp
  show "me s' = me s" by (subst *) simp
  show "cons_r s' = cons_r s" by (subst *) simp
qed

lemma consoleintr_rule:
  assumes k: "kctx s" and np: "\<not> panicked s" and ok: "cons_ok s" and i: "idle (3 * INPUT_BUF_SIZE) s" and c: "c \<noteq> 16"
  shows "\<exists>s'. consoleintr c s = Ok ((), s') \<and> typed c s s' \<and> kctx s'"
proof -
  have "\<exists>s'. (if c = 16 then procdump
          else if c = 21
          then bnd (gets (\<lambda>s. unat (cons_e s - cons_w s))) (\<lambda>n.
            bnd (untilK killline_one [0..<n]) (\<lambda>_. ret ()))
          else if c = 8 \<or> c = 127
          then bnd (gets (\<lambda>s. cons_e s \<noteq> cons_w s)) (\<lambda>any.
            whenK any (bnd (modify (\<lambda>s. s\<lparr>cons_e := cons_e s - 1\<rparr>)) (\<lambda>_. consputc BACKSPACE)))
          else cons_store c) (acq LCons s) = Ok ((), acq LCons s') \<and> typed c s s'"
  proof -
    consider "c = 21" | "c = 8 \<or> c = 127" "cons_e s = cons_w s" | "c = 8 \<or> c = 127" "cons_e s \<noteq> cons_w s" | "c \<notin> {8, 21, 127}" by auto
    then show ?thesis
    proof cases
      case 1
      have n: "unat (cons_e s - cons_w s) = length (editing s)" by (simp add: editing_def)
      have "length (editing s) \<le> INPUT_BUF_SIZE" using cons_len [OF ok] ok by (simp add: cons_ok_def)
      then have "idle (3 * length (editing s)) s" using i by (auto simp: idle_def)
      then have "\<exists>bs. untilK killline_one [0..<length (editing s)] (acq LCons s)
          = Ok (None, echoed bs ((acq LCons s)\<lparr>cons_e := cons_w (acq LCons s)\<rparr>))"
        using k np ok by (intro killline_rule) simp_all
      then show ?thesis using 1 typed_kill [OF ok] by (auto simp: bnd_apply n)
    next
      case 2
      then have "typed c s s" using ok by (intro typed_none) (auto simp: line_edit_def editing_def)
      then show ?thesis using 2 by (auto simp: bnd_apply)
    next
      case 3
      have "idle 3 s" using i by (auto simp: idle_def INPUT_BUF_SIZE_def)
      then show ?thesis using 3 k np typed_erase [OF ok 3(2,1)] by (auto simp: bnd_apply backspace_eq)
    next
      case 4
      have "idle 1 s" using i by (auto simp: idle_def INPUT_BUF_SIZE_def)
      then show ?thesis using 4 c cons_store_rule [OF k np ok _ 4] by auto
    qed
  qed
  then show ?thesis using k typed_frame(1) unfolding consoleintr_def by (fastforce simp: bnd_apply acquire_eq release_acq)
qed

end
