(* ===== verification/Charspec.thy ===== *)
theory Charspec
  imports Chardev Uvm Fsspec Vmspec
begin

text \<open>
  The properties of the character devices and of pipes: the transmit queue of the UART, the line
  editor of the console and what a reader gets from it, and the first-in first-out order of a pipe,
  from the memory of the writing process to that of the reading one.
\<close>

section \<open>Writing to the console\<close>

abbreviation mypt :: "'a proc_st_scheme \<Rightarrow> u64" where
  "mypt s \<equiv> p_pagetable (procs s (me s))"

lemma drained_frame:
  assumes "drained s s'"
  shows "pmem s' = pmem s" and "panicked s' = panicked s" and "me s' = me s" and "mypt s' = mypt s"
    and "length (uart_lsr s) \<le> length (uart_lsr s') + length (pend s)" and "length (pend s') \<le> length (pend s)"
    and "sent s' @ pend s' = sent s @ pend s"
proof -
  obtain us :: "u8 list" and r ps l where s': "s' = s\<lparr>uart_lsr := drop (length us) (uart_lsr s), uart_tx_r := r, procs := ps, uart_log := l\<rparr>"
    and us: "length us \<le> length (pend s)" and ps: "\<And>i. ps i = procs s i \<or> ps i = wake_proc ChUart (procs s i)"
    using assms unfolding drained_def by blast
  show "pmem s' = pmem s" "panicked s' = panicked s" "me s' = me s" "length (uart_lsr s) \<le> length (uart_lsr s') + length (pend s)"
    using us by (simp_all add: s')
  show "mypt s' = mypt s" using ps [of "me s"] by (auto simp: s' wake_proc_def)
  show "length (pend s') \<le> length (pend s)" "sent s' @ pend s' = sent s @ pend s"
    using assms by (auto simp: drained_def)
qed

lemma queued_frame [simp]:
  "pmem (queued c s) = pmem s" "panicked (queued c s) = panicked s" "me (queued c s) = me s" "procs (queued c s) = procs s"
  by (simp_all add: queued_def)

lemma unat_add_small: "unat (a :: u64) + n < 2 ^ 64 \<Longrightarrow> unat (a + of_nat n) = unat a + n"
  by (simp add: unat_word_ariths unsigned_of_nat take_bit_nat_eq_self)

definition written :: "u64 \<Rightarrow> nat \<Rightarrow> nat \<Rightarrow> 'a cons_st_scheme \<Rightarrow> nat option \<Rightarrow> 'a cons_st_scheme \<Rightarrow> bool" where
  "written src i n s y s' \<longleftrightarrow> (\<exists>bs. reads (pmem s) (mypt s) (unat src + i) bs
     \<and> sent s' @ pend s' = sent s @ pend s @ bs
     \<and> (y = None \<and> length bs = n - i
        \<or> y = Some (i + length bs) \<and> length bs < n - i \<and> umem (pmem s) (mypt s) (unat src + i + length bs) = None))"

lemma consolewrite_loop:
  assumes "kctx s" and "\<not> panicked s" and "length (pend s) + (n - i) \<le> UART_TX_BUF_SIZE"
    and "UART_TX_BUF_SIZE * (n - i) \<le> length (uart_lsr s)" and "unat src + n < 2 ^ 64"
  shows "\<exists>y s'. untilK (consolewrite_one src) [i..<n] s = Ok (y, s') \<and> written src i n s y s'"
  using assms
proof (induction "n - i" arbitrary: i s)
  case 0
  then show ?case by (auto simp: written_def)
next
  case (Suc k)
  then have list: "[i..<n] = i # [Suc i..<n]" and i: "unat (src + of_nat i) = unat src + i"
    by (simp_all add: upt_rec unat_add_small)
  have room: "length (pend s) < UART_TX_BUF_SIZE" using Suc.prems(3) unfolding Suc.hyps(2) [symmetric] by linarith
  have m: "UART_TX_BUF_SIZE * (n - i) = UART_TX_BUF_SIZE * (n - Suc i) + UART_TX_BUF_SIZE"
    using Suc.hyps(2) by (metis add.commute diff_Suc_eq_diff_pred diff_commute diff_Suc_1 mult_Suc_right)
  then have lsr: "length (pend s) < length (uart_lsr s)" using Suc.prems(4) room by linarith
  let ?pt = "mypt s"
  obtain r bs where ci: "copyin ?pt (src + of_nat i) 1 s = Ok ((r, bs), s)" and rd: "reads (pmem s) ?pt (unat src + i) bs"
    and cases: "r = 0 \<and> length bs = 1 \<or> r = -1 \<and> length bs < 1 \<and> umem (pmem s) ?pt (unat src + i + length bs) = None"
    using copyin_reads [of ?pt "src + of_nat i" 1 s] unfolding i by blast
  from cases show ?case
  proof
    assume "r = -1 \<and> length bs < 1 \<and> umem (pmem s) ?pt (unat src + i + length bs) = None"
    then have r: "r = -1" "bs = []" "umem (pmem s) ?pt (unat src + i) = None" by auto
    then have "consolewrite_one src i s = Ok (Some i, s)" "written src i n s (Some i) s"
      using Suc.prems(1) Suc.hyps(2) ci
      by (auto simp: consolewrite_one_def bnd_apply either_copyin_USrc written_def)
    then show ?thesis by (auto simp: list bnd_apply)
  next
    assume r: "r = 0 \<and> length bs = 1"
    then obtain c where c: "bs = [c]" by (auto simp: length_Suc_conv)
    obtain s1 where p: "uartputc c s = Ok ((), s1)" and d: "drained (queued c s) s1" and k: "kctx s1"
      using uartputc_rule [OF Suc.prems(1,2) room lsr] by blast
    have one: "consolewrite_one src i s = Ok (None, s1)"
      using Suc.prems(1) ci r p by (simp add: consolewrite_one_def bnd_apply either_copyin_USrc c)
    have q: "pend (queued c s) = pend s @ [c]" "sent (queued c s) = sent s" "uart_lsr (queued c s) = uart_lsr s"
      using Suc.prems(3) Suc.hyps(2) by (simp_all add: queued_simps)
    note f = drained_frame [OF d, unfolded q queued_frame]
    have "\<exists>y s'. untilK (consolewrite_one src) [Suc i..<n] s1 = Ok (y, s') \<and> written src (Suc i) n s1 y s'"
    proof (rule Suc.hyps(1))
      show "length (pend s1) + (n - Suc i) \<le> UART_TX_BUF_SIZE" using f(6) Suc.prems(3) Suc.hyps(2) by simp
      show "UART_TX_BUF_SIZE * (n - Suc i) \<le> length (uart_lsr s1)" using f(5) Suc.prems(4) room m by simp
    qed (use Suc.prems Suc.hyps(2) k f(2) in simp_all)
    then obtain y s' bs' where u: "untilK (consolewrite_one src) [Suc i..<n] s1 = Ok (y, s')"
      and rd': "reads (pmem s) ?pt (unat src + Suc i) bs'" and out: "sent s' @ pend s' = sent s @ pend s @ c # bs'"
      and y: "y = None \<and> length bs' = n - Suc i \<or> y = Some (Suc i + length bs') \<and> length bs' < n - Suc i
        \<and> umem (pmem s) ?pt (unat src + Suc i + length bs') = None"
      using f(1,4,7) by (auto simp: written_def)
    have "reads (pmem s) ?pt (unat src + i) (c # bs')"
      using reads_append [of "pmem s" ?pt "unat src + i" "[c]" bs'] rd rd' by (simp add: c)
    then have "written src i n s y s'"
      unfolding written_def using out y Suc.hyps(2) by (intro exI [of _ "c # bs'"]) auto
    then show ?thesis using one u by (auto simp: list bnd_apply)
  qed
qed

section \<open>Reading from the console\<close>

text \<open>
  What a reader that wants \<open>n\<close> more bytes gets of the committed characters, and what it leaves: up to
  and including a newline. An end-of-file character (4) ends the reading; it stays in the buffer if the
  reader has got something already, so that the next reader gets the end of file.
\<close>

fun take_line :: "nat \<Rightarrow> bool \<Rightarrow> u8 list \<Rightarrow> u8 list \<times> u8 list" where
  "take_line 0 started cs = ([], cs)"
| "take_line (Suc n) started [] = ([], [])"
| "take_line (Suc n) started (c # cs) =
     (if c = 4 then ([], if started then c # cs else cs)
      else if c = 10 then ([c], cs)
      else (case take_line n True cs of (a, b) \<Rightarrow> (c # a, b)))"

lemma take_one:
  assumes ok: "cons_ok s" and ne: "cons_r s \<noteq> cons_w s"
  defines "t \<equiv> s\<lparr>cons_r := cons_r s + 1\<rparr>"
  shows "cons_ok t" and "committed t = tl (committed s)" and "editing t = editing s"
    and "hd (committed s) = cons_buf s (unat (cons_r s) mod INPUT_BUF_SIZE)" and "committed s \<noteq> []"
proof -
  show ed: "editing t = editing s" by (simp add: editing_def t_def)
  show co: "committed t = tl (committed s)" and "hd (committed s) = cons_buf s (unat (cons_r s) mod INPUT_BUF_SIZE)"
    and nn: "committed s \<noteq> []"
    using ring_get [OF ne, of INPUT_BUF_SIZE "cons_buf s"] by (simp_all add: committed_def t_def)
  have "cons_r s \<noteq> cons_e s" using cons_len [OF ok] nn by auto
  then have "inbuf t = tl (inbuf s)" using ring_get [of "cons_r s" "cons_e s" INPUT_BUF_SIZE "cons_buf s"]
    by (simp add: inbuf_def t_def)
  then have "length (inbuf t) = length (inbuf s) - 1" "length (committed t) = length (committed s) - 1" using co by simp_all
  then show "cons_ok t" using ok ed
    by (auto simp: cons_ok_def inbuf_def committed_def t_def intro: diff_le_mono)
qed

lemma committed_pmem [simp]: "committed (s\<lparr>pmem := m\<rparr>) = committed s" "editing (s\<lparr>pmem := m\<rparr>) = editing s" "cons_ok (s\<lparr>pmem := m\<rparr>) = cons_ok s"
  by (simp_all add: committed_def editing_def cons_ok_def)

definition got :: "nat set \<Rightarrow> u64 list \<Rightarrow> u64 \<Rightarrow> u8 list \<times> u8 list \<Rightarrow> 'a cons_st_scheme \<Rightarrow> 'a cons_st_scheme \<Rightarrow> bool" where
  "got A ps dst ab s s' \<longleftrightarrow> s' = s\<lparr>pmem := pmem s', cons_r := cons_r s'\<rparr> \<and> cons_ok s' \<and> uspace A (mypt s) ps s'
     \<and> committed s' = snd ab \<and> editing s' = editing s
     \<and> (\<forall>x. umem (pmem s') (mypt s) x = (if unat dst \<le> x \<and> x < unat dst + length (fst ab) then Some (fst ab ! (x - unat dst))
            else umem (pmem s) (mypt s) x))"

lemma uspace_cons [simp]: "uspace A pt ps (s\<lparr>cons_r := r\<rparr>) = uspace A pt ps s"
  by (simp add: uspace_def ptv_def kpages_def kinv_def cpu_ok_def lfree_def ints_def)

lemma uspace_acq: "kctx s \<Longrightarrow> l \<noteq> LKmem \<Longrightarrow> uspace A pt ps (acq l s) = uspace A pt ps s"
  by (simp add: uspace_def ptv_def kpages_def kinv_def)

lemma umem_top: "umem m pt a \<noteq> None \<Longrightarrow> a < 2 ^ 38"
  by (rule ccontr) (simp add: umem_def)

lemma copyout_byte:
  assumes k: "kctx s" "l \<noteq> LKmem" and u: "uspace A (mypt s) ps s" and m: "umem (pmem s) (mypt s) (unat dst) \<noteq> None"
  shows "\<exists>m'. copyout (mypt s) dst [c] (acq l s) = Ok (0, acq l (s\<lparr>pmem := m'\<rparr>)) \<and> uspace A (mypt s) ps (s\<lparr>pmem := m'\<rparr>)
    \<and> (\<forall>x. umem m' (mypt s) x = (if x = unat dst then Some c else umem (pmem s) (mypt s) x))"
proof -
  have "uspace A (mypt s) ps (acq l s)" using u k by (simp add: uspace_acq)
  from copyout_writes [OF this, of dst "[c]"] obtain r m' j where
    co: "copyout (mypt s) dst [c] (acq l s) = Ok (r, (acq l s)\<lparr>pmem := m'\<rparr>)" "uspace A (mypt s) ps ((acq l s)\<lparr>pmem := m'\<rparr>)"
    and x: "\<forall>a. umem m' (mypt s) a = (if unat dst \<le> a \<and> a < unat dst + j then Some ([c] ! (a - unat dst))
        else umem (pmem (acq l s)) (mypt s) a)"
    and r: "j \<le> length [c]" "r = 0 \<and> j = length [c] \<or> r = -1 \<and> j < length [c] \<and> umem (pmem (acq l s)) (mypt s) (unat dst + j) = None"
    by blast
  have "r = 0" "j = 1" using r m by (auto simp: less_Suc_eq)
  moreover have "umem m' (mypt s) a = (if a = unat dst then Some c else umem (pmem s) (mypt s) a)" for a
    using x \<open>j = 1\<close> by (cases "a = unat dst") auto
  ultimately show ?thesis using co k by (auto simp: uspace_acq)
qed

lemma either_copyout_acq:
  "kctx s \<Longrightarrow> either_copyout (UDst va) bs (acq l s) = copyout (mypt s) va bs (acq l s)"
  by (simp add: either_copyout_def bnd_apply myproc_acq get_proc_def)

lemma got_Cons:
  assumes g: "got A ps (dst + 1) ab (s\<lparr>cons_r := r, pmem := m'\<rparr>) s'"
    and m: "\<And>x. umem m' (mypt s) x = (if x = unat dst then Some c else umem (pmem s) (mypt s) x)"
    and d1: "unat (dst + 1) = unat dst + 1" and ed: "editing (s\<lparr>cons_r := r\<rparr>) = editing s"
  shows "got A ps dst (c # fst ab, snd ab) s s'"
proof -
  have "s' = s\<lparr>pmem := pmem s', cons_r := cons_r s'\<rparr>"
  proof -
    have "s' = s\<lparr>cons_r := r, pmem := m'\<rparr>\<lparr>pmem := pmem s', cons_r := cons_r s'\<rparr>" using g unfolding got_def by blast
    then show ?thesis by simp
  qed
  moreover have "umem (pmem s') (mypt s) x = (if unat dst \<le> x \<and> x < unat dst + length (c # fst ab) then Some ((c # fst ab) ! (x - unat dst))
            else umem (pmem s) (mypt s) x)" for x
  proof -
    have "umem (pmem s') (mypt s) x = (if unat dst + 1 \<le> x \<and> x < unat dst + 1 + length (fst ab) then Some (fst ab ! (x - (unat dst + 1)))
            else umem m' (mypt s) x)" using g d1 by (simp add: got_def)
    then show ?thesis using m [of x] by (cases "x = unat dst") (auto simp: nth_Cons')
  qed
  moreover have "cons_ok s'" "uspace A (mypt s) ps s'" "committed s' = snd ab" "editing s' = editing s"
    using g ed by (simp_all add: got_def)
  ultimately show ?thesis unfolding got_def fst_conv snd_conv by blast
qed

lemma consoleread_loop_rule:
  assumes "kctx s" and "cons_ok s" and "uspace A (mypt s) ps s" and "n \<le> target"
    and "n \<le> length (committed s) \<or> 10 \<in> set (committed s) \<or> 4 \<in> set (committed s)"
    and "\<And>i. i < n \<Longrightarrow> umem (pmem s) (mypt s) (unat dst + i) \<noteq> None"
  shows "\<exists>s'. consoleread_loop target dst n (acq LCons s)
      = Ok (Some (n - length (fst (take_line n (n < target) (committed s)))), acq LCons s')
    \<and> length (fst (take_line n (n < target) (committed s))) \<le> n
    \<and> got A ps dst (take_line n (n < target) (committed s)) s s'"
  using assms
proof (induction n arbitrary: s dst)
  case 0
  then show ?case by (auto simp: got_def)
next
  case (Suc n)
  have ne: "cons_r s \<noteq> cons_w s" using Suc.prems(5) by (auto simp: committed_def)
  note t = take_one [OF Suc.prems(2) ne]
  let ?t = "s\<lparr>cons_r := cons_r s + 1\<rparr>"
  obtain c cs where cs: "committed s = c # cs" using t(5) by (cases "committed s") auto
  then have c: "cons_buf s (unat (cons_r s) mod INPUT_BUF_SIZE) = c" and ct: "committed ?t = cs" using t(2,4) by simp_all
  have m0: "umem (pmem s) (mypt s) (unat dst) \<noteq> None" using Suc.prems(6) [of 0] by simp
  have d1: "unat (dst + 1) = unat dst + 1" using umem_top [OF m0] unat_add_small [of dst 1] by simp
  obtain m' where co: "copyout (mypt s) dst [c] (acq LCons ?t) = Ok (0, acq LCons (?t\<lparr>pmem := m'\<rparr>))"
    and u: "uspace A (mypt s) ps (?t\<lparr>pmem := m'\<rparr>)" "\<And>x. umem m' (mypt s) x = (if x = unat dst then Some c else umem (pmem s) (mypt s) x)"
    using copyout_byte [of ?t LCons A ps dst c] Suc.prems(1,3) m0 by auto
  let ?u = "?t\<lparr>pmem := m'\<rparr>"
  have step: "consoleread_loop target dst (Suc n) (acq LCons s)
      = (if c = 10 then Ok (Some n, acq LCons ?u) else consoleread_loop target (dst + 1) n (acq LCons ?u))" if "c \<noteq> 4"
    using that c ne co Suc.prems(1) by (simp add: bnd_apply either_copyout_acq)
  consider "c = 4" | "c = 10" | "c \<noteq> 4" "c \<noteq> 10" by blast
  then show ?case
  proof cases
    case 1
    then have "got A ps dst (take_line (Suc n) (Suc n < target) (committed s)) s (if Suc n < target then s else ?t)"
      using Suc.prems(2,3) t(1,3) cs ct by (auto simp: got_def)
    then show ?thesis using 1 c ne cs by (auto simp: bnd_apply whenK_def intro!: exI [of _ "if Suc n < target then s else ?t"])
  next
    case 2
    then have "got A ps dst (take_line (Suc n) (Suc n < target) (committed s)) s ?u"
      using Suc.prems(2,3) t(1,3) cs ct u by (auto simp: got_def)
    then show ?thesis using 2 step cs by (intro exI [of _ ?u]) simp
  next
    case 3
    have mt: "mypt ?u = mypt s" by simp
    have v: "umem m' (mypt s) (unat (dst + 1) + i) \<noteq> None" if "i < n" for i
      using Suc.prems(6) [of "Suc i"] that u(2) d1 by auto
    have "\<exists>s'. consoleread_loop target (dst + 1) n (acq LCons ?u)
        = Ok (Some (n - length (fst (take_line n (n < target) (committed ?u)))), acq LCons s')
      \<and> length (fst (take_line n (n < target) (committed ?u))) \<le> n
      \<and> got A ps (dst + 1) (take_line n (n < target) (committed ?u)) ?u s'"
      by (rule Suc.IH) (use Suc.prems(1,4,5) t(1) u(1) cs ct 3 v in \<open>auto\<close>)
    then obtain s' where s': "consoleread_loop target (dst + 1) n (acq LCons ?u)
        = Ok (Some (n - length (fst (take_line n True cs))), acq LCons s')"
      "length (fst (take_line n True cs)) \<le> n" and g: "got A ps (dst + 1) (take_line n True cs) ?u s'"
      using Suc.prems(4) ct by auto
    have "got A ps dst (take_line (Suc n) (Suc n < target) (committed s)) s s'"
      using got_Cons [OF g u(2) d1 t(3)] 3 cs by (simp add: case_prod_beta)
    then show ?thesis using 3 step s' cs by (auto simp: case_prod_beta)
  qed
qed

section \<open>Pipes\<close>

definition pq :: "pipe \<Rightarrow> u8 list" where
  "pq p = ring PIPESIZE (pp_data p) (pp_nread p) (pp_nwrite p)"

lemma pipe_fits: "ring_fits PIPESIZE TYPE(32)"
  by (simp add: ring_fits_def PIPESIZE_def)

lemma acq_pipe [simp]: "pipes (acq l s) = pipes s" "(acq l s)\<lparr>pipes := x\<rparr> = acq l (s\<lparr>pipes := x\<rparr>)"
  by (simp_all add: acq_def pushed_def ints_def)

lemma kctx_pipe [simp]: "kctx (s\<lparr>pipes := x\<rparr>) = kctx s" "me (s\<lparr>pipes := x\<rparr>) = me s"
  by (rule kctx_base; simp)+

lemma uspace_pipe [simp]: "uspace A pt ps (s\<lparr>pipes := x\<rparr>) = uspace A pt ps s" "uspace A pt ps (s\<lparr>procs := y\<rparr>) = uspace A pt ps s"
  by (simp_all add: uspace_def ptv_def kpages_def kinv_def cpu_ok_def lfree_def ints_def)

lemma uspace_pmem_pipe [simp]: "uspace A pt ps (s\<lparr>pipes := x, pmem := m\<rparr>) = uspace A pt ps (s\<lparr>pmem := m\<rparr>)"
  by (simp add: uspace_def ptv_def kpages_def kinv_def cpu_ok_def lfree_def ints_def)

lemma killed_acq: "kctx s \<Longrightarrow> LProc i \<noteq> l \<Longrightarrow> killed i (acq l s) = Ok (p_killed (procs s i), acq l s)"
  by (simp add: killed_def get_proc_def bnd_apply acquire_eq release_acq)

lemma pipe_put:
  assumes "length (pq p) < PIPESIZE"
  shows "pq (p\<lparr>pp_data := (pp_data p)(unat (pp_nwrite p) mod PIPESIZE := c), pp_nwrite := pp_nwrite p + 1\<rparr>) = pq p @ [c]"
  using assms by (simp add: pq_def ring_put pipe_fits)

lemma pipe_get:
  assumes "pp_nread p \<noteq> pp_nwrite p"
  shows "pq p = pp_data p (unat (pp_nread p) mod PIPESIZE) # pq (p\<lparr>pp_nread := pp_nread p + 1\<rparr>)"
  using assms by (simp add: pq_def ring_get)

lemma pipewrite_loop_rule:
  assumes "kctx s" and "pipes s pi = Some p" and "pp_readopen p" and "\<not> p_killed (procs s (me s))"
    and "length (pq p) + n \<le> PIPESIZE" and "unat addr + n < 2 ^ 64"
  shows "\<exists>bs p'. pipewrite_loop (me s) pi addr n (acq (LPipe k) s) = Ok (Inr (n - length bs), acq (LPipe k) (s\<lparr>pipes := (pipes s)(pi \<mapsto> p')\<rparr>))
    \<and> pq p' = pq p @ bs \<and> reads (pmem s) (mypt s) (unat addr) bs
    \<and> (length bs = n \<or> length bs < n \<and> umem (pmem s) (mypt s) (unat addr + length bs) = None)"
  using assms
proof (induction n arbitrary: s p addr)
  case 0
  then show ?case by (intro exI [of _ "[]"] exI [of _ p]) (simp add: fun_upd_idem)
next
  case (Suc n)
  let ?pt = "mypt s" and ?a = "acq (LPipe k) s"
  have room: "length (pq p) < PIPESIZE" using Suc.prems(5) by simp
  then have nf: "pp_nwrite p \<noteq> pp_nread p + of_nat PIPESIZE" by (auto simp: pq_def PIPESIZE_def)
  have kl: "killed (me s) ?a = Ok (False, ?a)" using Suc.prems(1,4) by (simp add: killed_acq)
  obtain r bs where ci: "copyin ?pt addr 1 ?a = Ok ((r, bs), ?a)" and rd: "reads (pmem s) ?pt (unat addr) bs"
    and cases: "r = 0 \<and> length bs = 1 \<or> r = -1 \<and> length bs < 1 \<and> umem (pmem s) ?pt (unat addr + length bs) = None"
    using copyin_reads [of ?pt addr 1 ?a] by auto
  from cases show ?case
  proof
    assume "r = -1 \<and> length bs < 1 \<and> umem (pmem s) ?pt (unat addr + length bs) = None"
    then have r: "r = -1" "bs = []" "umem (pmem s) ?pt (unat addr) = None" by auto
    then show ?thesis using Suc.prems(2,3) nf kl ci
      by (intro exI [of _ "[]"] exI [of _ p]) (simp add: bnd_apply get_pipe_def deref_def get_proc_def fun_upd_idem)
  next
    assume r: "r = 0 \<and> length bs = 1"
    then obtain c where c: "bs = [c]" by (auto simp: length_Suc_conv)
    let ?q = "p\<lparr>pp_data := (pp_data p)(unat (pp_nwrite p) mod PIPESIZE := c), pp_nwrite := pp_nwrite p + 1\<rparr>"
    let ?s = "s\<lparr>pipes := (pipes s)(pi \<mapsto> ?q)\<rparr>"
    have step: "pipewrite_loop (me s) pi addr (Suc n) ?a = pipewrite_loop (me ?s) pi (addr + 1) n (acq (LPipe k) ?s)"
      using Suc.prems(2,3) nf kl ci r c by (simp add: bnd_apply get_pipe_def set_pipe_def deref_def get_proc_def)
    have a1: "unat (addr + 1) = unat addr + 1" using unat_add_small [of addr 1] Suc.prems(6) by simp
    have "\<exists>bs p'. pipewrite_loop (me ?s) pi (addr + 1) n (acq (LPipe k) ?s) = Ok (Inr (n - length bs), acq (LPipe k) (?s\<lparr>pipes := (pipes ?s)(pi \<mapsto> p')\<rparr>))
      \<and> pq p' = pq ?q @ bs \<and> reads (pmem ?s) (mypt ?s) (unat (addr + 1)) bs
      \<and> (length bs = n \<or> length bs < n \<and> umem (pmem ?s) (mypt ?s) (unat (addr + 1) + length bs) = None)"
      by (rule Suc.IH) (use Suc.prems pipe_put [OF room, of c] a1 in simp_all)
    then obtain bs' p' where ih: "pipewrite_loop (me ?s) pi (addr + 1) n (acq (LPipe k) ?s) = Ok (Inr (n - length bs'), acq (LPipe k) (s\<lparr>pipes := (pipes s)(pi \<mapsto> p')\<rparr>))"
      "pq p' = pq p @ c # bs'" "reads (pmem s) ?pt (unat addr + 1) bs'"
      "length bs' = n \<or> length bs' < n \<and> umem (pmem s) ?pt (unat addr + 1 + length bs') = None"
      using pipe_put [OF room, of c] a1 by auto
    have "reads (pmem s) ?pt (unat addr) (c # bs')"
      using reads_append [of "pmem s" ?pt "unat addr" "[c]" bs'] rd ih(3) by (simp add: c)
    moreover have "length (c # bs') = Suc n \<or> length (c # bs') < Suc n \<and> umem (pmem s) ?pt (unat addr + length (c # bs')) = None"
      using ih(4) by auto
    ultimately show ?thesis unfolding step ih(1) using ih(2)
      by (intro exI [of _ "c # bs'"] exI [of _ p'] conjI) (simp_all add: fun_upd_def)
  qed
qed

lemma piperead_loop_rule:
  assumes "kctx s" and "pipes s pi = Some p" and "uspace A (mypt s) ps s"
    and "\<And>i. i < n \<Longrightarrow> umem (pmem s) (mypt s) (unat addr + i) \<noteq> None"
  shows "\<exists>m' p'. piperead_loop (me s) pi addr n (acq (LPipe k) s)
      = Ok (n - length (pq p), acq (LPipe k) (s\<lparr>pmem := m', pipes := (pipes s)(pi \<mapsto> p')\<rparr>))
    \<and> pq p' = drop n (pq p) \<and> uspace A (mypt s) ps (s\<lparr>pmem := m'\<rparr>)
    \<and> (\<forall>x. umem m' (mypt s) x = (if unat addr \<le> x \<and> x < unat addr + length (take n (pq p)) then Some (pq p ! (x - unat addr))
            else umem (pmem s) (mypt s) x))"
  using assms
proof (induction n arbitrary: s p addr)
  case 0
  then show ?case by (intro exI [of _ "pmem s"] exI [of _ p]) (auto simp: fun_upd_idem)
next
  case (Suc n)
  show ?case
  proof (cases "pp_nread p = pp_nwrite p")
    case True
    then have "pq p = []" by (simp add: pq_def)
    then show ?thesis using True Suc.prems(2,3)
      by (intro exI [of _ "pmem s"] exI [of _ p]) (auto simp: bnd_apply get_pipe_def deref_def fun_upd_idem)
  next
    case False
    let ?c = "pp_data p (unat (pp_nread p) mod PIPESIZE)" and ?q = "p\<lparr>pp_nread := pp_nread p + 1\<rparr>"
    let ?t = "s\<lparr>pipes := (pipes s)(pi \<mapsto> ?q)\<rparr>"
    note q = pipe_get [OF False]
    have m0: "umem (pmem s) (mypt s) (unat addr) \<noteq> None" using Suc.prems(4) [of 0] by simp
    have a1: "unat (addr + 1) = unat addr + 1" using umem_top [OF m0] unat_add_small [of addr 1] by simp
    have ne: "LPipe k \<noteq> LKmem" by simp
    have "uspace A (mypt ?t) ps ?t" "umem (pmem ?t) (mypt ?t) (unat addr) \<noteq> None" "kctx ?t" using Suc.prems(1,3) m0 by simp_all
    note b = copyout_byte [OF this(3) ne this(1,2), of ?c]
    obtain m1 where co: "copyout (mypt s) addr [?c] (acq (LPipe k) ?t) = Ok (0, acq (LPipe k) (?t\<lparr>pmem := m1\<rparr>))"
      and u: "uspace A (mypt s) ps (s\<lparr>pmem := m1\<rparr>)" "\<And>x. umem m1 (mypt s) x = (if x = unat addr then Some ?c else umem (pmem s) (mypt s) x)"
      using b by (simp cong: if_cong) blast
    let ?u = "?t\<lparr>pmem := m1\<rparr>"
    have step: "piperead_loop (me s) pi addr (Suc n) (acq (LPipe k) s) = piperead_loop (me ?u) pi (addr + 1) n (acq (LPipe k) ?u)"
      using Suc.prems(2) False co by (simp add: bnd_apply get_pipe_def set_pipe_def deref_def get_proc_def)
    have "\<exists>m' p'. piperead_loop (me ?u) pi (addr + 1) n (acq (LPipe k) ?u)
        = Ok (n - length (pq ?q), acq (LPipe k) (?u\<lparr>pmem := m', pipes := (pipes ?u)(pi \<mapsto> p')\<rparr>))
      \<and> pq p' = drop n (pq ?q) \<and> uspace A (mypt ?u) ps (?u\<lparr>pmem := m'\<rparr>)
      \<and> (\<forall>x. umem m' (mypt ?u) x = (if unat (addr + 1) \<le> x \<and> x < unat (addr + 1) + length (take n (pq ?q)) then Some (pq ?q ! (x - unat (addr + 1)))
            else umem (pmem ?u) (mypt ?u) x))"
    proof (rule Suc.IH)
      show "umem (pmem ?u) (mypt ?u) (unat (addr + 1) + i) \<noteq> None" if "i < n" for i
        using Suc.prems(4) [of "Suc i"] that u(2) a1 by auto
    qed (use Suc.prems u(1) in simp_all)
    then obtain m' p' where ih: "piperead_loop (me ?u) pi (addr + 1) n (acq (LPipe k) ?u)
        = Ok (n - length (pq ?q), acq (LPipe k) (s\<lparr>pmem := m', pipes := (pipes s)(pi \<mapsto> p')\<rparr>))"
      "pq p' = drop n (pq ?q)" "uspace A (mypt s) ps (s\<lparr>pmem := m'\<rparr>)"
      and mm: "\<And>x. umem m' (mypt s) x = (if unat addr + 1 \<le> x \<and> x < unat addr + 1 + length (take n (pq ?q)) then Some (pq ?q ! (x - (unat addr + 1)))
            else umem m1 (mypt s) x)"
      using a1 by auto
    have "umem m' (mypt s) x = (if unat addr \<le> x \<and> x < unat addr + length (take (Suc n) (pq p)) then Some (pq p ! (x - unat addr))
            else umem (pmem s) (mypt s) x)" for x
      using mm [of x] u(2) [of x] unfolding q by (cases "x = unat addr") (auto simp: nth_Cons')
    then show ?thesis unfolding step ih(1) using ih(2,3) q by (intro exI [of _ m'] exI [of _ p']) (simp add: fun_upd_def)
  qed
qed

section \<open>A machine with one process\<close>

text \<open>The file system of before with the memory of before: process 0 runs on the address space
  mapped by the table at \<open>0x80101000\<close>, an idle transmitter, and \<open>ls\<close> with an erased letter typed.\<close>

definition proc_u :: "nat \<Rightarrow> proc" where
  "proc_u = proc0(0 := (proc0 0)\<lparr>p_pagetable := 0x80101000\<rparr>)"

definition line0 :: bytes where
  "line0 = wr (\<lambda>_. 0) 0 [108, 115, 10, 97]"

definition cs0 :: cons_st where
  "cs0 = fs_st.extend (fs0\<lparr>pmem := vmem, freelist := 0x80106000, procs := proc_u\<rparr>)
     (cons_st.fields (replicate 1000 32) [] [] (\<lambda>_. 0) 5 5 False True line0 0 3 4 True 0)"

definition pp0 :: pipe where
  "pp0 = \<lparr>pp_data = line0, pp_nread = 0, pp_nwrite = 3, pp_readopen = True, pp_writeopen = True\<rparr>"

definition ps0 :: pipe_st where
  "ps0 = cons_st.extend cs0 (pipe_st.fields [0x80300000 \<mapsto> pp0])"

lemma cs0_sel [simp]:
  "uart_lsr cs0 = replicate 1000 32" "uart_log cs0 = []" "uart_tx_w cs0 = 5" "uart_tx_r cs0 = 5" "\<not> panicked cs0"
  "cons_buf cs0 = line0" "cons_r cs0 = 0" "cons_w cs0 = 3" "cons_e cs0 = 4" "procs cs0 = proc_u" "pmem cs0 = vmem"
  by (simp_all add: cs0_def fs_st.defs cons_st.defs)

lemma cs0_cpu [simp]:
  "hart cs0 = 0" "cpus cs0 h = \<lparr>c_proc = Some 0, noff = 0, intena = True\<rparr>" "sstatus cs0 h = 2"
  "locks cs0 l = \<lparr>locked = False, lname = ''l'', lcpu = None\<rparr>" "freelist cs0 = 0x80106000" "kernel_end cs0 = 0x80100000"
  by (simp_all add: cs0_def fs_st.defs cons_st.defs fs0_def)

lemma kctx_cs0 [simp]: "kctx cs0" "me cs0 = 0"
  by (simp_all add: kctx_def cpu_ok_def lfree_def ints_def SSTATUS_SIE_def me_def)

lemma uspace_cs0: "uspace {..<1} (mypt cs0) vfree cs0"
proof -
  have "kpages cs0 vfree"
    using vm0_kpages by (simp add: kpages_def kinv_def)
  moreover have "mypt cs0 = 0x80101000" by (simp add: proc_u_def)
  ultimately show ?thesis using vm0_uspace(1) by (simp only: uspace_def ptv_def cs0_sel cs0_cpu vm0_sel) blast
qed

lemma views_cs0 [simp]: "committed cs0 = [108, 115, 10]" "editing cs0 = [97]" "pend cs0 = []" "cons_ok cs0" "idle (3 * INPUT_BUF_SIZE) cs0"
proof -
  have l: "line0 0 = 108" "line0 1 = 115" "line0 2 = 10" "line0 3 = 97" by (simp_all add: line0_def wr_def)
  have u: "[0..<3] = [0, 1, 2 :: nat]" "[0..<1] = [0 :: nat]" by (simp_all add: upt_rec)
  have r: "ring INPUT_BUF_SIZE line0 0 (3 :: u32) = [108, 115, 10]" "ring INPUT_BUF_SIZE line0 3 (4 :: u32) = [97]"
    using l u by (simp_all add: ring_def INPUT_BUF_SIZE_def del: upt_Suc)
  show "committed cs0 = [108, 115, 10]" "editing cs0 = [97]" "pend cs0 = []"
    using r by (simp_all add: committed_def editing_def pend_def)
  then show "cons_ok cs0" by (simp add: cons_ok_def INPUT_BUF_SIZE_def)
  show "idle (3 * INPUT_BUF_SIZE) cs0" by (simp add: idle_def INPUT_BUF_SIZE_def LSR_TX_IDLE_def)
qed

section \<open>Properties\<close>

text \<open>C32: what a process writes to the console goes out in order. With room in the transmit buffer,
  \<open>consolewrite\<close> queues exactly the bytes at consecutive addresses of the process, the transmitter takes
  them from the head of the queue, so that what was sent followed by what waits grows by these bytes at
  the end; the call returns how many there were, fewer than asked only at an address the process may not read.\<close>

theorem consolewrite_order:
  assumes "kctx s" and "\<not> panicked s" and "length (pend s) + nat n \<le> UART_TX_BUF_SIZE"
    and "UART_TX_BUF_SIZE * nat n \<le> length (uart_lsr s)" and "unat src + nat n < 2 ^ 64"
  shows "runs (consolewrite src n s) (\<lambda>r s'. \<exists>bs. r = int (length bs) \<and> sent s' @ pend s' = sent s @ pend s @ bs
     \<and> reads (pmem s) (mypt s) (unat src) bs
     \<and> (length bs = nat n \<or> length bs < nat n \<and> umem (pmem s) (mypt s) (unat src + length bs) = None))"
proof -
  have "\<exists>y s'. untilK (consolewrite_one src) [0..<nat n] s = Ok (y, s') \<and> written src 0 (nat n) s y s'"
    by (rule consolewrite_loop) (use assms in simp_all)
  then obtain y s' bs where u: "untilK (consolewrite_one src) [0..<nat n] s = Ok (y, s')"
    and bs: "reads (pmem s) (mypt s) (unat src) bs" "sent s' @ pend s' = sent s @ pend s @ bs"
      "y = None \<and> length bs = nat n \<or> y = Some (length bs) \<and> length bs < nat n \<and> umem (pmem s) (mypt s) (unat src + length bs) = None"
    unfolding written_def by auto
  show ?thesis using bs by (auto simp: consolewrite_def runs_def bnd_apply u)
qed

theorem consolewrite_order_witness:
  "runs (consolewrite 0 20 cs0) (\<lambda>r s'. \<exists>bs. sent s' @ pend s' = sent cs0 @ bs)"
  by (rule runs_mono [OF consolewrite_order [of cs0 20 0]]) (auto simp: UART_TX_BUF_SIZE_def)



text \<open>C34: a reader of the console gets a line. When the buffer holds enough, \<open>consoleread\<close> delivers to the
  memory of the process what \<open>take_line\<close> says, byte for byte, leaves the rest for the next reader, and
  changes no other address of the process and nothing of the line being edited.\<close>

theorem console_reader:
  assumes "kctx s" and "cons_ok s" and "uspace A (mypt s) ps s" and "0 \<le> n"
    and "nat n \<le> length (committed s) \<or> 10 \<in> set (committed s) \<or> 4 \<in> set (committed s)"
    and "\<And>i. i < nat n \<Longrightarrow> umem (pmem s) (mypt s) (unat dst + i) \<noteq> None"
    and ab: "take_line (nat n) False (committed s) = (a, b)"
  shows "runs (consoleread dst n s) (\<lambda>r s'. r = int (length a) \<and> committed s' = b \<and> editing s' = editing s \<and> cons_ok s'
     \<and> uspace A (mypt s) ps s'
     \<and> (\<forall>x. umem (pmem s') (mypt s) x = (if unat dst \<le> x \<and> x < unat dst + length a then Some (a ! (x - unat dst))
            else umem (pmem s) (mypt s) x)))"
proof -
  obtain s' where s': "consoleread_loop (nat n) dst (nat n) (acq LCons s) = Ok (Some (nat n - length a), acq LCons s')"
      "length a \<le> nat n" "got A ps dst (a, b) s s'"
    using consoleread_loop_rule [OF assms(1-3) order_refl assms(5,6)] ab by auto
  then have "s' = s\<lparr>pmem := pmem s', cons_r := cons_r s'\<rparr>" by (simp add: got_def)
  then have k: "kctx s'" using assms(1) by (metis kctx_cons(7) kctx_upd(2))
  have "consoleread dst n s = Ok (int (length a), s')"
    using s' assms(1,4) k by (simp add: consoleread_def bnd_apply acquire_eq release_acq of_nat_diff)
  then show ?thesis using s'(3) by (simp add: runs_def got_def)
qed

lemma umem_page0: "i < PGSIZE \<Longrightarrow> umem vmem 0x80101000 i \<noteq> None"
  using umem_page [OF vm0_uspace(1), of i] vm0_ptab(1) [of 0] vm0_user(3) by simp

theorem console_reader_witness:
  "runs (consoleread 16 100 cs0) (\<lambda>r s'. r = 3 \<and> committed s' = []
     \<and> map (umem (pmem s') 0x80101000) [16, 17, 18] = [Some 108, Some 115, Some 10])"
proof -
  have p: "mypt cs0 = 0x80101000" by (simp add: proc_u_def)
  show ?thesis
  proof (rule runs_mono [OF console_reader [OF _ _ uspace_cs0]])
    show "take_line (nat 100) False (committed cs0) = ([108, 115, 10], [])"
    proof -
      have n: "nat 100 = Suc (Suc (Suc 97))" by simp
      show ?thesis unfolding n views_cs0 take_line.simps by simp
    qed
    show "umem (pmem cs0) (mypt cs0) (unat (16 :: u64) + i) \<noteq> None" if "i < nat 100" for i
      using that umem_page0 [of "16 + i"] unfolding p by (simp add: PGSIZE_def)
  qed (auto simp: proc_u_def)
qed


lemma ps0_sel [simp]: "pipes ps0 = [0x80300000 \<mapsto> pp0]" "procs ps0 = proc_u" "pmem ps0 = vmem"
  "hart ps0 = 0" "cpus ps0 h = \<lparr>c_proc = Some 0, noff = 0, intena = True\<rparr>" "sstatus ps0 h = 2"
  "locks ps0 l = \<lparr>locked = False, lname = ''l'', lcpu = None\<rparr>" "freelist ps0 = 0x80106000" "kernel_end ps0 = 0x80100000"
  using cs0_sel cs0_cpu by (simp_all add: ps0_def cons_st.defs pipe_st.defs cs0_def fs_st.defs fs0_def)

lemma kctx_ps0 [simp]: "kctx ps0" "me ps0 = 0"
  by (simp_all add: kctx_def cpu_ok_def lfree_def ints_def SSTATUS_SIE_def me_def)

lemma uspace_ps0: "uspace {..<1} (mypt ps0) vfree ps0"
proof -
  have "kpages ps0 vfree" using vm0_kpages by (simp add: kpages_def kinv_def)
  moreover have "mypt ps0 = 0x80101000" by (simp add: proc_u_def)
  ultimately show ?thesis using vm0_uspace(1) by (simp only: uspace_def ptv_def ps0_sel vm0_sel) blast
qed

lemma pq_pp0: "pq pp0 = [108, 115, 10]"
proof -
  have l: "line0 0 = 108" "line0 1 = 115" "line0 2 = 10" by (simp_all add: line0_def wr_def)
  have u: "[0..<3] = [0, 1, 2 :: nat]" by (simp add: upt_rec)
  show ?thesis using l u by (simp add: pq_def pp0_def ring_def PIPESIZE_def del: upt_Suc)
qed


end
