(* ===== verification/Dirs.thy ===== *)
theory Dirs
  imports Vfs Fsspec Vmspec
begin

text \<open>
  Directories and paths. A directory is a file of sixteen-byte entries; read as a map from names to
  inode numbers it is what \<open>dirlookup\<close> searches, \<open>dirlink\<close> extends and \<open>unlink\<close> cuts. The second half
  is the splitting of a path into its elements.
\<close>

section \<open>Reading an entry\<close>

text \<open>No block below the size of the file is missing.\<close>

definition dense :: "(u32 \<Rightarrow> bytes) \<Rightarrow> xv6fs_inode \<Rightarrow> nat \<Rightarrow> bool" where
  "dense L p n \<longleftrightarrow> (\<forall>k. k * BSIZE < n \<longrightarrow> slot L p k \<noteq> 0)"

lemma bmap_present:
  assumes f: "filev s0 pp p L s" and bn: "bn < MAXFILE" and sl: "slot L p bn \<noteq> 0"
  shows "runs (bmap pp bn s) (\<lambda>a s'. filev s0 pp p L s' \<and> a = slot L p bn)"
proof -
  note d = filevD [OF f]
  show ?thesis
  proof (cases "bn < NDIRECT")
    case True
    then have "x_addrs p bn \<noteq> 0" "slot L p bn = x_addrs p bn" using sl by (simp_all add: slot_def)
    then show ?thesis unfolding bmap_def using True f by (intro get_priv_rule [OF d(1)]) simp
  next
    case False
    let ?ind = "x_addrs p NDIRECT" and ?j = "4 * (bn - NDIRECT)"
    have r: "bn - NDIRECT < NINDIRECT" using bn False by (auto simp: MAXFILE_def)
    have ind: "?ind \<noteq> 0" "ld32 (L ?ind) ?j = slot L p bn" using sl False bn by (simp_all add: slot_def split: if_splits)
    show ?thesis
      unfolding bmap_def
      apply (rule get_priv_rule [OF d(1)])
      unfolding if_not_P [OF False] if_P [OF r] if_P [OF ind(1)] bnd_ret_left if_not_P [OF ind(1)] d(5) buf_data_def
      apply (rule bs.get_rule [OF d(1)], simp, simp add: NBUF_def)
      apply (rule bs.content_rule [where n = ?ind and g = "\<lambda>d. d"], assumption, simp)
      unfolding ind(2) if_P [OF sl] bnd_ret_left
      apply (rule bs.rel_rule [where n = ?ind], assumption, simp, simp)
      using f by (simp add: filev_def)
  qed
qed

definition dirent :: "(u32 \<Rightarrow> bytes) \<Rightarrow> xv6fs_inode \<Rightarrow> nat \<Rightarrow> u8 list" where
  "dirent L p k = rd (fbytes L p) (16 * k) 16"

lemma piece16: "piece (16 * k) 16 = 16"
proof -
  have "(16 * k) mod BSIZE = 16 * (k mod 64)" using mult_mod_right [of 16 k 64] by (simp add: BSIZE_def)
  moreover have "k mod 64 < 64" by simp
  ultimately show ?thesis by (simp add: piece_def BSIZE_def)
qed

text \<open>A directory, open as the inode \<open>dp\<close>.\<close>

definition dirv :: "'a fs_st_scheme \<Rightarrow> nat \<Rightarrow> nat \<Rightarrow> u64 \<Rightarrow> xv6fs_inode \<Rightarrow> (u32 \<Rightarrow> bytes) \<Rightarrow> 'a fs_st_scheme \<Rightarrow> bool" where
  "dirv s0 dp n pp p L s \<longleftrightarrow> filev s0 pp p L s \<and> i_private (itable s0 dp) = pp \<and> i_dev (itable s0 dp) = 1
     \<and> i_type (itable s0 dp) = T_DIR \<and> unat (i_size (itable s0 dp)) = 16 * n \<and> 16 * n \<le> MAXFILE * BSIZE \<and> dense L p (16 * n)"

lemma dirvD:
  assumes "dirv s0 dp n pp p L s"
  shows "filev s0 pp p L s" "i_private (itable s0 dp) = pp" "i_dev (itable s0 dp) = 1" "i_type (itable s0 dp) = T_DIR"
    "unat (i_size (itable s0 dp)) = 16 * n" "16 * n \<le> MAXFILE * BSIZE" "dense L p (16 * n)" "itable s = itable s0"
  using assms bview_fs(2) [OF filevD(1)] by (auto simp: dirv_def)

lemma maxfile_bytes: "MAXFILE * BSIZE = 274432"
  by (simp add: MAXFILE_def NDIRECT_def NINDIRECT_def BSIZE_def)

lemma entry_read:
  assumes v: "dirv s0 dp n pp p L s" and k: "k < n"
  shows "runs (xv6fs_readi dp KVar (of_nat (16 * k)) 16 s) (\<lambda>r s'. dirv s0 dp n pp p L s' \<and> r = (16, dirent L p k))"
proof -
  note d = dirvD [OF v]
  let ?off = "of_nat (16 * k) :: u32" and ?a = "slot L p (16 * k div BSIZE)"
  have small: "16 * k + 16 \<le> 16 * n" "16 * n \<le> 274432" using k d(6) by (simp_all add: maxfile_bytes)
  then have off: "unat ?off = 16 * k" by (simp add: unsigned_of_nat take_bit_nat_eq_self del: of_nat_mult)
  have off2: "unat (?off + 16) = 16 * k + 16"
    using small off by (subst unat_add_lem [THEN iffD1]) (simp_all add: off del: of_nat_mult)
  have c1: "\<not> (?off > i_size (itable s0 dp) \<or> ?off + 16 < ?off)"
    unfolding word_less_nat_alt off off2 d(5) using small by simp
  have c2: "\<not> ?off + 16 > i_size (itable s0 dp)" unfolding word_less_nat_alt off2 d(5) using small by simp
  have bn: "16 * k div BSIZE < MAXFILE" by (rule block_index) (use small in \<open>simp add: maxfile_bytes\<close>)
  have "16 * k div BSIZE * BSIZE \<le> 16 * k" by (rule div_times_less_eq_dividend)
  then have "16 * k div BSIZE * BSIZE < 16 * n" using small by linarith
  then have a: "?a \<noteq> 0" using d(7) unfolding dense_def by blast
  have data: "rd (L ?a) (16 * k mod BSIZE) 16 = dirent L p k"
    using fbytes_piece [OF refl a, of 16] small by (simp add: piece16 dirent_def maxfile_bytes)
  have z: "\<not> 16 \<le> (0 :: nat)" "16 - 0 = (16 :: nat)" "0 + 16 = (16 :: nat)" by simp_all
  have stop: "readi_loop dp dst off 16 16 t = Ok ((16, []), t)" for dst off and t :: "'a fs_st_scheme"
    by (subst readi_loop.simps) simp
  have "runs (readi_loop dp KVar (16 * k) 16 0 s) (\<lambda>r s'. filev s0 pp p L s' \<and> r = (16, dirent L p k))"
    apply (subst readi_loop.simps)
    unfolding if_not_P [OF z(1)] get_inode_def runs_gets d(8) d(2,3) z(2) piece16 z(3)
    apply (rule runs_bndI, rule bmap_present [OF d(1) bn a])
    apply (elim conjE, hypsubst)
    unfolding if_not_P [OF a]
    apply (rule bs.get_rule [OF filevD(1)], assumption, simp, simp add: NBUF_def)
    apply (rule bs.content_rule [where n = ?a and g = "\<lambda>d. rd d (16 * k mod BSIZE) 16"], assumption, simp)
    unfolding data
    apply (rule copyout_KVar_rule, assumption, subst if_not_P, simp)
    apply (rule bs.rel_rule [where n = ?a], assumption, simp, simp)
    using d(1) by (simp add: runs_bnd stop filev_def)
  then have "runs (xv6fs_readi dp KVar ?off 16 s) (\<lambda>r s'. filev s0 pp p L s' \<and> r = (16, dirent L p k))"
    unfolding xv6fs_readi_def get_inode_def runs_gets d(8) if_not_P [OF c1] if_not_P [OF c2] Let_def off by simp
  then show ?thesis by (rule runs_mono) (use v in \<open>simp add: dirv_def\<close>)
qed

section \<open>The inode table\<close>

definition iget_tab :: "u32 \<Rightarrow> u32 \<Rightarrow> (nat \<Rightarrow> inode) \<Rightarrow> (nat \<times> (nat \<Rightarrow> inode)) option" where
  "iget_tab dev inum tab =
     (case find (\<lambda>i. i_ref (tab i) > 0 \<and> i_dev (tab i) = dev \<and> i_inum (tab i) = inum) [0..<NINODE] of
        Some ip \<Rightarrow> Some (ip, tab(ip := (tab ip)\<lparr>i_ref := i_ref (tab ip) + 1\<rparr>))
      | None \<Rightarrow> (case find (\<lambda>i. i_ref (tab i) = 0) [0..<NINODE] of
            Some ip \<Rightarrow> Some (ip, tab(ip := (tab ip)\<lparr>i_dev := dev, i_op := Some Xv6fs_op, i_inum := inum, i_ref := 1, i_private := 0\<rparr>))
          | None \<Rightarrow> None))"

lemma iget_eq: "iget dev inum s = (case iget_tab dev inum (itable s) of
    None \<Rightarrow> Panic ''iget: no inodes'' | Some (ip, tab) \<Rightarrow> Ok (ip, s\<lparr>itable := tab\<rparr>))"
  by (simp add: iget_def iget_tab_def bnd_apply set_inode_def split: option.split)

lemma iget_tabD:
  assumes "iget_tab dev inum tab = Some (ip, tab')"
  shows "ip < NINODE" and "i_dev (tab' ip) = dev" and "i_inum (tab' ip) = inum" and "j \<noteq> ip \<Longrightarrow> tab' j = tab j"
    and "i_ref (tab' ip) = (if i_ref (tab ip) = 0 then 1 else i_ref (tab ip) + 1)"
    and "i_ref (tab ip) \<noteq> 0 \<Longrightarrow> tab' ip = (tab ip)\<lparr>i_ref := i_ref (tab ip) + 1\<rparr>"
    and "i_ref (tab' ip) = 1 \<Longrightarrow> i_private (tab' ip) = 0"
  using assms unfolding iget_tab_def by (auto simp: find_Some_iff split: option.splits)

lemma iget_tab_free: "\<exists>i < NINODE. i_ref (tab i) = 0 \<Longrightarrow> iget_tab dev inum tab \<noteq> None"
  by (auto simp: iget_tab_def find_None_iff split: option.splits)

lemma iget_tab_got: "iget_tab dev inum tab = Some (ip, tab') \<Longrightarrow> i_inum (tab' ip) = inum \<and> i_dev (tab' ip) = dev
   \<and> i_ref (tab' ip) = i_ref (tab ip) + 1 \<and> (\<forall>j. j \<noteq> ip \<longrightarrow> tab' j = tab j)"
  using iget_tabD(2,3,4,5) [of dev inum tab ip tab'] by auto

section \<open>A directory with free pages at hand\<close>

definition dview :: "'a fs_st_scheme \<Rightarrow> nat \<Rightarrow> nat \<Rightarrow> u64 \<Rightarrow> xv6fs_inode \<Rightarrow> (u32 \<Rightarrow> bytes) \<Rightarrow> u64 list \<Rightarrow> 'a fs_st_scheme \<Rightarrow> bool" where
  "dview s0 dp n pp p L qs s \<longleftrightarrow> (\<exists>m f. dirv (s0\<lparr>pmem := m, freelist := f\<rparr>) dp n pp p L s) \<and> kpages s qs"

lemma dviewD:
  assumes "dview s0 dp n pp p L qs s"
  shows "itable s = itable s0" "i_private (itable s0 dp) = pp" "i_dev (itable s0 dp) = 1" "i_type (itable s0 dp) = T_DIR"
    "unat (i_size (itable s0 dp)) = 16 * n" "16 * n \<le> MAXFILE * BSIZE" "kpages s qs" "kctx s"
proof -
  obtain m f where v: "dirv (s0\<lparr>pmem := m, freelist := f\<rparr>) dp n pp p L s" and k: "kpages s qs" using assms by (auto simp: dview_def)
  note d = dirvD [OF v]
  show "itable s = itable s0" "i_private (itable s0 dp) = pp" "i_dev (itable s0 dp) = 1" "i_type (itable s0 dp) = T_DIR"
    "unat (i_size (itable s0 dp)) = 16 * n" "16 * n \<le> MAXFILE * BSIZE" using d by simp_all
  show "kpages s qs" by (rule k)
  show "kctx s" using bview_kctx [OF filevD(1) [OF d(1)]] by simp
qed

lemma rest_kpages: "bview s0 H X L s \<Longrightarrow> kpages s qs = kpages s0 qs"
  by (auto simp: bview_def kpages_def kinv_def cpu_ok_def lfree_def ints_def elim!: restE)

lemma with_priv_mem: "with_priv (s0\<lparr>pmem := m, freelist := f\<rparr>) pp p = (with_priv s0 pp p)\<lparr>pmem := m, freelist := f\<rparr>"
  by (simp add: with_priv_def)

lemma dirv_mem:
  assumes "dirv (s0\<lparr>pmem := m, freelist := f\<rparr>) dp n pp p L s"
  shows "dirv (s0\<lparr>pmem := m', freelist := f'\<rparr>) dp n pp p L (s\<lparr>pmem := m', freelist := f'\<rparr>)"
proof -
  have "bview ((with_priv s0 pp p)\<lparr>pmem := m, freelist := f\<rparr>) Map.empty {} L s"
    using assms unfolding dirv_def filev_def with_priv_mem by blast
  from bview_upd(6) [OF bview_upd(5) [OF this, of m'], of f']
  have "bview (with_priv (s0\<lparr>pmem := m', freelist := f'\<rparr>) pp p) Map.empty {} L (s\<lparr>pmem := m', freelist := f'\<rparr>)"
    by (simp add: with_priv_mem)
  then show ?thesis using assms by (simp add: dirv_def filev_def)
qed

lemma dview_read:
  assumes v: "dview s0 dp n pp p L qs s" and k: "k < n"
  shows "runs (xv6fs_readi dp KVar (of_nat (16 * k)) 16 s) (\<lambda>r s'. dview s0 dp n pp p L qs s' \<and> r = (16, dirent L p k))"
proof -
  obtain m f where v': "dirv (s0\<lparr>pmem := m, freelist := f\<rparr>) dp n pp p L s" and q: "kpages s qs" using v by (auto simp: dview_def)
  have kp: "kpages t qs = kpages (with_priv (s0\<lparr>pmem := m, freelist := f\<rparr>) pp p) qs" if "dirv (s0\<lparr>pmem := m, freelist := f\<rparr>) dp n pp p L t" for t
    using rest_kpages that unfolding dirv_def filev_def by blast
  show ?thesis
    by (rule runs_mono [OF entry_read [OF v' k]]) (use kp [OF v'] kp q in \<open>auto simp: dview_def\<close>)
qed

lemma dview_kalloc:
  assumes v: "dview s0 dp n pp p L (q # qs) s"
  shows "runs (kalloc s) (\<lambda>r s'. r = q \<and> q \<noteq> 0 \<and> page_ok (kernel_end s) q \<and> dview s0 dp n pp p L qs s' \<and> kernel_end s' = kernel_end s)"
proof -
  obtain m f where v': "dirv (s0\<lparr>pmem := m, freelist := f\<rparr>) dp n pp p L s" and k: "kpages s (q # qs)" using v by (auto simp: dview_def)
  have p: "freelist s = q" "q \<noteq> 0" "page_ok (kernel_end s) q" using k by (auto simp: kpages_def kinv_def page_ok_def)
  let ?s = "s\<lparr>pmem := memset (pmem s) (unat q) 5 PGSIZE, freelist := ld64 (pmem s) (unat q)\<rparr>"
  have a: "kalloc s = Ok (q, ?s)" using kalloc_eq [of s] k p by (simp add: kpages_def)
  obtain s' where "kalloc s = Ok (q, s')" "kpages s' qs" using km.alloc_Cons [OF k] by blast
  with a have "kpages ?s qs" by simp
  then show ?thesis using dirv_mem [OF v'] p unfolding runs_def a dview_def by auto
qed

lemma dview_kfree:
  assumes v: "dview s0 dp n pp p L qs s" and q: "page_ok (kernel_end s) q" "q \<notin> set qs"
  shows "runs (kfree q s) (\<lambda>_ s'. dview s0 dp n pp p L (q # qs) s' \<and> kernel_end s' = kernel_end s)"
proof -
  obtain m f where v': "dirv (s0\<lparr>pmem := m, freelist := f\<rparr>) dp n pp p L s" and k: "kpages s qs" using v by (auto simp: dview_def)
  let ?s = "s\<lparr>pmem := st64 (memset (pmem s) (unat q) 1 PGSIZE) (unat q) (freelist s), freelist := q\<rparr>"
  have a: "kfree q s = Ok ((), ?s)" using kfree_eq [of s q] k q by (simp add: kpages_def)
  obtain s' where "kfree q s = Ok ((), s')" "kpages s' (q # qs)" using km.free_push [OF k _ q(2)] q(1) by (auto simp: kpage_def)
  with a have "kpages ?s (q # qs)" by simp
  then show ?thesis using dirv_mem [OF v'] unfolding runs_def a dview_def by auto
qed

lemma dview_itable:
  assumes v: "dview s0 dp n pp p L qs s"
    and d: "i_private (tab dp) = pp" "i_dev (tab dp) = 1" "i_type (tab dp) = T_DIR" "i_size (tab dp) = i_size (itable s0 dp)"
  shows "dview (s0\<lparr>itable := tab\<rparr>) dp n pp p L qs (s\<lparr>itable := tab\<rparr>)"
proof -
  obtain m f where v': "dirv (s0\<lparr>pmem := m, freelist := f\<rparr>) dp n pp p L s" and k: "kpages s qs" using v by (auto simp: dview_def)
  have "bview (with_priv (s0\<lparr>pmem := m, freelist := f\<rparr>) pp p) Map.empty {} L s" using v' unfolding dirv_def filev_def by blast
  from bview_upd(2) [OF this, of tab]
  have b: "bview ((with_priv (s0\<lparr>pmem := m, freelist := f\<rparr>) pp p)\<lparr>itable := tab\<rparr>) Map.empty {} L (s\<lparr>itable := tab\<rparr>)" .
  have "(with_priv (s0\<lparr>pmem := m, freelist := f\<rparr>) pp p)\<lparr>itable := tab\<rparr> = with_priv (s0\<lparr>itable := tab, pmem := m, freelist := f\<rparr>) pp p"
    by (simp add: with_priv_def)
  with b have "bview (with_priv (s0\<lparr>itable := tab, pmem := m, freelist := f\<rparr>) pp p) Map.empty {} L (s\<lparr>itable := tab\<rparr>)" by simp
  then have "dirv (s0\<lparr>itable := tab, pmem := m, freelist := f\<rparr>) dp n pp p L (s\<lparr>itable := tab\<rparr>)"
    using v' d by (simp add: dirv_def filev_def)
  moreover have "kpages (s\<lparr>itable := tab\<rparr>) qs" using k by (simp add: kpages_def kinv_def cpu_ok_def lfree_def ints_def)
  ultimately show ?thesis unfolding dview_def by blast
qed

section \<open>Looking up a name\<close>

definition hit :: "bytes \<Rightarrow> u8 list \<Rightarrow> bool" where
  "hit nm e \<longleftrightarrow> de_inum e \<noteq> 0 \<and> xv6fs_namecmp nm (de_name e) = 0"

definition dfind :: "(nat \<Rightarrow> u8 list) \<Rightarrow> nat \<Rightarrow> bytes \<Rightarrow> nat option" where
  "dfind es n nm = find (\<lambda>k. hit nm (es k)) [0..<n]"

text \<open>The directory as a map from names to inode numbers.\<close>

definition dmap :: "(nat \<Rightarrow> u8 list) \<Rightarrow> nat \<Rightarrow> bytes \<Rightarrow> u16 option" where
  "dmap es n nm = map_option (\<lambda>k. de_inum (es k)) (dfind es n nm)"

lemma dview_new:
  assumes v: "dview s0 dp n pp p L (q1 # q2 # qs) s"
  shows "runs (new_dentry s) (\<lambda>d s'. d_page d = q1 \<and> d_private d = q2 \<and> q2 \<noteq> 0 \<and> d_inode d = None
     \<and> page_ok (kernel_end s') q1 \<and> page_ok (kernel_end s') q2 \<and> dview s0 dp n pp p L qs s')"
  unfolding new_dentry_def
  apply (rule runs_bndI, rule dview_kalloc [OF v])
  apply (elim conjE)
  apply (rule runs_bndI, rule dview_kalloc, assumption)
  by auto

definition found :: "'a fs_st_scheme \<Rightarrow> nat \<Rightarrow> nat \<Rightarrow> u64 \<Rightarrow> xv6fs_inode \<Rightarrow> (u32 \<Rightarrow> bytes) \<Rightarrow> u64 list \<Rightarrow> u64 \<Rightarrow> u64 \<Rightarrow> nat
    \<Rightarrow> dentry \<Rightarrow> 'a fs_st_scheme \<Rightarrow> bool" where
  "found s0 dp n pp p L qs q1 q2 k d s' \<longleftrightarrow> d_page d = q1 \<and> d_private d = q2 \<and> q2 \<noteq> 0 \<and> d_word d = of_nat (16 * k)
     \<and> page_ok (kernel_end s') q1 \<and> page_ok (kernel_end s') q2
     \<and> (\<exists>ip tab. iget_tab 1 (ucast (de_inum (dirent L p k))) (itable s0) = Some (ip, tab) \<and> d_inode d = Some ip
          \<and> dview (s0\<lparr>itable := tab\<rparr>) dp n pp p L qs s')"

lemma lookup_hit:
  assumes v: "dview s0 dp n pp p L (q1 # q2 # qs) s" and k: "k < n" "hit nm (dirent L p k)"
    and r: "i_ref (itable s0 dp) \<noteq> 0" and g: "iget_tab 1 (ucast (de_inum (dirent L p k))) (itable s0) \<noteq> None"
  shows "runs (lookup_one dp nm k s) (\<lambda>r s'. \<exists>d. r = Some d \<and> found s0 dp n pp p L qs q1 q2 k d s')"
proof -
  obtain ip tab where ip: "iget_tab 1 (ucast (de_inum (dirent L p k))) (itable s0) = Some (ip, tab)" using g by auto
  have keep: "tab dp = itable s0 dp \<or> tab dp = (itable s0 dp)\<lparr>i_ref := i_ref (itable s0 dp) + 1\<rparr>"
    using iget_tabD(4) [OF ip, of dp] iget_tabD(6) [OF ip] r by (cases "dp = ip") auto
  have h: "de_inum (dirent L p k) \<noteq> 0" "xv6fs_namecmp nm (de_name (dirent L p k)) = 0" using k(2) by (auto simp: hit_def)
  note d0 = dviewD [OF v]
  show ?thesis
    unfolding lookup_one_def
    apply (rule runs_bndI, rule dview_read [OF v k(1)])
    apply (elim conjE, hypsubst)
    apply (simp only: fst_conv snd_conv h not_True_eq_False if_False if_True simp_thms)
    apply (rule runs_bndI, rule dview_new, assumption)
    apply (elim conjE)
    subgoal for _ t d t'
      using dviewD(1,3) [of s0 dp n pp p L qs t'] ip keep dview_itable [of s0 dp n pp p L qs t' tab] d0
      by (auto simp: runs_bnd get_inode_def iget_eq found_def runs_def bnd_apply)
    done
qed

lemma lookup_miss:
  assumes v: "dview s0 dp n pp p L qs s" and k: "k < n" "\<not> hit nm (dirent L p k)"
  shows "runs (lookup_one dp nm k s) (\<lambda>r s'. r = None \<and> dview s0 dp n pp p L qs s')"
  unfolding lookup_one_def
  apply (rule runs_bndI, rule dview_read [OF v k(1)])
  apply (elim conjE, hypsubst)
  using k(2) by (auto simp: hit_def)

lemma find_upt: "find P [0..<n] = Some k \<longleftrightarrow> k < n \<and> P k \<and> (\<forall>j < k. \<not> P j)" "find P [0..<n] = None \<longleftrightarrow> (\<forall>j < n. \<not> P j)"
  by (auto simp: find_Some_iff find_None_iff)

lemma entries_eq: "unat sz = 16 * n \<Longrightarrow> entries sz = n"
  by (simp add: entries_def)

lemma dirlookup_rule:
  assumes v: "dview s0 dp n pp p L (q1 # q2 # qs) s" and r: "i_ref (itable s0 dp) \<noteq> 0"
    and g: "\<And>k. dfind (dirent L p) n nm = Some k \<Longrightarrow> iget_tab 1 (ucast (de_inum (dirent L p k))) (itable s0) \<noteq> None"
  shows "runs (xv6fs_dirlookup dp nm s) (\<lambda>d s'. case dfind (dirent L p) n nm of
      None \<Rightarrow> d_page d = q1 \<and> d_private d = q2 \<and> q2 \<noteq> 0 \<and> d_inode d = None
        \<and> page_ok (kernel_end s') q1 \<and> page_ok (kernel_end s') q2 \<and> dview s0 dp n pp p L qs s'
    | Some k \<Rightarrow> found s0 dp n pp p L qs q1 q2 k d s')"
proof -
  note d = dviewD [OF v]
  let ?P = "\<lambda>k t. dview s0 dp n pp p L (q1 # q2 # qs) t \<and> (\<forall>j < k. \<not> hit nm (dirent L p j))"
  let ?Q = "\<lambda>x t. \<exists>k. dfind (dirent L p) n nm = Some k \<and> found s0 dp n pp p L qs q1 q2 k x t"
  have loop: "runs (untilK (lookup_one dp nm) [0..<n] s) (\<lambda>r t. case r of None \<Rightarrow> ?P n t | Some x \<Rightarrow> ?Q x t)"
  proof (rule runs_untilK [where P = ?P and Q = ?Q])
    fix k t assume k: "k < n" and P: "?P k t"
    show "runs (lookup_one dp nm k t) (\<lambda>r t'. case r of None \<Rightarrow> ?P (Suc k) t' | Some x \<Rightarrow> ?Q x t')"
    proof (cases "hit nm (dirent L p k)")
      case True
      then have f: "dfind (dirent L p) n nm = Some k" using k P unfolding dfind_def find_upt by blast
      show ?thesis
        by (rule runs_mono [OF lookup_hit [OF conjunct1 [OF P] k True r g [OF f]]]) (use f in auto)
    next
      case False
      show ?thesis
        by (rule runs_mono [OF lookup_miss [OF conjunct1 [OF P] k False]]) (use P False in \<open>auto simp: less_Suc_eq\<close>)
    qed
  qed (use v in auto)
  show ?thesis
    unfolding xv6fs_dirlookup_def get_inode_def runs_gets d(1) d(4) entries_eq [OF d(5)]
    apply (simp only: not_True_eq_False if_False simp_thms)
    apply (rule runs_bndI, rule loop)
    subgoal for x t
    proof (cases x)
      case None
      assume "case x of None \<Rightarrow> ?P n t | Some x \<Rightarrow> ?Q x t"
      then have P: "?P n t" by (simp add: None)
      then have "dfind (dirent L p) n nm = None" by (simp add: dfind_def find_upt)
      then show ?thesis using dview_new [OF conjunct1 [OF P]] by (simp add: None)
    qed auto
    done
qed

section \<open>Adding a name\<close>

lemma dview_free:
  assumes v: "dview s0 dp n pp p L qs s" and q: "page_ok (kernel_end s) (d_page d)" "page_ok (kernel_end s) (d_private d)"
    and ne: "d_page d \<noteq> d_private d" "d_page d \<notin> set qs" "d_private d \<notin> set qs"
  shows "runs (free_dentry d s) (\<lambda>_ s'. dview s0 dp n pp p L (d_page d # d_private d # qs) s' \<and> kernel_end s' = kernel_end s)"
  unfolding free_dentry_def
  apply (rule runs_bndI, rule dview_kfree [OF v q(2) ne(3)])
  apply (elim conjE)
  apply (rule runs_mono, rule dview_kfree, assumption)
  using q ne by auto

lemma slot_scan:
  assumes v: "dview s0 dp n pp p L qs s"
  shows "runs (untilK (free_slot_one dp dir) [0..<n] s) (\<lambda>r s'. dview s0 dp n pp p L qs s'
    \<and> find (\<lambda>k. de_inum (dirent L p k) = 0) [0..<n] = r)"
proof -
  let ?P = "\<lambda>k t. dview s0 dp n pp p L qs t \<and> (\<forall>j < k. de_inum (dirent L p j) \<noteq> 0)"
  let ?Q = "\<lambda>x t. dview s0 dp n pp p L qs t \<and> find (\<lambda>k. de_inum (dirent L p k) = 0) [0..<n] = Some x"
  have "runs (untilK (free_slot_one dp dir) [0..<n] s) (\<lambda>r t. case r of None \<Rightarrow> ?P n t | Some x \<Rightarrow> ?Q x t)"
  proof (rule runs_untilK [where P = ?P and Q = ?Q])
    fix k t assume k: "k < n" and P: "?P k t"
    show "runs (free_slot_one dp dir k t) (\<lambda>r t'. case r of None \<Rightarrow> ?P (Suc k) t' | Some x \<Rightarrow> ?Q x t')"
      unfolding free_slot_one_def
      apply (rule runs_bndI, rule dview_read [OF conjunct1 [OF P] k])
      apply (elim conjE, hypsubst)
      using P k by (auto simp: less_Suc_eq find_upt)
  qed (use v in auto)
  then show ?thesis by (rule runs_mono) (auto simp: find_upt split: option.splits)
qed

lemma rd_wr_entry:
  assumes "length bs = 16"
  shows "rd (wr d (16 * k) bs) (16 * j) 16 = (if j = k then bs else rd d (16 * j) 16)"
proof (cases "j = k")
  case True
  then show ?thesis using assms by simp
next
  case False
  then have "16 * j + 16 \<le> 16 * k \<or> 16 * k + length bs \<le> 16 * j" using assms by auto
  then show ?thesis using False by (subst rd_wr_disjoint) auto
qed

lemma dense_write:
  assumes d: "dense L p (16 * n)" and keep: "\<And>j. slot L p j \<noteq> 0 \<Longrightarrow> slot L' p' j \<noteq> 0" and k: "k \<le> n"
    and e: "length e = 16" "de_inum e \<noteq> 0 \<or> k < n" and fb: "fbytes L' p' = wr (fbytes L p) (16 * k) e"
  shows "dense L' p' (16 * max n (Suc k))"
  unfolding dense_def
proof (intro allI impI)
  fix j assume j: "j * BSIZE < 16 * max n (Suc k)"
  show "slot L' p' j \<noteq> 0"
  proof (cases "j * BSIZE < 16 * n")
    case True
    then show ?thesis using d keep by (simp add: dense_def)
  next
    case False
    then have kn: "k = n" "de_inum e \<noteq> 0" and jk: "j * BSIZE = 16 * k" using j k e(2) by (auto simp: BSIZE_def max_def split: if_splits)
    have "\<exists>i < 2. e ! i \<noteq> 0"
    proof (rule ccontr)
      assume "\<not> (\<exists>i < 2. e ! i \<noteq> 0)"
      then have "take 2 e = replicate 2 0" using e(1) by (intro nth_equalityI) auto
      then show False using kn(2) by (simp add: de_inum_def of_le_zero del: replicate.simps)
    qed
    then obtain i where i: "i < 2" "e ! i \<noteq> 0" by blast
    have "fbytes L' p' (16 * k + i) \<noteq> 0" using i e(1) by (simp add: fb wr_def)
    moreover have "(16 * k + i) div BSIZE = j" using i(1) unfolding jk [symmetric] by (simp add: BSIZE_def)
    ultimately show ?thesis by (auto simp: fbytes_def split: if_splits)
  qed
qed

text \<open>Writing the entry with index \<open>k\<close>, which may be the one just past the end.\<close>

lemma entry_write:
  assumes v: "dirv s0 dp n pp p L s" and k: "k \<le> n" "16 * Suc n \<le> MAXFILE * BSIZE" and e: "length e = 16" "de_inum e \<noteq> 0 \<or> k < n"
    and ino: "ino_ok (sb s0) (i_inum (itable s0 dp))"
  shows "runs (xv6fs_writei dp (KSrc e) (of_nat (16 * k)) 16 s) (\<lambda>r s'. \<exists>i' p' L'.
     r = 16 \<and> dirv (with_ino s0 dp i') dp (max n (Suc k)) pp p' L' s' \<and> dirent L' p' = (dirent L p)(k := e)
       \<and> i' = (itable s0 dp)\<lparr>i_size := of_nat (16 * max n (Suc k))\<rparr>
     \<or> r \<noteq> 16 \<and> kctx s' \<and> kernel_end s' = kernel_end s \<and> used_below (disk s') (sb s0) (unat (sb_size (sb s0))))"
proof -
  note d = dirvD [OF v]
  let ?off = "of_nat (16 * k) :: u32" and ?i = "itable s0 dp" and ?x = "sb s0"
  have small: "16 * k + 16 \<le> 274432" "16 * n + 16 \<le> 274432" using k by (simp_all add: maxfile_bytes)
  then have off: "unat ?off = 16 * k" by (simp add: unsigned_of_nat take_bit_nat_eq_self del: of_nat_mult)
  have off2: "unat (?off + 16) = 16 * k + 16"
    using small off by (subst unat_add_lem [THEN iffD1]) (simp_all add: off del: of_nat_mult)
  have o: "?off \<le> i_size ?i" "?off \<le> ?off + 16" "unat ?off + unat (16 :: u32) \<le> MAXFILE * BSIZE"
    unfolding word_le_nat_alt off off2 d(5) using k by (simp_all add: maxfile_bytes)
  have size: "of_nat (16 * n) = i_size ?i" by (simp flip: d(5))
  show ?thesis
  proof (rule runs_mono [OF writei_rule [OF d(1-3) ino o, of e]])
    show "unat (16 :: u32) \<le> length e" using e by simp
    fix r :: int and s'
    assume "\<exists>p' L' m. let i' = grown ?i (unat ?off + m); L'' = put_inode L' ?x (i_inum ?i) (dinode_of i' p') in
       filev (with_ino s0 dp i') pp p' L'' s' \<and> fbytes L'' p' = wr (fbytes L p) (unat ?off) (take m e)
       \<and> moved ?x L p L' p' m (unat (16 :: u32)) \<and> wf_file L' ?x p' \<and> r = int m"
    then obtain p' L' m where f: "filev (with_ino s0 dp (grown ?i (16 * k + m))) pp p'
          (put_inode L' ?x (i_inum ?i) (dinode_of (grown ?i (16 * k + m)) p')) s'"
      and fb: "fbytes (put_inode L' ?x (i_inum ?i) (dinode_of (grown ?i (16 * k + m)) p')) p' = wr (fbytes L p) (16 * k) (take m e)"
      and mv: "moved ?x L p L' p' m 16" and wf: "wf_file L' ?x p'" and r: "r = int m"
      unfolding off by (auto simp: Let_def)
    have low: "unat (IBLOCK (i_inum ?i) ?x) < unat (sb_bmapstart ?x)" by (rule unat_IBLOCK(2) [OF filevD(2) [OF d(1)] ino])
    show "\<exists>i' p' L'. r = 16 \<and> dirv (with_ino s0 dp i') dp (max n (Suc k)) pp p' L' s' \<and> dirent L' p' = (dirent L p)(k := e)
         \<and> i' = (itable s0 dp)\<lparr>i_size := of_nat (16 * max n (Suc k))\<rparr>
       \<or> r \<noteq> 16 \<and> kctx s' \<and> kernel_end s' = kernel_end s \<and> used_below (disk s') ?x (unat (sb_size ?x))"
    proof (cases "m = 16")
      case False
      have "disk s' = put_inode L' ?x (i_inum ?i) (dinode_of (grown ?i (16 * k + m)) p')" using filev_disk [OF f] by simp
      moreover have "used_below L' ?x (unat (sb_size ?x))" using False mv by (simp add: moved_def)
      ultimately have "used_below (disk s') ?x (unat (sb_size ?x))"
        using low_update(5) [OF filevD(2) [OF d(1)] low refl] by (simp add: used_below_def put_inode_def)
      moreover have "kctx s'" "kernel_end s' = kernel_end s"
        using bview_kctx [OF filevD(1) [OF f]] bview_fs(8) [OF filevD(1) [OF f]] bview_fs(8) [OF filevD(1) [OF d(1)]]
        by (simp_all add: with_priv_def with_ino_def)
      ultimately show ?thesis using False r by auto
    next
      case True
      let ?i' = "?i\<lparr>i_size := of_nat (16 * max n (Suc k))\<rparr>" and ?L = "put_inode L' ?x (i_inum ?i) (dinode_of (grown ?i (16 * k + m)) p')"
      have g: "grown ?i (16 * k + m) = ?i'"
      proof (cases "k = n")
        case False
        then have "max n (Suc k) = n" using k(1) by simp
        then show ?thesis using True k(1) False d(5) by (simp add: grown_def size del: of_nat_mult)
      qed (use True d(5) in \<open>simp add: grown_def add.commute\<close>)
      have fb': "fbytes ?L p' = wr (fbytes L p) (16 * k) e" using fb True e by simp
      have ents: "dirent ?L p' = (dirent L p)(k := e)"
        using rd_wr_entry [OF e(1), of "fbytes L p" k] by (simp add: fun_eq_iff dirent_def fb')
      have sl: "slot ?L p' = slot L' p'" using low_update(4) [OF filevD(2) [OF d(1)] low refl wf] by (simp add: put_inode_def)
      have "dense ?L p' (16 * max n (Suc k))"
        by (rule dense_write [OF d(7) _ k(1) e]) (use mv sl fb' in \<open>auto simp: moved_def fs_ext_def\<close>)
      moreover have "unat (i_size ?i') = 16 * max n (Suc k)"
        using small k(1) by (simp add: unsigned_of_nat take_bit_nat_eq_self max_def del: of_nat_mult)
      ultimately have "dirv (with_ino s0 dp ?i') dp (max n (Suc k)) pp p' ?L s'"
        using f d k unfolding g dirv_def by (auto simp: max_def)
      then show ?thesis using True r ents by (intro exI [of _ ?i'] exI [of _ p'] exI [of _ ?L]) simp
    qed
  qed
qed

lemma dview_write:
  assumes v: "dview s0 dp n pp p L qs s" and k: "k \<le> n" "16 * Suc n \<le> MAXFILE * BSIZE" and e: "length e = 16" "de_inum e \<noteq> 0 \<or> k < n"
    and ino: "ino_ok (sb s0) (i_inum (itable s0 dp))"
  shows "runs (xv6fs_writei dp (KSrc e) (of_nat (16 * k)) 16 s) (\<lambda>r s'. kernel_end s' = kernel_end s \<and> kctx s' \<and>
     ((\<exists>p' L'. r = 16 \<and> dirent L' p' = (dirent L p)(k := e)
         \<and> dview (with_ino s0 dp ((itable s0 dp)\<lparr>i_size := of_nat (16 * max n (Suc k))\<rparr>)) dp (max n (Suc k)) pp p' L' qs s')
     \<or> r \<noteq> 16 \<and> used_below (disk s') (sb s0) (unat (sb_size (sb s0)))))"
proof -
  obtain m f where v': "dirv (s0\<lparr>pmem := m, freelist := f\<rparr>) dp n pp p L s" and q: "kpages s qs" using v by (auto simp: dview_def)
  let ?s0 = "s0\<lparr>pmem := m, freelist := f\<rparr>" and ?i = "(itable s0 dp)\<lparr>i_size := of_nat (16 * max n (Suc k))\<rparr>"
  have ok: "kctx t \<and> kernel_end t = kernel_end s \<and> kpages t qs"
    if "dirv (with_ino ?s0 dp i') dp n' pp p' L' t" for i' n' p' L' t
  proof -
    note b = filevD(1) [OF dirvD(1) [OF that]] and b0 = filevD(1) [OF dirvD(1) [OF v']]
    have "kpages t qs = kpages s qs" using rest_kpages [OF b, of qs] rest_kpages [OF b0, of qs]
      by (simp add: with_priv_def with_ino_def kpages_def kinv_def cpu_ok_def lfree_def ints_def)
    then show ?thesis using q bview_kctx [OF b] bview_fs(8) [OF b] bview_fs(8) [OF b0]
      by (simp add: with_priv_def with_ino_def)
  qed
  have w: "with_ino ?s0 dp ?i = (with_ino s0 dp ?i)\<lparr>pmem := m, freelist := f\<rparr>" by (simp add: with_ino_def)
  have it: "itable ?s0 = itable s0" "sb ?s0 = sb s0" by simp_all
  note ew = entry_write [OF v' k e, unfolded it, OF ino]
  show ?thesis
  proof (rule runs_mono [OF ew], elim exE disjE conjE)
    fix r :: int and s' i' p' L'
    assume a: "r = 16" "dirv (with_ino ?s0 dp i') dp (max n (Suc k)) pp p' L' s'" "dirent L' p' = (dirent L p)(k := e)" "i' = ?i"
    then have "dview (with_ino s0 dp ?i) dp (max n (Suc k)) pp p' L' qs s'"
      using ok [OF a(2)] unfolding dview_def a(4) w by blast
    then show "kernel_end s' = kernel_end s \<and> kctx s' \<and> ((\<exists>p' L'. r = 16 \<and> dirent L' p' = (dirent L p)(k := e)
         \<and> dview (with_ino s0 dp ?i) dp (max n (Suc k)) pp p' L' qs s')
       \<or> r \<noteq> 16 \<and> used_below (disk s') (sb s0) (unat (sb_size (sb s0))))"
      using ok [OF a(2)] a(1,3) by blast
  qed blast
qed

lemma hit_cstr: "hit nm e \<longleftrightarrow> de_inum e \<noteq> 0 \<and> cstr DIRSIZ nm = cstr DIRSIZ (de_name e)"
  by (simp add: hit_def xv6fs_namecmp_def strncmp_eq_0)

lemma de_bytes_simps [simp]:
  "length (de_bytes inum nm) = 16" "de_inum (de_bytes inum nm) = inum" "cstr DIRSIZ (de_name (de_bytes inum nm)) = cstr DIRSIZ nm"
proof -
  show "length (de_bytes inum nm) = 16" by (simp add: de_bytes_def DIRSIZ_def)
  show "de_inum (de_bytes inum nm) = inum" by (simp add: de_inum_def de_bytes_def)
  have "rd (de_name (de_bytes inum nm)) 0 DIRSIZ = rd nm 0 DIRSIZ"
    by (intro nth_equalityI) (simp_all add: de_name_def de_bytes_def nth_append)
  then show "cstr DIRSIZ (de_name (de_bytes inum nm)) = cstr DIRSIZ nm" by (simp add: cstr_def)
qed

text \<open>What putting an entry into a free place does to the map.\<close>

lemma dmap_add:
  assumes none: "dfind es n nm = None" and k: "k \<le> n" "k < n \<Longrightarrow> de_inum (es k) = 0" and e: "de_inum e \<noteq> 0" "cstr DIRSIZ (de_name e) = cstr DIRSIZ nm"
  shows "dmap (es(k := e)) (max n (Suc k)) nm' = (if cstr DIRSIZ nm' = cstr DIRSIZ nm then Some (de_inum e) else dmap es n nm')"
proof -
  let ?es = "es(k := e)" and ?n = "max n (Suc k)"
  have miss: "\<not> hit nm (es j)" if "j < n" for j using none that by (simp add: dfind_def find_upt)
  show ?thesis
  proof (cases "cstr DIRSIZ nm' = cstr DIRSIZ nm")
    case True
    then have h: "hit nm' (?es j) \<longleftrightarrow> j = k" if "j < ?n" for j
      using miss [of j] that e k by (auto simp: hit_cstr max_def split: if_splits)
    have "hit nm' (?es k)" "\<not> hit nm' (?es j)" if "j < k" for j using h [of k] h [of j] that by simp_all
    then have "dfind ?es ?n nm' = Some k" unfolding dfind_def find_upt using h [of k] by simp
    then show ?thesis using True by (simp add: dmap_def)
  next
    case False
    have eq: "hit nm' (?es j) \<longleftrightarrow> j < n \<and> hit nm' (es j)" if "j < ?n" for j
      using that False e k by (auto simp: hit_cstr max_def split: if_splits)
    have k': "k < n \<Longrightarrow> \<not> hit nm' (es k)" using k by (simp add: hit_cstr)
    have "dfind ?es ?n nm' = dfind es n nm'"
    proof (cases "dfind es n nm'")
      case None
      then have "\<forall>j < n. \<not> hit nm' (es j)" unfolding dfind_def find_upt .
      then have "dfind ?es ?n nm' = None" unfolding dfind_def find_upt using eq by blast
      then show ?thesis using None by simp
    next
      case (Some j)
      then have "j < n" "hit nm' (es j)" "\<forall>i < j. \<not> hit nm' (es i)" unfolding dfind_def find_upt by auto
      moreover then have "j < ?n" "\<And>i. i < j \<Longrightarrow> i < ?n" by auto
      ultimately have "dfind ?es ?n nm' = Some j" unfolding dfind_def find_upt using eq by blast
      then show ?thesis using Some by simp
    qed
    moreover have "de_inum (?es j) = de_inum (es j)" if "dfind es n nm' = Some j" for j
      using that k' unfolding dfind_def find_upt by auto
    ultimately show ?thesis using False by (cases "dfind es n nm'") (auto simp: dmap_def)
  qed
qed

lemma dview_pages:
  assumes v: "dview s0 dp n pp p L qs s"
  shows "kernel_end s = kernel_end s0" and "distinct qs" and "q \<in> set qs \<Longrightarrow> page_ok (kernel_end s0) q"
proof -
  obtain m f where v': "dirv (s0\<lparr>pmem := m, freelist := f\<rparr>) dp n pp p L s" and k: "kpages s qs" using v by (auto simp: dview_def)
  show e: "kernel_end s = kernel_end s0" using bview_fs(8) [OF filevD(1) [OF dirvD(1) [OF v']]] by (simp add: with_priv_def)
  show "distinct qs" by (rule km.pages_distinct [OF k])
  show "q \<in> set qs \<Longrightarrow> page_ok (kernel_end s0) q" using k by (simp add: kpages_def kinv_def flip: e)
qed

text \<open>Giving up the two pages of an entry, with the directory in view or without.\<close>

lemma give_back:
  assumes v: "dview s0 dp n pp p L qs s" and q: "page_ok (kernel_end s0) (d_page d)" "page_ok (kernel_end s0) (d_private d)"
    and ne: "distinct (d_page d # d_private d # qs)"
  shows "runs (bnd (free_dentry d) (\<lambda>_. ret r) s) (\<lambda>r' s'. r' = r \<and> dview s0 dp n pp p L (d_page d # d_private d # qs) s')"
  by (rule runs_bndI, rule dview_free [OF v]) (use q ne dview_pages(1) [OF v] in auto)

lemma give_back_any:
  assumes "kctx s" and "page_ok (kernel_end s) (d_page d)" and "page_ok (kernel_end s) (d_private d)"
  shows "runs (bnd (free_dentry d) (\<lambda>_. ret r) s) (\<lambda>r' s'. r' = r \<and> kctx s' \<and> kernel_end s' = kernel_end s \<and> disk s' = disk s)"
  using assms by (simp add: free_dentry_def runs_bnd kfree_eq)

definition linked_to :: "'a fs_st_scheme \<Rightarrow> nat \<Rightarrow> nat \<Rightarrow> u64 \<Rightarrow> xv6fs_inode \<Rightarrow> (u32 \<Rightarrow> bytes) \<Rightarrow> u64 list \<Rightarrow> bytes \<Rightarrow> u16
    \<Rightarrow> 'a fs_st_scheme \<Rightarrow> bool" where
  "linked_to s0 dp n pp p L qs nm inum s' \<longleftrightarrow> (\<exists>n' p' L'.
     dview (with_ino s0 dp ((itable s0 dp)\<lparr>i_size := of_nat (16 * n')\<rparr>)) dp n' pp p' L' qs s' \<and> n \<le> n' \<and> n' \<le> Suc n
     \<and> (\<forall>nm'. dmap (dirent L' p') n' nm' = (if cstr DIRSIZ nm' = cstr DIRSIZ nm then Some inum else dmap (dirent L p) n nm')))"

definition full_disk :: "'a fs_st_scheme \<Rightarrow> 'a fs_st_scheme \<Rightarrow> bool" where
  "full_disk s0 s' \<longleftrightarrow> kctx s' \<and> kernel_end s' = kernel_end s0 \<and> used_below (disk s') (sb s0) (unat (sb_size (sb s0)))"

lemma link_tail:
  assumes v: "dview s0 dp n pp p L qs s" and k: "k = (case find (\<lambda>k. de_inum (dirent L p k) = 0) [0..<n] of None \<Rightarrow> n | Some k \<Rightarrow> k)"
    and sz: "16 * Suc n \<le> MAXFILE * BSIZE" and ino: "ino_ok (sb s0) (i_inum (itable s0 dp))"
    and e: "length e = 16" "de_inum e = inum" "inum \<noteq> 0" "cstr DIRSIZ (de_name e) = cstr DIRSIZ nm" and none: "dfind (dirent L p) n nm = None"
    and q: "page_ok (kernel_end s0) (d_page d)" "page_ok (kernel_end s0) (d_private d)" "distinct (d_page d # d_private d # qs)"
  shows "runs (bnd (xv6fs_writei dp (KSrc e) (of_nat (16 * k)) 16) (\<lambda>w. bnd (free_dentry d) (\<lambda>_. if w \<noteq> 16 then ret (-1 :: int) else ret 0)) s)
    (\<lambda>r s'. r = 0 \<and> linked_to s0 dp n pp p L (d_page d # d_private d # qs) nm inum s' \<or> r = -1 \<and> full_disk s0 s')"
proof (rule runs_bndI)
  have kn: "k \<le> n" "k < n \<Longrightarrow> de_inum (dirent L p k) = 0" using k by (auto simp: find_upt split: option.splits)
  show "runs (xv6fs_writei dp (KSrc e) (of_nat (16 * k)) 16 s) (\<lambda>r s'. kernel_end s' = kernel_end s \<and> kctx s' \<and>
     ((\<exists>p' L'. r = 16 \<and> dirent L' p' = (dirent L p)(k := e)
         \<and> dview (with_ino s0 dp ((itable s0 dp)\<lparr>i_size := of_nat (16 * max n (Suc k))\<rparr>)) dp (max n (Suc k)) pp p' L' qs s')
     \<or> r \<noteq> 16 \<and> used_below (disk s') (sb s0) (unat (sb_size (sb s0)))))"
    by (rule dview_write [OF v kn(1) sz e(1) _ ino]) (use e in simp)
  fix w :: int and t
  assume t: "kernel_end t = kernel_end s \<and> kctx t \<and>
     ((\<exists>p' L'. w = 16 \<and> dirent L' p' = (dirent L p)(k := e)
         \<and> dview (with_ino s0 dp ((itable s0 dp)\<lparr>i_size := of_nat (16 * max n (Suc k))\<rparr>)) dp (max n (Suc k)) pp p' L' qs t)
     \<or> w \<noteq> 16 \<and> used_below (disk t) (sb s0) (unat (sb_size (sb s0))))"
  show "runs (bnd (free_dentry d) (\<lambda>_. if w \<noteq> 16 then ret (-1 :: int) else ret 0) t)
    (\<lambda>r s'. r = 0 \<and> linked_to s0 dp n pp p L (d_page d # d_private d # qs) nm inum s' \<or> r = -1 \<and> full_disk s0 s')"
  proof (cases "w = 16")
    case False
    have "kernel_end t = kernel_end s0" using t dview_pages(1) [OF v] by simp
    then have r: "runs (bnd (free_dentry d) (\<lambda>_. ret (-1 :: int)) t) (\<lambda>r' s'. r' = -1 \<and> kctx s' \<and> kernel_end s' = kernel_end t \<and> disk s' = disk t)"
      using t q by (intro give_back_any) simp_all
    show ?thesis unfolding if_P [OF False]
      by (rule runs_mono [OF r]) (use t False \<open>kernel_end t = kernel_end s0\<close> in \<open>simp add: full_disk_def\<close>)
  next
    case True
    then obtain p' L' where ents: "dirent L' p' = (dirent L p)(k := e)"
      and v': "dview (with_ino s0 dp ((itable s0 dp)\<lparr>i_size := of_nat (16 * max n (Suc k))\<rparr>)) dp (max n (Suc k)) pp p' L' qs t"
      using t by blast
    have m: "\<And>nm'. dmap (dirent L' p') (max n (Suc k)) nm' = (if cstr DIRSIZ nm' = cstr DIRSIZ nm then Some inum else dmap (dirent L p) n nm')"
      unfolding ents using dmap_add [OF none kn _ e(4)] e(2,3) by simp
    have ke: "kernel_end (with_ino s0 dp i) = kernel_end s0" for i by (simp add: with_ino_def)
    have "linked_to s0 dp n pp p L (d_page d # d_private d # qs) nm inum s'"
      if "dview (with_ino s0 dp ((itable s0 dp)\<lparr>i_size := of_nat (16 * max n (Suc k))\<rparr>)) dp (max n (Suc k)) pp p' L' (d_page d # d_private d # qs) s'" for s'
      unfolding linked_to_def
      by (rule exI [of _ "max n (Suc k)"], rule exI [of _ p'], rule exI [of _ L']) (use that m kn(1) in auto)
    then show ?thesis using True by (simp, intro runs_mono [OF give_back [OF v' _ _ q(3), unfolded ke, OF q(1,2), of "0 :: int"]]) auto
  qed
qed

lemma link_new:
  assumes v: "dview s0 dp n pp p L (q1 # q2 # qs) s" and r: "i_ref (itable s0 dp) \<noteq> 0" and sz: "16 * Suc n \<le> MAXFILE * BSIZE"
    and ino: "ino_ok (sb s0) (i_inum (itable s0 dp))" and t: "d_inode t = Some dp" "cstr DIRSIZ (d_name t) = cstr DIRSIZ nm"
    and inum: "ucast (d_word t) = inum" "inum \<noteq> 0" and none: "dmap (dirent L p) n nm = None"
  shows "runs (xv6fs_link t s) (\<lambda>r s'. r = 0 \<and> linked_to s0 dp n pp p L (q1 # q2 # qs) nm inum s' \<or> r = -1 \<and> full_disk s0 s')"
proof -
  define nm1 where "nm1 = strncpy (\<lambda>_. 0) (d_name t) DIRSIZ"
  have c1: "cstr DIRSIZ nm1 = cstr DIRSIZ nm" by (simp add: nm1_def cstr_strncpy t)
  have "hit nm1 e = hit nm e" for e by (simp add: hit_cstr c1)
  then have f: "dfind (dirent L p) n nm1 = None" using none by (simp add: dmap_def dfind_def)
  let ?e = "de_bytes inum (strncpy (\<lambda>_. 0) nm1 DIRSIZ)"
  have e: "length ?e = 16" "de_inum ?e \<noteq> 0" "cstr DIRSIZ (de_name ?e) = cstr DIRSIZ nm" using inum(2) c1 by (simp_all add: cstr_strncpy)
  have look: "runs (xv6fs_dirlookup dp nm1 s) (\<lambda>d s'. d_page d = q1 \<and> d_private d = q2 \<and> q2 \<noteq> 0 \<and> d_inode d = None
        \<and> page_ok (kernel_end s') q1 \<and> page_ok (kernel_end s') q2 \<and> dview s0 dp n pp p L qs s')"
    using dirlookup_rule [OF v r, of nm1] f by simp
  have dis: "distinct (q1 # q2 # qs)" and ok: "page_ok (kernel_end s0) q1" "page_ok (kernel_end s0) q2"
    using dview_pages [OF v] by auto
  show ?thesis
    unfolding xv6fs_link_def t(1) deref_def option.case bnd_ret_left Let_def nm1_def [symmetric] inum(1)
    apply (rule runs_bndI, rule look)
    apply (elim conjE)
    subgoal for d s1
      apply (simp only: option.case get_inode_def runs_gets dviewD(1) [of s0 dp n pp p L qs s1] entries_eq [OF dviewD(5) [OF v]])
      apply (rule runs_bndI, rule slot_scan, assumption)
      subgoal for x s2
        apply (elim conjE)
        apply (rule runs_mono, rule link_tail [where e = ?e and qs = qs], assumption)
        using e sz ino inum(2) none ok dis by (auto simp: dmap_def)
      done
    done
qed

text \<open>Giving back the reference a lookup has taken never deletes the inode.\<close>

lemma iput_back:
  assumes "i_ref (itable s ip) = 1 \<Longrightarrow> i_private (itable s ip) = 0"
  shows "iput (Some ip) s = Ok ((), s\<lparr>itable := (itable s)(ip := (itable s ip)\<lparr>i_ref := i_ref (itable s ip) - 1\<rparr>)\<rparr>)"
  using assms by (auto simp: iput_def deref_def bnd_apply get_inode_def set_inode_def whenK_def)

lemma link_found:
  assumes v: "dview s0 dp n pp p L (q1 # q2 # qs) s" and r: "i_ref (itable s0 dp) \<noteq> 0"
    and t: "d_inode t = Some dp" "cstr DIRSIZ (d_name t) = cstr DIRSIZ nm" and some: "dmap (dirent L p) n nm \<noteq> None"
    and g: "\<And>k. k < n \<Longrightarrow> iget_tab 1 (ucast (de_inum (dirent L p k))) (itable s0) \<noteq> None"
  shows "runs (xv6fs_link t s) (\<lambda>r s'. r = -1 \<and> (\<exists>tab. dview (s0\<lparr>itable := tab\<rparr>) dp n pp p L (q1 # q2 # qs) s'))"
proof -
  define nm1 where "nm1 = strncpy (\<lambda>_. 0) (d_name t) DIRSIZ"
  have "hit nm1 e = hit nm e" for e by (simp add: hit_cstr nm1_def cstr_strncpy t)
  then obtain k where f: "dfind (dirent L p) n nm1 = Some k" using some by (auto simp: dmap_def dfind_def)
  then have kn: "k < n" by (simp add: dfind_def find_upt)
  have look: "runs (xv6fs_dirlookup dp nm1 s) (\<lambda>d s'. found s0 dp n pp p L qs q1 q2 k d s')"
    using dirlookup_rule [OF v r, of nm1] f g [OF kn] by simp
  have dis: "distinct (q1 # q2 # qs)" and ok: "page_ok (kernel_end s0) q1" "page_ok (kernel_end s0) q2"
    using dview_pages [OF v] by auto
  show ?thesis
    unfolding xv6fs_link_def t(1) deref_def option.case bnd_ret_left Let_def nm1_def [symmetric]
  proof (rule runs_bndI, rule look)
    fix d s1 assume "found s0 dp n pp p L qs q1 q2 k d s1"
    then obtain ip tab where d: "d_page d = q1" "d_private d = q2" "d_inode d = Some ip"
      and ip: "iget_tab 1 (ucast (de_inum (dirent L p k))) (itable s0) = Some (ip, tab)"
      and v1: "dview (s0\<lparr>itable := tab\<rparr>) dp n pp p L qs s1" by (auto simp: found_def)
    define tab2 where "tab2 = tab(ip := (tab ip)\<lparr>i_ref := i_ref (tab ip) - 1\<rparr>)"
    have it: "itable s1 = tab" using dviewD(1) [OF v1] by simp
    have put: "iput (Some ip) s1 = Ok ((), s1\<lparr>itable := tab2\<rparr>)"
      using iput_back [of s1 ip] iget_tabD(7) [OF ip] by (simp add: it tab2_def)
    have fl: "i_private (tab2 dp) = pp" "i_dev (tab2 dp) = 1" "i_type (tab2 dp) = T_DIR" "i_size (tab2 dp) = i_size (itable (s0\<lparr>itable := tab\<rparr>) dp)"
      using dviewD(2-4) [OF v1] by (auto simp: tab2_def)
    have v2: "dview (s0\<lparr>itable := tab2\<rparr>) dp n pp p L qs (s1\<lparr>itable := tab2\<rparr>)" using dview_itable [OF v1, of tab2] fl by simp
    have ds: "distinct (d_page d # d_private d # qs)" using dis d by simp
    show "runs ((case d_inode d of Some ip \<Rightarrow> bnd (iput (Some ip)) (\<lambda>_. bnd (free_dentry d) (\<lambda>_. ret (-1)))
     | None \<Rightarrow>
         bnd (get_inode dp) (\<lambda>i.
         bnd (untilK (free_slot_one dp d) [0..<entries (i_size i)]) (\<lambda>r.
         bnd (xv6fs_writei dp (KSrc (de_bytes (ucast (d_word t)) (strncpy (\<lambda>_. 0) nm1 DIRSIZ)))
            (of_nat (16 * (case r of None \<Rightarrow> entries (i_size i) | Some k \<Rightarrow> k))) 16) (\<lambda>w.
         bnd (free_dentry d) (\<lambda>_.
         if w \<noteq> 16 then ret (-1) else ret 0))))) s1)
       (\<lambda>r s'. r = -1 \<and> (\<exists>tab. dview (s0\<lparr>itable := tab\<rparr>) dp n pp p L (q1 # q2 # qs) s'))"
      unfolding d(3) option.case bnd_Ok [where m = "iput (Some ip)", OF put]
      by (rule runs_mono [OF give_back [OF v2 _ _ ds]]) (use ok d in auto)
  qed
qed

lemma dirlink_rule:
  assumes v: "dview s0 dp n pp p L (t1 # t2 # q1 # q2 # qs) s" and r: "i_ref (itable s0 dp) \<noteq> 0" and op: "i_op (itable s0 dp) \<noteq> None"
    and sz: "16 * Suc n \<le> MAXFILE * BSIZE" and ino: "ino_ok (sb s0) (i_inum (itable s0 dp))" and inum: "(ucast inum :: u16) \<noteq> 0"
    and g: "\<And>k. k < n \<Longrightarrow> iget_tab 1 (ucast (de_inum (dirent L p k))) (itable s0) \<noteq> None"
  shows "runs (dirlink dp nm inum s) (\<lambda>r s'. if dmap (dirent L p) n nm = None
     then r = 0 \<and> linked_to s0 dp n pp p L (t1 # t2 # q1 # q2 # qs) nm (ucast inum) s' \<or> r = -1 \<and> full_disk s0 s'
     else r = -1 \<and> (\<exists>tab. dview (s0\<lparr>itable := tab\<rparr>) dp n pp p L (t1 # t2 # q1 # q2 # qs) s'))"
proof -
  have dis: "distinct (t1 # t2 # q1 # q2 # qs)" and ok: "page_ok (kernel_end s0) t1" "page_ok (kernel_end s0) t2"
    using dview_pages [OF v] by auto
  show ?thesis
    unfolding dirlink_def
  proof (rule runs_bndI, rule dview_new [OF v], elim conjE)
    fix d :: dentry and s1
    assume d: "d_page d = t1" "d_private d = t2" "t2 \<noteq> 0" and v1: "dview s0 dp n pp p L (q1 # q2 # qs) s1"
    let ?t = "d\<lparr>d_inode := Some dp, d_name := strncpy (d_name d) nm DIRSIZ, d_word := inum\<rparr>"
    have t: "d_inode ?t = Some dp" "cstr DIRSIZ (d_name ?t) = cstr DIRSIZ nm" "ucast (d_word ?t) = ucast inum" by (simp_all add: cstr_strncpy)
    have ke: "kernel_end (with_ino s0 dp i) = kernel_end s0" "kernel_end (s0\<lparr>itable := tab\<rparr>) = kernel_end s0" for i tab by (simp_all add: with_ino_def)
    have ds: "distinct (d_page d # d_private d # q1 # q2 # qs)" using dis d by simp
    have op': "vcall (i_op (itable s1 dp)) s1 = Ok ((), s1)"
      using op dviewD(1) [OF v1] by (auto simp: vcall_def split: option.split fsops.split)
    have body: "runs (bnd (xv6fs_link ?t) (\<lambda>r. bnd (free_dentry d) (\<lambda>_. ret r)) s1) (\<lambda>r s'. if dmap (dirent L p) n nm = None
       then r = 0 \<and> linked_to s0 dp n pp p L (t1 # t2 # q1 # q2 # qs) nm (ucast inum) s' \<or> r = -1 \<and> full_disk s0 s'
       else r = -1 \<and> (\<exists>tab. dview (s0\<lparr>itable := tab\<rparr>) dp n pp p L (t1 # t2 # q1 # q2 # qs) s'))"
    proof (cases "dmap (dirent L p) n nm = None")
      case True
      show ?thesis unfolding if_P [OF True]
      proof (rule runs_bndI, rule link_new [OF v1 r sz ino t inum True], elim disjE conjE)
        fix x :: int and u assume x: "x = 0" and "linked_to s0 dp n pp p L (q1 # q2 # qs) nm (ucast inum) u"
        then obtain n' p' L' where l: "dview (with_ino s0 dp ((itable s0 dp)\<lparr>i_size := of_nat (16 * n')\<rparr>)) dp n' pp p' L' (q1 # q2 # qs) u"
          "n \<le> n'" "n' \<le> Suc n"
          "\<forall>nm'. dmap (dirent L' p') n' nm' = (if cstr DIRSIZ nm' = cstr DIRSIZ nm then Some (ucast inum) else dmap (dirent L p) n nm')"
          unfolding linked_to_def by blast
        show "runs (bnd (free_dentry d) (\<lambda>_. ret x) u) (\<lambda>r s'. r = 0 \<and> linked_to s0 dp n pp p L (t1 # t2 # q1 # q2 # qs) nm (ucast inum) s'
          \<or> r = -1 \<and> full_disk s0 s')"
        proof (rule runs_mono [OF give_back [OF l(1) _ _ ds, unfolded ke d(1,2), OF ok]])
          fix y :: int and w
          assume "y = x \<and> dview (with_ino s0 dp ((itable s0 dp)\<lparr>i_size := of_nat (16 * n')\<rparr>)) dp n' pp p' L' (t1 # t2 # q1 # q2 # qs) w"
          then show "y = 0 \<and> linked_to s0 dp n pp p L (t1 # t2 # q1 # q2 # qs) nm (ucast inum) w \<or> y = -1 \<and> full_disk s0 w"
            unfolding linked_to_def using x l(2-4) by blast
        qed
      next
        fix x :: int and u assume x: "x = -1" and u: "full_disk s0 u"
        show "runs (bnd (free_dentry d) (\<lambda>_. ret x) u) (\<lambda>r s'. r = 0 \<and> linked_to s0 dp n pp p L (t1 # t2 # q1 # q2 # qs) nm (ucast inum) s'
          \<or> r = -1 \<and> full_disk s0 s')"
          by (rule runs_mono [OF give_back_any]) (use ok d x u in \<open>auto simp: full_disk_def\<close>)
      qed
    next
      case False
      show ?thesis unfolding if_not_P [OF False]
        by (rule runs_bndI, rule link_found [OF v1 r t(1,2) False g], assumption, elim conjE exE,
            rule runs_mono, rule give_back [where qs = "q1 # q2 # qs"], assumption) (use ok d ds in \<open>auto simp: ke\<close>)
    qed
    show "runs ((if d_private d = 0 then fault
     else bnd (get_inode dp) (\<lambda>i. bnd (vcall (i_op i)) (\<lambda>_. bnd (xv6fs_link ?t) (\<lambda>r. bnd (free_dentry d) (\<lambda>_. ret r))))) s1)
      (\<lambda>r s'. if dmap (dirent L p) n nm = None
       then r = 0 \<and> linked_to s0 dp n pp p L (t1 # t2 # q1 # q2 # qs) nm (ucast inum) s' \<or> r = -1 \<and> full_disk s0 s'
       else r = -1 \<and> (\<exists>tab. dview (s0\<lparr>itable := tab\<rparr>) dp n pp p L (t1 # t2 # q1 # q2 # qs) s'))"
      using body d op' by (simp add: get_inode_def runs_bnd)
  qed
qed

section \<open>The elements of a path\<close>

text \<open>The calls of \<open>skipelem\<close> that walk a path to its end: the names they leave in the buffer.\<close>

function elements :: "u8 list \<Rightarrow> bytes \<Rightarrow> u8 list list" where
  "elements path nm = (case skipelem path nm of
     (None, nm') \<Rightarrow> []
   | (Some tail, nm') \<Rightarrow> cstr DIRSIZ nm' # elements tail nm')"
  by pat_completeness auto
termination
  by (relation "measure (\<lambda>(path, nm). length path)") (auto dest: skipelem_shorter [OF sym])

declare elements.simps [simp del]

lemma filter_split:
  assumes "xs \<noteq> []" and "hd xs \<noteq> c"
  shows "filter (\<lambda>x. x \<noteq> []) (split_at c xs) = takeWhile (\<lambda>x. x \<noteq> c) xs
    # filter (\<lambda>x. x \<noteq> []) (split_at c (dropWhile (\<lambda>x. x = c) (dropWhile (\<lambda>x. x \<noteq> c) xs)))"
proof -
  have ne: "takeWhile (\<lambda>x. x \<noteq> c) xs \<noteq> []" using assms by (cases xs) auto
  show ?thesis
  proof (cases "dropWhile (\<lambda>x. x \<noteq> c) xs")
    case Nil
    show ?thesis unfolding split_at_take [of c xs] Nil using ne by simp
  next
    case (Cons y ys)
    then have "y = c" using hd_dropWhile [of "\<lambda>x. x \<noteq> c" xs] by simp
    then show ?thesis unfolding split_at_take [of c xs] Cons using ne split_at_drop [of c ys] by simp
  qed
qed

lemma cstr_elem:
  assumes "0 \<notin> set el"
  shows "cstr DIRSIZ (if length el \<ge> DIRSIZ then wr nm 0 (take DIRSIZ el) else (wr nm 0 el)(length el := 0)) = take DIRSIZ el"
proof (cases "length el \<ge> DIRSIZ")
  case True
  have "\<forall>c \<in> set (take DIRSIZ el). c \<noteq> 0" using assms by (auto dest: in_set_takeD)
  then show ?thesis using True by (simp add: cstr_def min_absorb2 takeWhile_eq_all_conv)
next
  case False
  let ?m = "(wr nm 0 el)(length el := 0)"
  have "rd ?m 0 DIRSIZ = el @ 0 # rd ?m (Suc (length el)) (DIRSIZ - Suc (length el))"
    using False by (intro nth_equalityI) (auto simp: nth_append nth_Cons' wr_def)
  moreover have "\<forall>c \<in> set el. c \<noteq> 0" using assms by auto
  ultimately show ?thesis using False by (simp add: cstr_def takeWhile_append2)
qed

lemma elements_eq:
  assumes "0 \<notin> set path"
  shows "elements path nm = map (take DIRSIZ) (filter (\<lambda>x. x \<noteq> []) (split_at SLASH path))"
  using assms
proof (induction path nm rule: elements.induct)
  case (1 path nm)
  let ?s = "dropWhile (\<lambda>c. c = SLASH) path" and ?el = "takeWhile (\<lambda>c. c \<noteq> SLASH) (dropWhile (\<lambda>c. c = SLASH) path)"
  let ?t = "dropWhile (\<lambda>c. c = SLASH) (dropWhile (\<lambda>c. c \<noteq> SLASH) ?s)"
  have skip: "filter (\<lambda>x. x \<noteq> []) (split_at SLASH path) = filter (\<lambda>x. x \<noteq> []) (split_at SLASH ?s)"
    by (simp only: split_at_drop)
  show ?case
  proof (cases "?s = []")
    case True
    then have "skipelem path nm = (None, nm)" by (simp add: skipelem_def)
    then show ?thesis using skip by (subst elements.simps) (simp only: True, simp)
  next
    case False
    define nm' where "nm' = (if length ?el \<ge> DIRSIZ then wr nm 0 (take DIRSIZ ?el) else (wr nm 0 ?el)(length ?el := 0))"
    have sk: "skipelem path nm = (Some ?t, nm')" using False by (simp add: skipelem_def Let_def nm'_def)
    have "set ?el \<subseteq> set path" "set ?t \<subseteq> set path" by (auto dest!: set_takeWhileD set_dropWhileD)
    then have z: "0 \<notin> set ?el" "0 \<notin> set ?t" using "1.prems" by blast+
    have "elements ?t nm' = map (take DIRSIZ) (filter (\<lambda>x. x \<noteq> []) (split_at SLASH ?t))"
      using "1.IH" [OF sk [symmetric] refl z(2)] .
    moreover have "cstr DIRSIZ nm' = take DIRSIZ ?el" unfolding nm'_def by (rule cstr_elem [OF z(1)])
    moreover have "hd ?s \<noteq> SLASH" using hd_dropWhile [OF False] .
    ultimately show ?thesis unfolding skip filter_split [OF False \<open>hd ?s \<noteq> SLASH\<close>]
      by (subst elements.simps) (simp add: sk)
  qed
qed

section \<open>The root directory of a small disk\<close>

definition ds0 :: fs_st where
  "ds0 = fs0\<lparr>pmem := vmem, freelist := 0x80106000\<rparr>"

lemma ds0_sel [simp]: "itable ds0 = ino0" "sb ds0 = sb0"
  by (simp_all add: ds0_def)

lemma dview_ds0: "dview ds0 0 2 0x80200000 dir0 disk0 vfree ds0"
proof -
  have d: "dense disk0 dir0 (16 * 2)" unfolding dense_def slot_dir0 by (simp add: BSIZE_def)
  have "dirv (fs0\<lparr>pmem := pmem fs0, freelist := freelist fs0\<rparr>) 0 2 0x80200000 dir0 disk0 fs0"
    using filev_dir0 d by (simp add: dirv_def ino0_def maxfile_bytes)
  from dirv_mem [OF this, where m' = vmem and f' = "0x80106000"]
  have "dirv (ds0\<lparr>pmem := vmem, freelist := 0x80106000\<rparr>) 0 2 0x80200000 dir0 disk0 ds0" by (simp add: ds0_def)
  moreover have "kpages ds0 vfree"
  proof -
    have "cpu_ok ds0" "lfree LKmem ds0" using kctx_fs0 by (simp_all add: ds0_def kctx_def cpu_ok_def lfree_def ints_def)
    then show ?thesis using vm0_kpages by (simp add: kpages_def kinv_def ds0_def fs0_def)
  qed
  ultimately show ?thesis unfolding dview_def by blast
qed

lemma zeros: "replicate 13 0 = [0, 0, 0, 0, 0, 0, 0, 0, 0, 0, 0, 0, 0 :: u8]" "replicate 12 0 = [0, 0, 0, 0, 0, 0, 0, 0, 0, 0, 0, 0 :: u8]"
  by (simp_all add: numeral_eq_Suc)

lemma dirent_ds0: "dirent disk0 dir0 0 = [1, 0, 46] @ replicate 13 0" "dirent disk0 dir0 (Suc 0) = [1, 0, 46, 46] @ replicate 12 0"
  unfolding zeros by (simp_all add: dirent_def rd_def fbytes_def slot_dir0 disk0_def wr_def BSIZE_def upt_rec zeros
      MAXFILE_def NDIRECT_def NINDIRECT_def)

section \<open>Properties\<close>

text \<open>C10: \<open>dirlookup\<close> reads a directory as a map. For a directory with all its blocks in place it returns
  an entry of the first slot in use whose name agrees with the one asked for in its first 14 characters, with the
  byte offset of the slot and one more reference to the inode of that number in the inode table; and a
  null inode exactly when there is no such slot. The contents of the disk and the other inodes are as before, and
  two pages were taken for the result.\<close>

theorem dirlookup_finds:
  assumes "dview s0 dp n pp p L (q1 # q2 # qs) s" and "i_ref (itable s0 dp) \<noteq> 0"
    and free: "\<exists>i < NINODE. i_ref (itable s0 i) = 0"
  shows "runs (xv6fs_dirlookup dp nm s) (\<lambda>d s'. d_page d = q1 \<and> d_private d = q2 \<and> (case dfind (dirent L p) n nm of
      None \<Rightarrow> d_inode d = None \<and> dview s0 dp n pp p L qs s'
    | Some k \<Rightarrow> d_word d = of_nat (16 * k) \<and> (\<exists>ip tab. d_inode d = Some ip \<and> dview (s0\<lparr>itable := tab\<rparr>) dp n pp p L qs s'
        \<and> i_inum (tab ip) = ucast (de_inum (dirent L p k)) \<and> i_dev (tab ip) = 1 \<and> i_ref (tab ip) = i_ref (itable s0 ip) + 1
        \<and> (\<forall>j. j \<noteq> ip \<longrightarrow> tab j = itable s0 j))))"
  by (rule runs_mono [OF dirlookup_rule [OF assms(1,2) iget_tab_free [OF free]]])
     (auto simp: found_def split: option.splits dest!: iget_tab_got)

lemma dfind_ds0:
  "dfind (dirent disk0 dir0) 2 (wr (\<lambda>_. 0) 0 [46, 46]) = Some 1" "dfind (dirent disk0 dir0) 2 (wr (\<lambda>_. 0) 0 [97]) = None"
proof -
  have u: "[0..<2] = [0, Suc 0]" by (simp add: upt_rec)
  have e: "de_inum (dirent disk0 dir0 0) = 1" "de_inum (dirent disk0 dir0 (Suc 0)) = 1"
    by (simp_all add: dirent_ds0 de_inum_def)
  have c: "cstr DIRSIZ (de_name (dirent disk0 dir0 0)) = [46]" "cstr DIRSIZ (de_name (dirent disk0 dir0 (Suc 0))) = [46, 46]"
    by (simp_all add: dirent_ds0 cstr_def rd_def de_name_def DIRSIZ_def upt_rec zeros)
  have n: "cstr DIRSIZ (wr (\<lambda>_. 0) 0 [46, 46]) = [46, 46]" "cstr DIRSIZ (wr (\<lambda>_. 0) 0 [97]) = [97]"
    by (simp_all add: cstr_def rd_def wr_def DIRSIZ_def upt_rec)
  show "dfind (dirent disk0 dir0) 2 (wr (\<lambda>_. 0) 0 [46, 46]) = Some 1" "dfind (dirent disk0 dir0) 2 (wr (\<lambda>_. 0) 0 [97]) = None"
    unfolding dfind_def u hit_cstr by (simp_all add: e c n)
qed

theorem dirlookup_finds_witness:
  "runs (xv6fs_dirlookup 0 (wr (\<lambda>_. 0) 0 [46, 46]) ds0) (\<lambda>d s'. d_word d = 16 \<and> (\<exists>ip. d_inode d = Some ip \<and> i_inum (itable s' ip) = 1))"
proof (rule runs_mono [OF dirlookup_finds [OF dview_ds0 [unfolded vfree_def]]])
  show "i_ref (itable ds0 0) \<noteq> 0" "\<exists>i < NINODE. i_ref (itable ds0 i) = 0" by (auto simp: ino0_def NINODE_def intro: exI [of _ 2])
qed (auto simp: dfind_ds0 dirent_ds0 de_inum_def dest: dviewD(1))



text \<open>C21: a path is walked element by element. The names that \<open>skipelem\<close> yields, called until it has
  none, are the nonempty pieces of the path between slashes, in order, each cut to 14 characters; repeated, leading and
  trailing slashes do not count.\<close>

theorem skipelem_splits:
  assumes "0 \<notin> set path"
  shows "elements path nm = map (take DIRSIZ) (filter (\<lambda>x. x \<noteq> []) (split_at SLASH path))"
  by (rule elements_eq [OF assms])

theorem skipelem_splits_witness:
  "elements [SLASH, 97, SLASH, SLASH, 98, 99, SLASH] (\<lambda>_. 0) = [[97], [98, 99]]"
  using skipelem_splits [of "[SLASH, 97, SLASH, SLASH, 98, 99, SLASH]"] by (simp add: SLASH_def DIRSIZ_def)

end
