(* ===== verification/Ulib.thy ===== *)
theory Ulib
  imports Console
begin

text \<open>
  The user side of the system: the system calls as a user program sees them, the routines of
  \<open>user/ulib.c\<close> and the formatted output of \<open>user/printf.c\<close>. A program runs against a list of answers, one for
  each system call it makes: the number returned and the bytes the kernel stores through the pointer it was
  given. The run keeps a log of the calls with their answers, and ends with a value, with \<open>exit\<close>, or waiting for an
  answer that the list does not have. Strings that a program only reads are lists of the bytes before the NUL.
\<close>

section \<open>System calls\<close>

datatype ucall = UFork | UExit int | UWait | UPipe | URead int int | UWrite int "u8 list" | UClose int | UKill int
  | UExec "u8 list" "u8 list list" | UOpen "u8 list" int | UMknod "u8 list" int int | UUnlink "u8 list"
  | UFstat int | ULink "u8 list" "u8 list" | UMkdir "u8 list" | UChdir "u8 list" | UDup int | UGetpid | USbrk int
  | USleep int | UUptime

record user_st =
  answers :: "(int \<times> u8 list) list"
  ulog :: "(ucall \<times> (int \<times> u8 list) option) list"

datatype 'a ures = UVal 'a | UExited | UWaits | UFault

type_synonym ('s, 'a) U = "'s \<Rightarrow> 'a ures \<times> 's"

definition uret :: "'a \<Rightarrow> ('s, 'a) U" where
  "uret x = (\<lambda>s. (UVal x, s))"

definition ubnd :: "('s, 'a) U \<Rightarrow> ('a \<Rightarrow> ('s, 'b) U) \<Rightarrow> ('s, 'b) U" where
  "ubnd m f = (\<lambda>s. case m s of
       (UVal x, s') \<Rightarrow> f x s'
     | (UExited, s') \<Rightarrow> (UExited, s')
     | (UWaits, s') \<Rightarrow> (UWaits, s')
     | (UFault, s') \<Rightarrow> (UFault, s'))"

definition ufault :: "('s, 'a) U" where
  "ufault = (\<lambda>s. (UFault, s))"

definition usys :: "ucall \<Rightarrow> ('s user_st_scheme, int \<times> u8 list) U" where
  "usys c = (\<lambda>s. case answers s of
       [] \<Rightarrow> (UWaits, s\<lparr>ulog := ulog s @ [(c, None)]\<rparr>)
     | a # as \<Rightarrow> (UVal a, s\<lparr>answers := as, ulog := ulog s @ [(c, Some a)]\<rparr>))"

definition exit_u :: "int \<Rightarrow> ('s user_st_scheme, 'a) U" where
  "exit_u n = (\<lambda>s. (UExited, s\<lparr>ulog := ulog s @ [(UExit n, None)]\<rparr>))"

text \<open>A call of which only the number returned counts, and one whose answer is dropped.\<close>

definition ucalls :: "ucall \<Rightarrow> ('s user_st_scheme, int) U" where
  "ucalls c = ubnd (usys c) (\<lambda>a. uret (fst a))"

definition udo :: "ucall \<Rightarrow> ('s user_st_scheme, unit) U" where
  "udo c = ubnd (usys c) (\<lambda>_. uret ())"

definition uwhen :: "bool \<Rightarrow> ('s, unit) U \<Rightarrow> ('s, unit) U" where
  "uwhen b m = (if b then m else uret ())"

primrec ufor :: "('i \<Rightarrow> ('s, unit) U) \<Rightarrow> 'i list \<Rightarrow> ('s, unit) U" where
  "ufor f [] = uret ()"
| "ufor f (i # is) = ubnd (f i) (\<lambda>_. ufor f is)"

text \<open>
  A loop, its body giving the next value of the loop's variables (\<open>Inl\<close>) or leaving the loop (\<open>Inr\<close>).
  \<open>uloop\<close> has a bound on the number of rounds; \<open>uwhile\<close> takes the bound from the answers that are left, which
  is enough for a loop with a system call in every round.
\<close>

primrec uloop :: "nat \<Rightarrow> ('x \<Rightarrow> ('s, 'x + 'r) U) \<Rightarrow> 'x \<Rightarrow> ('s, 'r) U" where
  "uloop 0 body x = (\<lambda>s. (UWaits, s))"
| "uloop (Suc n) body x = ubnd (body x) (\<lambda>r. case r of Inl y \<Rightarrow> uloop n body y | Inr z \<Rightarrow> uret z)"

definition uwhile :: "('x \<Rightarrow> ('s user_st_scheme, 'x + 'r) U) \<Rightarrow> 'x \<Rightarrow> ('s user_st_scheme, 'r) U" where
  "uwhile body x = (\<lambda>s. uloop (Suc (length (answers s))) body x s)"

section \<open>Strings and memory\<close>

partial_function (option) strcpy_from :: "bytes \<Rightarrow> nat \<Rightarrow> nat \<Rightarrow> bytes option" where
  "strcpy_from m s t = (if m t \<noteq> 0 then strcpy_from (m(s := m t)) (Suc s) (Suc t) else Some (m(s := m t)))"

definition strcpy :: "bytes \<Rightarrow> nat \<Rightarrow> nat \<Rightarrow> bytes option" where
  "strcpy m s t = strcpy_from m s t"

partial_function (option) strcmp_from :: "bytes \<Rightarrow> bytes \<Rightarrow> nat \<Rightarrow> int option" where
  "strcmp_from p q i = (if p i \<noteq> 0 \<and> p i = q i then strcmp_from p q (Suc i) else Some (uint (p i) - uint (q i)))"

definition strcmp :: "bytes \<Rightarrow> bytes \<Rightarrow> int option" where
  "strcmp p q = strcmp_from p q 0"

partial_function (option) strlen_u_from :: "bytes \<Rightarrow> nat \<Rightarrow> nat option" where
  "strlen_u_from s n = (if s n \<noteq> 0 then strlen_u_from s (Suc n) else Some n)"

definition strlen_u :: "bytes \<Rightarrow> nat option" where
  "strlen_u s = strlen_u_from s 0"

fun memset_u_loop :: "bytes \<Rightarrow> nat \<Rightarrow> u8 \<Rightarrow> nat \<Rightarrow> nat \<Rightarrow> bytes" where
  "memset_u_loop m dst c i 0 = m"
| "memset_u_loop m dst c i (Suc k) = memset_u_loop (m(dst + i := c)) dst c (Suc i) k"

definition memset_u :: "bytes \<Rightarrow> nat \<Rightarrow> int \<Rightarrow> nat \<Rightarrow> bytes" where
  "memset_u m dst c n = memset_u_loop m dst (word_of_int c) 0 n"

text \<open>The position of the first \<open>c\<close> at or after \<open>s\<close>, before the NUL; \<open>Some None\<close> is the null pointer.\<close>

partial_function (option) strchr :: "bytes \<Rightarrow> nat \<Rightarrow> u8 \<Rightarrow> nat option option" where
  "strchr m s c = (if m s = 0 then Some None else if m s = c then Some (Some s) else strchr m (Suc s) c)"

fun copy_fwd :: "bytes \<Rightarrow> nat \<Rightarrow> nat \<Rightarrow> nat \<Rightarrow> bytes" where
  "copy_fwd m d s 0 = m"
| "copy_fwd m d s (Suc n) = copy_fwd (m(d := m s)) (Suc d) (Suc s) n"

fun copy_bwd :: "bytes \<Rightarrow> nat \<Rightarrow> nat \<Rightarrow> nat \<Rightarrow> bytes" where
  "copy_bwd m d s 0 = m"
| "copy_bwd m d s (Suc n) = copy_bwd (m(d - 1 := m (s - 1))) (d - 1) (s - 1) n"

definition memmove_u :: "bytes \<Rightarrow> nat \<Rightarrow> nat \<Rightarrow> int \<Rightarrow> bytes" where
  "memmove_u m dst src n =
     (if src > dst then copy_fwd m dst src (nat n) else if n > 0 then copy_bwd m (dst + nat n) (src + nat n) (nat n) else m)"

fun memcmp_u_loop :: "bytes \<Rightarrow> bytes \<Rightarrow> nat \<Rightarrow> nat \<Rightarrow> int" where
  "memcmp_u_loop s1 s2 i 0 = 0"
| "memcmp_u_loop s1 s2 i (Suc n) =
     (if s1 i \<noteq> s2 i then uint (s1 i) - uint (s2 i) else memcmp_u_loop s1 s2 (Suc i) n)"

definition memcmp_u :: "bytes \<Rightarrow> bytes \<Rightarrow> nat \<Rightarrow> int" where
  "memcmp_u s1 s2 n = memcmp_u_loop s1 s2 0 n"

definition memcpy_u :: "bytes \<Rightarrow> nat \<Rightarrow> nat \<Rightarrow> nat \<Rightarrow> bytes" where
  "memcpy_u m dst src n = memmove_u m dst src (sint (of_nat n :: u32))"

text \<open>\<open>atoi\<close> on a string; the arithmetic is that of 32-bit registers.\<close>

fun atoi_loop :: "u32 \<Rightarrow> u8 list \<Rightarrow> u32" where
  "atoi_loop n [] = n"
| "atoi_loop n (c # s) = (if 48 \<le> c \<and> c \<le> 57 then atoi_loop (n * 10 + ucast c - 48) s else n)"

definition atoi :: "u8 list \<Rightarrow> int" where
  "atoi s = sint (atoi_loop 0 s)"

section \<open>Input\<close>

text \<open>One round of \<open>gets\<close> with the buffer and \<open>i\<close>; \<open>Inr\<close> is a \<open>break\<close> or the end of the loop.\<close>

definition gets_one :: "int \<Rightarrow> nat \<times> bytes \<Rightarrow> ('s user_st_scheme, nat \<times> bytes + nat \<times> bytes) U" where
  "gets_one mx = (\<lambda>(i, buf).
     if int i + 1 < mx then
       ubnd (usys (URead 0 1)) (\<lambda>(cc, d).
       if cc < 1 then uret (Inr (i, buf))
       else case d of [] \<Rightarrow> ufault | c # _ \<Rightarrow>
         if c = 10 \<or> c = 13 then uret (Inr (Suc i, buf(i := c))) else uret (Inl (Suc i, buf(i := c))))
     else uret (Inr (i, buf)))"

definition gets_u :: "bytes \<Rightarrow> int \<Rightarrow> ('s user_st_scheme, bytes) U" where
  "gets_u buf mx = ubnd (uwhile (gets_one mx) (0, buf)) (\<lambda>(i, buf). uret (buf(i := 0)))"

definition stat_u :: "u8 list \<Rightarrow> ('s user_st_scheme, int \<times> u8 list) U" where
  "stat_u n =
     ubnd (ucalls (UOpen n 0)) (\<lambda>fd.
     if fd < 0 then uret (-1, [])
     else
       ubnd (usys (UFstat fd)) (\<lambda>(r, st).
       ubnd (udo (UClose fd)) (\<lambda>_.
       uret (r, st))))"

section \<open>Formatted output\<close>

definition digit_u :: "nat \<Rightarrow> u8" where
  "digit_u x = chars ''0123456789ABCDEF'' ! x"

definition putc :: "int \<Rightarrow> u8 \<Rightarrow> ('s user_st_scheme, unit) U" where
  "putc fd c = udo (UWrite fd [c])"

text \<open>The digits from the least significant one: the buffer that \<open>printint\<close> fills.\<close>

function digits_u :: "nat \<Rightarrow> nat \<Rightarrow> u8 list" where
  "digits_u x base = (if x div base = 0 \<or> base \<le> 1 then [digit_u (x mod base)]
     else digit_u (x mod base) # digits_u (x div base) base)"
  by pat_completeness auto
termination
  by (relation "measure fst") (auto simp: div_eq_0_iff)

declare digits_u.simps [simp del]

definition printint_u_chars :: "u32 \<Rightarrow> nat \<Rightarrow> bool \<Rightarrow> u8 list" where
  "printint_u_chars xx base sg =
     (let neg = (sg \<and> sint xx < 0);
          x = (if neg then - xx else xx)
      in rev (digits_u (unat x) base @ (if neg then [45] else [])))"

definition printint_u :: "int \<Rightarrow> u32 \<Rightarrow> nat \<Rightarrow> bool \<Rightarrow> ('s user_st_scheme, unit) U" where
  "printint_u fd xx base sg = ufor (putc fd) (printint_u_chars xx base sg)"

definition printptr_u_chars :: "u64 \<Rightarrow> u8 list" where
  "printptr_u_chars x = [48, 120] @ map (\<lambda>i. digit_u (unat (drop_bit 60 (push_bit (4 * i) x)))) [0..<16]"

definition printptr_u :: "int \<Rightarrow> u64 \<Rightarrow> ('s user_st_scheme, unit) U" where
  "printptr_u fd x = ufor (putc fd) (printptr_u_chars x)"

text \<open>
  The variable arguments are 64-bit registers or strings. \<open>va_arg\<close> of an \<open>int\<close> or a \<open>uint\<close> takes the low half of
  a register; an argument of the wrong kind, or a missing one, has no meaning.
\<close>

datatype uarg = UReg u64 | UStr "u8 list option"

text \<open>The characters between two arguments: \<open>pct\<close> is the variable \<open>state\<close>.\<close>

fun vprintf_loop :: "int \<Rightarrow> bool \<Rightarrow> u8 list \<Rightarrow> uarg list \<Rightarrow> ('s user_st_scheme, unit) U" where
  "vprintf_loop fd pct [] ap = uret ()"
| "vprintf_loop fd False (c # fmt) ap =
     (if c = 37 then vprintf_loop fd True fmt ap
      else ubnd (putc fd c) (\<lambda>_. vprintf_loop fd False fmt ap))"
| "vprintf_loop fd True (c # fmt) ap =
     (if c = 100 then (case ap of
          UReg x # ap' \<Rightarrow> ubnd (printint_u fd (ucast x) 10 True) (\<lambda>_. vprintf_loop fd False fmt ap') | _ \<Rightarrow> ufault)
      else if c = 108 then (case ap of
          UReg x # ap' \<Rightarrow> ubnd (printint_u fd (ucast x) 10 False) (\<lambda>_. vprintf_loop fd False fmt ap') | _ \<Rightarrow> ufault)
      else if c = 120 then (case ap of
          UReg x # ap' \<Rightarrow> ubnd (printint_u fd (ucast x) 16 False) (\<lambda>_. vprintf_loop fd False fmt ap') | _ \<Rightarrow> ufault)
      else if c = 112 then (case ap of
          UReg x # ap' \<Rightarrow> ubnd (printptr_u fd x) (\<lambda>_. vprintf_loop fd False fmt ap') | _ \<Rightarrow> ufault)
      else if c = 115 then (case ap of
          UStr s # ap' \<Rightarrow> ubnd (ufor (putc fd) (case s of None \<Rightarrow> chars ''(null)'' | Some t \<Rightarrow> t)) (\<lambda>_.
            vprintf_loop fd False fmt ap')
        | _ \<Rightarrow> ufault)
      else if c = 99 then (case ap of
          UReg x # ap' \<Rightarrow> ubnd (putc fd (ucast x)) (\<lambda>_. vprintf_loop fd False fmt ap') | _ \<Rightarrow> ufault)
      else if c = 37 then ubnd (putc fd c) (\<lambda>_. vprintf_loop fd False fmt ap)
      else ubnd (putc fd 37) (\<lambda>_. ubnd (putc fd c) (\<lambda>_. vprintf_loop fd False fmt ap)))"

definition vprintf :: "int \<Rightarrow> u8 list \<Rightarrow> uarg list \<Rightarrow> ('s user_st_scheme, unit) U" where
  "vprintf fd fmt ap = vprintf_loop fd False fmt ap"

definition fprintf_u :: "int \<Rightarrow> string \<Rightarrow> uarg list \<Rightarrow> ('s user_st_scheme, unit) U" where
  "fprintf_u fd fmt ap = vprintf fd (chars fmt) ap"

definition printf_u :: "string \<Rightarrow> uarg list \<Rightarrow> ('s user_st_scheme, unit) U" where
  "printf_u fmt ap = vprintf 1 (chars fmt) ap"

section \<open>Running a program\<close>

named_theorems umonad \<open>execution of one step of a user program\<close>

lemma u_simps [simp, umonad]: "uret x s = (UVal x, s)" "ufault s = (UFault, s)"
  "exit_u n t = (UExited, t\<lparr>ulog := ulog t @ [(UExit n, None)]\<rparr>)"
  by (simp_all add: uret_def ufault_def exit_u_def)

lemma ubnd_apply [umonad]: "ubnd m f s = (case m s of (UVal x, s') \<Rightarrow> f x s' | (UExited, s') \<Rightarrow> (UExited, s')
    | (UWaits, s') \<Rightarrow> (UWaits, s') | (UFault, s') \<Rightarrow> (UFault, s'))"
  by (simp add: ubnd_def)

lemma ubnd_val: "m s = (UVal x, s') \<Longrightarrow> ubnd m f s = f x s'"
  by (simp add: ubnd_def)

lemma usys_apply [umonad]:
  "answers s = a # as \<Longrightarrow> usys c s = (UVal a, s\<lparr>answers := as, ulog := ulog s @ [(c, Some a)]\<rparr>)"
  "answers s = [] \<Longrightarrow> usys c s = (UWaits, s\<lparr>ulog := ulog s @ [(c, None)]\<rparr>)"
  by (simp_all add: usys_def)

lemma uwhen_simps [simp]: "uwhen True m = m" "uwhen False m = uret ()"
  by (simp_all add: uwhen_def)

text \<open>A loop whose rounds all take an answer has rounds enough.\<close>

lemma uloop_enough:
  assumes dec: "\<And>x s y s'. body x s = (UVal (Inl y), s') \<Longrightarrow> length (answers s') < length (answers s)"
  shows "length (answers s) < n \<Longrightarrow> length (answers s) < m \<Longrightarrow> uloop n body x s = uloop m body x s"
proof (induction n arbitrary: m x s)
  case (Suc n)
  then obtain k where m: "m = Suc k" by (cases m) auto
  show ?case
  proof (cases "body x s")
    case (Pair r s')
    show ?thesis
    proof (cases "\<exists>y. r = UVal (Inl y)")
      case True
      then obtain y where r: "r = UVal (Inl y)" by blast
      then have "length (answers s') < length (answers s)" using dec Pair by simp
      then have "uloop n body y s' = uloop k body y s'" using Suc.prems m by (intro Suc.IH) auto
      then show ?thesis using Pair r m by (simp add: ubnd_apply)
    next
      case False
      then show ?thesis using Pair m by (auto simp: ubnd_apply split: ures.split sum.split)
    qed
  qed
qed simp

lemma uwhile_unfold:
  assumes dec: "\<And>x s y s'. body x s = (UVal (Inl y), s') \<Longrightarrow> length (answers s') < length (answers s)"
  shows "uwhile body x s = (case body x s of (UVal (Inl y), s') \<Rightarrow> uwhile body y s' | (UVal (Inr z), s') \<Rightarrow> (UVal z, s')
     | (UExited, s') \<Rightarrow> (UExited, s') | (UWaits, s') \<Rightarrow> (UWaits, s') | (UFault, s') \<Rightarrow> (UFault, s'))"
proof -
  have "uloop (length (answers s)) body y s' = uwhile body y s'" if "body x s = (UVal (Inl y), s')" for y s'
    unfolding uwhile_def using dec [OF that] by (intro uloop_enough [OF dec]) auto
  then show ?thesis by (auto simp: uwhile_def ubnd_apply split: ures.split sum.split prod.split)
qed

lemma ubnd_assoc: "ubnd (ubnd m f) g = ubnd m (\<lambda>x. ubnd (f x) g)"
  by (rule ext) (auto simp: ubnd_def split: prod.split ures.split)

text \<open>Every program only adds to the log and takes answers from the list; some take one before they return.\<close>

definition nomore :: "('s user_st_scheme, 'a) U \<Rightarrow> bool" where
  "nomore m \<longleftrightarrow> (\<forall>s. length (answers (snd (m s))) \<le> length (answers s) \<and> (\<exists>l. ulog (snd (m s)) = ulog s @ l))"

definition takes :: "('s user_st_scheme, 'a) U \<Rightarrow> bool" where
  "takes m \<longleftrightarrow> (\<forall>s x s'. m s = (UVal x, s') \<longrightarrow> length (answers s') < length (answers s))"

named_theorems uuse \<open>how many answers a program takes\<close>

lemma nomoreD: "nomore m \<Longrightarrow> m s = (r, s') \<Longrightarrow> length (answers s') \<le> length (answers s) \<and> (\<exists>l. ulog s' = ulog s @ l)"
  unfolding nomore_def by (metis snd_conv)

lemma nomore_base [uuse]: "nomore (uret x)" "nomore ufault" "nomore (exit_u n)" "nomore (usys c)"
  by (simp_all add: nomore_def usys_def split: list.split)

lemma nomore_ubnd [uuse]:
  assumes "nomore m" and "\<And>x. nomore (f x)"
  shows "nomore (ubnd m f)"
  unfolding nomore_def
proof
  fix s
  obtain r s' where m: "m s = (r, s')" by (cases "m s")
  note l = nomoreD [OF assms(1) m]
  show "length (answers (snd (ubnd m f s))) \<le> length (answers s) \<and> (\<exists>l. ulog (snd (ubnd m f s)) = ulog s @ l)"
  proof (cases r)
    case (UVal x)
    obtain r2 s2 where f: "f x s' = (r2, s2)" by (cases "f x s'")
    have "ubnd m f s = (r2, s2)" using m UVal f by (simp add: ubnd_def)
    then show ?thesis using l nomoreD [OF assms(2) f] by auto
  qed (use l m in \<open>simp_all add: ubnd_def\<close>)
qed

lemma nomore_uloop [uuse]: "(\<And>x. nomore (body x)) \<Longrightarrow> nomore (uloop n body x)"
proof (induction n arbitrary: x)
  case (Suc n)
  then show ?case unfolding uloop.simps by (intro nomore_ubnd) (auto simp: nomore_base split: sum.split)
qed (simp add: nomore_def)

lemma nomore_uwhile [uuse]:
  assumes "\<And>x. nomore (body x)"
  shows "nomore (uwhile body x)"
  using nomore_uloop [where body = body and x = x, OF assms] by (simp add: nomore_def uwhile_def del: uloop.simps)

lemma takes_usys [uuse]: "takes (usys c)"
  by (simp add: takes_def usys_def split: list.split)

lemma takes_ubnd [uuse]:
  assumes "takes m" and "\<And>x. nomore (f x)"
  shows "takes (ubnd m f)"
  unfolding takes_def
proof (intro allI impI)
  fix s x s' assume r: "ubnd m f s = (UVal x, s')"
  then obtain y t where m: "m s = (UVal y, t)" and f: "f y t = (UVal x, s')" by (auto simp: ubnd_def split: prod.splits ures.splits)
  have "length (answers t) < length (answers s)" using assms(1) m unfolding takes_def by blast
  moreover have "length (answers s') \<le> length (answers t)" using nomoreD [OF assms(2) f] by blast
  ultimately show "length (answers s') < length (answers s)" by simp
qed

lemma nomore_ufor [uuse]: "(\<And>x. nomore (f x)) \<Longrightarrow> nomore (ufor f xs)"
  by (induction xs) (simp_all add: uuse)

lemma takes_calls [uuse]: "takes (ucalls c)" "takes (udo c)" "nomore (ucalls c)" "nomore (udo c)" "nomore (putc fd ch)"
  by (simp_all add: ucalls_def udo_def putc_def uuse)

lemma nomore_case [uuse]: "(\<And>a b. nomore (f a b)) \<Longrightarrow> nomore (case p of (a, b) \<Rightarrow> f a b)"
  "nomore m \<Longrightarrow> nomore m' \<Longrightarrow> nomore (if b then m else m')"
  "nomore m \<Longrightarrow> (\<And>y ys. nomore (g y ys)) \<Longrightarrow> nomore (case l of [] \<Rightarrow> m | y # ys \<Rightarrow> g y ys)"
  "(\<And>r. nomore (h1 r)) \<Longrightarrow> (\<And>t. nomore (h2 t)) \<Longrightarrow> nomore (case a of UReg r \<Rightarrow> h1 r | UStr t \<Rightarrow> h2 t)"
  by (simp_all split: prod.split list.split uarg.split)

lemma nomore_vprintf_loop: "nomore (vprintf_loop fd b fmt ap)"
proof (induction fmt arbitrary: b ap)
  case (Cons c fmt)
  show ?case
    by (cases b; simp only: vprintf_loop.simps printint_u_def printptr_u_def;
        intro nomore_case nomore_ubnd nomore_ufor nomore_base takes_calls Cons)
qed (simp add: uuse)

lemma nomore_printf [uuse]: "nomore (vprintf fd fmt ap)" "nomore (fprintf_u fd f ap)" "nomore (printf_u f ap)"
  by (simp_all add: vprintf_def fprintf_u_def printf_u_def nomore_vprintf_loop)

lemma uwhile_takes:
  assumes "\<And>x. takes (body x)"
  shows "uwhile body x s = (case body x s of (UVal (Inl y), s') \<Rightarrow> uwhile body y s' | (UVal (Inr z), s') \<Rightarrow> (UVal z, s')
     | (UExited, s') \<Rightarrow> (UExited, s') | (UWaits, s') \<Rightarrow> (UWaits, s') | (UFault, s') \<Rightarrow> (UFault, s'))"
  using assms by (intro uwhile_unfold) (simp add: takes_def)

lemma uwhile_ubnd:
  assumes "\<And>x. takes (body x)"
  shows "uwhile body x s = ubnd (body x) (\<lambda>r. case r of Inl y \<Rightarrow> uwhile body y | Inr z \<Rightarrow> uret z) s"
  by (subst uwhile_takes [where body = body, OF assms]) (auto simp: ubnd_def split: prod.split ures.split sum.split)

text \<open>What a log says was written to a file, and what was read from it.\<close>

definition wrote :: "int \<Rightarrow> (ucall \<times> (int \<times> u8 list) option) list \<Rightarrow> u8 list" where
  "wrote fd l = concat (map (\<lambda>(c, a). case c of UWrite f bs \<Rightarrow> if f = fd then bs else [] | _ \<Rightarrow> []) l)"

definition received :: "int \<Rightarrow> (ucall \<times> (int \<times> u8 list) option) list \<Rightarrow> u8 list" where
  "received fd l = concat (map (\<lambda>(c, a). case c of URead f n \<Rightarrow> if f = fd then (case a of None \<Rightarrow> [] | Some r \<Rightarrow> snd r) else [] | _ \<Rightarrow> []) l)"

lemma wrote_simps [simp]: "wrote fd [] = []" "wrote fd (l @ l') = wrote fd l @ wrote fd l'"
  "wrote fd ((UWrite f bs, a) # l) = (if f = fd then bs else []) @ wrote fd l"
  "wrote fd ((URead f n, a) # l) = wrote fd l" "wrote fd ((UExit x, a) # l) = wrote fd l"
  by (simp_all add: wrote_def)

lemma received_simps [simp]: "received fd [] = []" "received fd (l @ l') = received fd l @ received fd l'"
  "received fd ((UWrite f bs, a) # l) = received fd l" "received fd ((UExit x, a) # l) = received fd l"
  "received fd ((URead f n, Some (r, d)) # l) = (if f = fd then d else []) @ received fd l"
  "received fd ((URead f n, None) # l) = received fd l"
  by (simp_all add: received_def)

text \<open>A log whose reads got no more than they asked for, and as many bytes as the number returned says.\<close>

definition honest :: "(ucall \<times> (int \<times> u8 list) option) list \<Rightarrow> bool" where
  "honest l \<longleftrightarrow> list_all (\<lambda>(c, a). case c of
     URead f n \<Rightarrow> (case a of None \<Rightarrow> True | Some (r, d) \<Rightarrow> int (length d) = max 0 r \<and> r \<le> max 0 n) | _ \<Rightarrow> True) l"

lemma honest_simps [simp]: "honest []" "honest (l @ l') \<longleftrightarrow> honest l \<and> honest l'" "honest ((UWrite f bs, a) # l) \<longleftrightarrow> honest l"
  "honest ((URead f n, Some (r, d)) # l) \<longleftrightarrow> int (length d) = max 0 r \<and> r \<le> max 0 n \<and> honest l" "honest ((URead f n, None) # l) \<longleftrightarrow> honest l"
  by (simp_all add: honest_def)

section \<open>Numbers in decimal\<close>

lemma digit_u_dec: "d < 10 \<Longrightarrow> digit_u d = of_nat (48 + d)"
proof -
  assume "d < 10"
  then have "d \<in> {0, 1, 2, 3, 4, 5, 6, 7, 8, 9}" by auto
  then show ?thesis by (auto simp: digit_u_def chars_def)
qed

definition isdig :: "u8 \<Rightarrow> bool" where
  "isdig c \<longleftrightarrow> 48 \<le> c \<and> c \<le> 57"

lemma digit_u_isdig: "d < 10 \<Longrightarrow> isdig (digit_u d)" and digit_u_val: "d < 10 \<Longrightarrow> (ucast (digit_u d) :: u32) - 48 = of_nat d"
proof -
  assume "d < 10"
  then have d: "d \<in> {0, 1, 2, 3, 4, 5, 6, 7, 8, 9}" by auto
  then show "isdig (digit_u d)" by (auto simp: digit_u_def chars_def isdig_def)
  show "(ucast (digit_u d) :: u32) - 48 = of_nat d" using d by (auto simp: digit_u_def chars_def)
qed

lemma digits_u_isdig: "c \<in> set (digits_u x 10) \<Longrightarrow> isdig c"
proof (induction x "10 :: nat" rule: digits_u.induct)
  case (1 x)
  show ?case
  proof (cases "x div 10 = 0")
    case True
    then show ?thesis using "1.prems" by (simp add: digits_u.simps [of x] digit_u_isdig)
  next
    case False
    then show ?thesis using 1 by (auto simp: digits_u.simps [of x] digit_u_isdig split: if_splits)
  qed
qed

lemma atoi_loop_append: "(\<And>c. c \<in> set xs \<Longrightarrow> isdig c) \<Longrightarrow> atoi_loop n (xs @ ys) = atoi_loop (atoi_loop n xs) ys"
  by (induction xs arbitrary: n) (auto simp: isdig_def)

lemma atoi_digits: "atoi_loop 0 (rev (digits_u x 10)) = of_nat x"
proof (induction x "10 :: nat" rule: digits_u.induct)
  case (1 x)
  have d: "isdig (digit_u (x mod 10))" "(ucast (digit_u (x mod 10)) :: u32) - 48 = of_nat (x mod 10)"
    by (simp_all add: digit_u_isdig digit_u_val)
  show ?case
  proof (cases "x div 10 = 0")
    case True
    then have "x mod 10 = x" by simp
    then show ?thesis using True d by (simp add: digits_u.simps [of x] isdig_def)
  next
    case False
    have "atoi_loop 0 (rev (digits_u (x div 10) 10) @ [digit_u (x mod 10)]) = atoi_loop (of_nat (x div 10)) [digit_u (x mod 10)]"
      using False 1 digits_u_isdig by (subst atoi_loop_append) auto
    moreover have "rev (digits_u x 10) = rev (digits_u (x div 10) 10) @ [digit_u (x mod 10)]"
      using False by (subst digits_u.simps) simp
    ultimately have "atoi_loop 0 (rev (digits_u x 10)) = atoi_loop (of_nat (x div 10)) [digit_u (x mod 10)]" by simp
    also have "\<dots> = of_nat (x div 10) * 10 + (ucast (digit_u (x mod 10)) - 48)"
      using d(1) by (simp add: isdig_def)
    also have "\<dots> = of_nat (x div 10 * 10 + x mod 10)" unfolding d(2) by (simp only: of_nat_add of_nat_mult of_nat_numeral)
    finally show ?thesis by (simp only: div_mult_mod_eq)
  qed
qed

end
