(* ===== verification/Uprogs.thy ===== *)
theory Uprogs
  imports Ulib
begin

text \<open>
  The small user programs: \<open>cat\<close>, \<open>wc\<close>, \<open>echo\<close>, \<open>ls\<close>, \<open>kill\<close>, \<open>ln\<close>, \<open>mkdir\<close>, \<open>rm\<close>, \<open>zombie\<close>, \<open>init\<close>,
  \<open>forktest\<close> and \<open>stressfs\<close>. A program is given its arguments as a list of strings; static buffers are
  passed from call to call. The lemmas say what \<open>cat\<close> and \<open>wc\<close> compute from the bytes the kernel delivers, however
  it cuts them into pieces.
\<close>

section \<open>cat\<close>

definition cat_one :: "int \<Rightarrow> bytes \<Rightarrow> ('s user_st_scheme, bytes + int \<times> bytes) U" where
  "cat_one fd buf =
     ubnd (usys (URead fd 512)) (\<lambda>(n, d).
     let buf = wr buf 0 d in
     if n > 0 then
       ubnd (ucalls (UWrite 1 (rd buf 0 (nat n)))) (\<lambda>w.
       if w \<noteq> n then
         ubnd (fprintf_u 2 ''cat: write error\<newline>'' []) (\<lambda>_.
         exit_u 1)
       else uret (Inl buf))
     else uret (Inr (n, buf)))"

definition cat :: "int \<Rightarrow> bytes \<Rightarrow> ('s user_st_scheme, bytes) U" where
  "cat fd buf =
     ubnd (uwhile (cat_one fd) buf) (\<lambda>(n, buf).
     if n < 0 then
       ubnd (fprintf_u 2 ''cat: read error\<newline>'' []) (\<lambda>_.
       exit_u 1)
     else uret buf)"

fun cat_files :: "u8 list list \<Rightarrow> bytes \<Rightarrow> ('s user_st_scheme, unit) U" where
  "cat_files [] buf = exit_u 0"
| "cat_files (a # as) buf =
     ubnd (ucalls (UOpen a 0)) (\<lambda>fd.
     if fd < 0 then
       ubnd (fprintf_u 2 ''cat: cannot open %s\<newline>'' [UStr (Some a)]) (\<lambda>_.
       exit_u 1)
     else
       ubnd (cat fd buf) (\<lambda>buf.
       ubnd (udo (UClose fd)) (\<lambda>_.
       cat_files as buf)))"

definition cat_main :: "u8 list list \<Rightarrow> ('s user_st_scheme, unit) U" where
  "cat_main argv =
     (if length argv \<le> 1 then ubnd (cat 0 (\<lambda>_. 0)) (\<lambda>_. exit_u 0)
      else cat_files (tl argv) (\<lambda>_. 0))"

section \<open>wc\<close>

record wc_st =
  wc_l :: u32
  wc_w :: u32
  wc_c :: u32
  wc_inword :: bool

definition wc_char :: "u8 \<Rightarrow> wc_st \<Rightarrow> wc_st" where
  "wc_char ch s =
     (let s = s\<lparr>wc_c := wc_c s + 1\<rparr>;
          s = (if ch = 10 then s\<lparr>wc_l := wc_l s + 1\<rparr> else s)
      in if ch \<in> set [32, 13, 9, 10, 11] then s\<lparr>wc_inword := False\<rparr>
         else if \<not> wc_inword s then s\<lparr>wc_w := wc_w s + 1, wc_inword := True\<rparr>
         else s)"

definition wc_one :: "int \<Rightarrow> wc_st \<times> bytes \<Rightarrow> ('s user_st_scheme, wc_st \<times> bytes + int \<times> wc_st \<times> bytes) U" where
  "wc_one fd = (\<lambda>(st, buf).
     ubnd (usys (URead fd 512)) (\<lambda>(n, d).
     let buf = wr buf 0 d in
     if n > 0 then uret (Inl (fold wc_char (rd buf 0 (nat n)) st, buf))
     else uret (Inr (n, st, buf))))"

definition wc :: "int \<Rightarrow> u8 list \<Rightarrow> bytes \<Rightarrow> ('s user_st_scheme, bytes) U" where
  "wc fd name buf =
     ubnd (uwhile (wc_one fd) (\<lparr>wc_l = 0, wc_w = 0, wc_c = 0, wc_inword = False\<rparr>, buf)) (\<lambda>(n, st, buf).
     if n < 0 then
       ubnd (printf_u ''wc: read error\<newline>'' []) (\<lambda>_.
       exit_u 1)
     else
       ubnd (printf_u ''%d %d %d %s\<newline>'' [UReg (ucast (wc_l st)), UReg (ucast (wc_w st)), UReg (ucast (wc_c st)), UStr (Some name)]) (\<lambda>_.
       uret buf))"

fun wc_files :: "u8 list list \<Rightarrow> bytes \<Rightarrow> ('s user_st_scheme, unit) U" where
  "wc_files [] buf = exit_u 0"
| "wc_files (a # as) buf =
     ubnd (ucalls (UOpen a 0)) (\<lambda>fd.
     if fd < 0 then
       ubnd (printf_u ''wc: cannot open %s\<newline>'' [UStr (Some a)]) (\<lambda>_.
       exit_u 1)
     else
       ubnd (wc fd a buf) (\<lambda>buf.
       ubnd (udo (UClose fd)) (\<lambda>_.
       wc_files as buf)))"

definition wc_main :: "u8 list list \<Rightarrow> ('s user_st_scheme, unit) U" where
  "wc_main argv =
     (if length argv \<le> 1 then ubnd (wc 0 [] (\<lambda>_. 0)) (\<lambda>_. exit_u 0)
      else wc_files (tl argv) (\<lambda>_. 0))"

section \<open>echo, kill, ln, mkdir, rm and zombie\<close>

fun echo_args :: "u8 list list \<Rightarrow> ('s user_st_scheme, unit) U" where
  "echo_args [] = exit_u 0"
| "echo_args (a # as) =
     ubnd (udo (UWrite 1 a)) (\<lambda>_.
     ubnd (udo (UWrite 1 (if as \<noteq> [] then [32] else [10]))) (\<lambda>_.
     echo_args as))"

definition echo_main :: "u8 list list \<Rightarrow> ('s user_st_scheme, unit) U" where
  "echo_main argv = echo_args (tl argv)"

definition kill_main :: "u8 list list \<Rightarrow> ('s user_st_scheme, unit) U" where
  "kill_main argv =
     (if length argv < 2 then
        ubnd (fprintf_u 2 ''usage: kill pid...\<newline>'' []) (\<lambda>_.
        exit_u 1)
      else
        ubnd (ufor (\<lambda>a. udo (UKill (atoi a))) (tl argv)) (\<lambda>_.
        exit_u 0))"

definition ln_main :: "u8 list list \<Rightarrow> ('s user_st_scheme, unit) U" where
  "ln_main argv =
     (if length argv \<noteq> 3 then
        ubnd (fprintf_u 2 ''Usage: ln old new\<newline>'' []) (\<lambda>_.
        exit_u 1)
      else
        ubnd (ucalls (ULink (argv ! 1) (argv ! 2))) (\<lambda>r.
        ubnd (uwhen (r < 0)
          (fprintf_u 2 ''link %s %s: failed\<newline>'' [UStr (Some (argv ! 1)), UStr (Some (argv ! 2))])) (\<lambda>_.
        exit_u 0)))"

fun mkdir_args :: "u8 list list \<Rightarrow> ('s user_st_scheme, unit) U" where
  "mkdir_args [] = exit_u 0"
| "mkdir_args (a # as) =
     ubnd (ucalls (UMkdir a)) (\<lambda>r.
     if r < 0 then
       ubnd (fprintf_u 2 ''mkdir: %s failed to create\<newline>'' [UStr (Some a)]) (\<lambda>_.
       exit_u 0)
     else mkdir_args as)"

definition mkdir_main :: "u8 list list \<Rightarrow> ('s user_st_scheme, unit) U" where
  "mkdir_main argv =
     (if length argv < 2 then
        ubnd (fprintf_u 2 ''Usage: mkdir files...\<newline>'' []) (\<lambda>_.
        exit_u 1)
      else mkdir_args (tl argv))"

fun rm_args :: "u8 list list \<Rightarrow> ('s user_st_scheme, unit) U" where
  "rm_args [] = exit_u 0"
| "rm_args (a # as) =
     ubnd (ucalls (UUnlink a)) (\<lambda>r.
     if r < 0 then
       ubnd (fprintf_u 2 ''rm: %s failed to delete\<newline>'' [UStr (Some a)]) (\<lambda>_.
       exit_u 0)
     else rm_args as)"

definition rm_main :: "u8 list list \<Rightarrow> ('s user_st_scheme, unit) U" where
  "rm_main argv =
     (if length argv < 2 then
        ubnd (fprintf_u 2 ''Usage: rm files...\<newline>'' []) (\<lambda>_.
        exit_u 1)
      else rm_args (tl argv))"

definition zombie_main :: "('s user_st_scheme, unit) U" where
  "zombie_main =
     ubnd (ucalls UFork) (\<lambda>pid.
     ubnd (uwhen (pid > 0) (udo (USleep 5))) (\<lambda>_.
     exit_u 0))"

section \<open>ls\<close>

text \<open>The index after the last slash before position \<open>p\<close>.\<close>

fun name_start :: "u8 list \<Rightarrow> nat \<Rightarrow> nat" where
  "name_start path 0 = 0"
| "name_start path (Suc p) = (if path ! p = 47 then Suc p else name_start path p)"

definition fmtname :: "u8 list \<Rightarrow> u8 list" where
  "fmtname path =
     (let p = drop (name_start path (length path)) path
      in if length p \<ge> DIRSIZ then p else p @ replicate (DIRSIZ - length p) 32)"

text \<open>The fields of a \<open>struct stat\<close> that \<open>ls\<close> prints, from the bytes the kernel stored.\<close>

definition sb_type :: "u8 list \<Rightarrow> u16" where "sb_type st = of_le (take 2 (drop 8 st))"
definition sb_ino :: "u8 list \<Rightarrow> u32" where "sb_ino st = of_le (take 4 (drop 4 st))"
definition sb_fsize :: "u8 list \<Rightarrow> u64" where "sb_fsize st = of_le (take 8 (drop 16 st))"

definition ls_one :: "int \<Rightarrow> u8 list \<Rightarrow> bytes \<Rightarrow> ('s user_st_scheme, bytes + unit) U" where
  "ls_one fd path de =
     ubnd (usys (URead fd 16)) (\<lambda>(r, d).
     let de = wr de 0 d in
     if r \<noteq> 16 then uret (Inr ())
     else if ld16 de 0 = 0 then uret (Inl de)
     else
       let buf = path @ [47] @ takeWhile (\<lambda>c. c \<noteq> 0) (rd de 2 DIRSIZ) in
       ubnd (stat_u buf) (\<lambda>(r, st).
       if r < 0 then
         ubnd (printf_u ''ls: cannot stat %s\<newline>'' [UStr (Some buf)]) (\<lambda>_.
         uret (Inl de))
       else
         ubnd (printf_u ''%s %d %d %d\<newline>''
           [UStr (Some (fmtname buf)), UReg (scast (sb_type st)), UReg (ucast (sb_ino st)), UReg (sb_fsize st)]) (\<lambda>_.
         uret (Inl de))))"

definition ls :: "u8 list \<Rightarrow> ('s user_st_scheme, unit) U" where
  "ls path =
     ubnd (ucalls (UOpen path 0)) (\<lambda>fd.
     if fd < 0 then fprintf_u 2 ''ls: cannot open %s\<newline>'' [UStr (Some path)]
     else
       ubnd (usys (UFstat fd)) (\<lambda>(r, st).
       if r < 0 then
         ubnd (fprintf_u 2 ''ls: cannot stat %s\<newline>'' [UStr (Some path)]) (\<lambda>_.
         udo (UClose fd))
       else
         ubnd (if sb_type st = T_DEVICE \<or> sb_type st = T_FILE then
                 printf_u ''%s %d %d %l\<newline>''
                   [UStr (Some (fmtname path)), UReg (scast (sb_type st)), UReg (ucast (sb_ino st)), UReg (sb_fsize st)]
               else if sb_type st = T_DIR then
                 (if length path + 1 + DIRSIZ + 1 > 512 then printf_u ''ls: path too long\<newline>'' []
                  else uwhile (ls_one fd path) (\<lambda>_. 0))
               else uret ()) (\<lambda>_.
         udo (UClose fd))))"

definition ls_main :: "u8 list list \<Rightarrow> ('s user_st_scheme, unit) U" where
  "ls_main argv =
     (if length argv < 2 then ubnd (ls [46]) (\<lambda>_. exit_u 0)
      else ubnd (ufor ls (tl argv)) (\<lambda>_. exit_u 0))"

section \<open>init\<close>

definition init_wait :: "int \<Rightarrow> unit \<Rightarrow> ('s user_st_scheme, unit + unit) U" where
  "init_wait pid x =
     ubnd (ucalls UWait) (\<lambda>wpid.
     if wpid = pid then uret (Inr ())
     else if wpid < 0 then
       ubnd (printf_u ''init: wait returned an error\<newline>'' []) (\<lambda>_.
       exit_u 1)
     else uret (Inl ()))"

definition init_round :: "unit \<Rightarrow> ('s user_st_scheme, unit + unit) U" where
  "init_round x =
     ubnd (printf_u ''init: starting sh\<newline>'' []) (\<lambda>_.
     ubnd (ucalls UFork) (\<lambda>pid.
     if pid < 0 then
       ubnd (printf_u ''init: fork failed\<newline>'' []) (\<lambda>_.
       exit_u 1)
     else if pid = 0 then
       ubnd (udo (UExec (chars ''sh'') [chars ''sh''])) (\<lambda>_.
       ubnd (printf_u ''init: exec sh failed\<newline>'' []) (\<lambda>_.
       exit_u 1))
     else
       ubnd (uwhile (init_wait pid) ()) (\<lambda>_.
       uret (Inl ()))))"

definition init_main :: "('s user_st_scheme, unit) U" where
  "init_main =
     ubnd (ucalls (UOpen (chars ''console'') 2)) (\<lambda>fd.
     ubnd (uwhen (fd < 0)
       (ubnd (udo (UMknod (chars ''console'') 1 0)) (\<lambda>_.
        udo (UOpen (chars ''console'') 2)))) (\<lambda>_.
     ubnd (udo (UDup 0)) (\<lambda>_.
     ubnd (udo (UDup 0)) (\<lambda>_.
     uwhile init_round ()))))"

section \<open>forktest and stressfs\<close>

definition print_u :: "string \<Rightarrow> ('s user_st_scheme, unit) U" where
  "print_u s = udo (UWrite 1 (chars s))"

definition forktest_fork :: "nat \<Rightarrow> ('s user_st_scheme, nat + nat) U" where
  "forktest_fork n =
     (if n < 1000 then
        ubnd (ucalls UFork) (\<lambda>pid.
        if pid < 0 then uret (Inr n)
        else if pid = 0 then exit_u 0
        else uret (Inl (Suc n)))
      else uret (Inr n))"

definition forktest_wait :: "nat \<Rightarrow> ('s user_st_scheme, unit) U" where
  "forktest_wait n = ufor (\<lambda>_.
     ubnd (ucalls UWait) (\<lambda>r.
     if r < 0 then
       ubnd (print_u ''wait stopped early\<newline>'') (\<lambda>_.
       exit_u 1)
     else uret ())) [0..<n]"

definition forktest :: "('s user_st_scheme, unit) U" where
  "forktest =
     ubnd (print_u ''fork test\<newline>'') (\<lambda>_.
     ubnd (uwhile forktest_fork 0) (\<lambda>n.
     if n = 1000 then
       ubnd (print_u ''fork claimed to work N times!\<newline>'') (\<lambda>_.
       exit_u 1)
     else
       ubnd (forktest_wait n) (\<lambda>_.
       ubnd (ucalls UWait) (\<lambda>r.
       if r \<noteq> -1 then
         ubnd (print_u ''wait got too many\<newline>'') (\<lambda>_.
         exit_u 1)
       else print_u ''fork test OK\<newline>''))))"

definition forktest_main :: "('s user_st_scheme, unit) U" where
  "forktest_main = ubnd forktest (\<lambda>_. exit_u 0)"

definition stressfs_fork :: "nat \<Rightarrow> ('s user_st_scheme, nat + nat) U" where
  "stressfs_fork i =
     (if i < 4 then
        ubnd (ucalls UFork) (\<lambda>pid.
        if pid > 0 then uret (Inr i) else uret (Inl (Suc i)))
      else uret (Inr i))"

definition stressfs_main :: "('s user_st_scheme, unit) U" where
  "stressfs_main =
     ubnd (printf_u ''stressfs starting\<newline>'' []) (\<lambda>_.
     let data = memset_u (\<lambda>_. 0) 0 97 512 in
     ubnd (uwhile stressfs_fork 0) (\<lambda>i.
     ubnd (printf_u ''write %d\<newline>'' [UReg (of_nat i)]) (\<lambda>_.
     let path = (chars ''stressfs0'')[8 := 48 + of_nat i] in
     ubnd (ucalls (UOpen path 0x202)) (\<lambda>fd.
     ubnd (ufor (\<lambda>_. udo (UWrite fd (rd data 0 512))) [0..<20]) (\<lambda>_.
     ubnd (udo (UClose fd)) (\<lambda>_.
     ubnd (printf_u ''read\<newline>'' []) (\<lambda>_.
     ubnd (ucalls (UOpen path 0)) (\<lambda>fd.
     ubnd (ufor (\<lambda>_. udo (URead fd 512)) [0..<20]) (\<lambda>_.
     ubnd (udo (UClose fd)) (\<lambda>_.
     ubnd (udo UWait) (\<lambda>_.
     exit_u 0)))))))))))"

section \<open>The loops take an answer in every round\<close>

lemma loops_take [uuse]: "takes (cat_one fd buf)" "takes (wc_one fd p)" "takes (ls_one fd path de)" "takes (init_wait pid x)"
  by (simp_all only: cat_one_def wc_one_def ls_one_def init_wait_def stat_u_def Let_def case_prod_unfold,
      intro takes_ubnd nomore_ubnd nomore_case nomore_base nomore_printf takes_calls takes_usys,
      (intro takes_ubnd nomore_ubnd nomore_case nomore_base nomore_printf takes_calls takes_usys)+)

end
