(* ===== verification/Grep.thy ===== *)
theory Grep
  imports Ulib
begin

text \<open>
  \<open>user/grep.c\<close>: the matcher for patterns with \<open>^ . * $\<close>, the loop that cuts the input into lines in a buffer of
  1024 bytes, and the program. The matcher is shown to decide the language a pattern denotes, and the loop to print
  exactly the matching lines, however the input arrives.
\<close>

section \<open>The matcher\<close>

function matchhere :: "u8 list \<Rightarrow> u8 list \<Rightarrow> bool" and matchstar :: "u8 \<Rightarrow> u8 list \<Rightarrow> u8 list \<Rightarrow> bool" where
  "matchhere re tx =
     (if re = [] then True
      else if tl re \<noteq> [] \<and> hd (tl re) = 42 then matchstar (hd re) (tl (tl re)) tx
      else if hd re = 36 \<and> tl re = [] then tx = []
      else if tx \<noteq> [] \<and> (hd re = 46 \<or> hd re = hd tx) then matchhere (tl re) (tl tx)
      else False)"
| "matchstar c re tx =
     (if matchhere re tx then True
      else if tx \<noteq> [] \<and> (hd tx = c \<or> c = 46) then matchstar c re (tl tx)
      else False)"
  by pat_completeness auto
termination
proof (relation "measures [\<lambda>x. case x of Inl (re, tx) \<Rightarrow> 2 * length re | Inr (c, re, tx) \<Rightarrow> Suc (2 * length re),
    \<lambda>x. case x of Inl (re, tx) \<Rightarrow> length tx | Inr (c, re, tx) \<Rightarrow> length tx]", goal_cases)
  case (2 re tx)
  then show ?case by (cases re; cases "tl re") auto
qed (auto simp: neq_Nil_conv)

declare matchhere.simps [simp del] matchstar.simps [simp del]

function match_from :: "u8 list \<Rightarrow> u8 list \<Rightarrow> bool" where
  "match_from re tx = (if matchhere re tx then True else if tx \<noteq> [] then match_from re (tl tx) else False)"
  by pat_completeness auto
termination
  by (relation "measure (\<lambda>(re, tx). length tx)") auto

declare match_from.simps [simp del]

definition match :: "u8 list \<Rightarrow> u8 list \<Rightarrow> bool" where
  "match re tx = (if re \<noteq> [] \<and> hd re = 94 then matchhere (tl re) tx else match_from re tx)"

section \<open>The program\<close>

text \<open>One line of the buffer: \<open>p\<close> is the index of its first byte.\<close>

definition grep_line :: "u8 list \<Rightarrow> nat \<times> bytes \<Rightarrow> ('s user_st_scheme, nat \<times> bytes + nat \<times> bytes) U" where
  "grep_line pattern = (\<lambda>(p, buf). case strchr buf p 10 of
     None \<Rightarrow> ufault
   | Some None \<Rightarrow> uret (Inr (p, buf))
   | Some (Some q) \<Rightarrow>
       let buf = buf(q := 0) in
       if match pattern (rd buf p (q - p)) then
         let buf = buf(q := 10) in
         ubnd (udo (UWrite 1 (rd buf p (q + 1 - p)))) (\<lambda>_.
         uret (Inl (q + 1, buf)))
       else uret (Inl (q + 1, buf)))"

text \<open>What follows a \<open>read\<close>: the lines in the buffer, and the move of what is left to its front.\<close>

definition grep_got :: "u8 list \<Rightarrow> nat \<Rightarrow> bytes \<Rightarrow> int \<times> u8 list \<Rightarrow> ('s user_st_scheme, nat \<times> bytes + bytes) U" where
  "grep_got pattern m buf = (\<lambda>(n, d).
     let buf = wr buf m d in
     if n > 0 then
       let m = m + nat n; buf = buf(m := 0) in
       ubnd (uloop (Suc m) (grep_line pattern) (0, buf)) (\<lambda>(p, buf).
       if m > 0 then uret (Inl (m - p, memmove_u buf 0 p (int (m - p))))
       else uret (Inl (m, buf)))
     else uret (Inr buf))"

definition grep_one :: "u8 list \<Rightarrow> int \<Rightarrow> nat \<times> bytes \<Rightarrow> ('s user_st_scheme, nat \<times> bytes + bytes) U" where
  "grep_one pattern fd = (\<lambda>(m, buf). ubnd (usys (URead fd (1024 - int m - 1))) (grep_got pattern m buf))"

definition grep :: "u8 list \<Rightarrow> int \<Rightarrow> bytes \<Rightarrow> ('s user_st_scheme, bytes) U" where
  "grep pattern fd buf = uwhile (grep_one pattern fd) (0, buf)"

fun grep_files :: "u8 list \<Rightarrow> u8 list list \<Rightarrow> bytes \<Rightarrow> ('s user_st_scheme, unit) U" where
  "grep_files pattern [] buf = exit_u 0"
| "grep_files pattern (a # as) buf =
     ubnd (ucalls (UOpen a 0)) (\<lambda>fd.
     if fd < 0 then
       ubnd (printf_u ''grep: cannot open %s\<newline>'' [UStr (Some a)]) (\<lambda>_.
       exit_u 1)
     else
       ubnd (grep pattern fd buf) (\<lambda>buf.
       ubnd (udo (UClose fd)) (\<lambda>_.
       grep_files pattern as buf)))"

definition grep_main :: "u8 list list \<Rightarrow> ('s user_st_scheme, unit) U" where
  "grep_main argv =
     (if length argv \<le> 1 then
        ubnd (fprintf_u 2 ''usage: grep pattern [file ...]\<newline>'' []) (\<lambda>_.
        exit_u 1)
      else if length argv \<le> 2 then ubnd (grep (argv ! 1) 0 (\<lambda>_. 0)) (\<lambda>_. exit_u 0)
      else grep_files (argv ! 1) (drop 2 argv) (\<lambda>_. 0))"

section \<open>What a pattern denotes\<close>

text \<open>A pattern is a sequence of items, each with a language, and may be tied to either end of the line.\<close>

datatype item = One u8 | Many u8

definition fits :: "u8 \<Rightarrow> u8 \<Rightarrow> bool" where
  "fits c x \<longleftrightarrow> c = 46 \<or> x = c"

primrec item_lang :: "item \<Rightarrow> u8 list set" where
  "item_lang (One c) = {[x] | x. fits c x}"
| "item_lang (Many c) = {xs. \<forall>x \<in> set xs. fits c x}"

primrec lang :: "item list \<Rightarrow> u8 list set" where
  "lang [] = {[]}"
| "lang (i # is) = {u @ v | u v. u \<in> item_lang i \<and> v \<in> lang is}"

fun items :: "u8 list \<Rightarrow> item list \<times> bool" where
  "items [] = ([], False)"
| "items [c] = (if c = 36 then ([], True) else ([One c], False))"
| "items (c # d # re) = (if d = 42 then (Many c # fst (items re), snd (items re))
     else (One c # fst (items (d # re)), snd (items (d # re))))"

definition denotes :: "u8 list \<Rightarrow> u8 list \<Rightarrow> bool" where
  "denotes re tx \<longleftrightarrow>
     (let start = (re \<noteq> [] \<and> hd re = 94); (is, stop) = items (if start then tl re else re)
      in \<exists>u v w. tx = u @ v @ w \<and> v \<in> lang is \<and> (start \<longrightarrow> u = []) \<and> (stop \<longrightarrow> w = []))"

definition prefix_ok :: "u8 list \<Rightarrow> u8 list \<Rightarrow> bool" where
  "prefix_ok re tx \<longleftrightarrow> (\<exists>v w. tx = v @ w \<and> v \<in> lang (fst (items re)) \<and> (snd (items re) \<longrightarrow> w = []))"

lemma prefix_ok_Cons:
  assumes "items re = (i # fst (items re'), snd (items re'))"
  shows "prefix_ok re tx \<longleftrightarrow> (\<exists>u v. tx = u @ v \<and> u \<in> item_lang i \<and> prefix_ok re' v)"
proof
  assume "prefix_ok re tx"
  then obtain x w where x: "tx = x @ w" "x \<in> lang (i # fst (items re'))" "snd (items re') \<longrightarrow> w = []"
    unfolding prefix_ok_def assms by (auto simp del: lang.simps)
  then obtain u v where "tx = (u @ v) @ w" "u \<in> item_lang i" "v \<in> lang (fst (items re'))" "snd (items re') \<longrightarrow> w = []"
    by fastforce
  then show "\<exists>u v. tx = u @ v \<and> u \<in> item_lang i \<and> prefix_ok re' v"
    unfolding prefix_ok_def by (intro exI [of _ u] exI [of _ "v @ w"]) auto
next
  assume "\<exists>u v. tx = u @ v \<and> u \<in> item_lang i \<and> prefix_ok re' v"
  then obtain u v w where "tx = u @ v @ w" "u \<in> item_lang i" "v \<in> lang (fst (items re'))" "snd (items re') \<longrightarrow> w = []"
    unfolding prefix_ok_def by auto
  then show "prefix_ok re tx"
    unfolding prefix_ok_def assms by (intro exI [of _ "u @ v"] exI [of _ w]) auto
qed

lemma prefix_ok_One:
  assumes "items re = (One c # fst (items re'), snd (items re'))"
  shows "prefix_ok re tx \<longleftrightarrow> tx \<noteq> [] \<and> fits c (hd tx) \<and> prefix_ok re' (tl tx)"
  unfolding prefix_ok_Cons [OF assms] by (cases tx) (auto, metis append_Cons append_Nil)

lemma prefix_ok_Many:
  assumes "items re = (Many c # fst (items re'), snd (items re'))"
  shows "prefix_ok re tx \<longleftrightarrow> (\<exists>u v. tx = u @ v \<and> (\<forall>x \<in> set u. fits c x) \<and> prefix_ok re' v)"
  unfolding prefix_ok_Cons [OF assms] by simp

lemma star_step: "(\<exists>u v. tx = u @ v \<and> (\<forall>x \<in> set u. P x) \<and> Q v) \<longleftrightarrow>
    Q tx \<or> (tx \<noteq> [] \<and> P (hd tx) \<and> (\<exists>u v. tl tx = u @ v \<and> (\<forall>x \<in> set u. P x) \<and> Q v))"
  (is "?L \<longleftrightarrow> ?R")
proof
  assume ?L
  then obtain u v where u: "tx = u @ v" "\<forall>x \<in> set u. P x" "Q v" by blast
  then show ?R by (cases u) auto
next
  assume ?R
  then show ?L
  proof (elim disjE conjE exE)
    assume "Q tx"
    then show ?L by (intro exI [of _ "[]"] exI [of _ tx]) simp
  next
    fix u v assume "tx \<noteq> []" "P (hd tx)" "tl tx = u @ v" "\<forall>x \<in> set u. P x" "Q v"
    then show ?L by (intro exI [of _ "hd tx # u"] exI [of _ v]) (simp add: list.expand)
  qed
qed

lemma matchhere_iff: "matchhere re tx \<longleftrightarrow> prefix_ok re tx"
  and matchstar_iff: "matchstar c re tx \<longleftrightarrow> (\<exists>u v. tx = u @ v \<and> (\<forall>x \<in> set u. fits c x) \<and> prefix_ok re v)"
proof (induction re tx and c re tx rule: matchhere_matchstar.induct)
  case (1 re tx)
  show ?case
  proof (cases re rule: items.cases)
    case 1
    then show ?thesis by (simp add: matchhere.simps prefix_ok_def)
  next
    case (2 c)
    show ?thesis
    proof (cases "c = 36")
      case True
      then show ?thesis using 2 by (subst matchhere.simps) (simp add: prefix_ok_def)
    next
      case False
      then have "items re = (One c # fst (items []), snd (items []))" using 2 by simp
      from prefix_ok_One [OF this] show ?thesis using "1.IH"(2) 2 False by (subst matchhere.simps) (auto simp: fits_def)
    qed
  next
    case (3 c d re')
    show ?thesis
    proof (cases "d = 42")
      case True
      then have "items re = (Many c # fst (items re'), snd (items re'))" using 3 by simp
      from prefix_ok_Many [OF this] show ?thesis using "1.IH"(1) 3 True by (subst matchhere.simps) simp
    next
      case False
      then have "items re = (One c # fst (items (d # re')), snd (items (d # re')))" using 3 by simp
      from prefix_ok_One [OF this] show ?thesis using "1.IH"(2) 3 False by (subst matchhere.simps) (auto simp: fits_def)
    qed
  qed
next
  case (2 c re tx)
  show ?case
    using 2 star_step [of tx "fits c" "prefix_ok re"] by (subst matchstar.simps) (auto simp: fits_def)
qed

lemma match_from_iff: "match_from re tx \<longleftrightarrow> (\<exists>u v. tx = u @ v \<and> prefix_ok re v)"
proof (induction re tx rule: match_from.induct)
  case (1 re tx)
  then show ?case using star_step [of tx "\<lambda>_. True" "prefix_ok re"]
    by (subst match_from.simps) (auto simp: matchhere_iff)
qed

lemma match_iff: "match re tx \<longleftrightarrow> denotes re tx"
proof (cases "re \<noteq> [] \<and> hd re = 94")
  case True
  then show ?thesis by (auto simp: match_def denotes_def matchhere_iff prefix_ok_def split: prod.split)
next
  case False
  then show ?thesis by (auto simp: match_def denotes_def match_from_iff prefix_ok_def split: prod.split)
qed

section \<open>The lines of the input\<close>

definition grep_out :: "u8 list \<Rightarrow> u8 list \<Rightarrow> u8 list" where
  "grep_out pat xs = concat (map (\<lambda>l. if denotes pat l then l @ [10] else []) (butlast (split_at 10 xs)))"

definition tail_line :: "u8 list \<Rightarrow> u8 list" where
  "tail_line xs = last (split_at 10 xs)"

lemma grep_out_append: "grep_out pat (xs @ ys) = grep_out pat xs @ grep_out pat (tail_line xs @ ys)"
  "tail_line (xs @ ys) = tail_line (tail_line xs @ ys)"
  using split_at_append [of 10 xs ys] by (simp_all add: grep_out_def tail_line_def)

lemma grep_out_line:
  assumes "10 \<notin> set l"
  shows "grep_out pat (l @ 10 # xs) = (if denotes pat l then l @ [10] else []) @ grep_out pat xs"
    and "tail_line (l @ 10 # xs) = tail_line xs" and "grep_out pat l = []" and "tail_line l = l"
proof -
  have "split_at 10 (l @ 10 # xs) = l # split_at 10 xs" using assms by (induction l) auto
  then show "grep_out pat (l @ 10 # xs) = (if denotes pat l then l @ [10] else []) @ grep_out pat xs"
    "tail_line (l @ 10 # xs) = tail_line xs" by (simp_all add: grep_out_def tail_line_def split_at_ne)
  show "grep_out pat l = []" "tail_line l = l" using split_at_free [OF assms] by (simp_all add: grep_out_def tail_line_def)
qed

lemma tail_line_sub: "x \<in> set (tail_line xs) \<Longrightarrow> x \<in> set xs"
  unfolding tail_line_def by (induction xs) (auto split: if_splits list.splits)

lemma strchr_eq:
  "rd m s k = xs \<Longrightarrow> m (s + k) = 0 \<Longrightarrow> 0 \<notin> set xs \<Longrightarrow> c \<noteq> 0
   \<Longrightarrow> strchr m s c = Some (if c \<in> set xs then Some (s + length (takeWhile (\<lambda>x. x \<noteq> c) xs)) else None)"
proof (induction k arbitrary: s xs)
  case 0
  then show ?case by (subst strchr.simps) simp
next
  case (Suc k)
  then obtain y ys where y: "xs = y # ys" "m s = y" "rd m (Suc s) k = ys" by (auto simp: rd_Suc)
  have "strchr m (Suc s) c = Some (if c \<in> set ys then Some (Suc s + length (takeWhile (\<lambda>x. x \<noteq> c) ys)) else None)"
    using Suc y by (intro Suc.IH) auto
  then show ?case using Suc.prems y by (subst strchr.simps) auto
qed

text \<open>The scan of the lines in the buffer: what it prints and what it leaves.\<close>

definition scanned :: "u8 list \<Rightarrow> nat \<Rightarrow> u8 list \<Rightarrow> 's user_st_scheme \<Rightarrow> (nat \<times> bytes) ures \<times> 's user_st_scheme \<Rightarrow> bool" where
  "scanned pat e xs s r \<longleftrightarrow> (\<exists>l. ulog (snd r) = ulog s @ l \<and> (\<forall>fd. received fd l = []) \<and> honest l
     \<and> (case fst r of
         UVal (p, buf) \<Rightarrow> wrote 1 l = grep_out pat xs \<and> p + length (tail_line xs) = e \<and> rd buf p (length (tail_line xs)) = tail_line xs
       | UWaits \<Rightarrow> answers (snd r) = [] \<and> (\<exists>ys. grep_out pat xs = wrote 1 l @ ys)
       | _ \<Rightarrow> False))"

lemma scanned_step:
  assumes "scanned pat e ys t r" and "ulog t = ulog s @ l0" and "\<And>fd. received fd l0 = []" and "honest l0"
    and "grep_out pat xs = wrote 1 l0 @ grep_out pat ys" and "tail_line xs = tail_line ys"
  shows "scanned pat e xs s r"
proof -
  obtain l where "ulog (snd r) = ulog t @ l" "\<forall>fd. received fd l = []" "honest l"
    "case fst r of
         UVal (p, buf) \<Rightarrow> wrote 1 l = grep_out pat ys \<and> p + length (tail_line ys) = e \<and> rd buf p (length (tail_line ys)) = tail_line ys
       | UWaits \<Rightarrow> answers (snd r) = [] \<and> (\<exists>zs. grep_out pat ys = wrote 1 l @ zs)
       | _ \<Rightarrow> False"
    using assms(1) unfolding scanned_def by blast
  then show ?thesis unfolding scanned_def using assms(2-6)
    by (intro exI [of _ "l0 @ l"]) (auto split: ures.splits)
qed

lemma scan_lines:
  fixes s :: "'s user_st_scheme"
  shows "rd buf p (length xs) = xs \<Longrightarrow> buf (p + length xs) = 0 \<Longrightarrow> 0 \<notin> set xs \<Longrightarrow> length xs < fuel
   \<Longrightarrow> scanned pat (p + length xs) xs s (uloop fuel (grep_line pat) (p, buf) s)"
proof (induction fuel arbitrary: xs p buf s)
  case (Suc fuel)
  note chr = strchr_eq [OF Suc.prems(1-3), of 10]
  show ?case
  proof (cases "10 \<in> set xs")
    case False
    then show ?thesis using chr Suc.prems grep_out_line(3,4) [OF False]
      by (simp add: scanned_def grep_line_def ubnd_apply)
  next
    case True
    then obtain u ys where xs: "xs = u @ 10 # ys" and u: "10 \<notin> set u" by (metis split_list_first)
    have "takeWhile (\<lambda>x. x \<noteq> 10) xs = u" unfolding xs using u by (subst takeWhile_append2) auto
    then have c: "strchr buf p 10 = Some (Some (p + length u))" using chr True by simp
    let ?q = "p + length u"
    have b: "rd buf p (length u) = u" "buf ?q = 10" "rd buf (Suc ?q) (length ys) = ys" "buf (Suc ?q + length ys) = 0"
    proof -
      have "rd buf p (length u) @ rd buf ?q (Suc (length ys)) = u @ 10 # ys"
        using Suc.prems(1) rd_append [of buf p "length u" "Suc (length ys)"] unfolding xs by simp
      then show "rd buf p (length u) = u" "buf ?q = 10" "rd buf (Suc ?q) (length ys) = ys" by (simp_all add: rd_Suc)
      show "buf (Suc ?q + length ys) = 0" using Suc.prems(2) unfolding xs by (simp add: add.assoc)
    qed
    have ih: "scanned pat (Suc ?q + length ys) ys t (uloop fuel (grep_line pat) (Suc ?q, buf') t)"
      if "buf' = buf \<or> buf' = buf(?q := 0)" for buf' and t :: "'s user_st_scheme"
    proof (rule Suc.IH)
      show "rd buf' (Suc ?q) (length ys) = ys" using that b by (auto simp del: fun_upd_apply)
      show "buf' (Suc ?q + length ys) = 0" using that b by auto
    qed (use Suc.prems in \<open>auto simp: xs\<close>)
    show ?thesis
    proof (cases "match pat u")
      case True
      then have gl: "grep_line pat (p, buf) = ubnd (udo (UWrite 1 (u @ [10]))) (\<lambda>_. uret (Inl (Suc ?q, buf)))"
        using c b by (simp add: grep_line_def rd_snoc fun_upd_idem)
      show ?thesis
      proof (cases "answers s")
        case Nil
        then show ?thesis using True unfolding xs
          by (auto simp: scanned_def gl ubnd_apply udo_def usys_apply match_iff grep_out_line(1) [OF u])
      next
        case (Cons a as)
        let ?t = "s\<lparr>answers := as, ulog := ulog s @ [(UWrite 1 (u @ [10]), Some a)]\<rparr>"
        have "uloop (Suc fuel) (grep_line pat) (p, buf) s = uloop fuel (grep_line pat) (Suc ?q, buf) ?t"
          using Cons by (simp add: gl ubnd_apply udo_def usys_apply)
        moreover have "scanned pat (Suc ?q + length ys) xs s (uloop fuel (grep_line pat) (Suc ?q, buf) ?t)"
          using True unfolding xs by (intro scanned_step [OF ih]) (auto simp: match_iff grep_out_line(1,2) [OF u])
        ultimately show ?thesis by (simp add: xs add.assoc)
      qed
    next
      case False
      then have gl: "grep_line pat (p, buf) = uret (Inl (Suc ?q, buf(?q := 0)))"
        using c b by (simp add: grep_line_def)
      have "scanned pat (Suc ?q + length ys) xs s (uloop fuel (grep_line pat) (Suc ?q, buf(?q := 0)) s)"
        using False unfolding xs by (intro scanned_step [OF ih]) (auto simp: match_iff grep_out_line(1,2) [OF u])
      then show ?thesis by (simp add: xs gl ubnd_apply add.assoc)
    qed
  qed
qed simp

section \<open>The whole input\<close>

lemma copy_fwd_eq: "d \<le> s \<Longrightarrow> copy_fwd m d s n = wr m d (rd m s n)"
proof -
  have "copy_fwd m d s n = copy_up m d s n" by (induction n arbitrary: m d s) simp_all
  then show "d \<le> s \<Longrightarrow> ?thesis" by (simp add: copy_up_eq)
qed

lemma memmove_u_down: "rd (memmove_u buf 0 p (int n)) 0 n = rd buf p n"
proof (cases "p = 0")
  case True
  have "copy_bwd buf (0 + n) (0 + n) n = buf" for n by (induction n) simp_all
  then show ?thesis using True by (simp add: memmove_u_def)
next
  case False
  then show ?thesis by (simp add: memmove_u_def copy_fwd_eq)
qed

lemma nomore_grep_line [uuse]: "nomore (grep_line pat x)"
  by (cases x) (auto simp: grep_line_def Let_def intro!: uuse split: option.split)

lemma nomore_grep_got [uuse]: "nomore (grep_got pat m buf a)"
  by (simp only: grep_got_def Let_def case_prod_unfold) (intro nomore_ubnd nomore_case nomore_base nomore_uloop nomore_grep_line)

lemma grep_one_use [uuse]: "nomore (grep_one pat fd p)" "takes (grep_one pat fd p)"
  by (cases p, simp add: grep_one_def uuse)+

text \<open>What a run of the loop prints, when the bytes \<open>R\<close> have been read before.\<close>

definition grepped :: "u8 list \<Rightarrow> int \<Rightarrow> u8 list \<Rightarrow> 's user_st_scheme \<Rightarrow> bytes ures \<times> 's user_st_scheme \<Rightarrow> bool" where
  "grepped pat fd R s r \<longleftrightarrow> (\<exists>l. ulog (snd r) = ulog s @ l \<and> (honest l \<longrightarrow> 0 \<notin> set (R @ received fd l) \<longrightarrow>
     (case fst r of
         UVal buf \<Rightarrow> grep_out pat (R @ received fd l) = grep_out pat R @ wrote 1 l
           \<and> l \<noteq> [] \<and> (\<exists>q \<le> 0. last l = (URead fd (1023 - int (length (tail_line (R @ received fd l)))), Some (q, [])))
       | UWaits \<Rightarrow> answers (snd r) = [] \<and> (\<exists>ys. grep_out pat (R @ received fd l) = grep_out pat R @ wrote 1 l @ ys)
       | _ \<Rightarrow> False)))"

lemma grepped_later:
  assumes "grepped pat fd R' t r" and "ulog t = ulog s @ l0" and "R' = R @ received fd l0" 
    and "grep_out pat R' = grep_out pat R @ wrote 1 l0"
  shows "grepped pat fd R s r"
proof -
  obtain l where l: "ulog (snd r) = ulog t @ l" "honest l \<longrightarrow> 0 \<notin> set (R' @ received fd l) \<longrightarrow>
     (case fst r of
         UVal buf \<Rightarrow> grep_out pat (R' @ received fd l) = grep_out pat R' @ wrote 1 l
           \<and> l \<noteq> [] \<and> (\<exists>q \<le> 0. last l = (URead fd (1023 - int (length (tail_line (R' @ received fd l)))), Some (q, [])))
       | UWaits \<Rightarrow> answers (snd r) = [] \<and> (\<exists>ys. grep_out pat (R' @ received fd l) = grep_out pat R' @ wrote 1 l @ ys)
       | _ \<Rightarrow> False)"
    using assms(1) unfolding grepped_def by blast
  then show ?thesis unfolding grepped_def using assms(2-4)
    by (intro exI [of _ "l0 @ l"]) (auto split: ures.splits)
qed

lemma grep_loop:
  fixes s :: "'s user_st_scheme"
  shows "rd buf 0 m = tail_line R \<Longrightarrow> length (tail_line R) = m \<Longrightarrow> m \<le> 1023 \<Longrightarrow> 0 \<notin> set R
    \<Longrightarrow> grepped pat fd R s (uwhile (grep_one pat fd) (m, buf) s)"
proof (induction "length (answers s)" arbitrary: s m buf R rule: less_induct)
  case less
  let ?G = "\<lambda>r. case r of Inl y \<Rightarrow> uwhile (grep_one pat fd) y | Inr z \<Rightarrow> uret z"
  have one: "grep_one pat fd (m, buf) = ubnd (usys (URead fd (1023 - int m))) (grep_got pat m buf)"
    by (simp add: grep_one_def)
  have step: "uwhile (grep_one pat fd) (m, buf) s = ubnd (usys (URead fd (1023 - int m))) (\<lambda>a. ubnd (grep_got pat m buf a) ?G) s"
    by (subst uwhile_ubnd [where body = "grep_one pat fd", OF grep_one_use(2)]) (simp only: one ubnd_assoc)
  show ?case
  proof (cases "answers s")
    case Nil
    then show ?thesis unfolding step by (auto simp: ubnd_apply usys_apply grepped_def)
  next
    case (Cons a as)
    obtain n d where a: "a = (n, d)" by (cases a)
    let ?c = "(URead fd (1023 - int m), Some (n, d))"
    let ?t = "s\<lparr>answers := as, ulog := ulog s @ [?c]\<rparr>"
    have run: "uwhile (grep_one pat fd) (m, buf) s = ubnd (grep_got pat m buf (n, d)) ?G ?t"
      unfolding step using Cons a by (simp add: ubnd_apply usys_apply)
    show ?thesis
    proof (cases "n > 0 \<and> honest [?c] \<and> 0 \<notin> set d")
      case False
      show ?thesis
      proof (cases "n > 0")
        case True
        have nm: "nomore (ubnd (grep_got pat m buf (n, d)) ?G)"
          by (intro nomore_ubnd uuse) (auto intro!: uuse split: sum.split)
        obtain r u where e: "ubnd (grep_got pat m buf (n, d)) ?G ?t = (r, u)" by fastforce
        obtain l where "ulog u = ulog ?t @ l" using nomoreD [OF nm e] by blast
        then have "ulog (snd (uwhile (grep_one pat fd) (m, buf) s)) = ulog s @ ([?c] @ l)" unfolding run e by simp
        moreover have "\<not> (honest ([?c] @ l) \<and> 0 \<notin> set (R @ received fd ([?c] @ l)))" using False True by (auto simp del: append.simps)
        ultimately show ?thesis unfolding grepped_def by blast
      next
        case False
        then show ?thesis unfolding run grepped_def using less.prems
          by (intro exI [of _ "[?c]"]) (simp add: ubnd_apply grep_got_def)
      qed
    next
      case True
      then have d: "length d = nat n" "m + nat n \<le> 1023" using less.prems(3) by (auto simp: max_def split: if_splits)
      let ?x = "tail_line R @ d" and ?M = "m + nat n"
      let ?b = "(wr buf m d)(?M := 0)"
      have "rd ?b 0 ?M = ?x" using less.prems(1) d by (simp add: rd_append del: fun_upd_apply)
      then have "scanned pat (0 + length ?x) ?x ?t (uloop (Suc ?M) (grep_line pat) (0, ?b) ?t)"
        using less.prems d True by (intro scan_lines) (auto simp: tail_line_sub)
      then obtain r u where e: "uloop (Suc ?M) (grep_line pat) (0, ?b) ?t = (r, u)" and sc: "scanned pat ?M ?x ?t (r, u)"
        using less.prems d by (cases "uloop (Suc ?M) (grep_line pat) (0, ?b) ?t") (auto simp del: uloop.simps)
      from sc obtain l where l: "ulog u = ulog ?t @ l" "\<forall>fd. received fd l = []" "honest l"
        and r: "case r of UVal (p, buf) \<Rightarrow> wrote 1 l = grep_out pat ?x \<and> p + length (tail_line ?x) = ?M
            \<and> rd buf p (length (tail_line ?x)) = tail_line ?x
          | UWaits \<Rightarrow> answers u = [] \<and> (\<exists>ys. grep_out pat ?x = wrote 1 l @ ys) | _ \<Rightarrow> False"
        unfolding scanned_def fst_conv snd_conv by blast
      have got: "grep_got pat m buf (n, d) ?t = (case (r, u) of (UVal (p, buf), u) \<Rightarrow> (UVal (Inl (?M - p, memmove_u buf 0 p (int (?M - p)))), u)
          | (UWaits, u) \<Rightarrow> (UWaits, u) | _ \<Rightarrow> (UFault, u))" 
        using True e r by (auto simp: grep_got_def Let_def ubnd_apply split: ures.splits simp del: uloop.simps)
      show ?thesis
      proof (cases r)
        case (UVal pb)
        obtain p b where pb: "pb = (p, b)" by (cases pb)
        let ?b' = "memmove_u b 0 p (int (?M - p))"
        have run': "uwhile (grep_one pat fd) (m, buf) s = uwhile (grep_one pat fd) (?M - p, ?b') u"
          unfolding run using got UVal pb by (simp add: ubnd_apply)
        have x: "tail_line (R @ d) = tail_line ?x" by (rule grep_out_append(2))
        have p: "?M - p = length (tail_line ?x)" "rd b p (length (tail_line ?x)) = tail_line ?x" "p \<le> ?M" using r UVal pb by auto
        have "length (answers u) \<le> length (answers ?t)" using nomoreD [OF nomore_uloop e] nomore_grep_line by blast
        then have "grepped pat fd (R @ d) u (uwhile (grep_one pat fd) (?M - p, ?b') u)"
          by (intro less.hyps) (use Cons p d True less.prems in \<open>simp_all add: x memmove_u_down\<close>)
        then show ?thesis unfolding run'
          by (rule grepped_later [where ?l0.0 = "[?c] @ l"]) (use l r UVal pb in \<open>simp_all add: grep_out_append(1) [of pat R d]\<close>)
      next
        case UWaits
        then show ?thesis unfolding run grepped_def using got l r
          by (intro exI [of _ "[?c] @ l"]) (auto simp: ubnd_apply grep_out_append(1) [of pat R d])
      qed (use r in auto)
    qed
  qed
qed

section \<open>Properties\<close>

text \<open>C38: the matcher of \<open>grep\<close> decides what a pattern means. \<open>match re tx\<close> holds exactly when the text has a part in
  the language of the pattern, where a character stands for itself, a dot for any character, a character followed by a star for any
  number of it, and \<open>^\<close> at the front and \<open>$\<close> at the end tie that part to the beginning and the end of the text.\<close>

theorem match_denotes: "match re tx \<longleftrightarrow> denotes re tx"
  by (rule match_iff)

text \<open>C39: \<open>grep\<close> prints the matching lines of what it reads, in order, however the input is cut into pieces. When the kernel
  delivers no more bytes than it was asked for and there is no NUL among them, then a run that returns has written exactly the
  complete lines that match, and returns after a read that gave nothing, of the room left in the buffer (none if a line has 1023
  bytes); a run that waits has written a first part of that; and there is no other way for a run to end.\<close>

theorem grep_prints_matches:
  assumes "grep pat fd buf s = (r, s')" and "ulog s' = ulog s @ l" and "honest l" and "0 \<notin> set (received fd l)"
  shows "case r of
      UVal buf' \<Rightarrow> wrote 1 l = grep_out pat (received fd l)
        \<and> (\<exists>q \<le> 0. last l = (URead fd (1023 - int (length (tail_line (received fd l)))), Some (q, [])))
    | UWaits \<Rightarrow> answers s' = [] \<and> (\<exists>ys. grep_out pat (received fd l) = wrote 1 l @ ys)
    | _ \<Rightarrow> False"
proof -
  have "grepped pat fd [] s (r, s')"
    using grep_loop [of buf 0 "[]" pat fd s] assms(1) by (simp add: grep_def tail_line_def)
  then show ?thesis using assms(2-4) by (auto simp: grepped_def grep_out_def split: ures.splits)
qed

definition is_val :: "'a ures \<Rightarrow> bool" where
  "is_val r = (case r of UVal x \<Rightarrow> True | _ \<Rightarrow> False)"

definition us0 :: user_st where
  "us0 = \<lparr>answers = [(3, [97, 10, 98]), (2, []), (0, [])], ulog = []\<rparr>"

definition us0_log :: "(ucall \<times> (int \<times> u8 list) option) list" where
  "us0_log = [(URead 0 1023, Some (3, [97, 10, 98])), (UWrite 1 [97, 10], Some (2, [])), (URead 0 1022, Some (0, []))]"

lemma one_line:
  fixes s :: "'s user_st_scheme"
  assumes "(grep_line pat (0, b) :: ('s user_st_scheme, _) U) = ubnd (udo (UWrite 1 x)) (\<lambda>_. uret (Inl y))"
    and "(grep_line pat y :: ('s user_st_scheme, _) U) = uret (Inr z)"
  shows "uloop (Suc (Suc n)) (grep_line pat) (0, b) s = ubnd (udo (UWrite 1 x)) (\<lambda>_. uret z) s"
  by (auto simp: assms ubnd_apply split: prod.split ures.split)

lemma us0_run: "ulog (snd (grep [97] 0 (\<lambda>_. 0) us0)) = us0_log \<and> is_val (fst (grep [97] 0 (\<lambda>_. 0) us0))"
proof -
  have m: "match [97] [97]" by (simp add: match_def match_from.simps matchhere.simps)
  define b where "b = (wr (\<lambda>_. 0) 0 [97, 10, 98 :: u8])(3 := 0)"
  have r: "rd b 0 3 = [97, 10, 98]" by (simp add: rd_def wr_def upt_rec b_def)
  have b: "b 0 = 97" "b 1 = 10" "b 2 = 98" "b 3 = 0" by (simp_all add: b_def wr_def)
  have c: "strchr b 0 10 = Some (Some 1)" using strchr_eq [OF r, of 10] b by simp
  have c2: "strchr b 2 10 = Some None" by (subst strchr.simps, simp add: b, subst strchr.simps, simp add: b)
  have l1: "grep_line [97] (0, b) = ubnd (udo (UWrite 1 [97, 10])) (\<lambda>_. uret (Inl (2, b)))"
    using c b m by (simp add: grep_line_def rd_def fun_upd_idem upt_rec) (simp add: numeral_2_eq_2)
  have l2: "grep_line [97] (2, b) = uret (Inr (2, b))" using c2 by (simp add: grep_line_def)
  have l: "uloop 4 (grep_line [97]) (0, b) s = ubnd (udo (UWrite 1 [97, 10])) (\<lambda>_. uret (2, b)) s" for s :: user_st
    using one_line [OF l1 l2, where n = 2] by (simp del: uloop.simps)
  have g: "grep_got [97] 0 (\<lambda>_. 0) (3, [97, 10, 98]) = ubnd (udo (UWrite 1 [97, 10])) (\<lambda>_. uret (Inl (1, memmove_u b 0 2 1)) :: (user_st, _) U)"
    by (rule ext) (auto simp: grep_got_def b_def [symmetric] l ubnd_apply simp del: uloop.simps split: prod.split ures.split)
  let ?t = "us0\<lparr>answers := [(0, [])], ulog := take 2 us0_log\<rparr>"
  have "grep_one [97] 0 (0, \<lambda>_. 0) us0 = (UVal (Inl (1, memmove_u b 0 2 1)), ?t)"
    by (simp add: grep_one_def ubnd_apply us0_def us0_log_def usys_apply g udo_def)
  moreover have "grep_one [97] 0 (1, memmove_u b 0 2 1) ?t = (UVal (Inr (memmove_u b 0 2 1)), us0\<lparr>answers := [], ulog := us0_log\<rparr>)"
    by (simp add: grep_one_def ubnd_apply us0_def us0_log_def usys_apply grep_got_def)
  ultimately show ?thesis
    unfolding grep_def by (simp add: uwhile_takes [where body = "grep_one [97] 0", OF grep_one_use(2)] is_val_def)
qed

theorem grep_prints_matches_witness:
  "\<exists>r s'. grep [97] 0 (\<lambda>_. 0) us0 = (r, s') \<and> wrote 1 (ulog s') = grep_out [97] [97, 10, 98]"
proof -
  obtain r s' where g: "grep [97] 0 (\<lambda>_. 0) us0 = (r, s')" by fastforce
  have "ulog s' = ulog us0 @ us0_log" "is_val r" using us0_run g by (simp_all add: us0_def)
  from grep_prints_matches [OF g this(1)] this(2) show ?thesis
    using g us0_run by (cases r) (auto simp: us0_log_def is_val_def)
qed

end
