(* ===== verification/Sh.thy ===== *)
theory Sh
  imports Ulib
begin

text \<open>
  The shell \<open>user/sh.c\<close>. A command line is parsed in the buffer it was read into, to a tree of nodes in memory that
  point at the words in the buffer; the ends of the words are then overwritten with NULs, and the tree is run. The tree is
  kept as it is in memory, a map from addresses to nodes, because \<open>parseexec\<close> goes on filling a node that the tree already
  contains. Positions in the buffer are indices, an optional one where the source has a null pointer.
\<close>

section \<open>Nodes\<close>

definition MAXARGS :: nat where "MAXARGS = 10"

datatype cmdnode =
    Execcmd "nat \<Rightarrow> nat option" "nat \<Rightarrow> nat option"
  | Redircmd nat nat nat int int
  | Pipecmd nat nat
  | Listcmd nat nat
  | Backcmd nat

text \<open>\<open>room\<close> is how many more nodes \<open>malloc\<close> can give; a null pointer from it is dereferenced at once.\<close>

record sh_st = user_st +
  sbuf :: bytes
  heap :: "nat \<Rightarrow> cmdnode option"
  nextp :: nat
  room :: nat

definition new_node :: "cmdnode \<Rightarrow> ('s sh_st_scheme, nat) U" where
  "new_node nd = (\<lambda>s. if room s = 0 then (UFault, s)
     else (UVal (nextp s), s\<lparr>heap := (heap s)(nextp s \<mapsto> nd), nextp := Suc (nextp s), room := room s - 1\<rparr>))"

definition get_node :: "nat \<Rightarrow> ('s sh_st_scheme, cmdnode) U" where
  "get_node p = (\<lambda>s. case heap s p of None \<Rightarrow> (UFault, s) | Some nd \<Rightarrow> (UVal nd, s))"

definition set_node :: "nat \<Rightarrow> cmdnode \<Rightarrow> ('s sh_st_scheme, unit) U" where
  "set_node p nd = (\<lambda>s. (UVal (), s\<lparr>heap := (heap s)(p \<mapsto> nd)\<rparr>))"

definition execcmd :: "('s sh_st_scheme, nat) U" where
  "execcmd = new_node (Execcmd (\<lambda>_. None) (\<lambda>_. None))"

definition redircmd :: "nat \<Rightarrow> nat \<Rightarrow> nat \<Rightarrow> int \<Rightarrow> int \<Rightarrow> ('s sh_st_scheme, nat) U" where
  "redircmd subcmd file efile mode fd = new_node (Redircmd subcmd file efile mode fd)"

definition pipecmd :: "nat \<Rightarrow> nat \<Rightarrow> ('s sh_st_scheme, nat) U" where
  "pipecmd left right = new_node (Pipecmd left right)"

definition listcmd :: "nat \<Rightarrow> nat \<Rightarrow> ('s sh_st_scheme, nat) U" where
  "listcmd left right = new_node (Listcmd left right)"

definition backcmd :: "nat \<Rightarrow> ('s sh_st_scheme, nat) U" where
  "backcmd subcmd = new_node (Backcmd subcmd)"

definition panic_sh :: "string \<Rightarrow> ('s user_st_scheme, 'a) U" where
  "panic_sh s = ubnd (fprintf_u 2 ''%s\<newline>'' [UStr (Some (chars s))]) (\<lambda>_. exit_u 1)"

definition fork1 :: "('s user_st_scheme, int) U" where
  "fork1 = ubnd (ucalls UFork) (\<lambda>pid. if pid = -1 then panic_sh ''fork'' else uret pid)"

section \<open>Tokens\<close>

definition whitespace :: "u8 list" where "whitespace = [32, 9, 13, 10, 11]"

definition symbols :: "u8 list" where "symbols = chars ''<|>&;()''"

function skip_ws :: "bytes \<Rightarrow> nat \<Rightarrow> nat \<Rightarrow> nat" where
  "skip_ws b es s = (if s < es \<and> b s \<in> set whitespace then skip_ws b es (Suc s) else s)"
  by pat_completeness auto
termination
  by (relation "measure (\<lambda>(b, es, s). es - s)") auto

function skip_word :: "bytes \<Rightarrow> nat \<Rightarrow> nat \<Rightarrow> nat" where
  "skip_word b es s = (if s < es \<and> b s \<notin> set whitespace \<and> b s \<notin> set symbols then skip_word b es (Suc s) else s)"
  by pat_completeness auto
termination
  by (relation "measure (\<lambda>(b, es, s). es - s)") auto

declare skip_ws.simps [simp del] skip_word.simps [simp del]

text \<open>The token, its first and last position and the position after it: \<open>ret\<close>, \<open>*q\<close>, \<open>*eq\<close> and \<open>*ps\<close>.\<close>

definition gettoken :: "bytes \<Rightarrow> nat \<Rightarrow> nat \<Rightarrow> u8 \<times> nat \<times> nat \<times> nat" where
  "gettoken b es s =
     (let s = skip_ws b es s; q = s; c = b s;
          (ret, s) = (if c = 0 then (c, s)
            else if c \<in> set (chars ''|();&<'') then (c, Suc s)
            else if c = 62 then (if b (Suc s) = 62 then (43, Suc (Suc s)) else (c, Suc s))
            else (97, skip_word b es s))
      in (ret, q, s, skip_ws b es s))"

definition peek :: "bytes \<Rightarrow> nat \<Rightarrow> nat \<Rightarrow> string \<Rightarrow> nat \<times> bool" where
  "peek b es s toks = (let s = skip_ws b es s in (s, b s \<noteq> 0 \<and> b s \<in> set (chars toks)))"

section \<open>Parsing\<close>

definition redir_one :: "bytes \<Rightarrow> nat \<Rightarrow> nat \<times> nat \<Rightarrow> ('s sh_st_scheme, nat \<times> nat + nat \<times> nat) U" where
  "redir_one b es = (\<lambda>(cmd, s).
     let (s, t) = peek b es s ''<>'' in
     if \<not> t then uret (Inr (cmd, s))
     else
       let (tok, _, _, s) = gettoken b es s; (tok2, q, eq, s) = gettoken b es s in
       if tok2 \<noteq> 97 then panic_sh ''missing file for redirection''
       else
         ubnd (if tok = 60 then redircmd cmd q eq 0 0
               else if tok = 62 then redircmd cmd q eq 0x601 1
               else if tok = 43 then redircmd cmd q eq 0x201 1
               else uret cmd) (\<lambda>cmd.
         uret (Inl (cmd, s))))"

definition parseredirs :: "bytes \<Rightarrow> nat \<Rightarrow> nat \<Rightarrow> nat \<Rightarrow> ('s sh_st_scheme, nat \<times> nat) U" where
  "parseredirs b es cmd s = uloop (Suc (es - s)) (redir_one b es) (cmd, s)"

text \<open>The loop over the arguments, with \<open>ret\<close>, \<open>argc\<close> and the position; \<open>cmd\<close> is the node it fills.\<close>

definition set_arg :: "nat \<Rightarrow> nat \<Rightarrow> nat option \<Rightarrow> nat option \<Rightarrow> ('s sh_st_scheme, unit) U" where
  "set_arg cmd argc q eq = ubnd (get_node cmd) (\<lambda>nd. case nd of
     Execcmd argv eargv \<Rightarrow> set_node cmd (Execcmd (argv(argc := q)) (eargv(argc := eq)))
   | _ \<Rightarrow> ufault)"

definition arg_one :: "bytes \<Rightarrow> nat \<Rightarrow> nat \<Rightarrow> nat \<times> nat \<times> nat \<Rightarrow> ('s sh_st_scheme, nat \<times> nat \<times> nat + nat \<times> nat \<times> nat) U" where
  "arg_one b es cmd = (\<lambda>(r, argc, s).
     let (s, t) = peek b es s ''|)&;'' in
     if t then uret (Inr (r, argc, s))
     else
       let (tok, q, eq, s) = gettoken b es s in
       if tok = 0 then uret (Inr (r, argc, s))
       else if tok \<noteq> 97 then panic_sh ''syntax''
       else
         ubnd (set_arg cmd argc (Some q) (Some eq)) (\<lambda>_.
         let argc = Suc argc in
         if argc \<ge> MAXARGS then panic_sh ''too many args''
         else
           ubnd (parseredirs b es r s) (\<lambda>(r, s).
           uret (Inl (r, argc, s)))))"

definition amp_one :: "bytes \<Rightarrow> nat \<Rightarrow> nat \<times> nat \<Rightarrow> ('s sh_st_scheme, nat \<times> nat + nat \<times> nat) U" where
  "amp_one b es = (\<lambda>(cmd, s).
     let (s, t) = peek b es s ''&'' in
     if t then
       let (_, _, _, s) = gettoken b es s in
       ubnd (backcmd cmd) (\<lambda>cmd.
       uret (Inl (cmd, s)))
     else uret (Inr (cmd, s)))"

text \<open>The recursive descent; the number bounds its depth, beyond which the stack overflows.\<close>

fun parseline :: "nat \<Rightarrow> bytes \<Rightarrow> nat \<Rightarrow> nat \<Rightarrow> ('s sh_st_scheme, nat \<times> nat) U"
  and parsepipe :: "nat \<Rightarrow> bytes \<Rightarrow> nat \<Rightarrow> nat \<Rightarrow> ('s sh_st_scheme, nat \<times> nat) U"
  and parseexec :: "nat \<Rightarrow> bytes \<Rightarrow> nat \<Rightarrow> nat \<Rightarrow> ('s sh_st_scheme, nat \<times> nat) U"
  and parseblock :: "nat \<Rightarrow> bytes \<Rightarrow> nat \<Rightarrow> nat \<Rightarrow> ('s sh_st_scheme, nat \<times> nat) U" where
  "parseline 0 b es s = ufault"
| "parseline (Suc n) b es s =
     ubnd (parsepipe n b es s) (\<lambda>(cmd, s).
     ubnd (uloop (Suc (es - s)) (amp_one b es) (cmd, s)) (\<lambda>(cmd, s).
     let (s, t) = peek b es s '';'' in
     if t then
       let (_, _, _, s) = gettoken b es s in
       ubnd (parseline n b es s) (\<lambda>(right, s).
       ubnd (listcmd cmd right) (\<lambda>cmd.
       uret (cmd, s)))
     else uret (cmd, s)))"
| "parsepipe 0 b es s = ufault"
| "parsepipe (Suc n) b es s =
     ubnd (parseexec n b es s) (\<lambda>(cmd, s).
     let (s, t) = peek b es s ''|'' in
     if t then
       let (_, _, _, s) = gettoken b es s in
       ubnd (parsepipe n b es s) (\<lambda>(right, s).
       ubnd (pipecmd cmd right) (\<lambda>cmd.
       uret (cmd, s)))
     else uret (cmd, s))"
| "parseexec 0 b es s = ufault"
| "parseexec (Suc n) b es s =
     (let (s, t) = peek b es s ''('' in
      if t then parseblock n b es s
      else
        ubnd execcmd (\<lambda>cmd.
        ubnd (parseredirs b es cmd s) (\<lambda>(r, s).
        ubnd (uloop (Suc (es - s)) (arg_one b es cmd) (r, 0, s)) (\<lambda>(r, argc, s).
        ubnd (set_arg cmd argc None None) (\<lambda>_.
        uret (r, s))))))"
| "parseblock 0 b es s = ufault"
| "parseblock (Suc n) b es s =
     (let (s, t) = peek b es s ''('' in
      if \<not> t then panic_sh ''parseblock''
      else
        let (_, _, _, s) = gettoken b es s in
        ubnd (parseline n b es s) (\<lambda>(cmd, s).
        let (s, t) = peek b es s '')'' in
        if \<not> t then panic_sh ''syntax - missing )''
        else
          let (_, _, _, s) = gettoken b es s in
          parseredirs b es cmd s))"

definition nul_at :: "nat option \<Rightarrow> ('s sh_st_scheme, unit) U" where
  "nul_at p = (case p of None \<Rightarrow> ufault | Some e \<Rightarrow> (\<lambda>s. (UVal (), s\<lparr>sbuf := (sbuf s)(e := 0)\<rparr>)))"

text \<open>The loop over \<open>argv\<close> stops at the null pointer; the array has \<open>MAXARGS\<close> entries.\<close>

fun nul_args :: "(nat \<Rightarrow> nat option) \<Rightarrow> (nat \<Rightarrow> nat option) \<Rightarrow> nat \<Rightarrow> nat \<Rightarrow> ('s sh_st_scheme, unit) U" where
  "nul_args argv eargv i 0 = ufault"
| "nul_args argv eargv i (Suc k) = (if argv i = None then uret ()
     else ubnd (nul_at (eargv i)) (\<lambda>_. nul_args argv eargv (Suc i) k))"

fun nulterminate :: "nat \<Rightarrow> nat \<Rightarrow> ('s sh_st_scheme, unit) U" where
  "nulterminate 0 cmd = ufault"
| "nulterminate (Suc n) cmd =
     (if cmd = 0 then uret ()
      else ubnd (get_node cmd) (\<lambda>nd. case nd of
          Execcmd argv eargv \<Rightarrow> nul_args argv eargv 0 MAXARGS
        | Redircmd c f e m d \<Rightarrow> ubnd (nulterminate n c) (\<lambda>_. nul_at (Some e))
        | Pipecmd l r \<Rightarrow> ubnd (nulterminate n l) (\<lambda>_. nulterminate n r)
        | Listcmd l r \<Rightarrow> ubnd (nulterminate n l) (\<lambda>_. nulterminate n r)
        | Backcmd c \<Rightarrow> nulterminate n c))"

definition ustr_at :: "bytes \<Rightarrow> nat \<Rightarrow> u8 list option" where
  "ustr_at b q = map_option (\<lambda>e. rd b q (e - q)) (strlen_u_from b q)"

definition parsecmd :: "('s sh_st_scheme, nat) U" where
  "parsecmd = (\<lambda>st. (case strlen_u (sbuf st) of
     None \<Rightarrow> ufault
   | Some es \<Rightarrow>
       ubnd (parseline (4 * es + 4) (sbuf st) es 0) (\<lambda>(cmd, s).
       let (s, _) = peek (sbuf st) es s '''' in
       if s \<noteq> es then
         ubnd (fprintf_u 2 ''leftovers: %s\<newline>'' [UStr (ustr_at (sbuf st) s)]) (\<lambda>_.
         panic_sh ''syntax'')
       else
         ubnd (nulterminate (Suc cmd) cmd) (\<lambda>_.
         uret cmd))) st)"

section \<open>Running\<close>

text \<open>The string at a position of the buffer.\<close>

definition get_str :: "nat \<Rightarrow> ('s sh_st_scheme, u8 list) U" where
  "get_str q = (\<lambda>s. case ustr_at (sbuf s) q of None \<Rightarrow> (UFault, s) | Some w \<Rightarrow> (UVal w, s))"

fun get_args :: "(nat \<Rightarrow> nat option) \<Rightarrow> nat \<Rightarrow> nat \<Rightarrow> ('s sh_st_scheme, u8 list list) U" where
  "get_args argv i 0 = ufault"
| "get_args argv i (Suc k) = (case argv i of
     None \<Rightarrow> uret []
   | Some q \<Rightarrow> ubnd (get_str q) (\<lambda>w. ubnd (get_args argv (Suc i) k) (\<lambda>ws. uret (w # ws))))"

text \<open>A pipe's two descriptors are the two integers the kernel stores.\<close>

definition fd_of :: "u8 list \<Rightarrow> nat \<Rightarrow> int" where
  "fd_of d i = sint (of_le (take 4 (drop (4 * i) d)) :: u32)"

fun runcmd :: "nat \<Rightarrow> nat \<Rightarrow> ('s sh_st_scheme, unit) U" where
  "runcmd 0 cmd = ufault"
| "runcmd (Suc n) cmd =
     (if cmd = 0 then exit_u 1
      else ubnd (get_node cmd) (\<lambda>nd. case nd of
          Execcmd argv eargv \<Rightarrow>
            ubnd (get_args argv 0 MAXARGS) (\<lambda>ws.
            if ws = [] then exit_u 1
            else
              ubnd (udo (UExec (hd ws) ws)) (\<lambda>_.
              ubnd (fprintf_u 2 ''exec %s failed\<newline>'' [UStr (Some (hd ws))]) (\<lambda>_.
              exit_u 0)))
        | Redircmd c f e mode fd \<Rightarrow>
            ubnd (udo (UClose fd)) (\<lambda>_.
            ubnd (get_str f) (\<lambda>name.
            ubnd (ucalls (UOpen name mode)) (\<lambda>r.
            if r < 0 then
              ubnd (fprintf_u 2 ''open %s failed\<newline>'' [UStr (Some name)]) (\<lambda>_.
              exit_u 1)
            else
              ubnd (runcmd n c) (\<lambda>_.
              exit_u 0))))
        | Listcmd l r \<Rightarrow>
            ubnd fork1 (\<lambda>pid.
            ubnd (uwhen (pid = 0) (runcmd n l)) (\<lambda>_.
            ubnd (udo UWait) (\<lambda>_.
            ubnd (runcmd n r) (\<lambda>_.
            exit_u 0))))
        | Pipecmd l r \<Rightarrow>
            ubnd (usys UPipe) (\<lambda>(res, p).
            if res < 0 then panic_sh ''pipe''
            else
              ubnd fork1 (\<lambda>pid.
              ubnd (uwhen (pid = 0)
                (ubnd (udo (UClose 1)) (\<lambda>_.
                 ubnd (udo (UDup (fd_of p 1))) (\<lambda>_.
                 ubnd (udo (UClose (fd_of p 0))) (\<lambda>_.
                 ubnd (udo (UClose (fd_of p 1))) (\<lambda>_.
                 runcmd n l)))))) (\<lambda>_.
              ubnd fork1 (\<lambda>pid.
              ubnd (uwhen (pid = 0)
                (ubnd (udo (UClose 0)) (\<lambda>_.
                 ubnd (udo (UDup (fd_of p 0))) (\<lambda>_.
                 ubnd (udo (UClose (fd_of p 0))) (\<lambda>_.
                 ubnd (udo (UClose (fd_of p 1))) (\<lambda>_.
                 runcmd n r)))))) (\<lambda>_.
              ubnd (udo (UClose (fd_of p 0))) (\<lambda>_.
              ubnd (udo (UClose (fd_of p 1))) (\<lambda>_.
              ubnd (udo UWait) (\<lambda>_.
              ubnd (udo UWait) (\<lambda>_.
              exit_u 0)))))))))
        | Backcmd c \<Rightarrow>
            ubnd fork1 (\<lambda>pid.
            ubnd (uwhen (pid = 0) (runcmd n c)) (\<lambda>_.
            exit_u 0))))"

definition getcmd :: "int \<Rightarrow> ('s sh_st_scheme, int) U" where
  "getcmd nbuf =
     ubnd (udo (UWrite 2 [36, 32])) (\<lambda>_.
     ubnd (\<lambda>s. (UVal (memset_u (sbuf s) 0 0 (nat nbuf)), s)) (\<lambda>buf.
     ubnd (gets_u buf nbuf) (\<lambda>buf.
     ubnd (\<lambda>s. (UVal (), s\<lparr>sbuf := buf\<rparr>)) (\<lambda>_.
     if buf 0 = 0 then uret (-1) else uret 0))))"

text \<open>Three open descriptors: the loop ends when the console cannot be opened or the descriptor is 3 or more.\<close>

definition open_one :: "unit \<Rightarrow> ('s sh_st_scheme, unit + unit) U" where
  "open_one x =
     ubnd (ucalls (UOpen (chars ''console'') 2)) (\<lambda>fd.
     if fd \<ge> 0 then
       (if fd \<ge> 3 then ubnd (udo (UClose fd)) (\<lambda>_. uret (Inr ())) else uret (Inl ()))
     else uret (Inr ()))"

definition cd_line :: "('s sh_st_scheme, unit) U" where
  "cd_line = (\<lambda>st. (case strlen_u (sbuf st) of
     None \<Rightarrow> ufault
   | Some n \<Rightarrow>
       ubnd (\<lambda>s. (UVal (), s\<lparr>sbuf := (sbuf s)(n - 1 := 0)\<rparr>)) (\<lambda>_.
       ubnd (get_str 3) (\<lambda>dir.
       ubnd (ucalls (UChdir dir)) (\<lambda>r.
       uwhen (r < 0) (fprintf_u 2 ''cannot cd %s\<newline>'' [UStr (Some dir)]))))) st)"

definition sh_one :: "unit \<Rightarrow> ('s sh_st_scheme, unit + unit) U" where
  "sh_one x =
     ubnd (getcmd 100) (\<lambda>r.
     if r < 0 then uret (Inr ())
     else
       ubnd (\<lambda>s. (UVal (sbuf s), s)) (\<lambda>buf.
       if buf 0 = 99 \<and> buf 1 = 100 \<and> buf 2 = 32 then ubnd cd_line (\<lambda>_. uret (Inl ()))
       else
         ubnd fork1 (\<lambda>pid.
         ubnd (uwhen (pid = 0) (ubnd parsecmd (\<lambda>cmd. runcmd (Suc cmd) cmd))) (\<lambda>_.
         ubnd (udo UWait) (\<lambda>_.
         uret (Inl ()))))))"

definition sh_main :: "('s sh_st_scheme, unit) U" where
  "sh_main =
     ubnd (uwhile open_one ()) (\<lambda>_.
     ubnd (uwhile sh_one ()) (\<lambda>_.
     exit_u 0))"

end
