(* ===== verification/Shspec.thy ===== *)
theory Shspec
  imports Sh
begin

text \<open>
  What the shell makes of a command line. A line is a list of tokens, the tokens spell a phrase of a small grammar, and the
  phrase has an abstract command. The parser builds that command in memory and the interpreter runs it as its abstract
  counterpart does.
\<close>

section \<open>Tokens of a line\<close>

datatype tok = TWord "u8 list" | TSym u8

abbreviation isws :: "u8 \<Rightarrow> bool" where "isws c \<equiv> c \<in> set whitespace"

definition wordc :: "u8 \<Rightarrow> bool" where
  "wordc c \<longleftrightarrow> c \<noteq> 0 \<and> c \<notin> set whitespace \<and> c \<notin> set symbols"

lemma symbols_eq: "symbols = [60, 124, 62, 38, 59, 40, 41]" and singles_eq: "chars ''|();&<'' = [124, 40, 41, 59, 38, 60]"
  by (simp_all add: symbols_def chars_def)

function lexer :: "u8 list \<Rightarrow> tok list" where
  "lexer xs = (case dropWhile isws xs of
     [] \<Rightarrow> []
   | c # cs \<Rightarrow>
       if c \<in> set [124, 40, 41, 59, 38, 60] then TSym c # lexer cs
       else if c = 62 then (if cs \<noteq> [] \<and> hd cs = 62 then TSym 43 # lexer (tl cs) else TSym 62 # lexer cs)
       else TWord (c # takeWhile wordc cs) # lexer (dropWhile wordc cs))"
  by pat_completeness auto
termination
proof (relation "measure length", goal_cases)
  case (2 xs c cs)
  then show ?case using length_dropWhile_le [of isws xs] by simp
next
  case (3 xs c cs)
  then show ?case using length_dropWhile_le [of isws xs] by simp
next
  case (4 xs c cs)
  then show ?case using length_dropWhile_le [of isws xs] by simp
next
  case (5 xs c cs)
  then show ?case using length_dropWhile_le [of isws xs] length_dropWhile_le [of wordc cs] by simp
qed simp

declare lexer.simps [simp del]

text \<open>The bytes from \<open>s\<close> to the end of the line at \<open>es\<close>, and the tokens in them.\<close>

definition text_at :: "bytes \<Rightarrow> nat \<Rightarrow> nat \<Rightarrow> u8 list \<Rightarrow> bool" where
  "text_at b es s xs \<longleftrightarrow> s + length xs = es \<and> rd b s (length xs) = xs \<and> 0 \<notin> set xs \<and> b es = 0"

definition toks_at :: "bytes \<Rightarrow> nat \<Rightarrow> nat \<Rightarrow> tok list \<Rightarrow> bool" where
  "toks_at b es s ts \<longleftrightarrow> (\<exists>xs. text_at b es s xs \<and> lexer xs = ts)"

lemma text_at_Cons: "text_at b es s (x # xs) \<longleftrightarrow> b s = x \<and> x \<noteq> 0 \<and> s < es \<and> text_at b es (Suc s) xs"
  by (auto simp: text_at_def rd_Suc)

lemma text_at_Nil: "text_at b es s [] \<longleftrightarrow> s = es \<and> b s = 0"
  by (auto simp: text_at_def)

lemma text_at_append: "text_at b es s (xs @ ys) \<Longrightarrow> rd b s (length xs) = xs \<and> text_at b es (s + length xs) ys"
  by (auto simp: text_at_def rd_append)

lemma skip_ws_eq: "text_at b es s xs \<Longrightarrow> skip_ws b es s = s + length (takeWhile isws xs)"
proof (induction xs arbitrary: s)
  case Nil
  then show ?case by (subst skip_ws.simps) (simp add: text_at_Nil)
next
  case (Cons x xs)
  then show ?case by (subst skip_ws.simps) (auto simp: text_at_Cons)
qed

lemma skip_word_eq: "text_at b es s xs \<Longrightarrow> skip_word b es s = s + length (takeWhile wordc xs)"
proof (induction xs arbitrary: s)
  case Nil
  then show ?case by (subst skip_word.simps) (simp add: text_at_Nil)
next
  case (Cons x xs)
  then show ?case by (subst skip_word.simps) (auto simp: text_at_Cons wordc_def [of x])
qed

lemma text_at_skip: "text_at b es s xs \<Longrightarrow> text_at b es (s + length (takeWhile P xs)) (dropWhile P xs)"
  using text_at_append [of b es s "takeWhile P xs" "dropWhile P xs"] by simp

lemma lex_skip: "lexer (dropWhile isws xs) = lexer xs"
  by (subst (1 2) lexer.simps) (simp add: dropWhile_idem)

definition isword :: "bytes \<Rightarrow> nat \<Rightarrow> nat \<Rightarrow> u8 list \<Rightarrow> bool" where
  "isword b q e w \<longleftrightarrow> q \<le> e \<and> rd b q (e - q) = w \<and> w \<noteq> [] \<and> (\<forall>c \<in> set w. wordc c) \<and> \<not> wordc (b e)"

primrec code :: "tok \<Rightarrow> u8" where
  "code (TWord w) = 97"
| "code (TSym c) = c"

lemma toks_skip:
  assumes "text_at b es s xs"
  shows "toks_at b es (skip_ws b es s) (lexer xs)" and "s \<le> skip_ws b es s"
  using text_at_skip [OF assms, of isws] lex_skip [of xs] skip_ws_eq [OF assms] by (auto simp: toks_at_def)

lemma toks_skip_at: "toks_at b es s ts \<Longrightarrow> toks_at b es (skip_ws b es s) ts \<and> s \<le> skip_ws b es s"
  using toks_skip unfolding toks_at_def by blast

lemma toks_len: "toks_at b es s ts \<Longrightarrow> length ts \<le> es - s"
proof -
  have l: "length (lexer xs) \<le> length xs" for xs
  proof (induction xs rule: lexer.induct)
    case (1 xs)
    show ?case
    proof (cases "dropWhile isws xs")
      case Nil
      show ?thesis unfolding lexer.simps [of xs] Nil by simp
    next
      case (Cons c cs)
      have "length cs < length xs" using length_dropWhile_le [of isws xs] Cons by simp
      moreover have "length (dropWhile wordc cs) \<le> length cs" by (rule length_dropWhile_le)
      ultimately show ?thesis using 1 [OF Cons] unfolding lexer.simps [of xs] Cons
        by (auto simp: Suc_le_eq intro: le_less_trans)
    qed
  qed
  assume "toks_at b es s ts"
  then show ?thesis using l by (auto simp: toks_at_def text_at_def)
qed

lemma gettoken_Nil:
  assumes "toks_at b es s []"
  shows "\<exists>q e s'. gettoken b es s = (0, q, e, s') \<and> toks_at b es s' []"
proof -
  obtain xs where x: "text_at b es s xs" "lexer xs = []" using assms by (auto simp: toks_at_def)
  have d: "dropWhile isws xs = []" using x(2) by (subst (asm) lexer.simps) (auto split: list.splits if_splits)
  have "b (skip_ws b es s) = 0"
    using text_at_skip [OF x(1), of isws] unfolding d skip_ws_eq [OF x(1)] text_at_Nil by blast
  then show ?thesis using toks_skip_at [OF assms] toks_skip_at by (simp add: gettoken_def Let_def)
qed

lemma gettoken_Cons:
  assumes "toks_at b es s (t # ts)"
  shows "\<exists>q e s'. gettoken b es s = (code t, q, e, s') \<and> toks_at b es s' ts \<and> s < s' \<and> (\<forall>w. t = TWord w \<longrightarrow> isword b q e w)"
proof -
  obtain xs where x: "text_at b es s xs" "lexer xs = t # ts" using assms by (auto simp: toks_at_def)
  then obtain c cs where d: "dropWhile isws xs = c # cs" by (subst (asm) lexer.simps) (auto split: list.splits)
  define s1 where "s1 = skip_ws b es s"
  have t1: "text_at b es s1 (c # cs)" using text_at_skip [OF x(1), of isws] skip_ws_eq [OF x(1)] d by (simp add: s1_def)
  then have c: "b s1 = c" "c \<noteq> 0" "text_at b es (Suc s1) cs" by (simp_all add: text_at_Cons)
  have le: "s \<le> s1" using toks_skip(2) [OF x(1)] by (simp add: s1_def)
  have ws: "\<not> isws c" using d by (metis hd_dropWhile list.distinct(1) list.sel(1))
  note lx = x(2) [unfolded lexer.simps [of xs] d list.case]
  have go: "\<exists>q e s'. gettoken b es s = (code t, q, e, s') \<and> toks_at b es s' ts \<and> s < s' \<and> (\<forall>w. t = TWord w \<longrightarrow> isword b q e w)"
    if "gettoken b es s = (code t, s1, e, skip_ws b es e)" "text_at b es e zs" "lexer zs = ts" "s1 < e"
      "\<And>w. t = TWord w \<Longrightarrow> isword b s1 e w" for e zs
    using that le toks_skip [OF that(2)] by fastforce
  have g: "gettoken b es s = (let (r, e) = (if c \<in> set (chars ''|();&<'') then (c, Suc s1)
            else if c = 62 then (if b (Suc s1) = 62 then (43, Suc (Suc s1)) else (c, Suc s1))
            else (97, skip_word b es s1)) in (r, s1, e, skip_ws b es e))"
    using c by (simp add: gettoken_def s1_def [symmetric] Let_def)
  show ?thesis
  proof (cases "c \<in> set [124, 40, 41, 59, 38, 60]")
    case True
    then show ?thesis using lx c(3) by (intro go [of "Suc s1" cs]) (auto simp: g singles_eq)
  next
    case sym: False
    show ?thesis
    proof (cases "c = 62")
      case True
      show ?thesis
      proof (cases "cs \<noteq> [] \<and> hd cs = 62")
        case tt: True
        then obtain ds where cs: "cs = 62 # ds" by (cases cs) auto
        then show ?thesis using lx c(3) True by (intro go [of "Suc (Suc s1)" ds]) (auto simp: g singles_eq text_at_Cons)
      next
        case False
        then have "b (Suc s1) \<noteq> 62" using c(3) by (cases cs) (auto simp: text_at_Cons text_at_Nil)
        then show ?thesis using lx c(3) True False by (intro go [of "Suc s1" cs]) (auto simp: g singles_eq)
      qed
    next
      case False
      have w: "wordc c" using sym False ws c(2) by (auto simp: wordc_def symbols_eq)
      let ?w = "c # takeWhile wordc cs"
      let ?e = "s1 + length ?w"
      have k: "takeWhile wordc (c # cs) = ?w" "dropWhile wordc (c # cs) = dropWhile wordc cs" using w by simp_all
      have e: "skip_word b es s1 = ?e" using skip_word_eq [OF t1] unfolding k .
      have te: "text_at b es ?e (dropWhile wordc cs)" using text_at_skip [OF t1, of wordc] unfolding k .
      have "rd b s1 (length ?w) = ?w" using text_at_append [of b es s1 ?w "dropWhile wordc cs"] t1 by simp
      moreover have "\<not> wordc (b ?e)"
        using te by (cases "dropWhile wordc cs") (auto simp: text_at_Nil text_at_Cons wordc_def [of 0] dropWhile_eq_Cons_conv)
      ultimately have "isword b s1 ?e ?w" using w by (auto simp: isword_def dest: set_takeWhileD)
      then show ?thesis using lx te sym False e by (intro go [of ?e "dropWhile wordc cs"]) (auto simp: g singles_eq)
    qed
  qed
qed

text \<open>Whether the next token begins with one of the given symbols.\<close>

definition starts :: "u8 list \<Rightarrow> tok list \<Rightarrow> bool" where
  "starts cs ts \<longleftrightarrow> (case ts of TSym c # _ \<Rightarrow> (if c = 43 then 62 else c) \<in> set cs | _ \<Rightarrow> False)"

lemma peek_eq:
  assumes "toks_at b es s ts" and "set (chars toks) \<subseteq> set symbols"
  shows "\<exists>s'. peek b es s toks = (s', starts (chars toks) ts) \<and> toks_at b es s' ts \<and> s \<le> s'"
proof -
  obtain xs where x: "text_at b es s xs" "lexer xs = ts" using assms by (auto simp: toks_at_def)
  let ?s = "skip_ws b es s"
  have t: "text_at b es ?s (dropWhile isws xs)" using text_at_skip [OF x(1), of isws] skip_ws_eq [OF x(1)] by simp
  have "(b ?s \<noteq> 0 \<and> b ?s \<in> set (chars toks)) = starts (chars toks) ts"
  proof (cases "dropWhile isws xs")
    case Nil
    have "b ?s = 0" using t unfolding Nil text_at_Nil by blast
    moreover have "ts = []" using x(2) unfolding lexer.simps [of xs] Nil by simp
    ultimately show ?thesis by (simp add: starts_def)
  next
    case (Cons c cs)
    have c: "b ?s = c" "c \<noteq> 0" using t unfolding Cons text_at_Cons by blast+
    show ?thesis
    proof (cases "c \<in> set symbols")
      case True
      then show ?thesis using c x(2) unfolding lexer.simps [of xs] Cons
        by (auto simp: starts_def symbols_eq split: if_splits)
    next
      case False
      then have "\<exists>w us. ts = TWord w # us" using x(2) unfolding lexer.simps [of xs] Cons by (auto simp: symbols_eq)
      then show ?thesis using c False assms(2) by (auto simp: starts_def)
    qed
  qed
  then show ?thesis using toks_skip_at [OF assms(1)] by (simp add: peek_def Let_def)
qed

section \<open>The grammar\<close>

datatype redir = RIn "u8 list" | ROut "u8 list" | RApp "u8 list"

datatype gline = GLine gpipe nat "gline option"
  and gpipe = GPipe gexec "gpipe option"
  and gexec = GSimple "redir list" "(u8 list \<times> redir list) list" | GBlock gline "redir list"

primrec rfile :: "redir \<Rightarrow> u8 list" where
  "rfile (RIn w) = w" | "rfile (ROut w) = w" | "rfile (RApp w) = w"

primrec rsym :: "redir \<Rightarrow> u8" where
  "rsym (RIn w) = 60" | "rsym (ROut w) = 62" | "rsym (RApp w) = 43"

primrec rmode :: "redir \<Rightarrow> int" where
  "rmode (RIn w) = 0" | "rmode (ROut w) = 0x601" | "rmode (RApp w) = 0x201"

primrec rfd :: "redir \<Rightarrow> int" where
  "rfd (RIn w) = 0" | "rfd (ROut w) = 1" | "rfd (RApp w) = 1"

definition toks_r :: "redir list \<Rightarrow> tok list" where
  "toks_r rs = concat (map (\<lambda>r. [TSym (rsym r), TWord (rfile r)]) rs)"

definition toks_a :: "(u8 list \<times> redir list) list \<Rightarrow> tok list" where
  "toks_a as = concat (map (\<lambda>(w, rs). TWord w # toks_r rs) as)"

text \<open>The tokens of a phrase.\<close>

fun toks_line :: "gline \<Rightarrow> tok list" and toks_pipe :: "gpipe \<Rightarrow> tok list" and toks_exec :: "gexec \<Rightarrow> tok list" where
  "toks_line (GLine p k None) = toks_pipe p @ replicate k (TSym 38)"
| "toks_line (GLine p k (Some l)) = toks_pipe p @ replicate k (TSym 38) @ [TSym 59] @ toks_line l"
| "toks_pipe (GPipe e None) = toks_exec e"
| "toks_pipe (GPipe e (Some p)) = toks_exec e @ [TSym 124] @ toks_pipe p"
| "toks_exec (GSimple rs as) = toks_r rs @ toks_a as"
| "toks_exec (GBlock l rs) = [TSym 40] @ toks_line l @ [TSym 41] @ toks_r rs"

text \<open>Commands as trees, and the command of a phrase.\<close>

datatype ast = AExec "u8 list list" | ARedir ast "u8 list" int int | APipe ast ast | AList ast ast | ABack ast

definition red :: "ast \<Rightarrow> redir \<Rightarrow> ast" where
  "red a r = ARedir a (rfile r) (rmode r) (rfd r)"

fun ast_line :: "gline \<Rightarrow> ast" and ast_pipe :: "gpipe \<Rightarrow> ast" and ast_exec :: "gexec \<Rightarrow> ast" where
  "ast_line (GLine p k None) = (ABack ^^ k) (ast_pipe p)"
| "ast_line (GLine p k (Some l)) = AList ((ABack ^^ k) (ast_pipe p)) (ast_line l)"
| "ast_pipe (GPipe e None) = ast_exec e"
| "ast_pipe (GPipe e (Some p)) = APipe (ast_exec e) (ast_pipe p)"
| "ast_exec (GSimple rs as) = foldl red (AExec (map fst as)) (rs @ concat (map snd as))"
| "ast_exec (GBlock l rs) = foldl red (ast_line l) rs"

text \<open>No command has more words than the argument array holds; the nodes it takes; the depth of the parser's calls.\<close>

fun small_line :: "gline \<Rightarrow> bool" and small_pipe :: "gpipe \<Rightarrow> bool" and small_exec :: "gexec \<Rightarrow> bool" where
  "small_line (GLine p k None) = small_pipe p"
| "small_line (GLine p k (Some l)) = (small_pipe p \<and> small_line l)"
| "small_pipe (GPipe e None) = small_exec e"
| "small_pipe (GPipe e (Some p)) = (small_exec e \<and> small_pipe p)"
| "small_exec (GSimple rs as) = (length as < MAXARGS)"
| "small_exec (GBlock l rs) = small_line l"

primrec nodes :: "ast \<Rightarrow> nat" where
  "nodes (AExec ws) = 1"
| "nodes (ARedir a f m d) = Suc (nodes a)"
| "nodes (APipe a a') = Suc (nodes a + nodes a')"
| "nodes (AList a a') = Suc (nodes a + nodes a')"
| "nodes (ABack a) = Suc (nodes a)"

fun deep_line :: "gline \<Rightarrow> nat" and deep_pipe :: "gpipe \<Rightarrow> nat" and deep_exec :: "gexec \<Rightarrow> nat" where
  "deep_line (GLine p k None) = Suc (deep_pipe p)"
| "deep_line (GLine p k (Some l)) = Suc (max (deep_pipe p) (deep_line l))"
| "deep_pipe (GPipe e None) = Suc (deep_exec e)"
| "deep_pipe (GPipe e (Some p)) = Suc (max (deep_exec e) (deep_pipe p))"
| "deep_exec (GSimple rs as) = 1"
| "deep_exec (GBlock l rs) = Suc (Suc (deep_line l))"

lemma deep_le: "deep_line g \<le> 4 * length (toks_line g) + 3" "deep_pipe p \<le> 4 * length (toks_pipe p) + 2"
  "deep_exec e \<le> 4 * length (toks_exec e) + 1"
  by (induction g and p and e rule: deep_line_deep_pipe_deep_exec.induct) auto

section \<open>Trees in memory\<close>

text \<open>\<open>W q e w\<close> says that the positions \<open>q\<close> and \<open>e\<close> stand for the word \<open>w\<close>.\<close>

primrec repw :: "(nat \<Rightarrow> nat \<Rightarrow> u8 list \<Rightarrow> bool) \<Rightarrow> (nat \<Rightarrow> cmdnode option) \<Rightarrow> nat \<Rightarrow> ast \<Rightarrow> bool" where
  "repw W h p (AExec ws) \<longleftrightarrow> 0 < p \<and> (\<exists>argv eargv. h p = Some (Execcmd argv eargv) \<and> length ws < MAXARGS \<and> argv (length ws) = None
     \<and> (\<forall>i < length ws. \<exists>q e. argv i = Some q \<and> eargv i = Some e \<and> W q e (ws ! i)))"
| "repw W h p (ARedir a f m d) \<longleftrightarrow> (\<exists>c q e. h p = Some (Redircmd c q e m d) \<and> c < p \<and> repw W h c a \<and> W q e f)"
| "repw W h p (APipe a a') \<longleftrightarrow> (\<exists>c c'. h p = Some (Pipecmd c c') \<and> c < p \<and> c' < p \<and> repw W h c a \<and> repw W h c' a')"
| "repw W h p (AList a a') \<longleftrightarrow> (\<exists>c c'. h p = Some (Listcmd c c') \<and> c < p \<and> c' < p \<and> repw W h c a \<and> repw W h c' a')"
| "repw W h p (ABack a) \<longleftrightarrow> (\<exists>c. h p = Some (Backcmd c) \<and> c < p \<and> repw W h c a)"

abbreviation rep :: "bytes \<Rightarrow> (nat \<Rightarrow> cmdnode option) \<Rightarrow> nat \<Rightarrow> ast \<Rightarrow> bool" where
  "rep b \<equiv> repw (isword b)"

lemma repw_mono: "repw W h p a \<Longrightarrow> (\<And>q e w. W q e w \<Longrightarrow> W' q e w) \<Longrightarrow> repw W' h p a"
  by (induction a arbitrary: p) fastforce+

lemma rep_frame: "repw W h p a \<Longrightarrow> (\<And>q. q \<le> p \<Longrightarrow> h' q = h q) \<Longrightarrow> repw W h' p a"
  by (induction a arbitrary: p) fastforce+

lemma rep_pos: "repw W h p a \<Longrightarrow> 0 < p"
  by (induction a arbitrary: p) auto

text \<open>Redirections stacked on a node, the last one on top.\<close>

primrec chain :: "bytes \<Rightarrow> (nat \<Rightarrow> cmdnode option) \<Rightarrow> nat \<Rightarrow> nat \<Rightarrow> redir list \<Rightarrow> bool" where
  "chain b h c p [] \<longleftrightarrow> p = c"
| "chain b h c p (r # rs) \<longleftrightarrow> (\<exists>p' q e. h p = Some (Redircmd p' q e (rmode r) (rfd r)) \<and> p' < p \<and> c < p
     \<and> isword b q e (rfile r) \<and> chain b h c p' rs)"

lemma chain_rep: "chain b h c p rs \<Longrightarrow> rep b h c a \<Longrightarrow> rep b h p (foldl red a (rev rs))"
  by (induction rs arbitrary: p) (auto simp: red_def)

lemma chain_frame: "chain b h c p rs \<Longrightarrow> (\<And>q. c < q \<Longrightarrow> q \<le> p \<Longrightarrow> h' q = h q) \<Longrightarrow> chain b h' c p rs"
  by (induction rs arbitrary: p) fastforce+

section \<open>The parser builds the tree\<close>

definition alloced :: "'s sh_st_scheme \<Rightarrow> (nat \<Rightarrow> cmdnode option) \<Rightarrow> nat \<Rightarrow> 's sh_st_scheme" where
  "alloced st h k = st\<lparr>heap := h, nextp := nextp st + k, room := room st - k\<rparr>"

lemma alloced_simps [simp]: "heap (alloced st h k) = h" "nextp (alloced st h k) = nextp st + k" "room (alloced st h k) = room st - k"
  "alloced (alloced st h k) h' k' = alloced st h' (k + k')" "alloced st (heap st) 0 = st"
  by (simp_all add: alloced_def add.assoc)

lemma new_node_eq: "room st \<noteq> 0 \<Longrightarrow> new_node nd st = (UVal (nextp st), alloced st ((heap st)(nextp st \<mapsto> nd)) 1)"
  by (simp add: new_node_def alloced_def)

lemma chain_le: "chain b h c p rs \<Longrightarrow> c \<le> p"
  by (cases rs) auto

lemma chars_syms [simp]: "chars ''<>'' = [60, 62]" "chars ''|)&;'' = [124, 41, 38, 59]" "chars ''&'' = [38]" "chars '';'' = [59]"
  "chars ''|'' = [124]" "chars ''('' = [40]" "chars '')'' = [41]" "chars [] = []"
  by (simp_all add: chars_def)

lemma toks_r_simps [simp]: "toks_r [] = []" "toks_r (r # rs) = TSym (rsym r) # TWord (rfile r) # toks_r rs"
  by (simp_all add: toks_r_def)

lemma toks_a_simps [simp]: "toks_a [] = []" "toks_a ((w, rs) # as) = TWord w # toks_r rs @ toks_a as"
  by (simp_all add: toks_a_def)

lemma starts_simps [simp]: "\<not> starts cs []" "\<not> starts cs (TWord w # ts)" "starts cs (TSym c # ts) \<longleftrightarrow> (if c = 43 then 62 else c) \<in> set cs"
  by (simp_all add: starts_def)

lemma redir_node:
  assumes "rsym r = tok"
  shows "(if tok = 60 then redircmd c q e 0 0 else if tok = 62 then redircmd c q e 0x601 1
     else if tok = 43 then redircmd c q e 0x201 1 else uret c) = new_node (Redircmd c q e (rmode r) (rfd r))"
  using assms by (cases r) (auto simp: redircmd_def)

lemma redirs_loop:
  "toks_at b es s (toks_r rs @ ts) \<Longrightarrow> \<not> starts [60, 62] ts \<Longrightarrow> chain b (heap st) c p rs0 \<Longrightarrow> p < nextp st \<Longrightarrow> length rs \<le> room st
   \<Longrightarrow> length rs < n \<Longrightarrow> \<exists>h p' s'. uloop n (redir_one b es) (p, s) st = (UVal (p', s'), alloced st h (length rs)) \<and> toks_at b es s' ts
     \<and> chain b h c p' (rev rs @ rs0) \<and> p' < nextp st + length rs \<and> (\<forall>q < nextp st. h q = heap st q)"
proof (induction rs arbitrary: n s p st rs0)
  case Nil
  obtain m where n: "n = Suc m" using Nil.prems by (cases n) auto
  obtain s' where "peek b es s ''<>'' = (s', False)" "toks_at b es s' ts"
    using peek_eq [of b es s ts "''<>''"] Nil.prems(1,2) by (auto simp: symbols_eq)
  then show ?case using Nil.prems by (intro exI [of _ "heap st"] exI [of _ p] exI [of _ s']) (simp add: n redir_one_def ubnd_apply)
next
  case (Cons r rs)
  obtain m where n: "n = Suc m" "length rs < m" using Cons.prems by (cases n) auto
  let ?T = "toks_r rs @ ts"
  have rc: "(if rsym r = 43 then 62 else rsym r) \<in> {60, 62}" by (cases r) auto
  obtain s1 where p1: "peek b es s ''<>'' = (s1, True)" and t1: "toks_at b es s1 (TSym (rsym r) # TWord (rfile r) # ?T)"
    using peek_eq [of b es s "TSym (rsym r) # TWord (rfile r) # ?T" "''<>''"] Cons.prems(1) rc by (auto simp: symbols_eq)
  obtain q2 e2 s2 where g2: "gettoken b es s1 = (rsym r, q2, e2, s2)" and t2: "toks_at b es s2 (TWord (rfile r) # ?T)"
    using gettoken_Cons [OF t1] by auto
  obtain q e s3 where g3: "gettoken b es s2 = (97, q, e, s3)" and t3: "toks_at b es s3 ?T" and w: "isword b q e (rfile r)"
    using gettoken_Cons [OF t2] by auto
  let ?h = "(heap st)(nextp st \<mapsto> Redircmd p q e (rmode r) (rfd r))"
  let ?st = "alloced st ?h 1"
  have one: "redir_one b es (p, s) st = (UVal (Inl (nextp st, s3)), ?st)"
    using Cons.prems(5) by (simp add: redir_one_def p1 g2 g3 redir_node [OF refl] ubnd_apply new_node_eq)
  have "chain b (heap ?st) c (nextp st) (r # rs0)" "nextp st < nextp ?st" "length rs \<le> room ?st"
    using Cons.prems(5) Cons.prems(3,4) chain_le [OF Cons.prems(3)] w
    by (auto intro!: exI [of _ p] exI [of _ q] exI [of _ e] chain_frame [OF Cons.prems(3)])
  from Cons.IH [OF t3 Cons.prems(2) this n(2)]
  obtain h p' s' where ih: "uloop m (redir_one b es) (nextp st, s3) ?st = (UVal (p', s'), alloced ?st h (length rs))" "toks_at b es s' ts"
     "chain b h c p' (rev rs @ r # rs0)" "p' < nextp ?st + length rs" "\<forall>q < nextp ?st. h q = heap ?st q"
    by blast
  show ?case using ih one
    by (intro exI [of _ h] exI [of _ p'] exI [of _ s']) (auto simp: n ubnd_apply)
qed

lemma parseredirs_rule:
  assumes "toks_at b es s (toks_r rs @ ts)" and "\<not> starts [60, 62] ts" and "chain b (heap st) c p rs0" and "p < nextp st" and "length rs \<le> room st"
  shows "\<exists>h p' s'. parseredirs b es p s st = (UVal (p', s'), alloced st h (length rs)) \<and> toks_at b es s' ts
     \<and> chain b h c p' (rev rs @ rs0) \<and> p' < nextp st + length rs \<and> (\<forall>q < nextp st. h q = heap st q)"
proof -
  have "length rs \<le> length (toks_r rs)" by (induction rs) auto
  then have "length rs < Suc (es - s)" using toks_len [OF assms(1)] by simp
  then show ?thesis unfolding parseredirs_def using redirs_loop [OF assms] by blast
qed

text \<open>A node that \<open>parseexec\<close> is filling with arguments.\<close>

definition filling :: "bytes \<Rightarrow> (nat \<Rightarrow> cmdnode option) \<Rightarrow> nat \<Rightarrow> u8 list list \<Rightarrow> bool" where
  "filling b h cmd ws \<longleftrightarrow> 0 < cmd \<and> (\<exists>argv eargv. h cmd = Some (Execcmd argv eargv) \<and> (\<forall>j \<ge> length ws. argv j = None)
     \<and> (\<forall>i < length ws. \<exists>q e. argv i = Some q \<and> eargv i = Some e \<and> isword b q e (ws ! i)))"

lemma filling_rep: "filling b h cmd ws \<Longrightarrow> length ws < MAXARGS \<Longrightarrow> rep b h cmd (AExec ws)"
  by (auto simp: filling_def)

lemma set_arg_word:
  assumes "filling b (heap st) cmd ws" and "isword b q e w"
  shows "\<exists>nd. set_arg cmd (length ws) (Some q) (Some e) st = (UVal (), alloced st ((heap st)(cmd \<mapsto> nd)) 0)
     \<and> filling b ((heap st)(cmd \<mapsto> nd)) cmd (ws @ [w])"
proof -
  obtain argv eargv where n: "0 < cmd" "heap st cmd = Some (Execcmd argv eargv)" "\<forall>j \<ge> length ws. argv j = None"
    "\<forall>i < length ws. \<exists>q e. argv i = Some q \<and> eargv i = Some e \<and> isword b q e (ws ! i)" using assms(1) by (auto simp: filling_def)
  then show ?thesis using assms(2)
    by (intro exI [of _ "Execcmd (argv(length ws := Some q)) (eargv(length ws := Some e))"])
       (auto simp: set_arg_def get_node_def set_node_def ubnd_apply alloced_def filling_def nth_append less_Suc_eq)
qed

lemma set_arg_none:
  assumes "filling b (heap st) cmd ws"
  shows "\<exists>nd. set_arg cmd (length ws) None None st = (UVal (), alloced st ((heap st)(cmd \<mapsto> nd)) 0)
     \<and> filling b ((heap st)(cmd \<mapsto> nd)) cmd ws"
proof -
  obtain argv eargv where n: "0 < cmd" "heap st cmd = Some (Execcmd argv eargv)" "\<forall>j \<ge> length ws. argv j = None"
    "\<forall>i < length ws. \<exists>q e. argv i = Some q \<and> eargv i = Some e \<and> isword b q e (ws ! i)" using assms(1) by (auto simp: filling_def)
  then show ?thesis
    by (intro exI [of _ "Execcmd (argv(length ws := None)) (eargv(length ws := None))"])
       (auto simp: set_arg_def get_node_def set_node_def ubnd_apply alloced_def filling_def)
qed

lemma filling_frame: "filling b h cmd ws \<Longrightarrow> h' cmd = h cmd \<Longrightarrow> filling b h' cmd ws"
  by (simp add: filling_def)

definition follow :: "u8 list \<Rightarrow> tok list \<Rightarrow> bool" where
  "follow cs ts \<longleftrightarrow> ts = [] \<or> starts cs ts"

lemma follow_not: "follow cs ts \<Longrightarrow> set cs \<inter> set ds = {} \<Longrightarrow> \<not> starts ds ts"
  by (auto simp: follow_def starts_def split: list.splits tok.splits if_splits)

lemma args_loop:
  "toks_at b es s (toks_a as @ ts) \<Longrightarrow> follow [124, 41, 38, 59] ts \<Longrightarrow> filling b (heap st) cmd ws \<Longrightarrow> chain b (heap st) cmd r rs0
   \<Longrightarrow> r < nextp st \<Longrightarrow> length (concat (map snd as)) \<le> room st \<Longrightarrow> length ws + length as < MAXARGS \<Longrightarrow> length as < n
   \<Longrightarrow> \<exists>h r' s'. uloop n (arg_one b es cmd) (r, length ws, s) st
        = (UVal (r', length ws + length as, s'), alloced st h (length (concat (map snd as)))) \<and> toks_at b es s' ts
     \<and> filling b h cmd (ws @ map fst as) \<and> chain b h cmd r' (rev (concat (map snd as)) @ rs0)
     \<and> r' < nextp st + length (concat (map snd as)) \<and> (\<forall>q < nextp st. q \<noteq> cmd \<longrightarrow> h q = heap st q)"
proof (induction as arbitrary: n s r st rs0 ws)
  case Nil
  obtain m where n: "n = Suc m" using Nil.prems by (cases n) auto
  obtain s1 where p: "peek b es s ''|)&;'' = (s1, starts [124, 41, 38, 59] ts)" and t1: "toks_at b es s1 ts"
    using peek_eq [of b es s ts "''|)&;''"] Nil.prems(1) by (auto simp: symbols_eq)
  have "\<exists>s'. arg_one b es cmd (r, length ws, s) st = (UVal (Inr (r, length ws, s')), st) \<and> toks_at b es s' ts"
  proof (cases "ts = []")
    case True
    then show ?thesis using gettoken_Nil [of b es s1] t1 p by (auto simp: arg_one_def)
  next
    case False
    then show ?thesis using Nil.prems(2) t1 p by (auto simp: arg_one_def follow_def)
  qed
  then obtain s' where s': "arg_one b es cmd (r, length ws, s) st = (UVal (Inr (r, length ws, s')), st)" "toks_at b es s' ts" by blast
  then show ?case using Nil.prems by (intro exI [of _ "heap st"] exI [of _ r] exI [of _ s']) (simp add: n ubnd_apply)
next
  case (Cons a as)
  obtain w rs where a: "a = (w, rs)" by (cases a)
  obtain m where n: "n = Suc m" "length as < m" using Cons.prems by (cases n) auto
  let ?T = "toks_a as @ ts"
  have t0: "toks_at b es s (TWord w # toks_r rs @ ?T)" using Cons.prems(1) a by simp
  obtain s1 where p: "peek b es s ''|)&;'' = (s1, False)" and t1: "toks_at b es s1 (TWord w # toks_r rs @ ?T)"
    using peek_eq [OF t0, of "''|)&;''"] by (auto simp: symbols_eq)
  obtain q e s2 where g: "gettoken b es s1 = (97, q, e, s2)" and t2: "toks_at b es s2 (toks_r rs @ ?T)" and w: "isword b q e w"
    using gettoken_Cons [OF t1] by auto
  obtain nd where sa: "set_arg cmd (length ws) (Some q) (Some e) st = (UVal (), alloced st ((heap st)(cmd \<mapsto> nd)) 0)"
    and f: "filling b ((heap st)(cmd \<mapsto> nd)) cmd (ws @ [w])" using set_arg_word [OF Cons.prems(3) w] by blast
  let ?h = "(heap st)(cmd \<mapsto> nd)" and ?k = "length rs"
  let ?st = "alloced st ?h 0"
  have ns: "\<not> starts [60, 62] ?T" using follow_not [OF Cons.prems(2), of "[60, 62]"] by (cases as) auto
  have c: "chain b (heap ?st) cmd r rs0" using chain_frame [OF Cons.prems(4)] by simp
  have "r < nextp ?st" "?k \<le> room ?st" using Cons.prems(5,6) a by auto
  from parseredirs_rule [OF t2 ns c this]
  obtain h1 r1 s3 where pr: "parseredirs b es r s2 ?st = (UVal (r1, s3), alloced ?st h1 ?k)" and t3: "toks_at b es s3 ?T"
    and c1: "chain b h1 cmd r1 (rev rs @ rs0)" "r1 < nextp ?st + ?k" "\<forall>q < nextp ?st. h1 q = ?h q" by auto
  let ?st1 = "alloced st h1 ?k"
  have one: "arg_one b es cmd (r, length ws, s) st = (UVal (Inl (r1, Suc (length ws), s3)), ?st1)"
    using Cons.prems(7) pr by (simp add: arg_one_def p g ubnd_apply sa)
  have cl: "cmd < nextp st" using chain_le [OF Cons.prems(4)] Cons.prems(5) by simp
  have "filling b (heap ?st1) cmd (ws @ [w])" using filling_frame [OF f] c1(3) cl by simp
  moreover have "chain b (heap ?st1) cmd r1 (rev rs @ rs0)" "r1 < nextp ?st1" "length (concat (map snd as)) \<le> room ?st1"
    "length (ws @ [w]) + length as < MAXARGS" using c1 Cons.prems(6,7) a by auto
  ultimately obtain h r' s' where ih: "uloop m (arg_one b es cmd) (r1, length (ws @ [w]), s3) ?st1
        = (UVal (r', length (ws @ [w]) + length as, s'), alloced ?st1 h (length (concat (map snd as))))" "toks_at b es s' ts"
     "filling b h cmd ((ws @ [w]) @ map fst as)" "chain b h cmd r' (rev (concat (map snd as)) @ rev rs @ rs0)"
     "r' < nextp ?st1 + length (concat (map snd as))" "\<forall>q < nextp ?st1. q \<noteq> cmd \<longrightarrow> h q = heap ?st1 q"
    using Cons.IH [OF t3 Cons.prems(2) _ _ _ _ _ n(2), of ?st1 "ws @ [w]" r1 "rev rs @ rs0"] by blast
  show ?case using ih one c1(3)
    by (intro exI [of _ h] exI [of _ r'] exI [of _ s']) (auto simp: n a ubnd_apply)
qed

lemma amps_loop:
  "toks_at b es s (replicate k (TSym 38) @ ts) \<Longrightarrow> \<not> starts [38] ts \<Longrightarrow> rep b (heap st) p a \<Longrightarrow> p < nextp st \<Longrightarrow> k \<le> room st \<Longrightarrow> k < n
   \<Longrightarrow> \<exists>h p' s'. uloop n (amp_one b es) (p, s) st = (UVal (p', s'), alloced st h k) \<and> toks_at b es s' ts
     \<and> rep b h p' ((ABack ^^ k) a) \<and> p' < nextp st + k \<and> (\<forall>q < nextp st. h q = heap st q)"
proof (induction k arbitrary: n s p st a)
  case 0
  obtain m where n: "n = Suc m" using "0.prems" by (cases n) auto
  obtain s' where "peek b es s ''&'' = (s', False)" "toks_at b es s' ts"
    using peek_eq [of b es s ts "''&''"] "0.prems"(1,2) by (auto simp: symbols_eq)
  then show ?case using "0.prems" by (intro exI [of _ "heap st"] exI [of _ p] exI [of _ s']) (simp add: n amp_one_def ubnd_apply)
next
  case (Suc k)
  obtain m where n: "n = Suc m" "k < m" using Suc.prems by (cases n) auto
  have t0: "toks_at b es s (TSym 38 # replicate k (TSym 38) @ ts)" using Suc.prems(1) by simp
  obtain s1 where p1: "peek b es s ''&'' = (s1, True)" and t1: "toks_at b es s1 (TSym 38 # replicate k (TSym 38) @ ts)"
    using peek_eq [OF t0, of "''&''"] by (auto simp: symbols_eq)
  obtain q e s2 where g: "gettoken b es s1 = (38, q, e, s2)" and t2: "toks_at b es s2 (replicate k (TSym 38) @ ts)"
    using gettoken_Cons [OF t1] by auto
  let ?st = "alloced st ((heap st)(nextp st \<mapsto> Backcmd p)) 1"
  have one: "amp_one b es (p, s) st = (UVal (Inl (nextp st, s2)), ?st)"
    using Suc.prems(5) by (simp add: amp_one_def p1 g backcmd_def new_node_eq ubnd_apply)
  have "rep b (heap ?st) (nextp st) (ABack a)" "nextp st < nextp ?st" "k \<le> room ?st"
    using Suc.prems(3-5) by (auto intro!: exI [of _ p] rep_frame [OF Suc.prems(3)])
  from Suc.IH [OF t2 Suc.prems(2) this n(2)]
  obtain h p' s' where ih: "uloop m (amp_one b es) (nextp st, s2) ?st = (UVal (p', s'), alloced ?st h k)" "toks_at b es s' ts"
     "rep b h p' ((ABack ^^ k) (ABack a))" "p' < nextp ?st + k" "\<forall>q < nextp ?st. h q = heap ?st q" by blast
  show ?case using ih one
    by (intro exI [of _ h] exI [of _ p'] exI [of _ s']) (auto simp: n ubnd_apply funpow_swap1)
qed

lemma nodes_simps [simp]: "nodes ((ABack ^^ k) a) = k + nodes a" "nodes (foldl red a rs) = length rs + nodes a"
proof -
  show "nodes ((ABack ^^ k) a) = k + nodes a" by (induction k) auto
  show "nodes (foldl red a rs) = length rs + nodes a" by (induction rs arbitrary: a) (auto simp: red_def)
qed

definition parsed :: "bytes \<Rightarrow> nat \<Rightarrow> 's sh_st_scheme \<Rightarrow> tok list \<Rightarrow> ast \<Rightarrow> (nat \<times> nat) ures \<times> 's sh_st_scheme \<Rightarrow> bool" where
  "parsed b es st ts a r \<longleftrightarrow> (\<exists>h p s'. r = (UVal (p, s'), alloced st h (nodes a)) \<and> toks_at b es s' ts \<and> rep b h p a
     \<and> p < nextp st + nodes a \<and> (\<forall>q < nextp st. h q = heap st q))"

lemma parseexec_simple:
  assumes t: "toks_at b es s (toks_r rs @ toks_a as @ ts)" and f: "follow [124, 41, 38, 59] ts" and "length as < MAXARGS"
    and "0 < nextp st" and "nodes (ast_exec (GSimple rs as)) \<le> room st"
  shows "parsed b es st ts (ast_exec (GSimple rs as)) (parseexec (Suc n) b es s st)"
proof -
  have ns: "\<not> starts [40] (toks_r rs @ toks_a as @ ts)" "\<not> starts [60, 62] (toks_a as @ ts)"
    using follow_not [OF f, of "[40]"] follow_not [OF f, of "[60, 62]"] by (cases rs; cases as; auto; cases "hd rs"; auto)+
  obtain s0 where p0: "peek b es s ''('' = (s0, False)" and t0: "toks_at b es s0 (toks_r rs @ toks_a as @ ts)"
    using peek_eq [OF t, of "''(''"] ns(1) by (auto simp: symbols_eq)
  let ?c = "nextp st"
  let ?st = "alloced st ((heap st)(?c \<mapsto> Execcmd (\<lambda>_. None) (\<lambda>_. None))) 1"
  have e: "execcmd st = (UVal ?c, ?st)" using assms(5) by (simp add: execcmd_def new_node_eq)
  have "chain b (heap ?st) ?c ?c []" "?c < nextp ?st" "length rs \<le> room ?st" using assms(5) by auto
  from parseredirs_rule [OF t0 ns(2) this]
  obtain h1 r1 s1 where pr: "parseredirs b es ?c s0 ?st = (UVal (r1, s1), alloced ?st h1 (length rs))" and t1: "toks_at b es s1 (toks_a as @ ts)"
    and c1: "chain b h1 ?c r1 (rev rs)" "r1 < nextp ?st + length rs" "\<forall>q < nextp ?st. h1 q = heap ?st q" by auto
  let ?st1 = "alloced ?st h1 (length rs)"
  have fi: "filling b (heap ?st1) ?c []" using c1(3) assms(4) by (simp add: filling_def)
  have "length as \<le> length (toks_a as)" by (induction as) auto
  then have len: "length as < Suc (es - s1)" using toks_len [OF t1] by simp
  have pre: "chain b (heap ?st1) ?c r1 (rev rs)" "r1 < nextp ?st1" "length (concat (map snd as)) \<le> room ?st1" "length [] + length as < MAXARGS"
    using c1 assms(3,5) by auto
  from args_loop [OF t1 f fi pre len]
  obtain h2 r2 s2 where al: "uloop (Suc (es - s1)) (arg_one b es ?c) (r1, length ([] :: u8 list list), s1) ?st1
        = (UVal (r2, length ([] :: u8 list list) + length as, s2), alloced ?st1 h2 (length (concat (map snd as))))" and t2: "toks_at b es s2 ts"
    and c2: "filling b h2 ?c ([] @ map fst as)" "chain b h2 ?c r2 (rev (concat (map snd as)) @ rev rs)"
     "r2 < nextp ?st1 + length (concat (map snd as))" "\<forall>q < nextp ?st1. q \<noteq> ?c \<longrightarrow> h2 q = heap ?st1 q" by blast
  let ?st2 = "alloced ?st1 h2 (length (concat (map snd as)))"
  obtain nd where sa: "set_arg ?c (length as) None None ?st2 = (UVal (), alloced ?st2 (h2(?c \<mapsto> nd)) 0)"
    and f3: "filling b (h2(?c \<mapsto> nd)) ?c (map fst as)" using set_arg_none [of b ?st2 ?c "map fst as"] c2(1) by auto
  let ?h = "h2(?c \<mapsto> nd)"
  have "chain b ?h ?c r2 (rev (concat (map snd as)) @ rev rs)" by (rule chain_frame [OF c2(2)]) simp
  from chain_rep [OF this filling_rep [OF f3]] have "rep b ?h r2 (ast_exec (GSimple rs as))" using assms(3) by simp
  moreover have "parseexec (Suc n) b es s st = (UVal (r2, s2), alloced st ?h (nodes (ast_exec (GSimple rs as))))"
    using al e pr sa by (simp add: p0 ubnd_apply add.commute del: uloop.simps)
  moreover have "\<forall>q < nextp st. ?h q = heap st q" using c2(4) c1(3) by auto
  ultimately show ?thesis unfolding parsed_def using t2 c2(3) by auto
qed

lemma peek_sym:
  assumes "toks_at b es s (TSym c # ts)" and "chars k = [c]" and "c \<in> set symbols"
  shows "\<exists>s1. peek b es s k = (s1, True) \<and> toks_at b es s1 (TSym c # ts)"
  using peek_eq [OF assms(1), of k] assms(2,3) by (auto simp: symbols_eq)

lemma peek_none:
  assumes "toks_at b es s ts" and "chars k = [c]" and "c \<in> set symbols" and "\<not> starts [c] ts"
  shows "\<exists>s1. peek b es s k = (s1, False) \<and> toks_at b es s1 ts"
  using peek_eq [OF assms(1), of k] assms(2-4) by (auto simp: symbols_eq)

lemma next_sym: "toks_at b es s (TSym c # ts) \<Longrightarrow> \<exists>q e s1. gettoken b es s = (c, q, e, s1) \<and> toks_at b es s1 ts"
  using gettoken_Cons [of b es s "TSym c" ts] by auto

lemma parseexec_block:
  assumes ih: "\<And>s st ts. toks_at b es s (toks_line l @ ts) \<Longrightarrow> follow [41] ts \<Longrightarrow> 0 < nextp st \<Longrightarrow> nodes (ast_line l) \<le> room st
      \<Longrightarrow> parsed b es st ts (ast_line l) (parseline n b es s (st :: 's sh_st_scheme))"
    and t: "toks_at b es s (TSym 40 # toks_line l @ TSym 41 # toks_r rs @ ts)" and f: "follow [124, 41, 38, 59] ts"
    and "0 < nextp st" and "nodes (ast_exec (GBlock l rs)) \<le> room st"
  shows "parsed b es st ts (ast_exec (GBlock l rs)) (parseexec (Suc (Suc n)) b es s (st :: 's sh_st_scheme))"
proof -
  obtain s0 where p0: "peek b es s ''('' = (s0, True)" and t0: "toks_at b es s0 (TSym 40 # toks_line l @ TSym 41 # toks_r rs @ ts)"
    using peek_sym [OF t, of "''(''"] by (auto simp: symbols_eq)
  obtain s1 where p1: "peek b es s0 ''('' = (s1, True)" and t1: "toks_at b es s1 (TSym 40 # toks_line l @ TSym 41 # toks_r rs @ ts)"
    using peek_sym [OF t0, of "''(''"] by (auto simp: symbols_eq)
  obtain q e s2 where g2: "gettoken b es s1 = (40, q, e, s2)" and t2: "toks_at b es s2 (toks_line l @ TSym 41 # toks_r rs @ ts)"
    using next_sym [OF t1] by blast
  have "nodes (ast_line l) \<le> room st" using assms(5) by simp
  from ih [OF t2 _ assms(4) this] obtain h c s3 where l: "parseline n b es s2 st = (UVal (c, s3), alloced st h (nodes (ast_line l)))"
     and t3: "toks_at b es s3 (TSym 41 # toks_r rs @ ts)" and r: "rep b h c (ast_line l)" "c < nextp st + nodes (ast_line l)"
     "\<forall>q < nextp st. h q = heap st q" by (auto simp: parsed_def follow_def)
  obtain s4 where p4: "peek b es s3 '')'' = (s4, True)" and t4: "toks_at b es s4 (TSym 41 # toks_r rs @ ts)"
    using peek_sym [OF t3, of "'')''"] by (auto simp: symbols_eq)
  obtain q' e' s5 where g5: "gettoken b es s4 = (41, q', e', s5)" and t5: "toks_at b es s5 (toks_r rs @ ts)" using next_sym [OF t4] by blast
  let ?st = "alloced st h (nodes (ast_line l))"
  have ns: "\<not> starts [60, 62] ts" using follow_not [OF f, of "[60, 62]"] by simp
  have "chain b (heap ?st) c c []" "c < nextp ?st" "length rs \<le> room ?st" using r(2) assms(5) by auto
  from parseredirs_rule [OF t5 ns this]
  obtain h' p' s' where pr: "parseredirs b es c s5 ?st = (UVal (p', s'), alloced ?st h' (length rs))" "toks_at b es s' ts"
     "chain b h' c p' (rev rs)" "p' < nextp ?st + length rs" "\<forall>q < nextp ?st. h' q = heap ?st q" by auto
  have "rep b h' c (ast_line l)" by (rule rep_frame [OF r(1)]) (use pr(5) r(2) in simp)
  from chain_rep [OF pr(3) this] have "rep b h' p' (ast_exec (GBlock l rs))" by simp
  moreover have "parseexec (Suc (Suc n)) b es s st = (UVal (p', s'), alloced st h' (nodes (ast_exec (GBlock l rs))))"
    using pr(1) by (simp add: p0 p1 g2 l p4 g5 ubnd_apply add.commute)
  ultimately show ?thesis unfolding parsed_def using pr r(3) by auto
qed

lemma parsepipe_rule:
  assumes ih: "\<And>st ts. toks_at b es s (toks_exec x @ ts) \<Longrightarrow> follow [124, 41, 38, 59] ts \<Longrightarrow> 0 < nextp st \<Longrightarrow> nodes (ast_exec x) \<le> room st
      \<Longrightarrow> parsed b es st ts (ast_exec x) (parseexec n b es s (st :: 's sh_st_scheme))"
    and ih2: "\<And>y s st ts. z = Some y \<Longrightarrow> toks_at b es s (toks_pipe y @ ts) \<Longrightarrow> follow [41, 38, 59] ts \<Longrightarrow> 0 < nextp st \<Longrightarrow> nodes (ast_pipe y) \<le> room st
      \<Longrightarrow> parsed b es st ts (ast_pipe y) (parsepipe n b es s (st :: 's sh_st_scheme))"
    and t: "toks_at b es s (toks_pipe (GPipe x z) @ ts)" and f: "follow [41, 38, 59] ts"
    and "0 < nextp st" and "nodes (ast_pipe (GPipe x z)) \<le> room st"
  shows "parsed b es st ts (ast_pipe (GPipe x z)) (parsepipe (Suc n) b es s (st :: 's sh_st_scheme))"
proof (cases z)
  case None
  have f2: "follow [124, 41, 38, 59] ts" using f by (auto simp: follow_def starts_def split: list.splits tok.splits)
  obtain h c s1 where e: "parseexec n b es s st = (UVal (c, s1), alloced st h (nodes (ast_exec x)))" and t1: "toks_at b es s1 ts"
     and r: "rep b h c (ast_exec x)" "c < nextp st + nodes (ast_exec x)" "\<forall>q < nextp st. h q = heap st q"
    using ih [of ts st] t f2 assms(5,6) None by (auto simp: parsed_def)
  obtain s2 where "peek b es s1 ''|'' = (s2, False)" "toks_at b es s2 ts"
    using peek_none [OF t1, of "''|''"] follow_not [OF f, of "[124]"] by (auto simp: symbols_eq)
  then show ?thesis using e r None by (auto simp: parsed_def ubnd_apply)
next
  case (Some y)
  have "follow [124, 41, 38, 59] (TSym 124 # toks_pipe y @ ts)" by (simp add: follow_def)
  then obtain h c s1 where e: "parseexec n b es s st = (UVal (c, s1), alloced st h (nodes (ast_exec x)))"
     and t1: "toks_at b es s1 (TSym 124 # toks_pipe y @ ts)"
     and r: "rep b h c (ast_exec x)" "c < nextp st + nodes (ast_exec x)" "\<forall>q < nextp st. h q = heap st q"
    using ih [of "TSym 124 # toks_pipe y @ ts" st] t assms(5,6) Some by (auto simp: parsed_def)
  obtain s2 where p2: "peek b es s1 ''|'' = (s2, True)" and t2: "toks_at b es s2 (TSym 124 # toks_pipe y @ ts)"
    using peek_sym [OF t1, of "''|''"] by (auto simp: symbols_eq)
  obtain q' e' s3 where g3: "gettoken b es s2 = (124, q', e', s3)" and t3: "toks_at b es s3 (toks_pipe y @ ts)" using next_sym [OF t2] by blast
  let ?st = "alloced st h (nodes (ast_exec x))"
  have "0 < nextp ?st" "nodes (ast_pipe y) \<le> room ?st" using assms(5,6) Some by auto
  from ih2 [OF Some t3 f this]
  obtain h2 c2 s4 where e2: "parsepipe n b es s3 ?st = (UVal (c2, s4), alloced ?st h2 (nodes (ast_pipe y)))" and t4: "toks_at b es s4 ts"
     and r2: "rep b h2 c2 (ast_pipe y)" "c2 < nextp ?st + nodes (ast_pipe y)" "\<forall>q < nextp ?st. h2 q = heap ?st q"
    unfolding parsed_def by blast
  let ?N = "nextp st + nodes (ast_exec x) + nodes (ast_pipe y)"
  let ?h = "h2(?N \<mapsto> Pipecmd c c2)"
  have "rep b ?h c (ast_exec x)" by (rule rep_frame [OF r(1)]) (use r(2) r2(3) in simp)
  moreover have "rep b ?h c2 (ast_pipe y)" by (rule rep_frame [OF r2(1)]) (use r2(2) in simp)
  ultimately have "rep b ?h ?N (ast_pipe (GPipe x z))" using r(2) r2(2) Some by simp
  moreover have "parsepipe (Suc n) b es s st = (UVal (?N, s4), alloced st ?h (nodes (ast_pipe (GPipe x z))))"
    using assms(6) Some e2 by (simp add: e p2 g3 ubnd_apply pipecmd_def new_node_eq add.assoc)
  ultimately show ?thesis unfolding parsed_def using t4 r(3) r2(3) Some by auto
qed

lemma line_head:
  assumes ih: "\<And>st ts. toks_at b es s (toks_pipe x @ ts) \<Longrightarrow> follow [41, 38, 59] ts \<Longrightarrow> 0 < nextp st \<Longrightarrow> nodes (ast_pipe x) \<le> room st
      \<Longrightarrow> parsed b es st ts (ast_pipe x) (parsepipe n b es s (st :: 's sh_st_scheme))"
    and t: "toks_at b es s (toks_pipe x @ replicate k (TSym 38) @ ts)" and f: "follow [41, 59] ts"
    and "0 < nextp st" and "k + nodes (ast_pipe x) \<le> room st"
  shows "parsed b es st ts ((ABack ^^ k) (ast_pipe x)) (ubnd (parsepipe n b es s) (\<lambda>(cmd, s). uloop (Suc (es - s)) (amp_one b es) (cmd, s))
     (st :: 's sh_st_scheme))"
proof -
  have f1: "follow [41, 38, 59] (replicate k (TSym 38) @ ts)"
    using f by (cases k) (auto simp: follow_def starts_def split: list.splits tok.splits)
  have "nodes (ast_pipe x) \<le> room st" using assms(5) by simp
  from ih [OF t f1 assms(4) this]
  obtain h c s1 where e: "parsepipe n b es s st = (UVal (c, s1), alloced st h (nodes (ast_pipe x)))"
     and t1: "toks_at b es s1 (replicate k (TSym 38) @ ts)"
     and r: "rep b h c (ast_pipe x)" "c < nextp st + nodes (ast_pipe x)" "\<forall>q < nextp st. h q = heap st q"
    unfolding parsed_def by blast
  let ?st = "alloced st h (nodes (ast_pipe x))"
  have "\<not> starts [38] ts" using follow_not [OF f, of "[38]"] by simp
  moreover have "rep b (heap ?st) c (ast_pipe x)" "c < nextp ?st" "k \<le> room ?st" "k < Suc (es - s1)"
    using r assms(5) toks_len [OF t1] by auto
  ultimately obtain h' p' s' where a: "uloop (Suc (es - s1)) (amp_one b es) (c, s1) ?st = (UVal (p', s'), alloced ?st h' k)" "toks_at b es s' ts"
     "rep b h' p' ((ABack ^^ k) (ast_pipe x))" "p' < nextp ?st + k" "\<forall>q < nextp ?st. h' q = heap ?st q"
    using amps_loop [OF t1, of ?st c "ast_pipe x" "Suc (es - s1)"] by blast
  then show ?thesis using e r(3) by (auto simp: parsed_def ubnd_apply add.commute simp del: uloop.simps)
qed

lemma parseline_split:
  "parseline (Suc n) b es s st = ubnd (ubnd (parsepipe n b es s) (\<lambda>(cmd, s). uloop (Suc (es - s)) (amp_one b es) (cmd, s))) (\<lambda>(cmd, s).
     let (s, t) = peek b es s '';'' in
     if t then
       let (_, _, _, s) = gettoken b es s in
       ubnd (parseline n b es s) (\<lambda>(right, s).
       ubnd (listcmd cmd right) (\<lambda>cmd.
       uret (cmd, s)))
     else uret (cmd, s)) st"
  by (simp add: ubnd_assoc case_prod_unfold del: uloop.simps)

lemma parseline_rule:
  assumes ih: "\<And>st ts. toks_at b es s (toks_pipe x @ ts) \<Longrightarrow> follow [41, 38, 59] ts \<Longrightarrow> 0 < nextp st \<Longrightarrow> nodes (ast_pipe x) \<le> room st
      \<Longrightarrow> parsed b es st ts (ast_pipe x) (parsepipe n b es s (st :: 's sh_st_scheme))"
    and ih2: "\<And>y s st ts. z = Some y \<Longrightarrow> toks_at b es s (toks_line y @ ts) \<Longrightarrow> follow [41] ts \<Longrightarrow> 0 < nextp st \<Longrightarrow> nodes (ast_line y) \<le> room st
      \<Longrightarrow> parsed b es st ts (ast_line y) (parseline n b es s (st :: 's sh_st_scheme))"
    and t: "toks_at b es s (toks_line (GLine x k z) @ ts)" and f: "follow [41] ts"
    and "0 < nextp st" and "nodes (ast_line (GLine x k z)) \<le> room st"
  shows "parsed b es st ts (ast_line (GLine x k z)) (parseline (Suc n) b es s (st :: 's sh_st_scheme))"
proof (cases z)
  case None
  have f2: "follow [41, 59] ts" using f by (auto simp: follow_def starts_def split: list.splits tok.splits)
  have "toks_at b es s (toks_pipe x @ replicate k (TSym 38) @ ts)" "k + nodes (ast_pipe x) \<le> room st" using t assms(6) None by simp_all
  from line_head [OF ih this(1) f2 assms(5) this(2)] obtain h c s1
    where e: "ubnd (parsepipe n b es s) (\<lambda>(cmd, s). uloop (Suc (es - s)) (amp_one b es) (cmd, s)) st
        = (UVal (c, s1), alloced st h (k + nodes (ast_pipe x)))" and t1: "toks_at b es s1 ts"
     and r: "rep b h c ((ABack ^^ k) (ast_pipe x))" "c < nextp st + (k + nodes (ast_pipe x))" "\<forall>q < nextp st. h q = heap st q"
    unfolding parsed_def nodes_simps by blast
  obtain s2 where "peek b es s1 '';'' = (s2, False)" "toks_at b es s2 ts"
    using peek_none [OF t1, of "'';''"] follow_not [OF f, of "[59]"] by (auto simp: symbols_eq)
  then show ?thesis unfolding parseline_split ubnd_val [where m = "ubnd (parsepipe n b es s) (\<lambda>(cmd, s). uloop (Suc (es - s)) (amp_one b es) (cmd, s))", OF e] using r None by (auto simp: parsed_def)
next
  case (Some y)
  let ?a = "(ABack ^^ k) (ast_pipe x)"
  have f2: "follow [41, 59] (TSym 59 # toks_line y @ ts)" by (simp add: follow_def)
  have "toks_at b es s (toks_pipe x @ replicate k (TSym 38) @ TSym 59 # toks_line y @ ts)" "k + nodes (ast_pipe x) \<le> room st"
    using t assms(6) Some by simp_all
  from line_head [OF ih this(1) f2 assms(5) this(2)] obtain h c s1
    where e: "ubnd (parsepipe n b es s) (\<lambda>(cmd, s). uloop (Suc (es - s)) (amp_one b es) (cmd, s)) st
        = (UVal (c, s1), alloced st h (nodes ?a))" and t1: "toks_at b es s1 (TSym 59 # toks_line y @ ts)"
     and r: "rep b h c ?a" "c < nextp st + nodes ?a" "\<forall>q < nextp st. h q = heap st q"
    unfolding parsed_def by blast
  obtain s2 where p2: "peek b es s1 '';'' = (s2, True)" and t2: "toks_at b es s2 (TSym 59 # toks_line y @ ts)"
    using peek_sym [OF t1, of "'';''"] by (auto simp: symbols_eq)
  obtain q' e' s3 where g3: "gettoken b es s2 = (59, q', e', s3)" and t3: "toks_at b es s3 (toks_line y @ ts)" using next_sym [OF t2] by blast
  let ?st = "alloced st h (nodes ?a)"
  have "0 < nextp ?st" "nodes (ast_line y) \<le> room ?st" using assms(5,6) Some by auto
  from ih2 [OF Some t3 f this]
  obtain h2 c2 s4 where e2: "parseline n b es s3 ?st = (UVal (c2, s4), alloced ?st h2 (nodes (ast_line y)))" and t4: "toks_at b es s4 ts"
     and r2: "rep b h2 c2 (ast_line y)" "c2 < nextp ?st + nodes (ast_line y)" "\<forall>q < nextp ?st. h2 q = heap ?st q"
    unfolding parsed_def by blast
  let ?N = "nextp st + nodes ?a + nodes (ast_line y)"
  let ?h = "h2(?N \<mapsto> Listcmd c c2)"
  have "rep b ?h c ?a" by (rule rep_frame [OF r(1)]) (use r(2) r2(3) in simp)
  moreover have "rep b ?h c2 (ast_line y)" by (rule rep_frame [OF r2(1)]) (use r2(2) in simp)
  ultimately have "rep b ?h ?N (ast_line (GLine x k z))" using r(2) r2(2) Some by simp
  moreover have "parseline (Suc n) b es s st = (UVal (?N, s4), alloced st ?h (nodes (ast_line (GLine x k z))))"
    unfolding parseline_split ubnd_val [where m = "ubnd (parsepipe n b es s) (\<lambda>(cmd, s). uloop (Suc (es - s)) (amp_one b es) (cmd, s))", OF e] using assms(6) Some e2 by (simp add: p2 g3 ubnd_apply listcmd_def new_node_eq add.assoc)
  ultimately show ?thesis unfolding parsed_def using t4 r(3) r2(3) Some by auto
qed

lemma parse_rule:
  fixes st :: "'s sh_st_scheme"
  shows "toks_at b es s (toks_line g @ ts) \<Longrightarrow> follow [41] ts \<Longrightarrow> small_line g \<Longrightarrow> deep_line g \<le> n \<Longrightarrow> 0 < nextp st
      \<Longrightarrow> nodes (ast_line g) \<le> room st \<Longrightarrow> parsed b es st ts (ast_line g) (parseline n b es s st)"
    and "toks_at b es s (toks_pipe p @ ts) \<Longrightarrow> follow [41, 38, 59] ts \<Longrightarrow> small_pipe p \<Longrightarrow> deep_pipe p \<le> n \<Longrightarrow> 0 < nextp st
      \<Longrightarrow> nodes (ast_pipe p) \<le> room st \<Longrightarrow> parsed b es st ts (ast_pipe p) (parsepipe n b es s st)"
    and "toks_at b es s (toks_exec x @ ts) \<Longrightarrow> follow [124, 41, 38, 59] ts \<Longrightarrow> small_exec x \<Longrightarrow> deep_exec x \<le> n \<Longrightarrow> 0 < nextp st
      \<Longrightarrow> nodes (ast_exec x) \<le> room st \<Longrightarrow> parsed b es st ts (ast_exec x) (parseexec n b es s st)"
proof (induction g and p and x arbitrary: s st ts n and s st ts n and s st ts n rule: deep_line_deep_pipe_deep_exec.induct)
  case (1 p k)
  then obtain m where n: "n = Suc m" "deep_pipe p \<le> m" by (cases n) auto
  show ?case unfolding n(1) by (rule parseline_rule) (use 1 n in auto)
next
  case (2 p k l)
  then obtain m where n: "n = Suc m" "deep_pipe p \<le> m" "deep_line l \<le> m" by (cases n) auto
  show ?case unfolding n(1) by (rule parseline_rule) (use 2 n in auto)
next
  case (3 e)
  then obtain m where n: "n = Suc m" "deep_exec e \<le> m" by (cases n) auto
  show ?case unfolding n(1) by (rule parsepipe_rule) (use 3 n in auto)
next
  case (4 e p)
  then obtain m where n: "n = Suc m" "deep_exec e \<le> m" "deep_pipe p \<le> m" by (cases n) auto
  show ?case unfolding n(1) by (rule parsepipe_rule) (use 4 n in auto)
next
  case (5 rs as)
  then obtain m where n: "n = Suc m" by (cases n) auto
  show ?case unfolding n by (rule parseexec_simple) (use 5 in auto)
next
  case (6 l rs)
  then obtain m where n: "n = Suc (Suc m)" "deep_line l \<le> m" by (metis deep_exec.simps(2) Suc_le_D Suc_le_mono)
  show ?case unfolding n(1) by (rule parseexec_block) (use 6 n in auto)
qed

section \<open>The ends of the words\<close>

text \<open>Writing NULs where no word has a byte.\<close>

definition cuts :: "bytes \<Rightarrow> bytes \<Rightarrow> bool" where
  "cuts b b' \<longleftrightarrow> (\<forall>i. b' i = b i \<or> b' i = 0 \<and> \<not> wordc (b i))"

definition isstr :: "bytes \<Rightarrow> nat \<Rightarrow> nat \<Rightarrow> u8 list \<Rightarrow> bool" where
  "isstr b q e w \<longleftrightarrow> isword b q e w \<and> b e = 0"

lemma cuts_refl [simp]: "cuts b b"
  by (simp add: cuts_def)

lemma wordc_0 [simp]: "\<not> wordc 0"
  by (simp add: wordc_def)

lemma cuts_trans: "cuts b b' \<Longrightarrow> cuts b' b'' \<Longrightarrow> cuts b b''"
  unfolding cuts_def by (metis wordc_0)

lemma cuts_word: "cuts b b' \<Longrightarrow> isword b q e w \<Longrightarrow> isword b' q e w"
proof -
  assume c: "cuts b b'" and w: "isword b q e w"
  have "wordc (b (q + i))" if "i < e - q" for i
  proof -
    have "b (q + i) \<in> set (rd b q (e - q))" using that by (auto simp: rd_def)
    then show ?thesis using w by (simp add: isword_def)
  qed
  then have "rd b' q (e - q) = rd b q (e - q)" using c by (auto simp: rd_def cuts_def)
  moreover have "\<not> wordc (b' e)" using c w unfolding cuts_def isword_def by (metis wordc_0)
  ultimately show ?thesis using w by (simp add: isword_def)
qed

lemma cuts_str: "cuts b b' \<Longrightarrow> isstr b q e w \<Longrightarrow> isstr b' q e w"
  unfolding isstr_def using cuts_word by (metis cuts_def)

lemma cut_here: "isword b q e w \<Longrightarrow> cuts b (b(e := 0)) \<and> isstr (b(e := 0)) q e w"
proof -
  assume w: "isword b q e w"
  then have c: "cuts b (b(e := 0))" by (auto simp: cuts_def isword_def)
  then show ?thesis using cuts_word [OF c w] by (simp add: isstr_def)
qed

lemma nul_args_rule:
  assumes "argv N = None" and "N < i + k"
  shows "i \<le> N \<Longrightarrow> (\<And>j. i \<le> j \<Longrightarrow> j < N \<Longrightarrow> \<exists>q e. argv j = Some q \<and> eargv j = Some e \<and> isword (sbuf st) q e (ws ! j))
    \<Longrightarrow> \<exists>b'. nul_args argv eargv i k st = (UVal (), st\<lparr>sbuf := b'\<rparr>) \<and> cuts (sbuf st) b'
      \<and> (\<forall>j. i \<le> j \<longrightarrow> j < N \<longrightarrow> (\<exists>q e. argv j = Some q \<and> eargv j = Some e \<and> isstr b' q e (ws ! j)))"
  using assms(2)
proof (induction k arbitrary: i st)
  case (Suc k)
  show ?case
  proof (cases "i = N")
    case True
    then show ?thesis using assms(1) by (intro exI [of _ "sbuf st"]) auto
  next
    case False
    then obtain q e where q: "argv i = Some q" "eargv i = Some e" "isword (sbuf st) q e (ws ! i)" using Suc.prems(1) Suc.prems(2) [of i] by auto
    let ?st = "st\<lparr>sbuf := (sbuf st)(e := 0)\<rparr>"
    have cut: "cuts (sbuf st) (sbuf ?st)" "isstr (sbuf ?st) q e (ws ! i)" using cut_here [OF q(3)] by simp_all
    have ws: "\<exists>q e. argv j = Some q \<and> eargv j = Some e \<and> isword (sbuf ?st) q e (ws ! j)" if "Suc i \<le> j" "j < N" for j
      using Suc.prems(2) [of j] that cuts_word [OF cut(1)] by fastforce
    have "Suc i \<le> N" "N < Suc i + k" using Suc.prems(1,3) False by auto
    from Suc.IH [OF this(1) ws this(2)]
    obtain b' where b': "nul_args argv eargv (Suc i) k ?st = (UVal (), ?st\<lparr>sbuf := b'\<rparr>)" "cuts (sbuf ?st) b'"
      "\<forall>j. Suc i \<le> j \<longrightarrow> j < N \<longrightarrow> (\<exists>q e. argv j = Some q \<and> eargv j = Some e \<and> isstr b' q e (ws ! j))"
      by blast
    have "isstr b' q e (ws ! i)" using cuts_str [OF b'(2) cut(2)] .
    then have "\<forall>j. i \<le> j \<longrightarrow> j < N \<longrightarrow> (\<exists>q e. argv j = Some q \<and> eargv j = Some e \<and> isstr b' q e (ws ! j))"
      using b'(3) q by (metis Suc_leI le_neq_implies_less)
    moreover have "nul_args argv eargv i (Suc k) st = (UVal (), st\<lparr>sbuf := b'\<rparr>)"
      using b'(1) q by (simp add: nul_at_def ubnd_apply)
    moreover have "cuts (sbuf st) b'" using cuts_trans cut(1) b'(2) by blast
    ultimately show ?thesis by blast
  qed
qed simp

lemma nulterminate_rule:
  "rep (sbuf st) (heap st) p a \<Longrightarrow> p < n
   \<Longrightarrow> \<exists>b'. nulterminate n p st = (UVal (), st\<lparr>sbuf := b'\<rparr>) \<and> cuts (sbuf st) b' \<and> repw (isstr b') (heap st) p a"
proof (induction a arbitrary: p n st)
  case (AExec ws)
  then obtain m where n: "n = Suc m" by (cases n) auto
  obtain argv eargv where h: "0 < p" "heap st p = Some (Execcmd argv eargv)" "length ws < MAXARGS" "argv (length ws) = None"
     "\<forall>i < length ws. \<exists>q e. argv i = Some q \<and> eargv i = Some e \<and> isword (sbuf st) q e (ws ! i)" using AExec.prems by auto
  obtain b' where "nul_args argv eargv 0 MAXARGS st = (UVal (), st\<lparr>sbuf := b'\<rparr>)" "cuts (sbuf st) b'"
     "\<forall>j. 0 \<le> j \<longrightarrow> j < length ws \<longrightarrow> (\<exists>q e. argv j = Some q \<and> eargv j = Some e \<and> isstr b' q e (ws ! j))"
    using nul_args_rule [of argv "length ws" 0 MAXARGS eargv st ws] h by auto
  then show ?case using h by (intro exI [of _ b']) (auto simp: n ubnd_apply get_node_def)
next
  case (ARedir a f m d)
  then obtain k where n: "n = Suc k" by (cases n) auto
  obtain c q e where h: "heap st p = Some (Redircmd c q e m d)" "c < p" "rep (sbuf st) (heap st) c a" "isword (sbuf st) q e f"
    using ARedir.prems by auto
  obtain b1 where b1: "nulterminate k c st = (UVal (), st\<lparr>sbuf := b1\<rparr>)" "cuts (sbuf st) b1" "repw (isstr b1) (heap st) c a"
    using ARedir.IH [of st c k] h(2,3) ARedir.prems(2) n by auto
  obtain b2 where b2: "b1(e := 0) = b2" "cuts b1 b2" "isstr b2 q e f" using cut_here [OF cuts_word [OF b1(2) h(4)]] by blast
  show ?case using h b1(1) b2(3) cuts_trans [OF b1(2) b2(2)] repw_mono [OF b1(3) cuts_str [OF b2(2)]]
    by (intro exI [of _ b2]) (auto simp: n ubnd_apply get_node_def nul_at_def b2(1))
next
  case (APipe a a')
  then obtain k where n: "n = Suc k" by (cases n) auto
  obtain c c' where h: "heap st p = Some (Pipecmd c c')" "c < p" "c' < p" "rep (sbuf st) (heap st) c a" "rep (sbuf st) (heap st) c' a'"
    using APipe.prems by auto
  obtain b1 where b1: "nulterminate k c st = (UVal (), st\<lparr>sbuf := b1\<rparr>)" "cuts (sbuf st) b1" "repw (isstr b1) (heap st) c a"
    using APipe.IH(1) [of st c k] h APipe.prems(2) n by auto
  obtain b2 where b2: "nulterminate k c' (st\<lparr>sbuf := b1\<rparr>) = (UVal (), st\<lparr>sbuf := b2\<rparr>)" "cuts b1 b2" "repw (isstr b2) (heap st) c' a'"
    using APipe.IH(2) [of "st\<lparr>sbuf := b1\<rparr>" c' k] repw_mono [OF h(5) cuts_word [OF b1(2)]] h(3) APipe.prems(2) n by auto
  show ?case using h b1 b2 cuts_trans [OF b1(2) b2(2)] repw_mono [OF b1(3) cuts_str [OF b2(2)]]
    by (intro exI [of _ b2]) (auto simp: n ubnd_apply get_node_def)
next
  case (AList a a')
  then obtain k where n: "n = Suc k" by (cases n) auto
  obtain c c' where h: "heap st p = Some (Listcmd c c')" "c < p" "c' < p" "rep (sbuf st) (heap st) c a" "rep (sbuf st) (heap st) c' a'"
    using AList.prems by auto
  obtain b1 where b1: "nulterminate k c st = (UVal (), st\<lparr>sbuf := b1\<rparr>)" "cuts (sbuf st) b1" "repw (isstr b1) (heap st) c a"
    using AList.IH(1) [of st c k] h AList.prems(2) n by auto
  obtain b2 where b2: "nulterminate k c' (st\<lparr>sbuf := b1\<rparr>) = (UVal (), st\<lparr>sbuf := b2\<rparr>)" "cuts b1 b2" "repw (isstr b2) (heap st) c' a'"
    using AList.IH(2) [of "st\<lparr>sbuf := b1\<rparr>" c' k] repw_mono [OF h(5) cuts_word [OF b1(2)]] h(3) AList.prems(2) n by auto
  show ?case using h b1 b2 cuts_trans [OF b1(2) b2(2)] repw_mono [OF b1(3) cuts_str [OF b2(2)]]
    by (intro exI [of _ b2]) (auto simp: n ubnd_apply get_node_def)
next
  case (ABack a)
  then obtain k where n: "n = Suc k" by (cases n) auto
  obtain c where h: "heap st p = Some (Backcmd c)" "c < p" "rep (sbuf st) (heap st) c a" using ABack.prems by auto
  show ?case using h ABack.IH [of st c k] ABack.prems(2) n by (auto simp: n ubnd_apply get_node_def)
qed

section \<open>The interpreter\<close>

text \<open>The commands run from their abstract trees.\<close>

primrec run_ast :: "ast \<Rightarrow> ('s user_st_scheme, unit) U" where
  "run_ast (AExec ws) = (if ws = [] then exit_u 1
     else
       ubnd (udo (UExec (hd ws) ws)) (\<lambda>_.
       ubnd (fprintf_u 2 ''exec %s failed\<newline>'' [UStr (Some (hd ws))]) (\<lambda>_.
       exit_u 0)))"
| "run_ast (ARedir a name mode fd) =
     ubnd (udo (UClose fd)) (\<lambda>_.
     ubnd (ucalls (UOpen name mode)) (\<lambda>r.
     if r < 0 then
       ubnd (fprintf_u 2 ''open %s failed\<newline>'' [UStr (Some name)]) (\<lambda>_.
       exit_u 1)
     else
       ubnd (run_ast a) (\<lambda>_.
       exit_u 0)))"
| "run_ast (AList a a') =
     ubnd fork1 (\<lambda>pid.
     ubnd (uwhen (pid = 0) (run_ast a)) (\<lambda>_.
     ubnd (udo UWait) (\<lambda>_.
     ubnd (run_ast a') (\<lambda>_.
     exit_u 0))))"
| "run_ast (APipe a a') =
     ubnd (usys UPipe) (\<lambda>(res, p).
     if res < 0 then panic_sh ''pipe''
     else
       ubnd fork1 (\<lambda>pid.
       ubnd (uwhen (pid = 0)
         (ubnd (udo (UClose 1)) (\<lambda>_.
          ubnd (udo (UDup (fd_of p 1))) (\<lambda>_.
          ubnd (udo (UClose (fd_of p 0))) (\<lambda>_.
          ubnd (udo (UClose (fd_of p 1))) (\<lambda>_.
          run_ast a)))))) (\<lambda>_.
       ubnd fork1 (\<lambda>pid.
       ubnd (uwhen (pid = 0)
         (ubnd (udo (UClose 0)) (\<lambda>_.
          ubnd (udo (UDup (fd_of p 0))) (\<lambda>_.
          ubnd (udo (UClose (fd_of p 0))) (\<lambda>_.
          ubnd (udo (UClose (fd_of p 1))) (\<lambda>_.
          run_ast a')))))) (\<lambda>_.
       ubnd (udo (UClose (fd_of p 0))) (\<lambda>_.
       ubnd (udo (UClose (fd_of p 1))) (\<lambda>_.
       ubnd (udo UWait) (\<lambda>_.
       ubnd (udo UWait) (\<lambda>_.
       exit_u 0)))))))))"
| "run_ast (ABack a) =
     ubnd fork1 (\<lambda>pid.
     ubnd (uwhen (pid = 0) (run_ast a)) (\<lambda>_.
     exit_u 0))"

text \<open>Programs that leave the buffer and the nodes alone.\<close>

definition keepsh :: "('s sh_st_scheme, 'a) U \<Rightarrow> bool" where
  "keepsh m \<longleftrightarrow> (\<forall>s. sbuf (snd (m s)) = sbuf s \<and> heap (snd (m s)) = heap s)"

named_theorems kept \<open>programs that keep the buffer and the nodes\<close>

lemma keepsh_base [kept]: "keepsh (uret x)" "keepsh (exit_u n)" "keepsh (usys c)" "keepsh ufault"
  by (simp_all add: keepsh_def usys_def split: list.split)

lemma keepsh_ubnd [kept]: "keepsh m \<Longrightarrow> (\<And>x. keepsh (f x)) \<Longrightarrow> keepsh (ubnd m f)"
  unfolding keepsh_def ubnd_def by (auto split: prod.split ures.split) (metis snd_conv)+

lemma keepsh_calls [kept]: "keepsh (ucalls c)" "keepsh (udo c)" "keepsh (putc fd x)"
  by (simp_all add: ucalls_def udo_def putc_def kept)

lemma keepsh_ufor [kept]: "(\<And>x. keepsh (f x)) \<Longrightarrow> keepsh (ufor f xs)"
  by (induction xs) (simp_all add: kept)

lemma keepsh_case [kept]: "keepsh m \<Longrightarrow> keepsh m' \<Longrightarrow> keepsh (if b then m else m')"
  "keepsh m \<Longrightarrow> (\<And>y ys. keepsh (g y ys)) \<Longrightarrow> keepsh (case l of [] \<Rightarrow> m | y # ys \<Rightarrow> g y ys)"
  "(\<And>r. keepsh (h1 r)) \<Longrightarrow> (\<And>t. keepsh (h2 t)) \<Longrightarrow> keepsh (case a of UReg r \<Rightarrow> h1 r | UStr t \<Rightarrow> h2 t)"
  by (simp_all split: list.split uarg.split)

lemma keepsh_vprintf_loop [kept]: "keepsh (vprintf_loop fd b fmt ap)"
proof (induction fmt arbitrary: b ap)
  case (Cons c fmt)
  show ?case
    by (cases b; simp only: vprintf_loop.simps printint_u_def printptr_u_def;
        intro keepsh_case keepsh_ubnd keepsh_ufor keepsh_base keepsh_calls Cons)
qed (simp add: kept)

lemma keepsh_fork1 [kept]: "keepsh fork1" "keepsh (panic_sh x)" "keepsh (fprintf_u fd f ap)"
  by (simp_all add: fork1_def panic_sh_def fprintf_u_def vprintf_def kept)

lemma keepsh_run_ast [kept]: "keepsh (run_ast a)"
  by (induction a) (auto simp: uwhen_def intro!: kept)

text \<open>Two programs that do the same as long as the buffer and the nodes are these.\<close>

definition agree :: "bytes \<Rightarrow> (nat \<Rightarrow> cmdnode option) \<Rightarrow> ('s sh_st_scheme, 'a) U \<Rightarrow> ('s sh_st_scheme, 'a) U \<Rightarrow> bool" where
  "agree b h m m' \<longleftrightarrow> (\<forall>s. sbuf s = b \<longrightarrow> heap s = h \<longrightarrow> m s = m' s)"

lemma agree_refl: "agree b h m m"
  by (simp add: agree_def)

lemma agree_ubnd:
  assumes "agree b h m m'" and "keepsh m'" and "\<And>x. agree b h (f x) (g x)"
  shows "agree b h (ubnd m f) (ubnd m' g)"
  unfolding agree_def
proof (intro allI impI)
  fix s :: "'a sh_st_scheme" assume s: "sbuf s = b" "heap s = h"
  obtain r s' where m: "m' s = (r, s')" by fastforce
  then have "sbuf s' = b" "heap s' = h" using assms(2) s unfolding keepsh_def by (metis snd_conv)+
  moreover have "m s = m' s" using assms(1) s by (simp add: agree_def)
  ultimately show "ubnd m f s = ubnd m' g s" using assms(3) m by (cases r) (simp_all add: ubnd_def agree_def)
qed

lemma agree_if: "agree b h m m' \<Longrightarrow> agree b h n n' \<Longrightarrow> agree b h (if c then m else n) (if c then m' else n')"
  by simp

lemma agree_uwhen: "agree b h m m' \<Longrightarrow> agree b h (uwhen c m) (uwhen c m')"
  by (cases c) (simp_all add: agree_refl)

lemma keepsh_uwhen [kept]: "keepsh m \<Longrightarrow> keepsh (uwhen c m)"
  by (cases c) (simp_all add: kept)

lemma agree_node: "h p = Some nd \<Longrightarrow> agree b h (f nd) m \<Longrightarrow> agree b h (ubnd (get_node p) f) m"
  by (auto simp: agree_def ubnd_def get_node_def)

lemma isstr_at: "isstr b q e w \<Longrightarrow> ustr_at b q = Some w"
proof -
  assume a: "isstr b q e w"
  have nz: "b i \<noteq> 0" if "q \<le> i" "i < e" for i
  proof -
    have "b i \<in> set (rd b q (e - q))" using that by (auto simp: rd_def image_iff intro!: bexI [of _ "i - q"])
    then show ?thesis using a by (auto simp: isstr_def isword_def wordc_def)
  qed
  have "strlen_u_from b (e - k) = Some e" if "k \<le> e - q" for k
    using that
  proof (induction k)
    case 0
    then show ?case using a by (subst strlen_u_from.simps) (simp add: isstr_def)
  next
    case (Suc k)
    then have "b (e - Suc k) \<noteq> 0" by (intro nz) auto
    moreover have "Suc (e - Suc k) = e - k" using Suc.prems by simp
    ultimately show ?case using Suc by (subst strlen_u_from.simps) simp
  qed
  from this [of "e - q"] show ?thesis using a by (simp add: ustr_at_def isstr_def isword_def)
qed

lemma get_args_eq:
  assumes "argv (length ws) = None" and "\<And>j. j < length ws \<Longrightarrow> \<exists>q e. argv j = Some q \<and> isstr (sbuf st) q e (ws ! j)"
  shows "i \<le> length ws \<Longrightarrow> length ws < i + k \<Longrightarrow> get_args argv i k st = (UVal (drop i ws), st)"
proof (induction k arbitrary: i)
  case (Suc k)
  show ?case
  proof (cases "i = length ws")
    case True
    then show ?thesis using assms(1) by simp
  next
    case False
    then have i: "i < length ws" using Suc.prems by simp
    obtain q e where q: "argv i = Some q" "isstr (sbuf st) q e (ws ! i)" using assms(2) [OF i] by blast
    then have "get_str q st = (UVal (ws ! i), st)" by (simp add: get_str_def isstr_at)
    moreover have "get_args argv (Suc i) k st = (UVal (drop (Suc i) ws), st)" using Suc i by auto
    ultimately show ?thesis using q(1) i by (simp add: ubnd_apply Cons_nth_drop_Suc)
  qed
qed simp

lemma agree_str: "isstr b q e w \<Longrightarrow> agree b h (f w) m \<Longrightarrow> agree b h (ubnd (get_str q) f) m"
  by (auto simp: agree_def ubnd_def get_str_def isstr_at)

lemma agree_args:
  assumes "argv (length ws) = None" and "\<And>j. j < length ws \<Longrightarrow> \<exists>q e. argv j = Some q \<and> isstr b q e (ws ! j)" and "length ws < k"
    and "agree b h (f ws) m"
  shows "agree b h (ubnd (get_args argv 0 k) f) m"
  unfolding agree_def
proof (intro allI impI)
  fix s :: "'a sh_st_scheme" assume s: "sbuf s = b" "heap s = h"
  have "get_args argv 0 k s = (UVal (drop 0 ws), s)" by (rule get_args_eq) (use assms s in auto)
  then show "ubnd (get_args argv 0 k) f s = m s" using assms(4) s by (simp add: agree_def ubnd_val)
qed

lemmas agree_rules = agree_refl agree_ubnd agree_if agree_uwhen

lemma runcmd_rule: "repw (isstr b) h p a \<Longrightarrow> p < n \<Longrightarrow> agree b h (runcmd n p :: ('s sh_st_scheme, unit) U) (run_ast a)"
proof (induction a arbitrary: p n)
  case (AExec ws)
  then obtain m where n: "n = Suc m" by (cases n) auto
  obtain argv eargv where h: "0 < p" "h p = Some (Execcmd argv eargv)" "length ws < MAXARGS" "argv (length ws) = None"
     "\<And>i. i < length ws \<Longrightarrow> \<exists>q e. argv i = Some q \<and> isstr b q e (ws ! i)" using AExec.prems by fastforce
  have "p \<noteq> 0" using h(1) by simp
  then show ?case unfolding n runcmd.simps run_ast.simps
    by (simp only: if_False, intro agree_node [where h = h and p = p, OF h(2)])
       (simp only: cmdnode.case, intro agree_args [where argv = argv and ws = ws] h agree_refl)
next
  case (ARedir a f m d)
  then obtain k where n: "n = Suc k" by (cases n) auto
  obtain c q e where h: "h p = Some (Redircmd c q e m d)" "c < p" "repw (isstr b) h c a" "isstr b q e f"
    using ARedir.prems by auto
  have r: "agree b h (runcmd k c :: ('s sh_st_scheme, unit) U) (run_ast a)" using ARedir.IH h ARedir.prems(2) n by simp
  have "p \<noteq> 0" using h by simp
  then show ?case unfolding n runcmd.simps run_ast.simps
    by (simp only: if_False, intro agree_node [where h = h and p = p, OF h(1)])
       (simp only: cmdnode.case, intro agree_ubnd agree_str [OF h(4)] agree_if r agree_refl kept)
next
  case (ABack a)
  then obtain k where n: "n = Suc k" by (cases n) auto
  obtain c where h: "h p = Some (Backcmd c)" "c < p" "repw (isstr b) h c a" using ABack.prems by auto
  have r: "agree b h (runcmd k c :: ('s sh_st_scheme, unit) U) (run_ast a)" using ABack.IH h ABack.prems(2) n by simp
  have "p \<noteq> 0" using h by simp
  then show ?case unfolding n runcmd.simps run_ast.simps
    by (simp only: if_False, intro agree_node [where h = h and p = p, OF h(1)]) (simp only: cmdnode.case, intro agree_ubnd agree_uwhen r agree_refl kept)
next
  case (AList a a')
  then obtain k where n: "n = Suc k" by (cases n) auto
  obtain c c' where h: "h p = Some (Listcmd c c')" "c < p" "c' < p" "repw (isstr b) h c a" "repw (isstr b) h c' a'"
    using AList.prems by auto
  have r: "agree b h (runcmd k c :: ('s sh_st_scheme, unit) U) (run_ast a)" "agree b h (runcmd k c' :: ('s sh_st_scheme, unit) U) (run_ast a')" using AList.IH h AList.prems(2) n by simp_all
  have "p \<noteq> 0" using h by simp
  then show ?case unfolding n runcmd.simps run_ast.simps
    by (simp only: if_False, intro agree_node [where h = h and p = p, OF h(1)]) (simp only: cmdnode.case, intro agree_ubnd agree_uwhen r agree_refl kept)
next
  case (APipe a a')
  then obtain k where n: "n = Suc k" by (cases n) auto
  obtain c c' where h: "h p = Some (Pipecmd c c')" "c < p" "c' < p" "repw (isstr b) h c a" "repw (isstr b) h c' a'"
    using APipe.prems by auto
  have r: "agree b h (runcmd k c :: ('s sh_st_scheme, unit) U) (run_ast a)" "agree b h (runcmd k c' :: ('s sh_st_scheme, unit) U) (run_ast a')" using APipe.IH h APipe.prems(2) n by simp_all
  have "p \<noteq> 0" using h by simp
  then show ?case unfolding n runcmd.simps run_ast.simps case_prod_unfold
    by (simp only: if_False, intro agree_node [where h = h and p = p, OF h(1)]) (simp only: cmdnode.case, intro agree_ubnd agree_if agree_uwhen r agree_refl kept)
qed

section \<open>From the line to the calls\<close>

lemma strlen_u_text: "text_at b es s xs \<Longrightarrow> strlen_u_from b s = Some es"
proof (induction xs arbitrary: s)
  case Nil
  then show ?case by (subst strlen_u_from.simps) (auto simp: text_at_Nil)
next
  case (Cons x xs)
  then show ?case by (subst strlen_u_from.simps) (simp add: text_at_Cons)
qed

lemma parsecmd_rule:
  assumes t: "text_at (sbuf st) es 0 xs" and g: "lexer xs = toks_line g" "small_line g" and "0 < nextp st" and "nodes (ast_line g) \<le> room st"
  shows "\<exists>b h p. parsecmd st = (UVal p, alloced (st\<lparr>sbuf := b\<rparr>) h (nodes (ast_line g))) \<and> repw (isstr b) h p (ast_line g)"
proof -
  let ?b = "sbuf st" and ?a = "ast_line g"
  have ta: "toks_at ?b es 0 (toks_line g @ [])" using t g(1) by (auto simp: toks_at_def)
  have "deep_line g \<le> 4 * es + 4" using deep_le(1) [of g] toks_len [OF ta] by simp
  from parse_rule(1) [OF ta _ g(2) this assms(4,5)] obtain h p s where pl: "parseline (4 * es + 4) ?b es 0 st = (UVal (p, s), alloced st h (nodes ?a))"
    and ts: "toks_at ?b es s []" and r: "rep ?b h p ?a" by (auto simp: parsed_def follow_def)
  obtain s1 where pk: "peek ?b es s [] = (s1, False)" and t1: "toks_at ?b es s1 []" "s1 = skip_ws ?b es s"
    using peek_eq [OF ts, of "[]"] by (auto simp: peek_def Let_def)
  have "s1 = es"
  proof -
    obtain ys where y: "text_at ?b es s ys" "lexer ys = []" using ts by (auto simp: toks_at_def)
    have d: "dropWhile isws ys = []" using y(2) by (subst (asm) lexer.simps) (auto split: list.splits if_splits)
    show ?thesis using text_at_skip [OF y(1), of isws] unfolding t1(2) d skip_ws_eq [OF y(1)] text_at_Nil by blast
  qed
  moreover obtain b' where nt: "nulterminate (Suc p) p (alloced st h (nodes ?a)) = (UVal (), (alloced st h (nodes ?a))\<lparr>sbuf := b'\<rparr>)" "repw (isstr b') h p ?a"
    using nulterminate_rule [of "alloced st h (nodes ?a)" p ?a "Suc p"] r by (auto simp: alloced_def)
  moreover have "strlen_u ?b = Some es" using strlen_u_text [OF t] by (simp add: strlen_u_def)
  moreover have "(alloced st h (nodes ?a))\<lparr>sbuf := b'\<rparr> = alloced (st\<lparr>sbuf := b'\<rparr>) h (nodes ?a)" by (simp add: alloced_def)
  ultimately show ?thesis using pl pk by (intro exI [of _ b'] exI [of _ h] exI [of _ p]) (simp add: parsecmd_def ubnd_apply)
qed

section \<open>Properties\<close>

text \<open>C11: the shell does what the line says. For a line whose tokens spell a phrase of the grammar (pipes bind
  stronger than \<open>&\<close>, and \<open>&\<close> stronger than \<open>;\<close>; redirections may stand anywhere among the words; parentheses group),
  with fewer than ten words in each command, parsing it in place and running the tree makes exactly the system calls
  of the command the phrase stands for, with each word passed to the kernel as its own string; the parser neither
  overflows its depth nor stops before the end.\<close>

theorem sh_runs_line:
  fixes st :: "'s sh_st_scheme"
  assumes "rd (sbuf st) 0 (length xs) = xs" and "sbuf st (length xs) = 0" and "0 \<notin> set xs"
    and "lexer xs = toks_line g" and "small_line g" and "0 < nextp st" and "nodes (ast_line g) \<le> room st"
  shows "\<exists>b h. ubnd parsecmd (\<lambda>cmd. runcmd (Suc cmd) cmd) st
     = run_ast (ast_line g) (st\<lparr>sbuf := b, heap := h, nextp := nextp st + nodes (ast_line g), room := room st - nodes (ast_line g)\<rparr>)"
proof -
  have "text_at (sbuf st) (length xs) 0 xs" using assms(1-3) by (simp add: text_at_def)
  from parsecmd_rule [OF this assms(4-7)] obtain b h p where p: "parsecmd st = (UVal p, alloced (st\<lparr>sbuf := b\<rparr>) h (nodes (ast_line g)))"
    "repw (isstr b) h p (ast_line g)" by blast
  have "agree b h (runcmd (Suc p) p) (run_ast (ast_line g) :: ('s sh_st_scheme, unit) U)" by (rule runcmd_rule [OF p(2)]) simp
  then show ?thesis using p(1) by (intro exI [of _ b] exI [of _ h]) (simp add: ubnd_val agree_def alloced_def del: runcmd.simps)
qed

definition shline0 :: "u8 list" where
  "shline0 = chars ''ls|wc >f\<newline>''"

definition shs0 :: sh_st where
  "shs0 = \<lparr>answers = [], ulog = [], sbuf = wr (\<lambda>_. 0) 0 shline0, heap = Map.empty, nextp = 1, room = 10\<rparr>"

definition phrase0 :: gline where
  "phrase0 = GLine (GPipe (GSimple [] [(chars ''ls'', [])]) (Some (GPipe (GSimple [] [(chars ''wc'', [ROut (chars ''f'')])]) None))) 0 None"

lemma shline0_toks: "lexer shline0 = toks_line phrase0"
  by (simp add: shline0_def phrase0_def chars_def lexer.simps whitespace_def wordc_def symbols_eq)

theorem sh_runs_line_witness:
  "\<exists>s. ubnd parsecmd (\<lambda>cmd. runcmd (Suc cmd) cmd) shs0
     = run_ast (APipe (AExec [chars ''ls'']) (ARedir (AExec [chars ''wc'']) (chars ''f'') 0x601 1)) s"
proof -
  have "\<exists>b h. ubnd parsecmd (\<lambda>cmd. runcmd (Suc cmd) cmd) shs0 = run_ast (ast_line phrase0)
     (shs0\<lparr>sbuf := b, heap := h, nextp := nextp shs0 + nodes (ast_line phrase0), room := room shs0 - nodes (ast_line phrase0)\<rparr>)"
  proof (rule sh_runs_line [OF _ _ _ shline0_toks])
    show "rd (sbuf shs0) 0 (length shline0) = shline0" "sbuf shs0 (length shline0) = 0" by (simp_all add: shs0_def)
    show "0 \<notin> set shline0" by (simp add: shline0_def chars_def)
    show "small_line phrase0" "0 < nextp shs0" "nodes (ast_line phrase0) \<le> room shs0" by (simp_all add: phrase0_def shs0_def MAXARGS_def red_def)
  qed
  then show ?thesis by (auto simp: phrase0_def red_def)
qed

end
