(* ===== verification/Umalloc.thy ===== *)
theory Umalloc
  imports Ulib
begin

text \<open>
  The storage allocator \<open>user/umalloc.c\<close>. The headers are a map from addresses to headers, the free blocks are the circular
  list threaded through them, and \<open>base\<close> is the address of the static header that is always on the list. The searches of the
  list go on until they find what they look for; that they do is part of what is shown. The free blocks are read as a set
  of addresses: \<open>free\<close> adds its block to it, and \<open>malloc\<close> takes a block out of it, after asking the kernel for more if need be.
\<close>

section \<open>The allocator\<close>

record header =
  h_ptr :: u64
  h_size :: u32

record um_st = user_st +
  hdrs :: "u64 \<Rightarrow> header"
  um_base :: u64
  freep :: u64

text \<open>\<open>p + n\<close> for a pointer to headers.\<close>

definition hadd :: "u64 \<Rightarrow> u32 \<Rightarrow> u64" where
  "hadd p n = p + 16 * ucast n"

partial_function (option) free_find :: "(u64 \<Rightarrow> header) \<Rightarrow> u64 \<Rightarrow> u64 \<Rightarrow> u64 option" where
  "free_find h bp p =
     (if bp > p \<and> bp < h_ptr (h p) then Some p
      else if p \<ge> h_ptr (h p) \<and> (bp > p \<or> bp < h_ptr (h p)) then Some p
      else free_find h bp (h_ptr (h p)))"

definition free_at :: "(u64 \<Rightarrow> header) \<Rightarrow> u64 \<Rightarrow> u64 \<Rightarrow> (u64 \<Rightarrow> header)" where
  "free_at h bp p =
     (let q = h_ptr (h p);
          h = (if hadd bp (h_size (h bp)) = q
               then h(bp := \<lparr>h_ptr = h_ptr (h q), h_size = h_size (h bp) + h_size (h q)\<rparr>)
               else h(bp := (h bp)\<lparr>h_ptr := q\<rparr>))
      in if hadd p (h_size (h p)) = bp
         then h(p := \<lparr>h_ptr = h_ptr (h bp), h_size = h_size (h p) + h_size (h bp)\<rparr>)
         else h(p := (h p)\<lparr>h_ptr := bp\<rparr>))"

definition free :: "u64 \<Rightarrow> 's um_st_scheme \<Rightarrow> 's um_st_scheme option" where
  "free ap s =
     (let bp = ap - 16 in
      case free_find (hdrs s) bp (freep s) of
        None \<Rightarrow> None
      | Some p \<Rightarrow> Some (s\<lparr>hdrs := free_at (hdrs s) bp p, freep := p\<rparr>))"

text \<open>The size in bytes is passed to \<open>sbrk\<close> as an \<open>int\<close>; its result is an address, or -1.\<close>

definition morecore :: "u32 \<Rightarrow> 's um_st_scheme \<Rightarrow> (u64 ures \<times> 's um_st_scheme) option" where
  "morecore nu s =
     (let nu = (if nu < 4096 then 4096 else nu) in
      case ucalls (USbrk (sint (ucast (ucast nu * 16 :: u64) :: u32))) s of
        (UVal r, s) \<Rightarrow>
          (let p = word_of_int r :: u64 in
           if p = -1 then Some (UVal 0, s)
           else map_option (\<lambda>s. (UVal (freep s), s))
                  (free (p + 16) (s\<lparr>hdrs := (hdrs s)(p := (hdrs s p)\<lparr>h_size := nu\<rparr>)\<rparr>)))
      | (UWaits, s) \<Rightarrow> Some (UWaits, s)
      | (UExited, s) \<Rightarrow> Some (UExited, s)
      | (UFault, s) \<Rightarrow> Some (UFault, s))"

text \<open>The block \<open>p\<close> after \<open>prevp\<close> is large enough: all of it, or its tail.\<close>

definition take_block :: "u32 \<Rightarrow> u64 \<Rightarrow> u64 \<Rightarrow> 's um_st_scheme \<Rightarrow> u64 \<times> 's um_st_scheme" where
  "take_block nunits prevp p s =
     (let h = hdrs s in
      if h_size (h p) = nunits
      then (p + 16, s\<lparr>hdrs := h(prevp := (h prevp)\<lparr>h_ptr := h_ptr (h p)\<rparr>), freep := prevp\<rparr>)
      else
        let h = h(p := (h p)\<lparr>h_size := h_size (h p) - nunits\<rparr>); p = hadd p (h_size (h p))
        in (p + 16, s\<lparr>hdrs := h(p := (h p)\<lparr>h_size := nunits\<rparr>), freep := prevp\<rparr>))"

partial_function (option) malloc_loop :: "u32 \<Rightarrow> u64 \<Rightarrow> u64 \<Rightarrow> 's um_st_scheme \<Rightarrow> (u64 ures \<times> 's um_st_scheme) option" where
  "malloc_loop nunits prevp p s =
     (if h_size (hdrs s p) \<ge> nunits
      then (case take_block nunits prevp p s of (ap, s) \<Rightarrow> Some (UVal ap, s))
      else if p = freep s then
        Option.bind (morecore nunits s) (\<lambda>(r, s). case r of
            UVal p \<Rightarrow> if p = 0 then Some (UVal 0, s) else malloc_loop nunits p (h_ptr (hdrs s p)) s
          | UWaits \<Rightarrow> Some (UWaits, s)
          | UExited \<Rightarrow> Some (UExited, s)
          | UFault \<Rightarrow> Some (UFault, s))
      else malloc_loop nunits p (h_ptr (hdrs s p)) s)"

definition malloc :: "u32 \<Rightarrow> 's um_st_scheme \<Rightarrow> (u64 ures \<times> 's um_st_scheme) option" where
  "malloc nbytes s =
     (let nunits = ucast ((ucast nbytes + 16 - 1 :: u64) div 16 + 1) :: u32;
          s = (if freep s = 0
               then s\<lparr>hdrs := (hdrs s)(um_base s := \<lparr>h_ptr = um_base s, h_size = 0\<rparr>), freep := um_base s\<rparr>
               else s)
      in malloc_loop nunits (freep s) (h_ptr (hdrs s (freep s))) s)"

section \<open>Circular lists of headers\<close>

fun links :: "(u64 \<Rightarrow> header) \<Rightarrow> u64 list \<Rightarrow> bool" where
  "links h (x # y # zs) \<longleftrightarrow> h_ptr (h x) = y \<and> links h (y # zs)"
| "links h _ = True"

lemma links_append: "xs \<noteq> [] \<Longrightarrow> ys \<noteq> [] \<Longrightarrow> links h (xs @ ys) \<longleftrightarrow> links h xs \<and> h_ptr (h (last xs)) = hd ys \<and> links h ys"
proof (induction xs)
  case (Cons x xs)
  then show ?case by (cases xs; cases ys) auto
qed simp

lemma links_cong: "(\<And>x. x \<in> set (butlast xs) \<Longrightarrow> h_ptr (h' x) = h_ptr (h x)) \<Longrightarrow> links h' xs \<longleftrightarrow> links h xs"
  by (induction h xs rule: links.induct) auto

lemma links_next:
  assumes "links h (xs @ [hd xs])" and "xs = as @ x # bs"
  shows "h_ptr (h x) = hd (bs @ [hd xs])"
  using assms links_append [of "as @ [x]" "bs @ [hd xs]" h] by simp

text \<open>In a list without repetitions the element before another one is unique.\<close>

lemma links_prev:
  assumes l: "links h (xs @ [hd xs])" "distinct xs" and p: "xs = as @ p # bs" "as \<noteq> []" and x: "x \<in> set xs" "h_ptr (h x) = p"
  shows "x = last as"
proof -
  obtain us vs where u: "xs = us @ x # vs" using x(1) by (meson split_list)
  have n: "hd (vs @ [hd xs]) = p" using links_next [OF l(1) u] x(2) by simp
  have "vs \<noteq> []" using n p l(2) by (cases as) auto
  then obtain ws where "vs = p # ws" using n by (cases vs) auto
  then have "as @ p # bs = (us @ [x]) @ p # ws" using u p(1) by simp
  moreover have "p \<notin> set as" "p \<notin> set bs" using l(2) p(1) by auto
  ultimately have "as = us @ [x]" using append_Cons_eq_iff [of p as bs "us @ [x]" ws] by blast
  then show ?thesis by simp
qed

section \<open>The free list\<close>

definition before :: "u64 \<times> u32 \<Rightarrow> u64 \<times> u32 \<Rightarrow> bool" where
  "before x y \<longleftrightarrow> unat (fst x) + 16 * unat (snd x) < unat (fst y)"

definition span :: "u64 \<times> u32 \<Rightarrow> nat set" where
  "span x = {unat (fst x) ..< unat (fst x) + 16 * unat (snd x)}"

definition area :: "(u64 \<times> u32) list \<Rightarrow> nat set" where
  "area fl = (\<Union>x \<in> set fl. span x)"

text \<open>The blocks \<open>fl\<close> are in the order of their addresses, with a gap between any two, and all below the limit.\<close>

definition flist :: "(u64 \<Rightarrow> header) \<Rightarrow> u64 \<Rightarrow> (u64 \<times> u32) list \<Rightarrow> bool" where
  "flist h base fl \<longleftrightarrow> base \<noteq> 0 \<and> h_size (h base) = 0 \<and> links h (base # map fst fl @ [base])
     \<and> sorted_wrt before ((base, 0) # fl) \<and> (\<forall>x \<in> set fl. h_size (h (fst x)) = snd x \<and> snd x \<noteq> 0 \<and> unat (fst x) + 16 * unat (snd x) < 2 ^ 36)"

definition uminv :: "'s um_st_scheme \<Rightarrow> (u64 \<times> u32) list \<Rightarrow> bool" where
  "uminv s fl \<longleftrightarrow> flist (hdrs s) (um_base s) fl \<and> freep s \<in> set (um_base s # map fst fl)"

lemma before_trans: "before x y \<Longrightarrow> before y z \<Longrightarrow> before x z"
  by (simp add: before_def)

lemma sorted_distinct: "sorted_wrt before fl \<Longrightarrow> distinct (map fst fl)"
  by (induction fl) (auto simp: before_def)

lemma area_simps [simp]: "area [] = {}" "area (x # xs) = span x \<union> area xs" "area (xs @ ys) = area xs \<union> area ys"
  by (auto simp: area_def)

lemma span_before: "before x y \<Longrightarrow> span x \<inter> span y = {}"
  by (auto simp: before_def span_def)

section \<open>The search of free\<close>

lemma find_low:
  assumes l: "links h (as @ bs @ [hd as])" and a: "\<And>x. x \<in> set as \<Longrightarrow> x < bp" and b: "\<And>x. x \<in> set bs \<Longrightarrow> bp < x"
    and base: "\<And>x. x \<in> set as \<Longrightarrow> hd as \<le> x"
  shows "as = us @ p # vs \<Longrightarrow> sorted_wrt (<) (p # vs) \<Longrightarrow> free_find h bp p = Some (last as)"
proof (induction vs arbitrary: us p)
  case Nil
  then have "h_ptr (h p) = hd (bs @ [hd as])" using l links_append [of as "bs @ [hd as]" h] by auto
  moreover have "p < bp" "hd as \<le> p" using a base Nil by auto
  ultimately show ?case using b Nil by (cases bs) (subst free_find.simps, simp)+
next
  case (Cons v vs)
  have "links h ((us @ [p]) @ (v # vs @ bs @ [hd as]))" using l Cons.prems(1) by simp
  then have "h_ptr (h p) = v" using links_append [of "us @ [p]" "v # vs @ bs @ [hd as]" h] by simp
  moreover have "p < v" "v < bp" using Cons.prems a by auto
  ultimately show ?case using Cons.IH [of "us @ [p]" v] Cons.prems by (subst free_find.simps) auto
qed

lemma sorted_hd: "sorted_wrt (<) xs \<Longrightarrow> (x :: u64) \<in> set xs \<Longrightarrow> hd xs \<le> x"
  by (cases xs) (auto simp: less_imp_le)

lemma find_high:
  assumes l: "links h (as @ bs @ [hd as])" and a: "\<And>x. x \<in> set as \<Longrightarrow> x < bp" and b: "\<And>x. x \<in> set bs \<Longrightarrow> bp < x"
    and s: "sorted_wrt (<) as" "as \<noteq> []"
  shows "bs = us @ p # vs \<Longrightarrow> sorted_wrt (<) (p # vs) \<Longrightarrow> free_find h bp p = Some (last as)"
proof (induction vs arbitrary: us p)
  case Nil
  then have "h_ptr (h p) = hd as" using l links_append [of "as @ us @ [p]" "[hd as]" h] by simp
  moreover have "bp < p" "hd as < bp" using a b Nil s by auto
  moreover have m: "hd as \<le> x" if "x \<in> set as" for x using sorted_hd s(1) that by blast
  have "free_find h bp (hd as) = Some (last as)" using find_low [OF l a b m, of "[]" "hd as" "tl as"] s by simp
  ultimately show ?case by (subst free_find.simps) (use \<open>free_find h bp (hd as) = Some (last as)\<close> in auto)
next
  case (Cons v vs)
  have "h_ptr (h p) = v" using l Cons.prems(1) links_append [of "as @ us @ [p]" "v # vs @ [hd as]" h] by simp
  moreover have "p < v" "bp < p" using Cons.prems b by auto
  ultimately show ?case using Cons.IH [of "us @ [p]" v] Cons.prems by (subst free_find.simps) auto
qed

text \<open>From any node of the list the search ends at the last node below the block.\<close>

lemma find_ends:
  assumes l: "links h (as @ bs @ [hd as])" and s: "sorted_wrt (<) (as @ bs)" "as \<noteq> []"
    and a: "\<And>x. x \<in> set as \<Longrightarrow> x < bp" and b: "\<And>x. x \<in> set bs \<Longrightarrow> bp < x" and p: "p \<in> set (as @ bs)"
  shows "free_find h bp p = Some (last as)"
proof (cases "p \<in> set as")
  case True
  then obtain us vs where u: "as = us @ p # vs" by (meson split_list)
  have m: "hd as \<le> x" if "x \<in> set as" for x using sorted_hd s(1) that unfolding sorted_wrt_append by blast
  show ?thesis using find_low [OF l a b m u] s(1) u by (simp add: sorted_wrt_append)
next
  case False
  then obtain us vs where u: "bs = us @ p # vs" using p by (auto dest: split_list)
  show ?thesis using find_high [OF l a b _ s(2) u] s(1) u by (simp add: sorted_wrt_append)
qed

section \<open>What free does to the list\<close>

definition join_right :: "u64 \<times> u32 \<Rightarrow> (u64 \<times> u32) list \<Rightarrow> (u64 \<times> u32) list" where
  "join_right x ys = (case ys of [] \<Rightarrow> [x] | y # zs \<Rightarrow> if hadd (fst x) (snd x) = fst y then (fst x, snd x + snd y) # zs else x # ys)"

lemma unat_up: "unat (ucast (n :: u32) :: u64) = unat n"
  using unsigned_less [of n, where ?'a = nat] by (simp add: unsigned_ucast_eq take_bit_nat_eq_self_iff)

lemma unat_hadd: "unat a + 16 * unat (n :: u32) < 2 ^ 36 \<Longrightarrow> unat (hadd a n) = unat a + 16 * unat n"
proof -
  assume b: "unat a + 16 * unat n < 2 ^ 36"
  have u: "unat (16 * ucast n :: u64) = 16 * unat n"
    using b by (subst unat_mult_lem [THEN iffD1]) (simp_all add: unat_up)
  show ?thesis unfolding hadd_def using b u by (subst unat_add_lem [THEN iffD1]) simp_all
qed

lemma unat_plus: "unat a + 16 * (unat (n :: u32) + unat m) < 2 ^ 36 \<Longrightarrow> unat (n + m) = unat n + unat m"
  by (subst unat_add_lem [THEN iffD1]) simp_all


lemma spans_apart:
  assumes "span x \<inter> span y = {}" and "snd x \<noteq> 0" and "snd y \<noteq> 0"
  shows "unat (fst x) + 16 * unat (snd x) \<le> unat (fst y) \<or> unat (fst y) + 16 * unat (snd y) \<le> unat (fst x)"
proof -
  have "0 < unat (snd x)" "0 < unat (snd y)" using assms(2,3) by (simp_all add: unat_gt_0)
  then have "unat (fst x) \<in> span x" "unat (fst y) \<in> span y" by (auto simp: span_def)
  then have "unat (fst x) \<notin> span y" "unat (fst y) \<notin> span x" using assms(1) by auto
  then show ?thesis by (auto simp: span_def)
qed

text \<open>A block apart from all free ones splits the list.\<close>

lemma split_at_block:
  assumes "sorted_wrt before fl" and "\<And>y. y \<in> set fl \<Longrightarrow> snd y \<noteq> 0" and "span x \<inter> area fl = {}" and "snd x \<noteq> 0"
  shows "\<exists>fa fb. fl = fa @ fb \<and> (\<forall>y \<in> set fa. unat (fst y) + 16 * unat (snd y) \<le> unat (fst x))
     \<and> (\<forall>y \<in> set fb. unat (fst x) + 16 * unat (snd x) \<le> unat (fst y))"
  using assms(1-3)
proof (induction fl)
  case (Cons y fl)
  show ?case
  proof (cases "unat (fst y) + 16 * unat (snd y) \<le> unat (fst x)")
    case True
    have "sorted_wrt before fl" "span x \<inter> area fl = {}" "y \<in> set fl \<Longrightarrow> snd y \<noteq> 0" for y using Cons.prems by auto
    then obtain fa fb where "fl = fa @ fb" "\<forall>y \<in> set fa. unat (fst y) + 16 * unat (snd y) \<le> unat (fst x)"
        "\<forall>y \<in> set fb. unat (fst x) + 16 * unat (snd x) \<le> unat (fst y)"
      using Cons.IH by blast
    then show ?thesis using True by (intro exI [of _ "y # fa"] exI [of _ fb]) auto
  next
    case False
    have "span x \<inter> span y = {}" "snd y \<noteq> 0" using Cons.prems by auto
    then have "unat (fst x) + 16 * unat (snd x) \<le> unat (fst y)" using spans_apart [of x y] False assms(4) by auto
    then show ?thesis using Cons.prems(1) by (intro exI [of _ "[]"] exI [of _ "y # fl"]) (force simp: before_def)
  qed
qed simp

definition right_of :: "(u64 \<Rightarrow> header) \<Rightarrow> u64 \<Rightarrow> u64 \<times> u32 \<Rightarrow> (u64 \<times> u32) list \<Rightarrow> bool" where
  "right_of h base x fb \<longleftrightarrow> snd x \<noteq> 0 \<and> unat (fst x) + 16 * unat (snd x) < 2 ^ 36 \<and> links h (map fst fb @ [base]) \<and> sorted_wrt before fb
     \<and> (\<forall>y \<in> set fb. h_size (h (fst y)) = snd y \<and> snd y \<noteq> 0 \<and> unat (fst y) + 16 * unat (snd y) < 2 ^ 36
          \<and> unat (fst x) + 16 * unat (snd x) \<le> unat (fst y))"

lemma unat_pos: "(n :: u32) \<noteq> 0 \<Longrightarrow> 0 < unat n"
  by (simp add: unat_gt_0)

lemma span_join: "unat (fst x) + 16 * (unat (snd x) + unat (snd y)) < 2 ^ 36 \<Longrightarrow> unat (fst x) + 16 * unat (snd x) = unat (fst y) \<Longrightarrow>
    span (fst x, snd x + snd y) = span x \<union> span y"
  using unat_plus [of "fst x" "snd x" "snd y"] by (auto simp: span_def)

lemma join_right_ok:
  assumes r: "right_of h base x fb" and b: "unat base < unat (fst x)" and hb: "h_size (h (fst x)) = snd x" and q: "q = hd (map fst fb @ [base])"
  shows "\<exists>n fb'. join_right x fb = (fst x, n) # fb' \<and> (fb' = fb \<or> (\<exists>y. fb = y # fb')) \<and> right_of h base (fst x, n) fb'
     \<and> sorted_wrt before ((fst x, n) # fb') \<and> snd x \<le> n \<and> span (fst x, n) \<union> area fb' = span x \<union> area fb
     \<and> (if hadd (fst x) (snd x) = q then \<lparr>h_ptr = h_ptr (h q), h_size = snd x + h_size (h q)\<rparr> else (h (fst x))\<lparr>h_ptr := q\<rparr>)
         = \<lparr>h_ptr = hd (map fst fb' @ [base]), h_size = n\<rparr>"
proof -
  have xb: "unat (fst x) + 16 * unat (snd x) < 2 ^ 36" "snd x \<noteq> 0" using r by (auto simp: right_of_def)
  have u: "unat (hadd (fst x) (snd x)) = unat (fst x) + 16 * unat (snd x)" using unat_hadd [OF xb(1)] .
  show ?thesis
  proof (cases fb)
    case Nil
    then have "hadd (fst x) (snd x) \<noteq> q" using u q b by auto
    then show ?thesis using Nil r q hb by (intro exI [of _ "snd x"] exI [of _ fb]) (auto simp: join_right_def)
  next
    case (Cons y zs)
    have y: "h_size (h (fst y)) = snd y" "unat (fst y) + 16 * unat (snd y) < 2 ^ 36" "unat (fst x) + 16 * unat (snd x) \<le> unat (fst y)"
        "q = fst y" "sorted_wrt before (y # zs)" using r Cons q by (auto simp: right_of_def)
    show ?thesis
    proof (cases "hadd (fst x) (snd x) = fst y")
      case True
      then have e: "unat (fst x) + 16 * unat (snd x) = unat (fst y)" using u by simp
      have bd: "unat (fst x) + 16 * (unat (snd x) + unat (snd y)) < 2 ^ 36" using e y(2) by simp
      have n: "unat (snd x + snd y) = unat (snd x) + unat (snd y)" using unat_plus [OF bd] .
      have nz: "snd x + snd y \<noteq> 0" using n unat_pos [OF xb(2)] by (metis add_gr_0 unat_0 less_irrefl)
      have le: "snd x \<le> snd x + snd y" using n by (simp add: word_le_nat_alt)
      have nx: "h_ptr (h (fst y)) = hd (map fst zs @ [base])" "links h (map fst zs @ [base])"
        using r Cons links_append [of "[fst y]" "map fst zs @ [base]" h] by (auto simp: right_of_def)
      show ?thesis using Cons True y e n nz le nx bd r span_join [OF bd e]
        by (intro exI [of _ "snd x + snd y"] exI [of _ zs]) (auto simp: join_right_def right_of_def before_def)
    next
      case False
      then have "unat (fst x) + 16 * unat (snd x) < unat (fst y)" using u y(3) by (metis le_neq_implies_less word_unat_eq_iff)
      then have "sorted_wrt before (x # y # zs)" using y(5) by (auto simp: before_def)
      then show ?thesis using Cons False y r hb by (intro exI [of _ "snd x"] exI [of _ fb]) (auto simp: join_right_def)
    qed
  qed
qed


lemma free_at_eq:
  assumes "p \<noteq> bp" and "h_ptr (h p) = q"
    and "(if hadd bp (h_size (h bp)) = q then \<lparr>h_ptr = h_ptr (h q), h_size = h_size (h bp) + h_size (h q)\<rparr> else (h bp)\<lparr>h_ptr := q\<rparr>)
         = \<lparr>h_ptr = t, h_size = n\<rparr>"
  shows "free_at h bp p = h(bp := \<lparr>h_ptr = t, h_size = n\<rparr>,
     p := (if hadd p (h_size (h p)) = bp then \<lparr>h_ptr = t, h_size = h_size (h p) + n\<rparr> else (h p)\<lparr>h_ptr := bp\<rparr>))"
proof -
  have "free_at h bp p = (let g = h(bp := (if hadd bp (h_size (h bp)) = q then \<lparr>h_ptr = h_ptr (h q), h_size = h_size (h bp) + h_size (h q)\<rparr>
      else (h bp)\<lparr>h_ptr := q\<rparr>)) in if hadd p (h_size (g p)) = bp
      then g(p := \<lparr>h_ptr = h_ptr (g bp), h_size = h_size (g p) + h_size (g bp)\<rparr>) else g(p := (g p)\<lparr>h_ptr := bp\<rparr>))"
    unfolding free_at_def assms(2) by (simp add: Let_def)
  then show ?thesis unfolding assms(3) using assms(1) by (simp add: Let_def)
qed

text \<open>The list as \<open>free\<close> finds it: the blocks below the one to free, and the ones above it.\<close>

definition left_of :: "(u64 \<Rightarrow> header) \<Rightarrow> u64 \<Rightarrow> (u64 \<times> u32) list \<Rightarrow> u64 \<times> u32 \<Rightarrow> bool" where
  "left_of h base fa x \<longleftrightarrow> base \<noteq> 0 \<and> h_size (h base) = 0 \<and> unat base < unat (fst x) \<and> links h (base # map fst fa) \<and> sorted_wrt before ((base, 0) # fa)
     \<and> (\<forall>y \<in> set fa. h_size (h (fst y)) = snd y \<and> snd y \<noteq> 0 \<and> unat (fst y) + 16 * unat (snd y) \<le> unat (fst x))"

lemma sorted_before_append:
  assumes "sorted_wrt before (fa @ [x])" and "sorted_wrt before (x # fb)"
  shows "sorted_wrt before (fa @ x # fb)"
proof -
  have "before y z" if "y \<in> set fa" "z \<in> set (x # fb)" for y z
    using assms that before_trans [of y x z] by (auto simp: sorted_wrt_append)
  then show ?thesis using assms unfolding sorted_wrt_append by blast
qed

text \<open>The block is entered between the two.\<close>

lemma enter_flist:
  assumes l: "left_of h base fa x" and r: "right_of h base x fb" and s: "sorted_wrt before (fa @ [x])" "sorted_wrt before (x # fb)"
    and p: "p = last (base # map fst fa)"
  shows "flist (h(fst x := \<lparr>h_ptr = hd (map fst fb @ [base]), h_size = snd x\<rparr>, p := (h p)\<lparr>h_ptr := fst x\<rparr>)) base (fa @ x # fb)"
    (is "flist ?h base _")
proof -
  have so: "sorted_wrt before ((base, 0) # fa @ x # fb)"
  proof -
    have "before (base, 0) x" "\<And>y. y \<in> set fa \<Longrightarrow> before (base, 0) y" using l by (auto simp: left_of_def before_def)
    then have "sorted_wrt before (((base, 0) # fa) @ [x])" using s(1) by simp
    from sorted_before_append [OF this s(2)] show ?thesis by simp
  qed
  have d: "distinct (base # map fst fa @ fst x # map fst fb)" using sorted_distinct [OF so] by simp
  have pm: "p \<in> set (base # map fst fa)" using p by (metis last_in_set list.distinct(2))
  have px: "p \<noteq> fst x" "p \<notin> set (map fst fb)" using d pm by auto
  have "links ?h (base # map fst fa) = links h (base # map fst fa)"
  proof (rule links_cong)
    fix y assume y: "y \<in> set (butlast (base # map fst fa))"
    have "distinct (butlast (base # map fst fa) @ [p])" using d p by (metis append_Cons append_butlast_last_id distinct_append list.distinct(2))
    then have "y \<noteq> p" using y by auto
    moreover have "fst x \<notin> set (base # map fst fa)" using d by auto
    then have "y \<noteq> fst x" using in_set_butlastD [OF y] by blast
    ultimately show "h_ptr (?h y) = h_ptr (h y)" by simp
  qed
  moreover have "links ?h (map fst fb @ [base]) = links h (map fst fb @ [base])"
    by (rule links_cong) (use d px in \<open>auto simp: butlast_append simp del: set_map\<close>)
  ultimately have "links ?h ((base # map fst fa) @ [fst x] @ map fst fb @ [base])"
    using l r p px by (subst links_append, simp, simp, subst links_append) (auto simp: left_of_def right_of_def)
  moreover have "h_size (?h base) = 0" using d l by (auto simp: left_of_def)
  moreover have "h_size (?h (fst z)) = snd z" if "z \<in> set (fa @ x # fb)" for z
  proof (cases "z = x")
    case False
    then have "z \<in> set fa \<or> z \<in> set fb" using that by auto
    moreover from this have "fst z \<in> fst ` set fa \<or> fst z \<in> fst ` set fb" by blast
    moreover have "fst x \<notin> fst ` set fa" "fst x \<notin> fst ` set fb" using d by auto
    ultimately have "fst z \<noteq> fst x" "h_size (h (fst z)) = snd z" using l r unfolding left_of_def right_of_def by (metis, blast)
    then show ?thesis by auto
  qed (use px in simp)
  moreover have "snd z \<noteq> 0 \<and> unat (fst z) + 16 * unat (snd z) < 2 ^ 36" if "z \<in> set (fa @ x # fb)" for z
    using l r that unfolding left_of_def right_of_def by fastforce
  ultimately show ?thesis using so l unfolding flist_def left_of_def by simp
qed


lemma flist_upd: "a \<notin> set (base # map fst fl) \<Longrightarrow> flist (h(a := v)) base fl \<longleftrightarrow> flist h base fl"
proof -
  assume a: "a \<notin> set (base # map fst fl)"
  then have "links (h(a := v)) (base # map fst fl @ [base]) = links h (base # map fst fl @ [base])"
    by (intro links_cong) (auto simp: butlast_append simp del: set_map)
  moreover have "h_size ((h(a := v)) (fst x)) = h_size (h (fst x))" if "x \<in> set fl" for x using a that by auto
  moreover have "h_size ((h(a := v)) base) = h_size (h base)" using a by auto
  ultimately show ?thesis unfolding flist_def by metis
qed

text \<open>The block is joined to the one before it.\<close>

lemma widen_flist:
  assumes l: "left_of h base (fc @ [(p, k)]) x" and r: "right_of h base x fb" and s: "sorted_wrt before (x # fb)"
    and e: "unat p + 16 * unat k = unat (fst x)"
  shows "flist (h(fst x := v, p := \<lparr>h_ptr = hd (map fst fb @ [base]), h_size = k + snd x\<rparr>)) base (fc @ (p, k + snd x) # fb)"
    and "unat (k + snd x) = unat k + unat (snd x)" and "span (p, k + snd x) = span (p, k) \<union> span x"
proof -
  have kz: "k \<noteq> 0" using l by (simp add: left_of_def)
  have bd: "unat p + 16 * (unat k + unat (snd x)) < 2 ^ 36" using r e by (simp add: right_of_def)
  show n: "unat (k + snd x) = unat k + unat (snd x)" using unat_plus [OF bd] .
  show "span (p, k + snd x) = span (p, k) \<union> span x" using span_join [of "(p, k)" x] bd e by simp
  let ?y = "(p, k + snd x)" and ?q = "last (base # map fst fc)"
  have nz: "k + snd x \<noteq> 0" using n unat_pos [OF kz] by (metis add_gr_0 unat_0 less_irrefl)
  have so: "sorted_wrt before ((base, 0) # fc @ [(p, k)])" using l by (simp add: left_of_def)
  have p: "links h (base # map fst fc)" "h_ptr (h ?q) = p"
    using l links_append [of "base # map fst fc" "[p]" h] by (simp_all add: left_of_def)
  have L: "left_of h base fc ?y" using l so p unfolding left_of_def by (auto simp: sorted_wrt_append before_def)
  have R: "right_of h base ?y fb" using r n nz e by (auto simp: right_of_def)
  have "sorted_wrt before (fc @ [?y])" using so by (auto simp: sorted_wrt_append before_def)
  moreover have S: "sorted_wrt before (?y # fb)" using s n e by (auto simp: before_def)
  ultimately have f: "flist (h(fst ?y := \<lparr>h_ptr = hd (map fst fb @ [base]), h_size = snd ?y\<rparr>, ?q := (h ?q)\<lparr>h_ptr := fst ?y\<rparr>)) base (fc @ ?y # fb)"
    using enter_flist [OF L R] by blast
  have qp: "?q \<noteq> p" using sorted_distinct [OF so] by (cases fc rule: rev_cases) auto
  have "h(p := w, ?q := (h ?q)\<lparr>h_ptr := p\<rparr>) = h(p := w)" for w using p(2) qp by (auto simp: fun_eq_iff)
  then have g: "flist (h(p := \<lparr>h_ptr = hd (map fst fb @ [base]), h_size = k + snd x\<rparr>)) base (fc @ ?y # fb)" using f by simp
  have "fst x \<noteq> p" using e unat_pos [OF kz] by auto
  moreover have "fst x \<noteq> base" using l by (auto simp: left_of_def)
  moreover have "fst x \<notin> fst ` set fc" using l unat_pos by (fastforce simp: left_of_def)
  moreover have "fst x \<notin> fst ` set fb" using s by (auto simp: before_def)
  ultimately have "fst x \<notin> set (base # map fst (fc @ ?y # fb))" by simp
  from flist_upd [OF this] show "flist (h(fst x := v, p := \<lparr>h_ptr = hd (map fst fb @ [base]), h_size = k + snd x\<rparr>)) base (fc @ ?y # fb)"
    using g fun_upd_twist [OF \<open>fst x \<noteq> p\<close>] by metis
qed

text \<open>\<open>free\<close> keeps the list, and adds the block to the free ones.\<close>

definition unused :: "u64 \<Rightarrow> (u64 \<times> u32) list \<Rightarrow> u64 \<times> u32 \<Rightarrow> bool" where
  "unused base fl x \<longleftrightarrow> unat base < unat (fst x) \<and> unat (fst x) + 16 * unat (snd x) < 2 ^ 36 \<and> snd x \<noteq> 0 \<and> span x \<inter> area fl = {}"

lemma free_at_ok:
  assumes f: "flist h base (fa @ fb)" and x: "unused base (fa @ fb) x" "h_size (h (fst x)) = snd x"
    and a: "\<forall>y \<in> set fa. unat (fst y) + 16 * unat (snd y) \<le> unat (fst x)" and b: "\<forall>y \<in> set fb. unat (fst x) + 16 * unat (snd x) \<le> unat (fst y)"
    and p: "p = last (base # map fst fa)"
  shows "\<exists>fl. flist (free_at h (fst x) p) base fl \<and> area fl = area (fa @ fb) \<union> span x \<and> p \<in> set (base # map fst fl) \<and> (\<exists>y \<in> set fl. snd x \<le> snd y)"
proof -
  let ?q = "hd (map fst fb @ [base])"
  have l: "links h (base # map fst fa)" "h_ptr (h p) = ?q" "links h (map fst fb @ [base])"
    using f p links_append [of "base # map fst fa" "map fst fb @ [base]" h] by (simp_all add: flist_def)
  have L: "left_of h base fa x" using f l a x by (auto simp: left_of_def flist_def unused_def sorted_wrt_append)
  then have "unat base < unat (fst x)" by (simp add: left_of_def)
  moreover have "right_of h base x fb" using f l b x by (auto simp: right_of_def flist_def unused_def sorted_wrt_append)
  ultimately obtain n fb' where n: "right_of h base (fst x, n) fb'" "sorted_wrt before ((fst x, n) # fb')" "snd x \<le> n"
      "span (fst x, n) \<union> area fb' = span x \<union> area fb"
      "(if hadd (fst x) (h_size (h (fst x))) = ?q then \<lparr>h_ptr = h_ptr (h ?q), h_size = h_size (h (fst x)) + h_size (h ?q)\<rparr> else (h (fst x))\<lparr>h_ptr := ?q\<rparr>)
         = \<lparr>h_ptr = hd (map fst fb' @ [base]), h_size = n\<rparr>"
    using join_right_ok [where h = h and x = x and base = base and fb = fb, OF _ _ x(2) refl] unfolding x(2) by blast
  have L': "left_of h base fa (fst x, n)" using L by (simp add: left_of_def)
  have pl: "p = base \<and> fa = [] \<or> (\<exists>fc k. fa = fc @ [(p, k)])" using p by (cases fa rule: rev_cases) auto
  have pq: "unat p < unat (fst x)" using pl L unat_pos by (fastforce simp: left_of_def)
  then have "p \<noteq> fst x" by auto
  then have e: "free_at h (fst x) p = h(fst x := \<lparr>h_ptr = hd (map fst fb' @ [base]), h_size = n\<rparr>,
     p := (if hadd p (h_size (h p)) = fst x then \<lparr>h_ptr = hd (map fst fb' @ [base]), h_size = h_size (h p) + n\<rparr> else (h p)\<lparr>h_ptr := fst x\<rparr>))"
    by (rule free_at_eq [OF _ l(2) n(5)])
  show ?thesis
  proof (cases "hadd p (h_size (h p)) = fst x")
    case True
    have "p \<noteq> base" using True L by (auto simp: left_of_def hadd_def)
    then obtain fc k where fc: "fa = fc @ [(p, k)]" using pl by auto
    have k: "h_size (h p) = k" "unat p + 16 * unat k \<le> unat (fst x)" using L fc by (auto simp: left_of_def)
    then have "unat p + 16 * unat k < 2 ^ 36" using n(1) by (simp add: right_of_def)
    then have u: "unat p + 16 * unat k = unat (fst x)" using unat_hadd [of p k] True k by simp
    have w: "unat (k + n) = unat k + unat n" "span (p, k + n) = span (p, k) \<union> span (fst x, n)"
        "flist (free_at h (fst x) p) base (fc @ (p, k + n) # fb')"
      using widen_flist [OF _ n(1,2)] L' u fc e True k by simp_all
    moreover have "snd x \<le> k + n" using n(3) w(1) by (simp add: word_le_nat_alt)
    ultimately show ?thesis using n(4) fc by (intro exI [of _ "fc @ (p, k + n) # fb'"]) auto
  next
    case False
    have "before y (fst x, n)" if y: "y \<in> set fa" for y
    proof (cases "fst y = p")
      case True
      then have "snd y = h_size (h p)" "unat p + 16 * unat (snd y) \<le> unat (fst x)" using L y by (auto simp: left_of_def)
      moreover from this have "unat (hadd p (snd y)) = unat p + 16 * unat (snd y)" using n(1) by (intro unat_hadd) (simp add: right_of_def)
      ultimately show ?thesis using False True by (metis before_def fst_conv le_neq_implies_less word_unat_eq_iff)
    next
      case False
      then obtain fc k where fc: "fa = fc @ [(p, k)]" "y \<in> set fc" using pl y by auto
      then have "before y (p, k)" using L by (auto simp: left_of_def sorted_wrt_append)
      then show ?thesis using pq by (simp add: before_def)
    qed
    then have "sorted_wrt before (fa @ [(fst x, n)])" using L by (simp add: left_of_def sorted_wrt_append)
    then have "flist (free_at h (fst x) p) base (fa @ (fst x, n) # fb')" using enter_flist [OF L' n(1) _ n(2) p] e False by simp
    moreover have "p \<in> set (base # map fst fa)" using pl by auto
    ultimately show ?thesis using n(3,4) by (intro exI [of _ "fa @ (fst x, n) # fb'"]) auto
  qed
qed


lemma flist_nodes:
  assumes "flist h base fl"
  shows "sorted_wrt (<) (base # map fst fl)" and "distinct (base # map fst fl)" and "base \<noteq> 0" and "\<And>x. x \<in> set fl \<Longrightarrow> snd x \<noteq> 0"
    and "sorted_wrt before fl" and "links h ((base # map fst fl) @ [hd (base # map fst fl)])"
proof -
  have s: "sorted_wrt before ((base, 0) # fl)" using assms by (simp add: flist_def)
  have "sorted_wrt (<) (map fst ((base, 0) # fl))"
    unfolding sorted_wrt_map using s by (rule sorted_wrt_mono_rel [rotated]) (auto simp: before_def word_less_nat_alt)
  then show "sorted_wrt (<) (base # map fst fl)" by simp
  show "distinct (base # map fst fl)" using sorted_distinct [OF s] by simp
qed (use assms in \<open>auto simp: flist_def\<close>)

lemma free_ok:
  assumes i: "uminv s fl" and x: "unused (um_base s) fl x" "h_size (hdrs s (fst x)) = snd x"
  shows "\<exists>p h fl'. free (fst x + 16) s = Some (s\<lparr>hdrs := h, freep := p\<rparr>) \<and> uminv (s\<lparr>hdrs := h, freep := p\<rparr>) fl'
     \<and> area fl' = area fl \<union> span x \<and> (\<exists>y \<in> set fl'. snd x \<le> snd y)"
proof -
  let ?base = "um_base s"
  have f: "flist (hdrs s) ?base fl" "freep s \<in> set (?base # map fst fl)" using i by (simp_all add: uminv_def)
  note nd = flist_nodes [OF f(1)]
  have xs: "span x \<inter> area fl = {}" "snd x \<noteq> 0" "unat ?base < unat (fst x)" using x by (auto simp: unused_def)
  obtain fa fb where ab: "fl = fa @ fb" "\<forall>y \<in> set fa. unat (fst y) + 16 * unat (snd y) \<le> unat (fst x)"
      "\<forall>y \<in> set fb. unat (fst x) + 16 * unat (snd x) \<le> unat (fst y)"
    using split_at_block [OF nd(5,4) xs(1,2)] by blast
  let ?A = "?base # map fst fa" and ?B = "map fst fb"
  have a: "y < fst x" if "y \<in> set ?A" for y
    using that ab nd(4) unat_pos xs(3) by (fastforce simp: word_less_nat_alt)
  have b: "fst x < y" if "y \<in> set ?B" for y using that ab unat_pos [OF xs(2)] by (fastforce simp: word_less_nat_alt)
  have "free_find (hdrs s) (fst x) (freep s) = Some (last ?A)"
    by (rule find_ends [where bs = ?B]) (use nd(1,6) ab(1) f(2) a b in auto)
  moreover obtain fl' where "flist (free_at (hdrs s) (fst x) (last ?A)) ?base fl'" "area fl' = area fl \<union> span x"
      "last ?A \<in> set (?base # map fst fl')" "\<exists>y \<in> set fl'. snd x \<le> snd y"
    using free_at_ok [where h = "hdrs s" and x = x and base = ?base and fa = fa and fb = fb, OF _ _ x(2) ab(2,3) refl] f(1) x(1) ab(1) by blast
  ultimately show ?thesis
    by (intro exI [of _ "last ?A"] exI [of _ "free_at (hdrs s) (fst x) (last ?A)"] exI [of _ fl']) (simp add: free_def uminv_def)
qed

section \<open>What malloc takes\<close>

lemma flist_drop:
  assumes f: "flist h base (fa @ (p, n) # fb)" and q: "q = last (base # map fst fa)"
  shows "flist (h(q := (h q)\<lparr>h_ptr := h_ptr (h p)\<rparr>)) base (fa @ fb)" (is "flist ?h base _")
proof -
  let ?A = "base # map fst fa" and ?B = "map fst fb @ [base]"
  have l: "links h ?A" "h_ptr (h p) = hd ?B" "links h ?B"
    using f links_append [of "?A" "p # ?B" h] links_append [of "[p]" "?B" h] by (simp_all add: flist_def)
  have d: "distinct (?A @ map fst fb)" using flist_nodes(2) [OF f] by simp
  have dq: "distinct (butlast ?A @ [q])" using d q by (metis append_butlast_last_id distinct_append list.distinct(2))
  have qA: "q \<in> set ?A" using q by (metis last_in_set list.distinct(2))
  have "links ?h ?A" using l(1) dq by (subst links_cong [where h = h]) auto
  moreover have "q \<notin> set (map fst fb)" using d qA by auto
  then have "links ?h ?B" using l(3) by (subst links_cong [where h = h]) (auto simp: butlast_append simp del: set_map)
  ultimately have "links ?h (?A @ ?B)" using l(2) q by (subst links_append) simp_all
  moreover have "h_size (?h y) = h_size (h y)" for y by simp
  ultimately show ?thesis using f by (auto simp: flist_def sorted_wrt_append)
qed

lemma flist_shrink:
  assumes f: "flist h base (fa @ (p, n) # fb)" and m: "m \<noteq> 0" "m \<le> n"
  shows "flist (h(p := (h p)\<lparr>h_size := m\<rparr>)) base (fa @ (p, m) # fb)" (is "flist ?h base _")
proof -
  have "h_ptr (?h y) = h_ptr (h y)" for y by simp
  then have "links ?h (base # map fst (fa @ (p, n) # fb) @ [base])" using f by (subst links_cong [where h = h]) (simp_all add: flist_def)
  moreover have "h_size (?h (fst z)) = h_size (h (fst z))" if "z \<in> set (fa @ fb)" for z
    using that flist_nodes(2) [OF f] by auto
  moreover have "p \<noteq> base" using flist_nodes(2) [OF f] by auto
  moreover have "unat m \<le> unat n" using m by (simp add: word_le_nat_alt)
  ultimately show ?thesis using f m(1) by (auto simp: flist_def sorted_wrt_append before_def)
qed

lemma area_rest:
  assumes "sorted_wrt before (fa @ x # fb)"
  shows "area (fa @ fb) \<inter> span x = {}"
proof -
  have "span x \<inter> span y = {}" if "y \<in> set (fa @ fb)" for y
    using assms that span_before [of x y] span_before [of y x] by (auto simp: sorted_wrt_append)
  then show ?thesis unfolding area_def by blast
qed

lemma span_split:
  assumes "unat (snd x) + unat nu = unat n" and "unat b = unat (fst x) + 16 * unat (snd x)"
  shows "span (fst x, n) = span x \<union> span (b, nu)" and "span x \<inter> span (b, nu) = {}"
  using assms unfolding span_def by auto

lemma take_ok:
  assumes i: "uminv s fl" and p: "p \<in> set (um_base s # map fst fl)" "h_size (hdrs s p) \<ge> nu" "nu \<noteq> 0"
    and q: "q \<in> set (um_base s # map fst fl)" "h_ptr (hdrs s q) = p"
  shows "\<exists>b h fl'. take_block nu q p s = (b + 16, s\<lparr>hdrs := h, freep := q\<rparr>) \<and> uminv (s\<lparr>hdrs := h, freep := q\<rparr>) fl'
     \<and> b \<noteq> 0 \<and> h_size (h b) = nu \<and> span (b, nu) \<subseteq> area fl \<and> area fl' = area fl - span (b, nu)
     \<and> unat (um_base s) < unat b \<and> unat b + 16 * unat nu < 2 ^ 36"
proof -
  let ?h = "hdrs s" and ?base = "um_base s"
  have f: "flist ?h ?base fl" using i by (simp add: uminv_def)
  note nd = flist_nodes [OF f]
  have "p \<noteq> ?base" using p(2,3) f by (auto simp: flist_def)
  then obtain fa n fb where fl: "fl = fa @ (p, n) # fb" using p(1) by (fastforce dest: split_list)
  have n: "h_size (?h p) = n" "unat p + 16 * unat n < 2 ^ 36" "unat ?base < unat p" using f fl by (auto simp: flist_def sorted_wrt_append before_def)
  have qa: "q = last (?base # map fst fa)"
    by (rule links_prev [OF nd(6,2) _ _ q]) (use fl in simp_all)
  have dj: "area (fa @ fb) \<inter> span (p, n) = {}" using area_rest nd(5) fl by blast
  have pz: "p \<noteq> 0" using n(3) by auto
  show ?thesis
  proof (cases "n = nu")
    case True
    have "q \<in> set (?base # map fst (fa @ fb))" using qa by (metis UnI1 last_in_set list.distinct(2) append_Cons map_append set_append)
    then have "uminv (s\<lparr>hdrs := ?h(q := (?h q)\<lparr>h_ptr := h_ptr (?h p)\<rparr>), freep := q\<rparr>) (fa @ fb)"
      using flist_drop [OF _ qa] f fl by (auto simp: uminv_def)
    then show ?thesis using True fl n dj pz by (intro exI [of _ p] exI [of _ "?h(q := (?h q)\<lparr>h_ptr := h_ptr (?h p)\<rparr>)"] exI [of _ "fa @ fb"]) (auto simp: take_block_def Let_def)
  next
    case False
    let ?m = "n - nu" let ?b = "hadd p ?m" let ?g = "?h(p := (?h p)\<lparr>h_size := ?m\<rparr>)"
    have m: "unat ?m + unat nu = unat n" "?m \<noteq> 0" "?m \<le> n" using p(2) n(1) False by (auto simp: unat_sub word_le_nat_alt)
    have b: "unat ?b = unat p + 16 * unat ?m" using n(2) m(1) by (intro unat_hadd) simp
    have g: "flist ?g ?base (fa @ (p, ?m) # fb)" using flist_shrink [OF _ m(2,3)] f fl by simp
    have "unat ?b \<in> span (p, n)" using b m(1) unat_pos [OF p(3)] by (auto simp: span_def)
    then have nb: "unat ?b \<notin> area (fa @ fb)" using dj by blast
    have "fst y \<noteq> ?b" if "y \<in> set (fa @ fb)" for y
    proof -
      have "0 < unat (snd y)" using nd(4) [of y] fl that by (intro unat_pos) auto
      then have "unat (fst y) \<in> span y" by (simp add: span_def)
      then have "unat (fst y) \<in> area (fa @ fb)" using that unfolding area_def by blast
      then show ?thesis using nb by auto
    qed
    then have "?b \<notin> fst ` set (fa @ fb)" by (metis (no_types) imageE)
    moreover have "?b \<noteq> ?base" using b n(3) by (metis not_add_less1)
    moreover have "?b \<noteq> p" using b unat_pos [OF m(2)] by (metis add_cancel_left_right less_irrefl mult_is_0 zero_neq_numeral)
    ultimately have bn: "?b \<notin> set (?base # map fst (fa @ (p, ?m) # fb))" unfolding list.set_map set_append by (simp add: image_Un)
    have "q \<in> set (?base # map fst (fa @ (p, ?m) # fb))" using q(1) fl by auto
    then have "uminv (s\<lparr>hdrs := ?g(?b := (?g ?b)\<lparr>h_size := nu\<rparr>), freep := q\<rparr>) (fa @ (p, ?m) # fb)"
      using flist_upd [OF bn] g by (simp add: uminv_def)
    moreover note span_split [of "(p, ?m)" nu n ?b]
    ultimately show ?thesis using False fl n dj m b
      by (intro exI [of _ ?b] exI [of _ "?g(?b := (?g ?b)\<lparr>h_size := nu\<rparr>)"] exI [of _ "fa @ (p, ?m) # fb"]) (auto simp: take_block_def Let_def)
  qed
qed


text \<open>The walk along the list from the node after \<open>freep\<close>: it finds a block, or comes back to \<open>freep\<close> and asks for more.\<close>

definition malloc_more :: "u32 \<Rightarrow> 's um_st_scheme \<Rightarrow> (u64 ures \<times> 's um_st_scheme) option" where
  "malloc_more nu s = Option.bind (morecore nu s) (\<lambda>(r, s). case r of
      UVal p \<Rightarrow> if p = 0 then Some (UVal 0, s) else malloc_loop nu p (h_ptr (hdrs s p)) s
    | UWaits \<Rightarrow> Some (UWaits, s)
    | UExited \<Rightarrow> Some (UExited, s)
    | UFault \<Rightarrow> Some (UFault, s))"

lemma walk:
  assumes "links (hdrs s) (q # vs)" and "vs \<noteq> []" and "last vs = freep s" and "freep s \<notin> set (butlast vs)"
  shows "(\<exists>r p. r \<in> set (q # vs) \<and> p \<in> set vs \<and> h_ptr (hdrs s r) = p \<and> nu \<le> h_size (hdrs s p)
        \<and> malloc_loop nu q (hd vs) s = (case take_block nu r p s of (ap, s) \<Rightarrow> Some (UVal ap, s)))
     \<or> (\<forall>p \<in> set vs. \<not> nu \<le> h_size (hdrs s p)) \<and> malloc_loop nu q (hd vs) s = malloc_more nu s"
  using assms
proof (induction vs arbitrary: q)
  case (Cons v vs)
  have qv: "h_ptr (hdrs s q) = v" using Cons.prems(1) by simp
  show ?case
  proof (cases "nu \<le> h_size (hdrs s v)")
    case True
    then have "malloc_loop nu q v s = (case take_block nu q v s of (ap, s) \<Rightarrow> Some (UVal ap, s))" by (subst malloc_loop.simps) simp
    then show ?thesis using True qv by (intro disjI1 exI [of _ q] exI [of _ v]) auto
  next
    case False
    show ?thesis
    proof (cases vs)
      case Nil
      then show ?thesis using False Cons.prems(3) by (intro disjI2) (subst malloc_loop.simps, auto simp: malloc_more_def)
    next
      case (Cons w ws)
      then have "malloc_loop nu q v s = malloc_loop nu v (hd vs) s"
        using False Cons.prems by (subst malloc_loop.simps) auto
      moreover have "links (hdrs s) (v # vs)" "vs \<noteq> []" "last vs = freep s" "freep s \<notin> set (butlast vs)" using Cons Cons.prems by auto
      ultimately show ?thesis using Cons.IH [of v] False unfolding list.sel by (metis list.set_intros(2) set_ConsD)
    qed
  qed
qed simp

lemma links_rotate:
  assumes "links h ((xs @ y # ys) @ [hd (xs @ y # ys)])"
  shows "links h (y # ys @ xs @ [y])"
proof (cases xs)
  case (Cons x zs)
  then have "links h ((xs @ [y]) @ (ys @ [x]))" "links h ((xs @ y # ys) @ [x])" using assms by simp_all
  then have "links h (xs @ [y])" "links h (y # ys)" "h_ptr (h (last (y # ys))) = x"
    using links_append [of "xs @ y # ys" "[x]" h] links_append [of "xs" "y # ys" h] links_append [of "xs @ [y]" "ys @ [x]" h] Cons by simp_all
  then have "links h ((y # ys) @ (xs @ [y]))" using Cons by (subst links_append) simp_all
  then show ?thesis by simp
qed (use assms in simp)

lemma walk_all:
  assumes i: "uminv s fl" and n: "nu \<noteq> 0"
  shows "(\<exists>r p. r \<in> set (um_base s # map fst fl) \<and> p \<in> set (um_base s # map fst fl) \<and> h_ptr (hdrs s r) = p \<and> nu \<le> h_size (hdrs s p)
        \<and> malloc_loop nu (freep s) (h_ptr (hdrs s (freep s))) s = (case take_block nu r p s of (ap, s) \<Rightarrow> Some (UVal ap, s)))
     \<or> (\<forall>y \<in> set fl. \<not> nu \<le> snd y) \<and> malloc_loop nu (freep s) (h_ptr (hdrs s (freep s))) s = malloc_more nu s"
proof -
  have f: "flist (hdrs s) (um_base s) fl" using i by (simp add: uminv_def)
  note nd = flist_nodes [OF f]
  obtain xs ys where x: "um_base s # map fst fl = xs @ freep s # ys" using i unfolding uminv_def by (meson split_list)
  let ?vs = "ys @ xs @ [freep s]"
  have l: "links (hdrs s) (freep s # ?vs)" using links_rotate nd(6) x by metis
  have d: "distinct (xs @ freep s # ys)" using nd(2) x by simp
  have hv: "h_ptr (hdrs s (freep s)) = hd ?vs" using l by (cases ?vs) auto
  have st: "set (freep s # ?vs) = set (um_base s # map fst fl)" "set ?vs = set (um_base s # map fst fl)" unfolding x by auto
  have "freep s \<notin> set (butlast ?vs)" using d by (simp add: butlast_append)
  from walk [OF l _ _ this] have w: "(\<exists>r p. r \<in> set (freep s # ?vs) \<and> p \<in> set ?vs \<and> h_ptr (hdrs s r) = p \<and> nu \<le> h_size (hdrs s p)
        \<and> malloc_loop nu (freep s) (hd ?vs) s = (case take_block nu r p s of (ap, s) \<Rightarrow> Some (UVal ap, s)))
     \<or> (\<forall>p \<in> set ?vs. \<not> nu \<le> h_size (hdrs s p)) \<and> malloc_loop nu (freep s) (hd ?vs) s = malloc_more nu s" by simp
  have "h_size (hdrs s (fst y)) = snd y" if "y \<in> set fl" for y using f that by (simp add: flist_def)
  then show ?thesis using w unfolding st hv [symmetric] by (metis (no_types, lifting) image_eqI list.set_intros(2) list.set_map)
qed


section \<open>A block of its own for every caller\<close>

text \<open>
  What a caller gets: a block \<open>nu\<close> headers long, its own header included, that was free or comes from the kernel, that is
  free no more, and that \<open>free\<close> turns back into free memory.
\<close>

definition lends :: "nat set \<Rightarrow> u32 \<Rightarrow> u64 \<Rightarrow> 's um_st_scheme \<Rightarrow> bool" where
  "lends M nu ap s \<longleftrightarrow> ap \<noteq> 0 \<and> h_size (hdrs s (ap - 16)) = nu \<and> span (ap - 16, nu) \<subseteq> M
     \<and> (\<exists>fl. uminv s fl \<and> area fl = M - span (ap - 16, nu))
     \<and> (\<exists>t fl. free ap s = Some t \<and> uminv t fl \<and> area fl = M)"

lemma take_lends:
  assumes i: "uminv s fl" and p: "p \<in> set (um_base s # map fst fl)" "nu \<le> h_size (hdrs s p)" "nu \<noteq> 0"
    and q: "q \<in> set (um_base s # map fst fl)" "h_ptr (hdrs s q) = p"
  shows "\<exists>ap t. take_block nu q p s = (ap, t) \<and> lends (area fl) nu ap t \<and> answers t = answers s \<and> ulog t = ulog s"
proof -
  obtain b h fl' where b: "take_block nu q p s = (b + 16, s\<lparr>hdrs := h, freep := q\<rparr>)" "uminv (s\<lparr>hdrs := h, freep := q\<rparr>) fl'" "b \<noteq> 0"
      "h_size (h b) = nu" "span (b, nu) \<subseteq> area fl" "area fl' = area fl - span (b, nu)" "unat (um_base s) < unat b" "unat b + 16 * unat nu < 2 ^ 36"
    using take_ok [OF i p q] by blast
  let ?t = "s\<lparr>hdrs := h, freep := q\<rparr>"
  have "unused (um_base ?t) fl' (b, nu)" using b p(3) by (auto simp: unused_def)
  from free_ok [OF b(2) this] b(4) obtain u fl2 where "free (b + 16) ?t = Some u" "uminv u fl2" "area fl2 = area fl' \<union> span (b, nu)" by auto
  moreover have "unat (b + 16) = unat b + 16" using b(8) unat_pos [OF p(3)] by (subst unat_add_lem [THEN iffD1]) simp_all
  then have "b + 16 \<noteq> 0" by auto
  ultimately have "lends (area fl) nu (b + 16) ?t" using b by (auto simp: lends_def)
  then show ?thesis using b(1) by simp
qed

definition ask :: "u32 \<Rightarrow> u32" where
  "ask nu = (if nu < 4096 then 4096 else nu)"

text \<open>The number of bytes asked for is passed on unchanged while it is below \<open>2 ^ 31\<close>.\<close>

lemma sbrk_bytes: "16 * unat (n :: u32) < 2 ^ 31 \<Longrightarrow> sint (ucast (ucast n * 16 :: u64) :: u32) = 16 * int (unat n)"
proof -
  assume b: "16 * unat n < 2 ^ 31"
  have "unat (ucast n * 16 :: u64) = unat n * 16" using b by (subst unat_mult_lem [THEN iffD1]) (simp_all add: unat_up)
  then have u: "unat (ucast (ucast n * 16 :: u64) :: u32) = 16 * unat n" using b by (simp add: unsigned_ucast_eq take_bit_nat_eq_self mult.commute)
  have "uint (ucast (ucast n * 16 :: u64) :: u32) = 16 * int (unat n)" unfolding uint_nat u by simp
  moreover have "signed_take_bit (LENGTH(32) - 1) (int k) = int k" if "k < 2 ^ 31" for k
    by (rule signed_take_bit_int_eq_self) (use that in auto)
  from this [OF b] have "signed_take_bit (LENGTH(32) - 1) (16 * int (unat n)) = 16 * int (unat n)" by simp
  ultimately show ?thesis unfolding sint_uint by simp
qed

lemma sbrk_eq: "ucalls c s = (case answers s of [] \<Rightarrow> (UWaits, s\<lparr>ulog := ulog s @ [(c, None)]\<rparr>)
     | a # as \<Rightarrow> (UVal (fst a), s\<lparr>answers := as, ulog := ulog s @ [(c, Some a)]\<rparr>))"
  by (simp add: ucalls_def ubnd_def usys_def uret_def split: list.split)

lemma morecore_ok:
  assumes i: "uminv s fl" and nu: "16 * unat (ask nu) < 2 ^ 31"
    and a: "answers s = (r, d) # as" "word_of_int r \<noteq> (-1 :: u64)" "unused (um_base s) fl (word_of_int r, ask nu)"
  shows "\<exists>p t fl'. morecore nu s = Some (UVal p, t) \<and> p \<noteq> 0 \<and> p = freep t \<and> uminv t fl' \<and> area fl' = area fl \<union> span (word_of_int r, ask nu)
     \<and> (\<exists>y \<in> set fl'. nu \<le> snd y) \<and> answers t = as \<and> ulog t = ulog s @ [(USbrk (16 * int (unat (ask nu))), Some (r, d))]"
proof -
  let ?n = "ask nu" and ?p = "word_of_int r :: u64" and ?c = "USbrk (16 * int (unat (ask nu)))"
  let ?s = "s\<lparr>answers := as, ulog := ulog s @ [(?c, Some (r, d))]\<rparr>"
  let ?t = "?s\<lparr>hdrs := (hdrs s)(?p := (hdrs s ?p)\<lparr>h_size := ?n\<rparr>)\<rparr>"
  have e: "morecore nu s = map_option (\<lambda>s. (UVal (freep s), s)) (free (?p + 16) ?t)"
    using a(1,2) sbrk_bytes [OF nu] by (simp add: morecore_def sbrk_eq Let_def ask_def)
  have f: "flist (hdrs s) (um_base s) fl" using i by (simp add: uminv_def)
  have "?p \<notin> set (um_base s # map fst fl)"
  proof
    assume "?p \<in> set (um_base s # map fst fl)"
    moreover have "?p \<noteq> um_base s" using a(3) by (auto simp: unused_def)
    ultimately obtain y where y: "y \<in> set fl" "?p = fst y" by auto
    have "0 < unat (snd y)" "0 < unat ?n" using flist_nodes(4) [OF f y(1)] a(3) by (simp_all add: unused_def unat_gt_0)
    then have "unat ?p \<in> span y" "unat ?p \<in> span (?p, ?n)" using y(2) by (simp_all add: span_def)
    then show False using a(3) y(1) by (auto simp: unused_def area_def)
  qed
  then have "uminv ?t fl" using i flist_upd by (simp add: uminv_def)
  from free_ok [OF this, of "(?p, ?n)"] a(3) obtain q h fl' where q: "free (?p + 16) ?t = Some (?t\<lparr>hdrs := h, freep := q\<rparr>)"
      "uminv (?t\<lparr>hdrs := h, freep := q\<rparr>) fl'" "area fl' = area fl \<union> span (?p, ?n)" "\<exists>y \<in> set fl'. ?n \<le> snd y" by auto
  have "q \<noteq> 0" using q(2) flist_nodes(1,3) [of "h" "um_base s" fl'] by (auto simp: uminv_def)
  moreover have "nu \<le> ?n" by (auto simp: ask_def)
  then have "\<exists>y \<in> set fl'. nu \<le> snd y" using q(4) by (meson order_trans)
  ultimately show ?thesis using e q by (intro exI [of _ q] exI [of _ "?t\<lparr>hdrs := h, freep := q\<rparr>"] exI [of _ fl']) simp
qed



text \<open>The length of a block in headers, its own included; the states before the first call and after others.\<close>

definition units :: "u32 \<Rightarrow> u32" where
  "units nbytes = of_nat ((unat nbytes + 15) div 16 + 1)"

definition umready :: "'s um_st_scheme \<Rightarrow> (u64 \<times> u32) list \<Rightarrow> bool" where
  "umready s fl \<longleftrightarrow> uminv s fl \<or> freep s = 0 \<and> um_base s \<noteq> 0 \<and> fl = []"

lemma units_unat: "unat (units nbytes) = (unat nbytes + 15) div 16 + 1"
proof -
  have "unat nbytes < 2 ^ 32" using unsigned_less [of nbytes, where ?'a = nat] by simp
  then have "(unat nbytes + 15) div 16 + 1 < 2 ^ LENGTH(32)" by simp
  then show ?thesis by (simp only: units_def unat_of_nat mod_less)
qed

lemma units_word: "ucast ((ucast nbytes + 16 - 1 :: u64) div 16 + 1) = units nbytes"
proof -
  have b: "unat nbytes < 2 ^ 32" using unsigned_less [of nbytes, where ?'a = nat] by simp
  have e: "ucast nbytes + 16 - 1 = (ucast nbytes + 15 :: u64)" by simp
  have "unat (ucast nbytes + 15 :: u64) = unat nbytes + 15" using b by (subst unat_add_lem [THEN iffD1]) (simp_all add: unat_up)
  then have d: "unat ((ucast nbytes + 15 :: u64) div 16) = (unat nbytes + 15) div 16" by (simp add: unat_div)
  then have "unat ((ucast nbytes + 15 :: u64) div 16 + 1) = (unat nbytes + 15) div 16 + 1" using b by (subst unat_add_lem [THEN iffD1]) simp_all
  then have "unat (ucast ((ucast nbytes + 15 :: u64) div 16 + 1) :: u32) = (unat nbytes + 15) div 16 + 1"
    using b by (simp add: unsigned_ucast_eq take_bit_nat_eq_self)
  then show ?thesis unfolding e by (simp add: word_unat_eq_iff units_unat)
qed

lemma units_nz: "units nbytes \<noteq> 0"
  using units_unat [of nbytes] by auto

lemma units_bound: "unat nbytes < 2 ^ 31 - 32 \<Longrightarrow> 16 * unat (ask (units nbytes)) < 2 ^ 31"
  using units_unat [of nbytes] by (auto simp: ask_def)

text \<open>A call on the free blocks \<open>fl\<close>: the block is one of them or a part of one, or they are all too small and the kernel is asked.\<close>

definition malloc_ok :: "'s um_st_scheme \<Rightarrow> (u64 \<times> u32) list \<Rightarrow> u32 \<Rightarrow> u64 ures \<Rightarrow> 's um_st_scheme \<Rightarrow> bool" where
  "malloc_ok s fl nu r t \<longleftrightarrow> (case r of
      UVal ap \<Rightarrow>
        lends (area fl) nu ap t \<and> answers t = answers s \<and> ulog t = ulog s
        \<or> (\<exists>a d. answers s = (a, d) # answers t \<and> ulog t = ulog s @ [(USbrk (16 * int (unat (ask nu))), Some (a, d))]
            \<and> (\<forall>y \<in> set fl. snd y < nu)
            \<and> (if word_of_int a = (-1 :: u64) then ap = 0 \<and> uminv t fl
               else lends (area fl \<union> span (word_of_int a, ask nu)) nu ap t))
    | UWaits \<Rightarrow> answers s = [] \<and> (\<forall>y \<in> set fl. snd y < nu)
    | _ \<Rightarrow> False)"

lemma uminv_freep: "uminv s fl \<Longrightarrow> freep s \<noteq> 0"
proof -
  assume i: "uminv s fl"
  then have "um_base s < y" if "y \<in> set (map fst fl)" for y using flist_nodes(1) [of "hdrs s" "um_base s" fl] that unfolding uminv_def by auto
  then have "0 \<notin> set (map fst fl)" by (metis word_not_simps(1))
  moreover have "um_base s \<noteq> 0" using i by (simp add: uminv_def flist_def)
  ultimately show ?thesis using i unfolding uminv_def by (auto simp del: set_map)
qed

lemma malloc_inv:
  assumes i: "uminv s fl" and nu: "nu \<noteq> 0" "16 * unat (ask nu) < 2 ^ 31"
    and a: "\<And>r d as. answers s = (r, d) # as \<Longrightarrow> word_of_int r \<noteq> (-1 :: u64) \<Longrightarrow> unused (um_base s) fl (word_of_int r, ask nu)"
  shows "\<exists>r t. malloc_loop nu (freep s) (h_ptr (hdrs s (freep s))) s = Some (r, t) \<and> malloc_ok s fl nu r t"
  using walk_all [OF i nu(1)]
proof (elim disjE exE conjE)
  fix q p assume m: "q \<in> set (um_base s # map fst fl)" "p \<in> set (um_base s # map fst fl)" "h_ptr (hdrs s q) = p" "nu \<le> h_size (hdrs s p)"
    and e: "malloc_loop nu (freep s) (h_ptr (hdrs s (freep s))) s = (case take_block nu q p s of (ap, s) \<Rightarrow> Some (UVal ap, s))"
  obtain ap t where "take_block nu q p s = (ap, t)" "lends (area fl) nu ap t" "answers t = answers s" "ulog t = ulog s"
    using take_lends [OF i m(2,4) nu(1) m(1,3)] by blast
  then show ?thesis unfolding e malloc_ok_def by simp
next
  assume "\<forall>y \<in> set fl. \<not> nu \<le> snd y" and e: "malloc_loop nu (freep s) (h_ptr (hdrs s (freep s))) s = malloc_more nu s"
  then have small: "\<forall>y \<in> set fl. snd y < nu" by (simp add: not_le)
  have sb: "sint (ucast (ucast (if nu < 4096 then 4096 else nu) * 16 :: u64) :: u32) = 16 * int (unat (ask nu))"
    using sbrk_bytes [OF nu(2)] unfolding ask_def .
  consider "answers s = []" | r d as where "answers s = (r, d) # as" "word_of_int r = (-1 :: u64)"
    | r d as where "answers s = (r, d) # as" "word_of_int r \<noteq> (-1 :: u64)" by (metis list.exhaust surj_pair)
  then show ?thesis
  proof cases
    case 1
    then show ?thesis using small unfolding e by (simp add: malloc_more_def morecore_def sbrk_eq Let_def malloc_ok_def)
  next
    case 2
    let ?t = "s\<lparr>answers := as, ulog := ulog s @ [(USbrk (16 * int (unat (ask nu))), Some (r, d))]\<rparr>"
    have "malloc_more nu s = Some (UVal 0, ?t)" unfolding malloc_more_def morecore_def Let_def sb using 2 by (simp add: sbrk_eq)
    moreover have "uminv ?t fl" using i by (simp add: uminv_def)
    ultimately show ?thesis unfolding e malloc_ok_def using 2 small by auto
  next
    case 3
    obtain p t fl' where t: "morecore nu s = Some (UVal p, t)" "p \<noteq> 0" "p = freep t" "uminv t fl'" "area fl' = area fl \<union> span (word_of_int r, ask nu)"
        "\<exists>y \<in> set fl'. nu \<le> snd y" "answers t = as" "ulog t = ulog s @ [(USbrk (16 * int (unat (ask nu))), Some (r, d))]"
      using morecore_ok [OF i nu(2) 3 a [OF 3]] by blast
    have m: "malloc_more nu s = malloc_loop nu (freep t) (h_ptr (hdrs t (freep t))) t" using t(1-3) by (simp add: malloc_more_def)
    from walk_all [OF t(4) nu(1)] t(6) obtain q p where m': "q \<in> set (um_base t # map fst fl')" "p \<in> set (um_base t # map fst fl')" "h_ptr (hdrs t q) = p"
        "nu \<le> h_size (hdrs t p)" and e': "malloc_more nu s = (case take_block nu q p t of (ap, s) \<Rightarrow> Some (UVal ap, s))" unfolding m by blast
    obtain ap u where "take_block nu q p t = (ap, u)" "lends (area fl') nu ap u" "answers u = answers t" "ulog u = ulog t"
      using take_lends [OF t(4) m'(2,4) nu(1) m'(1,3)] by blast
    then show ?thesis unfolding e e' malloc_ok_def using 3 small t(5,7,8) by simp
  qed
qed

definition um0 :: um_st where
  "um0 = \<lparr>answers = [(0x5000, [])], ulog = [], hdrs = (\<lambda>_. \<lparr>h_ptr = 0, h_size = 0\<rparr>), um_base = 0x2010, freep = 0\<rparr>"

text \<open>C12: \<open>malloc\<close> returns, and gives a block of its own to its caller. The headers form a circular list of blocks in the order
  of their addresses with gaps between them, before the call and after it. The block is large enough, was free or is part of
  what \<open>sbrk\<close> gave, is free no more, and can be given back by \<open>free\<close>, which makes all of it free again. \<open>sbrk\<close> is called
  only when no free block is large enough, once, for at least 65536 bytes; when it fails the result is 0.\<close>

theorem malloc_gives:
  assumes "umready s fl" and "unat nbytes < 2 ^ 31 - 32"
    and "\<And>r d as. answers s = (r, d) # as \<Longrightarrow> word_of_int r \<noteq> (-1 :: u64) \<Longrightarrow> unused (um_base s) fl (word_of_int r, ask (units nbytes))"
  shows "\<exists>r t. malloc nbytes s = Some (r, t) \<and> malloc_ok s fl (units nbytes) r t \<and> unat nbytes + 16 \<le> 16 * unat (units nbytes)"
proof -
  let ?s = "if freep s = 0 then s\<lparr>hdrs := (hdrs s)(um_base s := \<lparr>h_ptr = um_base s, h_size = 0\<rparr>), freep := um_base s\<rparr> else s"
  have "uminv ?s fl"
  proof (cases "freep s = 0")
    case True
    then have "\<not> uminv s fl" using uminv_freep by blast
    then have "um_base s \<noteq> 0" "fl = []" using assms(1) by (auto simp: umready_def)
    then show ?thesis using True by (simp add: uminv_def flist_def)
  qed (use assms(1) in \<open>auto simp: umready_def\<close>)
  then have "\<exists>r t. malloc_loop (units nbytes) (freep ?s) (h_ptr (hdrs ?s (freep ?s))) ?s = Some (r, t) \<and> malloc_ok ?s fl (units nbytes) r t"
    by (rule malloc_inv [OF _ units_nz units_bound]) (use assms(2,3) in \<open>auto split: if_splits\<close>)
  moreover have "malloc_ok ?s = malloc_ok s" by (auto simp: malloc_ok_def fun_eq_iff split: ures.split)
  moreover have "unat nbytes + 16 \<le> 16 * unat (units nbytes)" unfolding units_unat by presburger
  ultimately show ?thesis unfolding malloc_def units_word Let_def by metis
qed


theorem malloc_gives_witness:
  "\<exists>r t. malloc 10 um0 = Some (r, t) \<and> malloc_ok um0 [] (units 10) r t \<and> unat (10 :: u32) + 16 \<le> 16 * unat (units 10)"
proof (rule malloc_gives)
  have "unat (units 10) = 2" by (simp add: units_unat)
  then have "units 10 = 2" by (simp add: word_unat_eq_iff)
  then show "unused (um_base um0) [] (word_of_int r, ask (units 10))" if "answers um0 = (r, d) # as" for r d as
    using that by (auto simp: um0_def unused_def ask_def)
qed (simp_all add: umready_def um0_def)

end
