(* ===== verification/Progspec.thy ===== *)
theory Progspec
  imports Uprogs
begin

text \<open>
  What \<open>printf\<close> prints, as a text computed from the format and the arguments, and what \<open>wc\<close> makes of its input. The text goes out one
  character for each call of \<open>write\<close>; a run that waits has written a part of it.
\<close>

section \<open>The text of a format\<close>

text \<open>The characters, and whether the format found the arguments it asks for.\<close>

fun formatted :: "bool \<Rightarrow> u8 list \<Rightarrow> uarg list \<Rightarrow> u8 list \<times> bool" where
  "formatted pct [] ap = ([], True)"
| "formatted False (c # fmt) ap = (if c = 37 then formatted True fmt ap else apfst ((#) c) (formatted False fmt ap))"
| "formatted True (c # fmt) ap =
     (if c \<in> set (chars ''dlxpc'') then (case ap of
          UReg x # ap' \<Rightarrow> apfst ((@) (if c = 100 then printint_u_chars (ucast x) 10 True
             else if c = 108 then printint_u_chars (ucast x) 10 False
             else if c = 120 then printint_u_chars (ucast x) 16 False
             else if c = 112 then printptr_u_chars x else [ucast x])) (formatted False fmt ap')
        | _ \<Rightarrow> ([], False))
      else if c = 115 then (case ap of
          UStr s # ap' \<Rightarrow> apfst ((@) (case s of None \<Rightarrow> chars ''(null)'' | Some t \<Rightarrow> t)) (formatted False fmt ap')
        | _ \<Rightarrow> ([], False))
      else apfst ((@) (if c = 37 then [c] else [37, c])) (formatted False fmt ap))"

lemma ufor_append: "ufor f (xs @ ys) = ubnd (ufor f xs) (\<lambda>_. ufor f ys)"
  by (induction xs) (auto simp: ubnd_assoc ubnd_def split: prod.split ures.split)

lemma ufor_one: "ufor f [x] = f x"
proof (rule ext)
  fix s show "ufor f [x] s = f x s" by (cases "f x s"; cases "fst (f x s)") (auto simp: ubnd_def)
qed

lemma ufor_two: "ubnd (ufor f [a]) (\<lambda>_. ubnd (ufor f [b]) (\<lambda>_. m)) = ubnd (ufor f [a, b]) (\<lambda>_. m)"
  using ufor_append [of f "[a]" "[b]"] by (simp add: ubnd_assoc del: ufor.simps)

lemma putc_ufor: "ubnd (putc fd c) (\<lambda>_. m) = ubnd (ufor (putc fd) [c]) (\<lambda>_. m)"
  unfolding ufor_one ..

definition prints :: "int \<Rightarrow> u8 list \<times> bool \<Rightarrow> ('s user_st_scheme, unit) U" where
  "prints fd p = ubnd (ufor (putc fd) (fst p)) (\<lambda>_. if snd p then uret () else ufault)"

lemma prints_append: "prints fd (apfst ((@) cs) p) = ubnd (ufor (putc fd) cs) (\<lambda>_. prints fd p)"
  "prints fd (apfst ((#) c) p) = ubnd (putc fd c) (\<lambda>_. prints fd p)" "prints fd ([], True) = uret ()" "prints fd ([], False) = ufault"
  by (simp_all add: prints_def ufor_append ubnd_assoc) (auto simp: fun_eq_iff ubnd_def)

lemma vprintf_formatted: "vprintf_loop fd b fmt ap = prints fd (formatted b fmt ap)"
proof (induction b fmt ap rule: formatted.induct)
  case (3 c fmt ap)
  show ?case using 3
    by (simp add: chars_def prints_append printint_u_def printptr_u_def putc_ufor ufor_two del: ufor.simps split: list.split uarg.split)
qed (simp_all add: prints_append)


text \<open>A text that is printed goes out in order.\<close>

definition text_out :: "int \<Rightarrow> u8 list \<Rightarrow> 's user_st_scheme \<Rightarrow> unit ures \<times> 's user_st_scheme \<Rightarrow> bool" where
  "text_out fd cs s r \<longleftrightarrow> (\<exists>l. ulog (snd r) = ulog s @ l \<and> (\<forall>f. received f l = []) \<and> (case fst r of
      UVal _ \<Rightarrow> wrote fd l = cs
    | UWaits \<Rightarrow> answers (snd r) = [] \<and> (\<exists>ys. cs = wrote fd l @ ys)
    | _ \<Rightarrow> False))"

lemma putcs_out: "text_out fd cs s (ufor (putc fd) cs s)"
proof (induction cs arbitrary: s)
  case (Cons c cs)
  show ?case
  proof (cases "answers s")
    case Nil
    then show ?thesis by (auto simp: putc_def udo_def ubnd_apply usys_apply text_out_def)
  next
    case (Cons a as)
    let ?t = "s\<lparr>answers := as, ulog := ulog s @ [(UWrite fd [c], Some a)]\<rparr>"
    obtain l where l: "ulog (snd (ufor (putc fd) cs ?t)) = ulog ?t @ l" "\<forall>f. received f l = []"
        "case fst (ufor (putc fd) cs ?t) of UVal _ \<Rightarrow> wrote fd l = cs
          | UWaits \<Rightarrow> answers (snd (ufor (putc fd) cs ?t)) = [] \<and> (\<exists>ys. cs = wrote fd l @ ys) | _ \<Rightarrow> False"
      using Cons.IH [of ?t] unfolding text_out_def by blast
    have "ufor (putc fd) (c # cs) s = ufor (putc fd) cs ?t" using Cons by (simp add: putc_def udo_def ubnd_apply usys_apply)
    then show ?thesis unfolding text_out_def using l by (intro exI [of _ "(UWrite fd [c], Some a) # l"]) (auto split: ures.splits)
  qed
qed (simp add: text_out_def)

lemma printf_out:
  fixes s :: "'s user_st_scheme"
  assumes "formatted False (chars fmt) ap = (cs, True)"
  shows "text_out 1 cs s (printf_u fmt ap s)"
proof -
  have "printf_u fmt ap = (ufor (putc 1) cs :: ('s user_st_scheme, unit) U)"
    using assms by (auto simp: printf_u_def vprintf_def vprintf_formatted prints_def fun_eq_iff ubnd_def split: prod.split ures.split)
  then show ?thesis using putcs_out [of 1 cs s] by simp
qed

section \<open>The numbers that wc counts\<close>

definition isspc :: "u8 \<Rightarrow> bool" where
  "isspc c \<longleftrightarrow> c \<in> set [32, 13, 9, 10, 11]"

text \<open>The words of a text: the nonempty pieces between white space.\<close>

definition text_words :: "u8 list \<Rightarrow> u8 list list" where
  "text_words xs = filter (\<lambda>w. w \<noteq> []) (split_at 32 (map (\<lambda>c. if isspc c then 32 else c) xs))"

fun word_starts :: "bool \<Rightarrow> u8 list \<Rightarrow> nat" where
  "word_starts inw [] = 0"
| "word_starts inw (x # xs) = (if isspc x then word_starts False xs else (if inw then 0 else 1) + word_starts True xs)"

lemma word_starts_eq:
  "length (filter (\<lambda>w. w \<noteq> []) (split_at 32 (map (\<lambda>c. if isspc c then 32 else c) xs))) = word_starts False xs"
  "length (filter (\<lambda>w. w \<noteq> []) (tl (split_at 32 (map (\<lambda>c. if isspc c then 32 else c) xs)))) = word_starts True xs"
proof (induction xs)
  case (Cons x xs)
  have "\<not> isspc x \<Longrightarrow> x \<noteq> 32" by (auto simp: isspc_def)
  then show "length (filter (\<lambda>w. w \<noteq> []) (split_at 32 (map (\<lambda>c. if isspc c then 32 else c) (x # xs)))) = word_starts False (x # xs)"
    and "length (filter (\<lambda>w. w \<noteq> []) (tl (split_at 32 (map (\<lambda>c. if isspc c then 32 else c) (x # xs))))) = word_starts True (x # xs)"
    using Cons by (auto split: list.splits)
qed simp_all

lemma wc_fold: "fold wc_char xs st = \<lparr>wc_l = wc_l st + of_nat (count_list xs 10), wc_w = wc_w st + of_nat (word_starts (wc_inword st) xs),
    wc_c = wc_c st + of_nat (length xs), wc_inword = (if xs = [] then wc_inword st else \<not> isspc (last xs))\<rparr>"
proof (induction xs arbitrary: st)
  case (Cons x xs)
  have "wc_char x st = \<lparr>wc_l = wc_l st + (if x = 10 then 1 else 0), wc_w = wc_w st + (if isspc x \<or> wc_inword st then 0 else 1),
      wc_c = wc_c st + 1, wc_inword = (\<not> isspc x)\<rparr>"
    by (cases st) (auto simp: wc_char_def isspc_def Let_def)
  then show ?case using Cons.IH [of "wc_char x st"] by (auto simp: isspc_def)
qed simp


text \<open>The loop that reads: the counters are those of all bytes received.\<close>

definition counted :: "int \<Rightarrow> wc_st \<Rightarrow> 's user_st_scheme \<Rightarrow> (int \<times> wc_st \<times> bytes) ures \<times> 's user_st_scheme \<Rightarrow> bool" where
  "counted fd st s r \<longleftrightarrow> (\<exists>l. ulog (snd r) = ulog s @ l \<and> wrote 1 l = [] \<and> (honest l \<longrightarrow> (case fst r of
      UVal (n, st', buf) \<Rightarrow> st' = fold wc_char (received fd l) st \<and> l \<noteq> [] \<and> last l = (URead fd 512, Some (n, [])) \<and> n \<le> 0
    | UWaits \<Rightarrow> answers (snd r) = []
    | _ \<Rightarrow> False)))"

lemma wc_reads: "counted fd st s (uwhile (wc_one fd) (st, buf) s)"
proof (induction "answers s" arbitrary: s st buf)
  case Nil
  then show ?case
    by (subst uwhile_takes [where body = "wc_one fd", OF loops_take(2)]) (simp add: wc_one_def ubnd_apply usys_apply counted_def)
next
  case (Cons a as)
  obtain n d where a: "a = (n, d)" by (cases a)
  let ?t = "s\<lparr>answers := as, ulog := ulog s @ [(URead fd 512, Some (n, d))]\<rparr>" and ?buf = "wr buf 0 d"
  have u: "usys (URead fd 512) s = (UVal (n, d), ?t)" using Cons(2) a by (simp add: usys_apply(1) [OF Cons(2) [symmetric]])
  show ?case
  proof (cases "n > 0")
    case False
    then have "uwhile (wc_one fd) (st, buf) s = (UVal (n, st, ?buf), ?t)"
      by (subst uwhile_takes [where body = "wc_one fd", OF loops_take(2)]) (use u in \<open>simp add: wc_one_def ubnd_apply Let_def\<close>)
    then show ?thesis using False by (auto simp: counted_def intro!: exI [of _ "[(URead fd 512, Some (n, d))]"])
  next
    case True
    let ?st = "fold wc_char (rd ?buf 0 (nat n)) st"
    have r: "uwhile (wc_one fd) (st, buf) s = uwhile (wc_one fd) (?st, ?buf) ?t"
      by (subst uwhile_takes [where body = "wc_one fd", OF loops_take(2)]) (use True u in \<open>simp add: wc_one_def ubnd_apply Let_def\<close>)
    obtain l where l: "ulog (snd (uwhile (wc_one fd) (?st, ?buf) ?t)) = ulog ?t @ l" "wrote 1 l = []"
        "honest l \<longrightarrow> (case fst (uwhile (wc_one fd) (?st, ?buf) ?t) of
            UVal (n, st', buf) \<Rightarrow> st' = fold wc_char (received fd l) ?st \<and> l \<noteq> [] \<and> last l = (URead fd 512, Some (n, [])) \<and> n \<le> 0
          | UWaits \<Rightarrow> answers (snd (uwhile (wc_one fd) (?st, ?buf) ?t)) = [] | _ \<Rightarrow> False)"
      using Cons(1) [of ?t ?st ?buf] unfolding counted_def by auto
    have "rd ?buf 0 (nat n) = d" if "int (length d) = n" using that by auto
    then show ?thesis unfolding r counted_def using l True
      by (intro exI [of _ "(URead fd 512, Some (n, d)) # l"]) (auto split: ures.splits)
  qed
qed


section \<open>What the programs print\<close>

definition decimal :: "nat \<Rightarrow> u8 list" where
  "decimal n = rev (digits_u n 10)"

lemma sint_small: "unat (x :: u32) < 2 ^ 31 \<Longrightarrow> sint x = int (unat x)"
proof -
  assume b: "unat x < 2 ^ 31"
  have "signed_take_bit (LENGTH(32) - 1) (int k) = int k" if "k < 2 ^ 31" for k
    by (rule signed_take_bit_int_eq_self) (use that in auto)
  from this [OF b] show ?thesis unfolding sint_uint uint_nat by simp
qed

lemma ucast_ucast_32: "ucast (ucast (x :: u32) :: u64) = x"
  by (rule bit_word_eqI) (simp add: bit_simps)

lemma printint_decimal: "n < 2 ^ 31 \<Longrightarrow> printint_u_chars (of_nat n) 10 True = decimal n"
proof -
  assume n: "n < 2 ^ 31"
  then have u: "unat (of_nat n :: u32) = n" by (simp add: unat_of_nat)
  then have "\<not> sint (of_nat n :: u32) < 0" using sint_small [of "of_nat n"] n by simp
  then show ?thesis unfolding printint_u_chars_def Let_def using u by (simp add: decimal_def)
qed

definition wc_line :: "u8 list \<Rightarrow> u8 list \<Rightarrow> u8 list" where
  "wc_line xs name = decimal (count_list xs 10) @ [32] @ decimal (length (text_words xs)) @ [32] @ decimal (length xs) @ [32] @ name @ [10]"

lemma wc_formatted:
  assumes "length xs < 2 ^ 31" and "st = fold wc_char xs \<lparr>wc_l = 0, wc_w = 0, wc_c = 0, wc_inword = False\<rparr>"
  shows "formatted False (chars ''%d %d %d %s\<newline>'') [UReg (ucast (wc_l st)), UReg (ucast (wc_w st)), UReg (ucast (wc_c st)), UStr (Some name)]
    = (wc_line xs name, True)"
proof -
  have w: "word_starts b ys \<le> length ys" for b ys by (induction b ys rule: word_starts.induct) auto
  have "word_starts False xs < 2 ^ 31" "count_list xs 10 < 2 ^ 31" using assms(1) w [of False xs] count_le_length [of xs 10] by simp_all
  then have p: "printint_u_chars (wc_l st) 10 True = decimal (count_list xs 10)" "printint_u_chars (wc_w st) 10 True = decimal (length (text_words xs))"
      "printint_u_chars (wc_c st) 10 True = decimal (length xs)"
    using assms(1) unfolding assms(2) wc_fold text_words_def word_starts_eq by (simp_all add: printint_decimal)
  show ?thesis by (simp add: chars_def ucast_ucast_32 p wc_line_def)
qed

definition wc_error :: "u8 list" where
  "wc_error = chars ''wc: read error\<newline>''"

text \<open>C36: \<open>wc\<close> counts lines, words and bytes of all it reads, however the input is cut into pieces. When the kernel delivers no
  more bytes than it was asked for, a run that returns has written one line with the number of newlines, the number of
  maximal pieces without white space, the number of bytes and the name; a run that waits has written a part of that line
  or of the error message, and one that exits has written the message after a read that failed.\<close>

theorem wc_counts:
  assumes run: "wc fd name buf s = (r, t)" and l: "ulog t = ulog s @ l" "honest l" and len: "length (received fd l) < 2 ^ 31"
  shows "case r of
      UVal _ \<Rightarrow> wrote 1 l = wc_line (received fd l) name
    | UExited \<Rightarrow> wrote 1 l = wc_error \<and> last l = (UExit 1, None) \<and> (\<exists>n. n < 0 \<and> (URead fd 512, Some (n, [])) \<in> set l)
    | UWaits \<Rightarrow> answers t = [] \<and> (\<exists>ys. wrote 1 l @ ys \<in> {wc_line (received fd l) name, wc_error})
    | UFault \<Rightarrow> False"
proof -
  let ?st = "\<lparr>wc_l = 0, wc_w = 0, wc_c = 0, wc_inword = False\<rparr>"
  obtain q u where q: "uwhile (wc_one fd) (?st, buf) s = (q, u)" by fastforce
  obtain k where k: "ulog u = ulog s @ k" "wrote 1 k = []" and k3: "honest k \<longrightarrow> (case q of
      UVal (n, st', buf) \<Rightarrow> st' = fold wc_char (received fd k) ?st \<and> k \<noteq> [] \<and> last k = (URead fd 512, Some (n, [])) \<and> n \<le> 0
    | UWaits \<Rightarrow> answers u = []
    | _ \<Rightarrow> False)" using wc_reads [of fd ?st s buf] unfolding q counted_def fst_conv snd_conv by blast
  show ?thesis
  proof (cases q)
    case (UVal p)
    obtain n st b where p: "p = (n, st, b)" by (cases p)
    define m where "m = (if n < 0 then printf_u ''wc: read error\<newline>'' [] :: ('a user_st_scheme, unit) U
      else printf_u ''%d %d %d %s\<newline>'' [UReg (ucast (wc_l st)), UReg (ucast (wc_w st)), UReg (ucast (wc_c st)), UStr (Some name)])"
    have w: "wc fd name buf s = ubnd m (\<lambda>_. if n < 0 then exit_u 1 else uret b) u"
      using q UVal p by (auto simp: wc_def ubnd_apply m_def)
    have "nomore (ubnd m (\<lambda>_. if n < 0 then exit_u 1 else uret b))" unfolding m_def
      by (intro nomore_ubnd nomore_case nomore_printf nomore_base)
    from nomoreD [OF this] obtain l' where l': "ulog t = ulog u @ l'" using w run by metis
    then have lk: "l = k @ l'" using k l by simp
    then have st: "st = fold wc_char (received fd k) ?st" "k \<noteq> []" "last k = (URead fd 512, Some (n, []))" "length (received fd k) < 2 ^ 31"
      using k3 l(2) len UVal p by simp_all
    then have rk: "(URead fd 512, Some (n, [])) \<in> set k" by (metis last_in_set)
    define cs where "cs = (if n < 0 then wc_error else wc_line (received fd k) name)"
    have "text_out 1 cs u (m u)"
    proof (cases "n < 0")
      case True
      have "formatted False (chars ''wc: read error\<newline>'') [] = (wc_error, True)" by (simp add: chars_def wc_error_def)
      from printf_out [OF this] show ?thesis using True by (simp add: m_def cs_def)
    next
      case False
      then show ?thesis using printf_out [OF wc_formatted [OF st(4,1)]] by (simp add: m_def cs_def)
    qed
    then obtain j where j: "ulog (snd (m u)) = ulog u @ j" "\<forall>f. received f j = []" "case fst (m u) of UVal _ \<Rightarrow> wrote 1 j = cs
        | UWaits \<Rightarrow> answers (snd (m u)) = [] \<and> (\<exists>ys. cs = wrote 1 j @ ys) | _ \<Rightarrow> False" unfolding text_out_def by blast
    have e: "ubnd m (\<lambda>_. if n < 0 then exit_u 1 else uret b) u = (r, t)" using w run by simp
    show ?thesis
    proof (cases "m u")
      case (Pair v x)
      then show ?thesis using e j l' lk k rk by (cases v) (auto simp: ubnd_apply cs_def split: if_splits, metis)
    qed
  next
    case UWaits
    then have "r = UWaits" "t = u" using q run by (auto simp: wc_def ubnd_apply)
    then show ?thesis using k k3 l UWaits by auto
  qed (use q run k k3 l in \<open>auto simp: wc_def ubnd_apply\<close>)
qed

definition ws0 :: user_st where
  "ws0 = \<lparr>answers = [(4, [97, 32, 98, 10]), (0, [])] @ replicate 7 (1, []), ulog = []\<rparr>"

lemma ws0_run: "\<exists>b t. wc 0 [] (\<lambda>_. 0) ws0 = (UVal b, t) \<and> honest (ulog t) \<and> received 0 (ulog t) = [97, 32, 98, 10]"
proof -
  let ?st = "\<lparr>wc_l = 0, wc_w = 0, wc_c = 0, wc_inword = False\<rparr>" and ?b = "wr (\<lambda>_. 0) 0 [97, 32, 98, 10 :: u8]"
  let ?s = "ws0\<lparr>answers := (0, []) # replicate 7 (1, []), ulog := [(URead 0 512, Some (4, [97, 32, 98, 10]))]\<rparr>"
  let ?t = "ws0\<lparr>answers := replicate 7 (1, []), ulog := [(URead 0 512, Some (4, [97, 32, 98, 10])), (URead 0 512, Some (0, []))]\<rparr>"
  let ?f = "fold wc_char [97, 32, 98, 10] ?st"
  have "rd ?b 0 4 = [97, 32, 98, 10]" by (rule rd_wr_same) simp
  then have 1: "wc_one 0 (?st, \<lambda>_. 0) ws0 = (UVal (Inl (?f, ?b)), ?s)"
    by (simp add: wc_one_def ubnd_apply usys_def ws0_def)
  have 2: "wc_one 0 (?f, ?b) ?s = (UVal (Inr (0, ?f, wr ?b 0 [])), ?t)"
    by (simp add: wc_one_def ubnd_apply usys_def ws0_def)
  have u: "uwhile (wc_one 0) (?st, \<lambda>_. 0) ws0 = (UVal (0, ?f, wr ?b 0 []), ?t)"
    by (subst uwhile_takes [where body = "wc_one 0", OF loops_take(2)], subst 1, simp only: prod.case ures.case sum.case,
        subst uwhile_takes [where body = "wc_one 0", OF loops_take(2)], subst 2, simp)
  have d: "decimal 1 = [49]" "decimal 2 = [50]" "decimal 4 = [52]" by (simp_all add: decimal_def digits_u.simps digit_u_def chars_def)
  have "length (text_words [97, 32, 98, 10]) = 2" "count_list [97, 32, 98, 10 :: u8] 10 = 1" "length [97, 32, 98, 10 :: u8] = 4"
    by (simp_all add: text_words_def isspc_def)
  then have "wc_line [97, 32, 98, 10] [] = [49, 32, 50, 32, 52, 32, 10]" unfolding wc_line_def by (simp only: d append.simps)
  then have "formatted False (chars ''%d %d %d %s\<newline>'') [UReg (ucast (wc_l ?f)), UReg (ucast (wc_w ?f)), UReg (ucast (wc_c ?f)), UStr (Some [])]
      = ([49, 32, 50, 32, 52, 32, 10], True)" using wc_formatted [of "[97, 32, 98, 10]" ?f "[]"] by simp
  then have p: "printf_u ''%d %d %d %s\<newline>'' [UReg (ucast (wc_l ?f)), UReg (ucast (wc_w ?f)), UReg (ucast (wc_c ?f)), UStr (Some [])]
      = prints 1 ([49, 32, 50, 32, 52, 32, 10], True)" unfolding printf_u_def vprintf_def vprintf_formatted by (rule arg_cong)
  have r: "replicate 7 (1 :: int, [] :: u8 list) = [(1, []), (1, []), (1, []), (1, []), (1, []), (1, []), (1, [])]" by (simp add: eval_nat_numeral)
  have q: "\<exists>t. prints 1 ([49, 32, 50, 32, 52, 32, 10], True) ?t = (UVal (), t) \<and> honest (ulog t) \<and> received 0 (ulog t) = [97, 32, 98, 10]"
    by (simp add: prints_def putc_def udo_def ubnd_apply usys_def r ws0_def)
  show ?thesis unfolding wc_def ubnd_apply [of "uwhile _ _"] u using q by (simp only: prod.case ures.case p) (auto simp: ubnd_apply)
qed

theorem wc_counts_witness:
  "\<exists>b t. wc 0 [] (\<lambda>_. 0) ws0 = (UVal b, t) \<and> wrote 1 (ulog t) = wc_line [97, 32, 98, 10] []"
proof -
  obtain b t where t: "wc 0 [] (\<lambda>_. 0) ws0 = (UVal b, t)" "honest (ulog t)" "received 0 (ulog t) = [97, 32, 98, 10]" using ws0_run by blast
  have "ulog t = ulog ws0 @ ulog t" by (simp add: ws0_def)
  from wc_counts [OF t(1) this t(2)] t show ?thesis by simp
qed

text \<open>C37: what \<open>printf\<close> prints for a number, \<open>atoi\<close> reads back. For every \<open>int\<close> the characters written to the standard output
  for \<open>%d\<close>, in order, are a string whose value under \<open>atoi\<close> is the number; for a negative one a minus sign comes
  first and the value of the rest is the number negated.\<close>

theorem printf_atoi:
  fixes s :: "'s user_st_scheme" and x :: u32
  shows "\<exists>cs. text_out 1 cs s (printf_u ''%d'' [UReg (ucast x)] s)
    \<and> (if sint x < 0 then \<exists>ds. cs = 45 # ds \<and> atoi ds = sint (- x) else atoi cs = sint x)"
proof -
  have "formatted False (chars ''%d'') [UReg (ucast x)] = (printint_u_chars x 10 True, True)" by (simp add: chars_def ucast_ucast_32)
  moreover have "printint_u_chars x 10 True = (if sint x < 0 then 45 # rev (digits_u (unat (- x)) 10) else rev (digits_u (unat x) 10))"
    by (simp add: printint_u_chars_def Let_def)
  ultimately show ?thesis using printf_out [of "''%d''" "[UReg (ucast x)]" "printint_u_chars x 10 True" s]
    by (intro exI [of _ "printint_u_chars x 10 True"]) (auto simp: atoi_def atoi_digits)
qed

end
