(* ===== verification/Handles.thy ===== *)
theory Handles
  imports Dirs "HOL-Library.Multiset"
begin

text \<open>
  The reference counts of the inode table. A holder of an inode has a handle: the entry with the device and inode number it was
  asked for. The operations on the table are steps between states that carry the handles given out; what they do to the
  entries beyond their counts is of no concern here, so most of the proofs say that a routine leaves the identity of the
  entries alone.
\<close>

section \<open>Routines that leave the entries alone\<close>

definition ids :: "'a fs_st_scheme \<Rightarrow> nat \<Rightarrow> u32 \<times> u32 \<times> int \<times> fsops option" where
  "ids s i = (i_dev (itable s i), i_inum (itable s i), i_ref (itable s i), i_op (itable s i))"

definition idkeep :: "('a fs_st_scheme, 'b) K \<Rightarrow> bool" where
  "idkeep m \<longleftrightarrow> (\<forall>T. keeps (\<lambda>s. ids s = T) m)"

named_theorems kp \<open>routines that leave the identity of the inodes alone\<close>

lemma idkeepD: "idkeep m \<Longrightarrow> m s = Ok (x, s') \<Longrightarrow> ids s' = ids s"
  unfolding idkeep_def keeps_def by blast

lemma idkeep_base [kp]:
  "idkeep (ret x)" "idkeep (gets f)" "idkeep (panic e)" "idkeep fault" "idkeep blocked"
  by (auto simp: idkeep_def)

lemma idkeep_modify [kp]: "(\<And>s. ids (f s) = ids s) \<Longrightarrow> idkeep (modify f)"
  by (auto simp: idkeep_def)

lemma idkeep_bnd [kp]: "idkeep m \<Longrightarrow> (\<And>x. idkeep (f x)) \<Longrightarrow> idkeep (bnd m f)"
  unfolding idkeep_def by (blast intro: keeps_bnd)

lemma idkeep_comb [kp]:
  "idkeep m \<Longrightarrow> idkeep (whenK c m)"
  "idkeep p \<Longrightarrow> idkeep q \<Longrightarrow> idkeep (if c then p else q)"
  "(\<And>i. idkeep (g i)) \<Longrightarrow> idkeep (forK g xs)"
  "(\<And>i. idkeep (h i)) \<Longrightarrow> idkeep (untilK h xs)"
  unfolding idkeep_def by (blast intro: keeps_whenK keeps_if keeps_forK keeps_untilK)+

lemma idkeep_option [kp]: "idkeep m \<Longrightarrow> (\<And>y. idkeep (k y)) \<Longrightarrow> idkeep (case z of None \<Rightarrow> m | Some y \<Rightarrow> k y)"
  by (simp split: option.split)

lemma ids_upd [simp]:
  "ids (s\<lparr>cpus := x1\<rparr>) = ids s" "ids (s\<lparr>sstatus := x2\<rparr>) = ids s" "ids (s\<lparr>locks := x3\<rparr>) = ids s" "ids (s\<lparr>procs := x4\<rparr>) = ids s"
  "ids (s\<lparr>slocks := x5\<rparr>) = ids s" "ids (s\<lparr>bufs := x6\<rparr>) = ids s" "ids (s\<lparr>disk := x7\<rparr>) = ids s" "ids (s\<lparr>pmem := x8\<rparr>) = ids s"
  "ids (s\<lparr>freelist := x9\<rparr>) = ids s" "ids (s\<lparr>privs := x10\<rparr>) = ids s"
  by (simp_all add: ids_def fun_eq_iff)

lemma idkeep_off [kp]: "idkeep push_off" "idkeep pop_off"
  by (simp_all only: push_off_def pop_off_def get_cpu_def set_cpu_def intr_get_def intr_off_def intr_on_def) (intro kp; simp)+

lemma idkeep_spin [kp]: "idkeep (acquire l)" "idkeep (release l)" "idkeep (holding l)"
  by (simp_all only: acquire_def release_def holding_def mycpu_def) (intro kp; simp)+

lemma idkeep_proc [kp]: "idkeep (get_proc i)" "idkeep (set_proc i f)" "idkeep myproc"
  by (simp_all only: get_proc_def set_proc_def myproc_def get_cpu_def) (intro kp; simp)+

lemma idkeep_curproc [kp]: "idkeep curproc"
  unfolding curproc_def by (intro kp)

lemma idkeep_wakeup_one [kp]: "idkeep (wakeup_one c i)"
  unfolding wakeup_one_def by (intro kp)

lemma idkeep_sleep [kp]: "idkeep (sleep c l)" "idkeep (wakeup c)"
  by (simp_all only: sched_def sleep_def wakeup_def get_cpu_def intr_get_def) (intro kp)+

lemma idkeep_set [kp]: "idkeep (set_sl l f)" "idkeep (get_buf i)" "idkeep (set_buf i g)" "idkeep (buf_data i)" "idkeep (upd_data i h)"
    "idkeep (set_priv p x)" "idkeep (get_inode i)"
  by (simp_all only: set_sl_def get_buf_def set_buf_def buf_data_def upd_data_def set_priv_def get_inode_def) (intro kp; simp)+

lemma idkeep_get_priv [kp]: "idkeep (get_priv p)"
  unfolding get_priv_def by (intro kp)

lemma idkeep_sleeplock [kp]: "idkeep (acquiresleep l)" "idkeep (releasesleep l)" "idkeep (holdingsleep l)"
  by (simp_all only: acquiresleep_def releasesleep_def holdingsleep_def) (intro kp)+

lemma idkeep_disk [kp]: "idkeep (disk_transfer i w)"
  unfolding disk_transfer_def by (intro kp; simp)

lemma idkeep_front [kp]: "idkeep (to_front i)"
  unfolding to_front_def by (intro kp)

lemma idkeep_bget [kp]: "idkeep (bget dev n)"
  unfolding bget_def by (intro kp)

lemma idkeep_bio [kp]: "idkeep (bread dev n)" "idkeep (bwrite i)" "idkeep (brelse i)"
  by (simp_all only: bread_def bwrite_def brelse_def) (intro kp)+

lemma idkeep_mem [kp]: "idkeep kalloc" "idkeep (kfree p)"
  by (simp_all only: kalloc_def kfree_def) (intro kp; simp)+

lemma idkeep_bfree [kp]: "idkeep (bfree dev b)"
  unfolding bfree_def Let_def by (intro kp)

lemma idkeep_set_inode [kp]:
  assumes "\<And>i. i_dev (f i) = i_dev i \<and> i_inum (f i) = i_inum i \<and> i_ref (f i) = i_ref i \<and> i_op (f i) = i_op i"
  shows "idkeep (set_inode ip f)"
  unfolding set_inode_def by (intro kp) (simp add: ids_def fun_eq_iff assms)

lemma idkeep_iupdate [kp]: "idkeep (xv6fs_iupdate ip)"
  unfolding xv6fs_iupdate_def by (intro kp)

lemma idkeep_parts [kp]: "idkeep (itrunc_direct ip k)" "idkeep (itrunc_entry dev bp j)"
  by (simp_all only: itrunc_direct_def itrunc_entry_def) (intro kp)+

lemma idkeep_itrunc [kp]: "idkeep (xv6fs_itrunc ip)"
  unfolding xv6fs_itrunc_def by (intro kp; simp)

lemma idkeep_readblock [kp]: "idkeep (readblock ip)"
  unfolding readblock_def Let_def by (intro kp; simp)

lemma idkeep_vcall [kp]: "idkeep (vcall x)" "idkeep (deref y)" "idkeep (free_priv p)"
  unfolding vcall_def deref_def free_priv_def by (auto intro!: kp split: option.split fsops.split)

lemma idkeep_ilock: "idkeep (ilock p)" "idkeep (iunlock p)"
  by (simp_all only: ilock_def iunlock_def) (intro kp)+

text \<open>Giving up a reference changes the count of that entry only.\<close>

lemma iput_ids:
  assumes "iput (Some ip) s = Ok (x, s')"
  shows "ids s' j = (if j = ip then (i_dev (itable s ip), i_inum (itable s ip), i_ref (itable s ip) - 1, i_op (itable s ip)) else ids s j)"
proof -
  let ?i = "itable s ip"
  let ?m = "whenK (i_ref ?i = 1 \<and> i_private ?i \<noteq> 0 \<and> i_nlink ?i = 0)
       (bnd (acquiresleep (LInode ip)) (\<lambda>_.
        bnd (vcall (i_op ?i)) (\<lambda>_.
        bnd (xv6fs_itrunc ip) (\<lambda>_.
        bnd (set_inode ip (\<lambda>i. i\<lparr>i_type := 0\<rparr>)) (\<lambda>_.
        bnd (xv6fs_iupdate ip) (\<lambda>_.
        bnd (free_priv (i_private ?i)) (\<lambda>_.
        releasesleep (LInode ip)))))))) :: ('a fs_st_scheme, unit) K"
  have "iput (Some ip) s = bnd ?m (\<lambda>_. set_inode ip (\<lambda>i. i\<lparr>i_ref := i_ref i - 1\<rparr>)) s"
    by (simp add: iput_def deref_def get_inode_def bnd_apply)
  then have "bnd ?m (\<lambda>_. set_inode ip (\<lambda>i. i\<lparr>i_ref := i_ref i - 1\<rparr>)) s = Ok (x, s')" using assms by argo
  then obtain t where m: "?m s = Ok ((), t)" and s': "set_inode ip (\<lambda>i. i\<lparr>i_ref := i_ref i - 1\<rparr>) t = Ok (x, s')"
    by (rule bnd_OkE) simp
  have "idkeep ?m" by (intro kp; simp)
  then have "ids t = ids s" using m by (rule idkeepD)
  then show ?thesis using s' by (auto simp: set_inode_def ids_def fun_eq_iff)
qed


section \<open>Handles\<close>

type_synonym handle = "nat \<times> u32 \<times> u32"

text \<open>
  The calls of the inode layer on a table, with the handles that are out. A call that waits, or panics for want of an entry or
  of memory, makes no step. \<open>iunlockput\<close> is \<open>iunlock\<close> and \<open>iput\<close>.
\<close>

inductive istep :: "'a fs_st_scheme \<times> handle multiset \<Rightarrow> 'a fs_st_scheme \<times> handle multiset \<Rightarrow> bool" where
  get: "iget dev inum s = Ok (ip, s') \<Longrightarrow> istep (s, H) (s', add_mset (ip, dev, inum) H)"
| dup: "(ip, dev, inum) \<in># H \<Longrightarrow> idup (Some ip) s = Ok (ip', s') \<Longrightarrow> istep (s, H) (s', add_mset (ip', dev, inum) H)"
| lock: "(ip, dev, inum) \<in># H \<Longrightarrow> ilock (Some ip) s = Ok (u, s') \<Longrightarrow> istep (s, H) (s', H)"
| unlock: "(ip, dev, inum) \<in># H \<Longrightarrow> iunlock (Some ip) s = Ok (u, s') \<Longrightarrow> istep (s, H) (s', H)"
| trunc: "(ip, dev, inum) \<in># H \<Longrightarrow> xv6fs_itrunc ip s = Ok (u, s') \<Longrightarrow> istep (s, H) (s', H)"
| upd: "(ip, dev, inum) \<in># H \<Longrightarrow> xv6fs_iupdate ip s = Ok (u, s') \<Longrightarrow> istep (s, H) (s', H)"
| put: "(ip, dev, inum) \<in># H \<Longrightarrow> iput (Some ip) s = Ok (u, s') \<Longrightarrow> istep (s, H) (s', H - {#(ip, dev, inum)#})"

inductive_cases istepE: "istep (s, H) (s', H')"

definition ihold :: "handle multiset \<Rightarrow> nat \<Rightarrow> nat" where
  "ihold H ip = size {#h \<in># H. fst h = ip#}"

definition hinv :: "(nat \<Rightarrow> u32 \<times> u32 \<times> int \<times> fsops option) \<Rightarrow> handle multiset \<Rightarrow> bool" where
  "hinv I H \<longleftrightarrow> (\<forall>i. fst (snd (snd (I i))) = int (ihold H i))
     \<and> (\<forall>(ip, dev, inum) \<in># H. ip < NINODE \<and> fst (I ip) = dev \<and> fst (snd (I ip)) = inum \<and> snd (snd (snd (I ip))) = Some Xv6fs_op)
     \<and> (\<forall>(ip, dev, inum) \<in># H. \<forall>(ip', dev', inum') \<in># H. dev' = dev \<longrightarrow> inum' = inum \<longrightarrow> ip' = ip)"

lemma ihold_simps [simp]: "ihold {#} i = 0" "ihold (add_mset h H) i = (if fst h = i then 1 else 0) + ihold H i"
  by (simp_all add: ihold_def)

lemma ihold_pos: "h \<in># H \<Longrightarrow> 0 < ihold H (fst h)"
  by (auto dest!: multi_member_split)

lemma ihold_diff: "h \<in># H \<Longrightarrow> ihold (H - {#h#}) i = ihold H i - (if fst h = i then 1 else 0)"
  by (auto dest!: multi_member_split)

lemma ihold_ex: "0 < ihold H i \<Longrightarrow> \<exists>dev inum. (i, dev, inum) \<in># H"
proof (induction H)
  case (add h H)
  then show ?case by (cases h) (auto split: if_splits)
qed simp

lemma hinv_ids: "hinv (ids s) H \<longleftrightarrow> (\<forall>i. i_ref (itable s i) = int (ihold H i))
     \<and> (\<forall>ip dev inum. (ip, dev, inum) \<in># H \<longrightarrow> ip < NINODE \<and> i_dev (itable s ip) = dev \<and> i_inum (itable s ip) = inum \<and> i_op (itable s ip) = Some Xv6fs_op)
     \<and> (\<forall>ip ip' dev inum. (ip, dev, inum) \<in># H \<longrightarrow> (ip', dev, inum) \<in># H \<longrightarrow> ip' = ip)"
  unfolding hinv_def ids_def by fastforce

lemma hinv_get:
  assumes h: "hinv (ids s) H" and g: "iget dev inum s = Ok (ip, s')"
  shows "hinv (ids s') (add_mset (ip, dev, inum) H)"
proof -
  let ?tab = "itable s"
  have ref: "i_ref (?tab i) = int (ihold H i)" for i using h by (simp add: hinv_ids)
  have ent: "a < NINODE \<and> i_dev (?tab a) = d \<and> i_inum (?tab a) = n \<and> i_op (?tab a) = Some Xv6fs_op" if "(a, d, n) \<in># H" for a d n
    using h that unfolding hinv_ids by blast
  have uni: "b = a" if "(a, d, n) \<in># H" "(b, d, n) \<in># H" for a b d n using h that unfolding hinv_ids by blast
  obtain tab where t: "iget_tab dev inum ?tab = Some (ip, tab)" and s': "s' = s\<lparr>itable := tab\<rparr>"
    using g by (auto simp: iget_eq split: option.splits)
  consider (hit) "0 < i_ref (?tab ip)" "i_dev (?tab ip) = dev" "i_inum (?tab ip) = inum" "tab = ?tab(ip := (?tab ip)\<lparr>i_ref := i_ref (?tab ip) + 1\<rparr>)"
    | (new) "\<forall>i < NINODE. \<not> (0 < i_ref (?tab i) \<and> i_dev (?tab i) = dev \<and> i_inum (?tab i) = inum)" "i_ref (?tab ip) = 0" "ip < NINODE"
        "tab = ?tab(ip := (?tab ip)\<lparr>i_dev := dev, i_op := Some Xv6fs_op, i_inum := inum, i_ref := 1, i_private := 0\<rparr>)"
    using t unfolding iget_tab_def by (auto simp: find_upt split: option.splits)
  then show ?thesis
  proof cases
    case hit
    then obtain d n where "(ip, d, n) \<in># H" using ref ihold_ex [of H ip] by auto
    then have m: "(ip, dev, inum) \<in># H" using ent hit by blast
    then have "set_mset (add_mset (ip, dev, inum) H) = set_mset H" by auto
    then show ?thesis using ref ent [of _ _ _] uni s' hit(4) unfolding hinv_ids by auto
  next
    case new
    have no: "(a, dev, inum) \<notin># H" for a
    proof
      assume a: "(a, dev, inum) \<in># H"
      then have "0 < i_ref (?tab a)" using ref ihold_pos by fastforce
      then show False using ent [OF a] new(1) by blast
    qed
    have ne: "(ip, d, n) \<notin># H" for d n using ref [of ip] new(2) ihold_pos by fastforce
    show ?thesis unfolding hinv_ids s' new(4)
      using ref ent uni no ne new by (auto simp: ref)
  qed
qed

lemma hinv_step:
  assumes "istep c c'" and "hinv (ids (fst c)) (snd c)"
  shows "hinv (ids (fst c')) (snd c')"
  using assms
proof (induction rule: istep.induct)
  case (get dev inum s ip s' H)
  then show ?case using hinv_get by simp
next
  case (dup ip dev inum H s ip' s')
  then have "ip' = ip" "s' = s\<lparr>itable := (itable s)(ip := (itable s ip)\<lparr>i_ref := i_ref (itable s ip) + 1\<rparr>)\<rparr>"
    by (auto simp: idup_def deref_def set_inode_def bnd_apply)
  then show ?case using dup by (auto simp: hinv_ids)
next
  case (put ip dev inum H s u s')
  have h: "hinv (ids s) H" using put by simp
  have e: "i_dev (itable s' j) = i_dev (itable s j)" "i_inum (itable s' j) = i_inum (itable s j)" "i_op (itable s' j) = i_op (itable s j)"
      "i_ref (itable s' j) = i_ref (itable s j) - (if j = ip then 1 else 0)" for j
    using iput_ids [OF put(2), of j] by (auto simp: ids_def split: if_splits)
  have "0 < ihold H ip" using ihold_pos [OF put(1)] by simp
  then have "i_ref (itable s' j) = int (ihold (H - {#(ip, dev, inum)#}) j)" for j
    using h e(4) [of j] ihold_diff [OF put(1), of j] by (auto simp: hinv_ids)
  moreover have "x \<in># H" if "x \<in># H - {#(ip, dev, inum)#}" for x using that by (rule in_diffD)
  ultimately show ?case using h unfolding hinv_ids fst_conv snd_conv e(1-3) by blast
qed (auto dest!: idkeepD [rotated] simp: idkeep_ilock idkeep_itrunc idkeep_iupdate)


lemma hinv_steps:
  assumes "istep\<^sup>*\<^sup>* c c'" and "hinv (ids (fst c)) (snd c)"
  shows "hinv (ids (fst c')) (snd c')"
  using assms by (induction rule: rtranclp_induct) (auto intro: hinv_step)

text \<open>C20: a handle to an inode stays good while it is held. Start with a table in which no entry is referenced and let \<open>iget\<close>, \<open>idup\<close>,
  \<open>ilock\<close>, \<open>iunlock\<close>, \<open>iput\<close>, truncation and write-back run in any order on handles that are held. Then the entry of a handle is one of
  the xv6 file system and names the device and inode it was asked for, its count is the number of handles to it, and
  there is no second entry for the same inode; an entry without handles has count 0 and can be given out again.\<close>

theorem handles_valid:
  assumes "\<forall>i. i_ref (itable s0 i) = 0" and "istep\<^sup>*\<^sup>* (s0, {#}) (s, H)"
  shows "(\<forall>(ip, dev, inum) \<in># H. ip < NINODE \<and> i_dev (itable s ip) = dev \<and> i_inum (itable s ip) = inum \<and> i_op (itable s ip) = Some Xv6fs_op
        \<and> (\<forall>(ip', dev', inum') \<in># H. dev' = dev \<and> inum' = inum \<longrightarrow> ip' = ip))
     \<and> (\<forall>ip. i_ref (itable s ip) = int (size {#h \<in># H. fst h = ip#}))"
proof -
  have "hinv (ids s0) {#}" using assms(1) by (simp add: hinv_ids)
  then have "hinv (ids s) H" using hinv_steps [OF assms(2)] by simp
  then show ?thesis unfolding hinv_ids ihold_def by blast
qed

definition hs0 :: fs_st where
  "hs0 = fs0\<lparr>itable := (\<lambda>i. (itable fs0 i)\<lparr>i_ref := 0\<rparr>)\<rparr>"

theorem handles_valid_witness:
  "\<exists>s. istep\<^sup>*\<^sup>* (hs0, {#}) (s, {#(0, 1, 5), (0, 1, 5)#}) \<and> i_ref (itable s 0) = 2 \<and> i_inum (itable s 0) = 5"
proof -
  have r: "\<forall>i. i_ref (itable hs0 i) = 0" by (simp add: hs0_def)
  have n: "[0..<NINODE] = 0 # [1..<NINODE]" by (simp add: NINODE_def upt_rec)
  have "find (\<lambda>i. 0 < i_ref (itable hs0 i) \<and> i_dev (itable hs0 i) = 1 \<and> i_inum (itable hs0 i) = 5) [0..<NINODE] = None"
    using r by (simp add: find_None_iff)
  moreover have "find (\<lambda>i. i_ref (itable hs0 i) = 0) [0..<NINODE] = Some 0" using r n by simp
  ultimately obtain s1 where 1: "iget 1 5 hs0 = Ok (0, s1)" "0 < i_ref (itable s1 0)" "i_dev (itable s1 0) = 1" "i_inum (itable s1 0) = 5"
    by (simp add: iget_eq iget_tab_def)
  then have "find (\<lambda>i. 0 < i_ref (itable s1 i) \<and> i_dev (itable s1 i) = 1 \<and> i_inum (itable s1 i) = 5) [0..<NINODE] = Some 0" using n by simp
  then obtain s2 where 2: "iget 1 5 s1 = Ok (0, s2)" by (simp add: iget_eq iget_tab_def)
  have "istep\<^sup>*\<^sup>* (hs0, {#}) (s2, {#(0, 1, 5), (0, 1, 5)#})"
    using istep.get [OF 1(1), of "{#}"] istep.get [OF 2, of "{#(0, 1, 5)#}"] by (meson rtranclp.rtrancl_into_rtrancl rtranclp.rtrancl_refl)
  moreover from handles_valid [OF r this] have "i_ref (itable s2 0) = 2" "i_inum (itable s2 0) = 5" by auto
  ultimately show ?thesis by blast
qed

end
