(* ===== verification/Spec2Isabelle.thy ===== *)
theory Spec2Isabelle
  imports Trap Fsspec Vmspec Charspec Dirs Uprogs Grep Shspec Umalloc Progspec Handles
begin

text \<open>
  \<^bold>\<open>xv6 with a VFS layer.\<close> The program is a RISC-V teaching kernel written in C, whose file system sits behind a virtual file
  system layer, together with the programs that run on it. Its parts build on each other as follows. The spin locks guard every
  table of the kernel. The page allocator hands out pages of physical memory to the page tables, the pipes and the private data of
  inodes. Processes own an address space and a table of open files. System calls read the memory of the process and go to
  the process table or, through the file table and the operations stored in each inode, to the xv6 file system. The file system
  keeps its blocks in the buffer cache, which the disk driver fills. Console, pipe and disk move bytes through ring buffers
  between an interrupt handler and a process. Shell, grep and the other user programs see all this only through system calls.

  \<^bold>\<open>How a routine of the kernel is modelled.\<close> A C function is a function in the monad \<open>('s, 'a) K\<close> of \<open>Prelude\<close>: it takes a state
  and ends with a value and a new state, in a panic with the state at that point, in a fault (an access outside of an object), or
  blocked (the hart gives up the processor in \<open>swtch\<close>, or spins on a lock it will not get). The state is a record that grows with
  the components: \<open>cpu_st\<close> (harts and locks), \<open>kmem_st\<close> (memory and free list), the page table and process states, \<open>bio_st\<close>,
  \<open>fs_st\<close>, the VFS, console, pipe and file states, up to \<open>trap_st\<close>. Each record names the globals of the C files it models.
  Memory is a function from 64-bit addresses to bytes where the code depends on the layout (page tables, free list, user
  memory, disk blocks) and a table of records where it does not (processes, inodes, files, buffers). Integers have the width
  they have in C. Loops are structural recursions, recursions with a measure, or \<open>untilK\<close> with the bound that
  the data gives (the number of entries of a table, the bytes left to copy); where the code may not stop, not returning is a value.

  \<^bold>\<open>How a user program is modelled.\<close> A program is a function in the monad \<open>('s, 'a) U\<close> of \<open>Ulib\<close>. Its state holds the answers that
  the kernel is going to give to its system calls and a log of the calls made. A run returns, exits, faults, or waits when the
  answers are used up. All theorems hold for every list of answers, so they do not depend on how the kernel schedules the
  program or splits its input. A loop that reads until the end of its input can go round at most once for each answer left; that
  is the bound \<open>uwhile\<close> takes. \<open>fork\<close> returns one of its two values, so a run follows one process.

  \<^bold>\<open>The theories of the kernel.\<close>
  \<^item> \<open>Prelude\<close>: the monad, its rules (\<open>runs\<close>), loops, loads and stores in little endian, lemmas on lists and words.
  \<^item> \<open>CString\<close> (\<open>kernel/string.c\<close>): memory and string routines. Shown: \<open>memmove\<close> is right for overlapping ranges, the order that
    \<open>strncmp\<close> decides, what \<open>strncpy\<close> and \<open>safestrcpy\<close> leave behind, all within bounds.
  \<^item> \<open>Spinlock\<close> (\<open>spinlock.c\<close>): nesting of \<open>push_off\<close> and \<open>pop_off\<close>, and a lock taken by several harts as a step relation. Shown:
    mutual exclusion and progress in every interleaving, and that nesting restores the interrupt bit.
  \<^item> \<open>Kalloc\<close> (\<open>kalloc.c\<close>): the free list threaded through the free pages. Shown: it refines a list of pages.
  \<^item> \<open>Vm\<close> (\<open>vm.c\<close>, \<open>riscv.h\<close>) has the routines on page tables; \<open>Pagetable\<close> abstracts a three-level table to a map from virtual pages, \<open>Uvm\<close>
    and \<open>Uspace\<close> an address space to the bytes the process sees, and \<open>Vmspec\<close> has the theorems: mapping, growing, copying and
    freeing an address space, copies between kernel and user, and that no page is lost or used twice on any path.
  \<^item> \<open>Proc\<close> (\<open>proc.c\<close>) and \<open>Sleeplock\<close> (\<open>sleeplock.c\<close>): the process table, \<open>fork\<close>, \<open>exit\<close>, \<open>wait\<close>, sleeping, waking and scheduling.
  \<^item> \<open>Bio\<close> (\<open>fs/xv6fs/bio.c\<close>): the buffer cache with its list in memory; contents and order of recycling.
  \<^item> \<open>Xv6fs\<close> (\<open>fs/xv6fs/fs.c\<close>) has the block, inode and content routines; \<open>Fsblock\<close>, \<open>Fsfile\<close> and \<open>Fsinode\<close> relate bitmap, block map and
    inode to sets of blocks and a sequence of bytes, and \<open>Fsspec\<close> has the theorems on the cache, on allocating, reading, writing and truncating.
  \<^item> \<open>Vfs\<close> (\<open>fs/vfs.c\<close>, the directory part of \<open>fs.c\<close>): inode table, directories, path walk. \<open>Dirs\<close> shows that a directory is a map from
    names, that lookup and link read and update that map, and what a path is split into. \<open>Handles\<close> shows that a reference to an inode
    stays good while it is held, for any order of the calls that take and give up references.
  \<^item> \<open>Fileops\<close> (file table of \<open>vfs.c\<close>, \<open>pipe.c\<close>), \<open>Console\<close> (\<open>uart.c\<close>, \<open>printf.c\<close>, \<open>console.c\<close>), \<open>Virtio\<close> (\<open>virtio_disk.c\<close>).
  \<^item> \<open>Ring\<close> is a ring buffer with free-running counters read as a queue, used for the buffers of console, UART and pipe in
    \<open>Chardev\<close>; \<open>Charspec\<close> shows what writers, readers and the line editor see.
  \<^item> \<open>Sysfile\<close> (\<open>fs/sysfile.c\<close>, \<open>fs/exec.c\<close>), \<open>Syscall\<close> (\<open>syscall.c\<close>, \<open>sysproc.c\<close>), \<open>Trap\<close> (\<open>trap.c\<close>, \<open>plic.c\<close>, \<open>start.c\<close>, \<open>main.c\<close>): the
    handlers up to the entry points, composed from the components above.

  \<^bold>\<open>The theories of the user programs.\<close>
  \<^item> \<open>Ulib\<close> (\<open>user/ulib.c\<close>, \<open>user/printf.c\<close>, \<open>user/user.h\<close>): the monad and the library.
  \<^item> \<open>Uprogs\<close>: \<open>cat\<close>, \<open>wc\<close>, \<open>echo\<close>, \<open>kill\<close>, \<open>ln\<close>, \<open>mkdir\<close>, \<open>rm\<close>, \<open>zombie\<close>, \<open>ls\<close>, \<open>init\<close>, \<open>forktest\<close> and \<open>stressfs\<close>.
    \<open>Progspec\<close> gives the text that \<open>printf\<close> prints, shows that \<open>atoi\<close> reads back what \<open>printf\<close> prints, and what \<open>wc\<close> counts.
  \<^item> \<open>Grep\<close> (\<open>user/grep.c\<close>): the matcher decides the language of the pattern, and the program prints exactly the matching lines
    however its input is cut into reads.
  \<^item> \<open>Sh\<close> (\<open>user/sh.c\<close>) is the shell with its tree of commands in memory; \<open>Shspec\<close> has a lexer and a grammar, and shows that a line is parsed
    in place to the tree of its phrase and run as the calls of that phrase.
  \<^item> \<open>Umalloc\<close> (\<open>user/umalloc.c\<close>): the allocator over its circular list. Its searches are partial functions; that they return is shown.

  \<^bold>\<open>Interfaces.\<close> \<open>page_alloc\<close> in \<open>Kalloc\<close> is the contract of the page allocator (\<open>kalloc\<close> and \<open>kfree\<close> against a list of pages),
  \<open>block_store\<close> in \<open>Bio\<close> that of the buffer cache (\<open>bread\<close>, \<open>bwrite\<close> and \<open>brelse\<close> against a view of the disk). Each is
  interpreted on the routines of the kernel, and what their users rely on is derived from the laws.

  \<^bold>\<open>Witnesses.\<close> A theorem with hypotheses is applied at a concrete state: \<open>fs0\<close> (a small disk with a file and a directory),
  \<open>vm0\<close> (an address space), \<open>cs0\<close> and \<open>ps0\<close> (console and pipe), \<open>ds0\<close> (a directory), \<open>us0\<close>, \<open>ws0\<close>, \<open>shs0\<close> and \<open>um0\<close> (user programs), \<open>hs0\<close> (an empty inode table).

  \<^bold>\<open>Bounds.\<close> The sizes are those of \<open>param.h\<close> and \<open>fs.h\<close>. Theorems on address spaces are for addresses below \<open>MAXVA\<close>, those on files for
  offsets within \<open>MAXFILE\<close> blocks. \<open>malloc\<close> is shown for heaps below \<open>2 ^ 36\<close> bytes, where the 32-bit sizes of merged blocks cannot
  overflow, and for requests that \<open>sbrk\<close> can take as an \<open>int\<close>. The shell's lines have fewer than ten words in each command.

  \<^bold>\<open>Not modelled.\<close>
  \<^item> Assembly (\<open>entry.S\<close>, \<open>kernelvec.S\<close>, \<open>swtch.S\<close>, \<open>trampoline.S\<close>, \<open>initcode.S\<close>): saving and restoring registers has no counterpart in the
    state of the model. A context switch is the outcome \<open>blocked\<close>.
  \<^item> The devices behind the registers of UART, PLIC and virtio: their answers are inputs of the state.
  \<^item> Caches and memory order: the fences of the lock and of \<open>satp\<close> have no effect. Harts interleave only in \<open>Spinlock\<close>.
  \<^item> \<open>usertests.c\<close> and \<open>grind.c\<close>, which are scripts of system calls that test the kernel, and \<open>mkfs.c\<close>, which runs on the host.
\<close>

end
